(* ===== verification/Prelude.thy ===== *)
theory Prelude
  imports Main "HOL-Library.Word" "HOL-Library.Monad_Syntax"
begin

text \<open>
  Shared ground of the development: the machine-integer types of the C code, the theorem
  collections the component theories extend, alignment of addresses, and the few lemmas on
  64-bit words that several components need.

  Conventions.  A C function that may dereference a null pointer, read past the end of an
  object or fail to return is modelled with result type \<open>_ option\<close>: \<open>None\<close> is that outcome,
  and \<open>Some\<close> carries the value the C function returns together with the new kernel state.
  Everything the code reports as an error is a value inside \<open>Some\<close>.
\<close>

unbundle bit_operations_syntax

section \<open>C integer types\<close>

type_synonym u8 = "8 word"
type_synonym u16 = "16 word"
type_synonym u32 = "32 word"
type_synonym u64 = "64 word"

text \<open>Pointers are 64-bit addresses; the null pointer is address 0.\<close>

type_synonym addr = "64 word"

section \<open>Theorem collections\<close>

named_theorems frame_simps \<open>what an operation leaves unchanged\<close>
named_theorems mem_simps \<open>reads of memory after writes\<close>

section \<open>Options as outcomes\<close>

lemma bind_SomeE:
  assumes "Option.bind m f = Some y"
  obtains x where "m = Some x" and "f x = Some y"
  using assms by (cases m) auto

lemma bind_prod_SomeE:
  assumes "Option.bind m (\<lambda>(a, b). f a b) = Some y"
  obtains a b where "m = Some (a, b)" and "f a b = Some y"
  using assms by (cases m) auto

section \<open>Words as numbers\<close>

lemma unat_lt_64 [simp]: "unat (x :: u64) < 18446744073709551616"
  using unsigned_less [of x, where ?'a = nat] by simp

lemma word64_eqI: "unat (x :: u64) = unat y \<Longrightarrow> x = y"
  by (rule word_unat_eq_iff [THEN iffD2])

lemma unat_add_no_wrap:
  "unat (x :: u64) + unat y < 18446744073709551616 \<Longrightarrow> unat (x + y) = unat x + unat y"
  by (simp add: unat_word_ariths)

lemma unat_sub64:
  "unat (b - a :: u64) = (unat b + 18446744073709551616 - unat a) mod 18446744073709551616"
proof (cases "a \<le> b")
  case True
  then have le: "unat a \<le> unat b" by (simp add: word_le_nat_alt)
  then have "unat b + 18446744073709551616 - unat a
      = unat b - unat a + 18446744073709551616" by simp
  moreover have "unat b - unat a < 18446744073709551616"
    by (rule le_less_trans [OF diff_le_self unat_lt_64])
  moreover have "unat (b - a) = unat b - unat a" using True by (rule unat_sub)
  ultimately show ?thesis by (simp only: mod_add_self2 mod_less)
next
  case False
  then have lt: "unat b < unat a" by (simp add: word_le_nat_alt)
  then have "unat b + 18446744073709551616 - unat a < 18446744073709551616"
    using unat_lt_64 [of a] by linarith
  moreover have "unat (b - a) = unat b + 18446744073709551616 - unat a"
    using lt unat_sub_if' [of b a] by simp
  ultimately show ?thesis by (simp only: mod_less)
qed

lemma unat_of_nat64: "n < 18446744073709551616 \<Longrightarrow> unat (of_nat n :: u64) = n"
  by (simp add: unat_of_nat)

lemma of_nat_less_word64:
  "n < 18446744073709551616 \<Longrightarrow> (of_nat n :: u64) < w \<longleftrightarrow> n < unat w"
  by (simp add: word_less_nat_alt unat_of_nat64)

section \<open>Alignment\<close>

definition aligned :: "nat \<Rightarrow> u64 \<Rightarrow> bool" where
  "aligned n a \<longleftrightarrow> unat a mod n = 0"

lemma aligned_0 [simp]: "aligned n 0"
  by (simp add: aligned_def)

lemma aligned_add:
  assumes "n dvd 18446744073709551616" "aligned n a" "aligned n b"
  shows "aligned n (a + b)"
proof -
  have "n dvd unat a + unat b"
    using assms(2,3) by (auto simp: aligned_def mod_eq_0_iff_dvd)
  then have "n dvd (unat a + unat b) mod 18446744073709551616"
    using assms(1) by (simp add: dvd_mod)
  then show ?thesis
    by (simp add: aligned_def unat_word_ariths mod_eq_0_iff_dvd)
qed

lemma aligned_sub:
  assumes "n dvd 18446744073709551616" "aligned n a" "aligned n b"
  shows "aligned n (b - a)"
proof -
  have "n dvd unat b + 18446744073709551616 - unat a"
    using assms by (auto simp: aligned_def mod_eq_0_iff_dvd intro!: dvd_diff_nat)
  then show ?thesis
    using assms(1) unfolding aligned_def unat_sub64 mod_eq_0_iff_dvd by (simp add: dvd_mod)
qed

lemma aligned_nonzero_ge: "aligned n d \<Longrightarrow> d \<noteq> 0 \<Longrightarrow> n \<le> unat d"
  using dvd_imp_le [of n "unat d"]
  by (auto simp: aligned_def mod_eq_0_iff_dvd unat_gt_0 [symmetric] simp del: unat_gt_0)

lemma aligned_of_nat_mult:
  assumes "n * k < 18446744073709551616"
  shows "aligned n (of_nat (n * k))"
  using assms by (simp add: aligned_def unat_of_nat64 del: of_nat_mult)

lemma aligned_weaken: "k dvd n \<Longrightarrow> aligned n a \<Longrightarrow> aligned k a"
  by (auto simp: aligned_def mod_eq_0_iff_dvd dvd_trans)

text \<open>Rounding an address down to its page, as the code writes it: \<open>a & ~4095\<close>.\<close>

definition page_of :: "addr \<Rightarrow> addr" where
  "page_of a = a AND NOT 4095"

lemma unat_and_4095: "unat (a AND 4095 :: u64) = unat a mod 4096"
proof -
  have "a AND 4095 = take_bit 12 a"
    by (simp add: take_bit_eq_mask mask_eq_exp_minus_1)
  then have "unat (a AND 4095) = take_bit 12 (unat a)"
    by (simp only: unsigned_take_bit_eq)
  then show ?thesis by (simp add: take_bit_eq_mod)
qed

lemma and_4095_split: "(a AND NOT 4095) + (a AND 4095 :: u64) = a"
proof -
  have "(a AND NOT 4095) + (a AND 4095) = (a AND NOT 4095) OR (a AND 4095)"
    by (rule disjunctive_add_eq_or) (rule bit_word_eqI, auto simp: bit_simps)
  also have "\<dots> = a"
    by (rule bit_word_eqI) (auto simp: bit_simps)
  finally show ?thesis .
qed

lemma page_of_eq: "page_of a = a - (a AND 4095)"
  using and_4095_split [of a] unfolding page_of_def by (metis add_diff_cancel_right')

lemma unat_page_of: "unat (page_of a) = unat a - unat a mod 4096"
proof -
  have "a AND 4095 \<le> a" by (rule word_and_le2)
  then show ?thesis unfolding page_of_eq by (simp add: unat_sub unat_and_4095)
qed

lemma aligned_page_of [simp]: "aligned 4096 (page_of a)"
  by (simp add: aligned_def unat_page_of minus_mod_eq_mult_div)

lemma page_of_aligned: "aligned 4096 p \<Longrightarrow> page_of p = p"
  by (rule word64_eqI) (simp add: aligned_def unat_page_of)

lemma page_of_iff:
  assumes "aligned 4096 p"
  shows "a - p < 4096 \<longleftrightarrow> page_of a = p"
proof
  assume "page_of a = p"
  then have "a - p = a AND 4095"
    using and_4095_split [of a] unfolding page_of_def by (metis add_diff_cancel_left')
  then show "a - p < 4096" by (simp add: word_less_nat_alt unat_and_4095)
next
  assume lt: "a - p < 4096"
  define d where "d = unat (a - p)"
  have d: "d < 4096" using lt by (simp add: d_def word_less_nat_alt)
  obtain k where k: "unat p = 4096 * k"
    using assms by (auto simp: aligned_def mod_eq_0_iff_dvd)
  have "k < 4503599627370496"
    using unat_lt_64 [of p] unfolding k by linarith
  with d have nw: "unat p + d < 18446744073709551616"
    unfolding k by linarith
  have "unat (p + (a - p)) = unat p + d"
    using nw unfolding d_def by (rule unat_add_no_wrap)
  then have "unat a = 4096 * k + d" by (simp add: k)
  with d have "unat (page_of a) = unat p"
    unfolding unat_page_of k by simp
  then show "page_of a = p" by (rule word64_eqI)
qed

end
