(* ===== verification/Kern_Types.thy ===== *)
theory Kern_Types
  imports Prelude
begin

text \<open>
  The constants and scalar types of \<^verbatim>\<open>kern/kern_types.h\<close> and \<^verbatim>\<open>vm/vm_types.h\<close>.
  \<open>kern_return_t\<close> is an \<open>int\<close> with five macro values; the model has one constructor per
  macro and \<open>kr_code\<close> gives the number the C code returns.
\<close>

datatype kern_return =
    KERN_SUCCESS
  | KERN_INVALID_ARGUMENT
  | KERN_NO_SPACE
  | KERN_NOT_SUPPORTED
  | KERN_FAILURE

fun kr_code :: "kern_return \<Rightarrow> u32" where
  "kr_code KERN_SUCCESS = 0"
| "kr_code KERN_INVALID_ARGUMENT = 4"
| "kr_code KERN_NO_SPACE = 3"
| "kr_code KERN_NOT_SUPPORTED = 46"
| "kr_code KERN_FAILURE = 5"

lemma kr_code_inj: "kr_code a = kr_code b \<Longrightarrow> a = b"
  by (cases a; cases b) simp_all

text \<open>The null constants of \<^verbatim>\<open>kern_types.h\<close> are all the null pointer or the port name 0.\<close>

definition TASK_NULL :: addr where [simp]: "TASK_NULL = 0"
definition THREAD_NULL :: addr where [simp]: "THREAD_NULL = 0"
definition IPC_PORT_NULL :: addr where [simp]: "IPC_PORT_NULL = 0"
definition VM_MAP_NULL :: addr where [simp]: "VM_MAP_NULL = 0"
definition MACH_PORT_NULL :: u64 where [simp]: "MACH_PORT_NULL = 0"
definition IPC_SPACE_NULL :: addr where [simp]: "IPC_SPACE_NULL = 0"

text \<open>\<open>vm_prot_t\<close> is an \<open>int\<close> used as a bit set.\<close>

definition VM_PROT_NONE :: u32 where [simp]: "VM_PROT_NONE = 0"
definition VM_PROT_READ :: u32 where [simp]: "VM_PROT_READ = 1"
definition VM_PROT_WRITE :: u32 where [simp]: "VM_PROT_WRITE = 2"
definition VM_PROT_EXECUTE :: u32 where [simp]: "VM_PROT_EXECUTE = 4"
definition VM_PROT_ALL :: u32 where
  "VM_PROT_ALL = (VM_PROT_READ OR VM_PROT_WRITE) OR VM_PROT_EXECUTE"
definition VM_PROT_DEFAULT :: u32 where
  "VM_PROT_DEFAULT = VM_PROT_READ OR VM_PROT_WRITE"

text \<open>The first page size of \<^verbatim>\<open>vm/pmm.h\<close>; every component that walks pages uses it.\<close>

definition PMM_PAGE_SIZE :: u64 where [simp]: "PMM_PAGE_SIZE = 4096"
definition PMM_PAGE_SHIFT :: nat where [simp]: "PMM_PAGE_SHIFT = 12"
definition PMM_NULL :: u64 where [simp]: "PMM_NULL = 0"

end
