(* ===== verification/Memory.thy ===== *)
theory Memory
  imports Kern_Types
begin

text \<open>
  The memory the kernel addresses: bytes, and the multi-byte loads and stores of the C code.

  Memory is a function from 64-bit virtual addresses to bytes.  All raw kernel memory is reached
  through Limine's higher-half direct map, so \<open>PHYS_TO_VIRT\<close> turns a physical address into the
  key under which its bytes are found.  Multi-byte loads and stores are little-endian, as on
  x86-64.  I/O ports are a log of what was written and a stream of what successive reads return.
  The record \<open>machine\<close> is the bottom of the kernel state: each component theory
  extends it with its own variables.
\<close>

type_synonym memory = "addr \<Rightarrow> u8"

record machine =
  mem :: memory
  hhdm_offset :: u64
  console :: string
  port_outs :: "(u16 \<times> u32) list"
  port_ins :: "nat \<Rightarrow> u32"

text \<open>\<^verbatim>\<open>PHYS_TO_VIRT\<close> and \<^verbatim>\<open>VIRT_TO_PHYS\<close> of \<^verbatim>\<open>hal/x86_64/pmap.h\<close>.\<close>

definition PHYS_TO_VIRT :: "'a machine_scheme \<Rightarrow> u64 \<Rightarrow> addr" where
  "PHYS_TO_VIRT s pa = pa + hhdm_offset s"

definition VIRT_TO_PHYS :: "'a machine_scheme \<Rightarrow> addr \<Rightarrow> u64" where
  "VIRT_TO_PHYS s va = va - hhdm_offset s"

lemma VIRT_TO_PHYS_PHYS_TO_VIRT [simp]: "VIRT_TO_PHYS s (PHYS_TO_VIRT s pa) = pa"
  by (simp add: VIRT_TO_PHYS_def PHYS_TO_VIRT_def)

lemma PHYS_TO_VIRT_eq_iff [simp]: "PHYS_TO_VIRT s a = PHYS_TO_VIRT s b \<longleftrightarrow> a = b"
  by (simp add: PHYS_TO_VIRT_def)

section \<open>Loads and stores\<close>

fun load_bytes :: "memory \<Rightarrow> addr \<Rightarrow> nat \<Rightarrow> u64" where
  "load_bytes m a 0 = 0"
| "load_bytes m a (Suc n) = ucast (m a) OR push_bit 8 (load_bytes m (a + 1) n)"

fun store_bytes :: "memory \<Rightarrow> addr \<Rightarrow> nat \<Rightarrow> u64 \<Rightarrow> memory" where
  "store_bytes m a 0 v = m"
| "store_bytes m a (Suc n) v = store_bytes (m(a := ucast v)) (a + 1) n (drop_bit 8 v)"

definition load64 :: "memory \<Rightarrow> addr \<Rightarrow> u64" where
  "load64 m a = load_bytes m a 8"

definition load32 :: "memory \<Rightarrow> addr \<Rightarrow> u32" where
  "load32 m a = ucast (load_bytes m a 4)"

definition store64 :: "memory \<Rightarrow> addr \<Rightarrow> u64 \<Rightarrow> memory" where
  "store64 m a v = store_bytes m a 8 v"

definition store32 :: "memory \<Rightarrow> addr \<Rightarrow> u32 \<Rightarrow> memory" where
  "store32 m a v = store_bytes m a 4 (ucast v)"

lemma bit_load_bytes:
  "n \<le> 8 \<Longrightarrow> bit (load_bytes m a n) i \<longleftrightarrow>
     i < 8 * n \<and> bit (m (a + of_nat (i div 8))) (i mod 8)"
proof (induction n arbitrary: a i)
  case 0
  then show ?case by simp
next
  case (Suc n)
  have IH: "bit (load_bytes m (a + 1) n) j \<longleftrightarrow>
      j < 8 * n \<and> bit (m (a + 1 + of_nat (j div 8))) (j mod 8)" for j
    using Suc by simp
  show ?case
  proof (cases "i < 8")
    case True
    then show ?thesis by (simp add: bit_or_iff bit_push_bit_iff bit_ucast_iff)
  next
    case False
    then obtain j where j: "i = j + 8" using le_Suc_ex [of 8 i] by (auto simp: add.commute)
    have nb: "\<not> bit (m a) i" using False bit_imp_le_length [of "m a" i] by auto
    have q: "i div 8 = Suc (j div 8)" unfolding j by (rule div_add_self2 [THEN trans]) simp_all
    have "a + of_nat (i div 8) = a + 1 + of_nat (j div 8)" "i mod 8 = j mod 8"
      unfolding q by (simp_all add: j algebra_simps)
    moreover have "i < 8 * Suc n \<longleftrightarrow> j < 8 * n" by (simp add: j)
    moreover have "j < 8 * n \<Longrightarrow> i < 64" using Suc.prems by (simp add: j)
    moreover have "8 \<le> i" "i - 8 = j" by (simp_all add: j)
    ultimately show ?thesis
      using nb by (auto simp: bit_or_iff bit_push_bit_iff bit_ucast_iff IH add.assoc)
  qed
qed

lemma load_bytes_cong:
  "(\<And>k. k < n \<Longrightarrow> m (a + of_nat k) = m' (a + of_nat k)) \<Longrightarrow> load_bytes m a n = load_bytes m' a n"
proof (induction n arbitrary: a)
  case 0
  then show ?case by simp
next
  case (Suc n)
  have "m a = m' a" using Suc.prems [of 0] by simp
  moreover have "load_bytes m (a + 1) n = load_bytes m' (a + 1) n"
  proof (rule Suc.IH)
    fix k assume "k < n"
    then show "m (a + 1 + of_nat k) = m' (a + 1 + of_nat k)"
      using Suc.prems [of "Suc k"] by (simp add: algebra_simps)
  qed
  ultimately show ?case by simp
qed

lemma store_bytes_apply:
  "n \<le> 8 \<Longrightarrow> store_bytes m a n v b =
     (if unat (b - a) < n then ucast (drop_bit (8 * unat (b - a)) v) else m b)"
proof (induction n arbitrary: m a v)
  case 0
  then show ?case by simp
next
  case (Suc n)
  show ?case
  proof (cases "b = a")
    case True
    have "unat (-1 :: u64) = 18446744073709551615"
      by (simp add: unsigned_minus_1_eq_mask mask_eq_exp_minus_1)
    with True Suc show ?thesis by simp
  next
    case False
    then have "b - a \<noteq> 0" by simp
    then have "unat (b - a) = Suc (unat (b - (a + 1)))"
      using unat_minus_one [of "b - a"] unat_gt_0 [of "b - a"] by (simp add: algebra_simps)
    with False Suc show ?thesis by (simp add: drop_bit_drop_bit add.commute)
  qed
qed

lemma load_store_same:
  "n \<le> 8 \<Longrightarrow> load_bytes (store_bytes m a n v) a n = take_bit (8 * n) v"
proof (rule bit_word_eqI)
  fix i assume n: "n \<le> 8" and "i < LENGTH(64)"
  then have i: "i < 64" by simp
  show "bit (load_bytes (store_bytes m a n v) a n) i \<longleftrightarrow> bit (take_bit (8 * n) v) i"
  proof (cases "i < 8 * n")
    case True
    have "unat (of_nat (i div 8) :: u64) = i div 8"
      using i by (simp add: unat_of_nat64)
    moreover have "i div 8 < n" using True by (simp add: div_less_iff_less_mult mult.commute)
    ultimately show ?thesis
      using n True by (simp add: bit_load_bytes store_bytes_apply bit_ucast_iff bit_drop_bit_eq
        bit_take_bit_iff)
  next
    case False
    with n show ?thesis by (simp add: bit_load_bytes bit_take_bit_iff)
  qed
qed

lemma load64_store64_same [mem_simps]: "load64 (store64 m a v) a = v"
  by (simp add: load64_def store64_def load_store_same take_bit_word_eq_self)

lemma load32_store32_same [mem_simps]: "load32 (store32 m a v) a = v"
proof -
  have "ucast (take_bit 32 (ucast v :: u64)) = v"
    by (rule bit_word_eqI) (simp add: bit_ucast_iff bit_take_bit_iff)
  then show ?thesis by (simp add: load32_def store32_def load_store_same)
qed

section \<open>Disjoint accesses\<close>

text \<open>\<open>n\<close> bytes at \<open>a\<close> and \<open>k\<close> bytes at \<open>b\<close> do not overlap (also around address 0).\<close>

definition disjoint :: "addr \<Rightarrow> nat \<Rightarrow> addr \<Rightarrow> nat \<Rightarrow> bool" where
  "disjoint a n b k \<longleftrightarrow> n \<le> unat (b - a) \<and> k \<le> unat (a - b)"

lemma disjoint_byte:
  assumes "disjoint a n b k" "j < k" "a \<noteq> b"
  shows "n \<le> unat (b + of_nat j - a)"
proof -
  define D where "D = unat (b - a)"
  have D: "n \<le> D" using assms(1) by (simp add: disjoint_def D_def)
  have "unat (a - b) = 18446744073709551616 - D"
  proof -
    have "a - b = - (b - a)" by simp
    then show ?thesis
      unfolding D_def using assms(3) unat_sub_if' [of 0 "b - a"] by (simp add: unat_gt_0)
  qed
  then have "D + j < 18446744073709551616"
    using assms(1,2) unat_lt_64 [of "b - a"] unfolding disjoint_def D_def by linarith
  moreover from this have "unat (of_nat j :: u64) = j" by (simp add: unat_of_nat64)
  ultimately have "unat ((b - a) + of_nat j) = D + j"
    unfolding D_def by (subst unat_add_no_wrap) auto
  with D show ?thesis by (simp add: algebra_simps)
qed

lemma load_store_disjoint:
  assumes "n \<le> 8" "k \<le> 8" "disjoint a n b k" "a \<noteq> b"
  shows "load_bytes (store_bytes m a n v) b k = load_bytes m b k"
proof (rule load_bytes_cong)
  fix j assume "j < k"
  then have "\<not> unat (b + of_nat j - a) < n"
    using disjoint_byte [OF assms(3) _ assms(4)] by (simp add: not_less)
  then show "store_bytes m a n v (b + of_nat j) = m (b + of_nat j)"
    using assms(1) by (simp add: store_bytes_apply)
qed

lemma aligned_disjoint:
  assumes "aligned 8 a" "aligned 8 b" "a \<noteq> b"
  shows "disjoint a 8 b 8"
proof -
  have "aligned 8 (b - a)" "aligned 8 (a - b)"
    using assms by (auto intro!: aligned_sub)
  with assms(3) show ?thesis
    by (auto simp: disjoint_def intro!: aligned_nonzero_ge)
qed

lemma load64_store64_other [mem_simps]:
  "aligned 8 a \<Longrightarrow> aligned 8 b \<Longrightarrow> a \<noteq> b \<Longrightarrow> load64 (store64 m a v) b = load64 m b"
  unfolding load64_def store64_def
  by (rule load_store_disjoint) (auto intro: aligned_disjoint)

lemma store64_other_byte: "8 \<le> unat (b - a) \<Longrightarrow> store64 m a v b = m b"
  by (simp add: store64_def store_bytes_apply)

end
