(* ===== verification/Kprintf.thy ===== *)
theory Kprintf
  imports Memory
begin

text \<open>
  \<^verbatim>\<open>libkern/printf.c\<close>: number printing and the format interpreter.

  The kernel prints through \<open>hal_console_putc\<close>, one character at a time; the model collects the
  characters in the state variable \<open>console\<close>, which stands for everything passed to that function.
  Format strings are literals of the kernel, so they are Isabelle strings.  \<open>kvprintf\<close> takes the
  variadic arguments as a list; it is \<open>None\<close> where the C code leaves its inputs: an argument that
  is missing or of the wrong kind, or a format that ends inside a directive (the loop then steps
  over the terminating NUL and reads on).
\<close>

section \<open>Numbers\<close>

text \<open>
  \<open>print_uint\<close> fills \<open>buf\<close> with the digits, least significant first, and then writes them out
  backwards.  \<open>digits_of\<close> is the content of \<open>buf\<close> when the first loop ends.
\<close>

definition digits_lo :: string where "digits_lo = ''0123456789abcdef''"
definition digits_hi :: string where "digits_hi = ''0123456789ABCDEF''"

fun digits_loop :: "string \<Rightarrow> nat \<Rightarrow> nat \<Rightarrow> string \<Rightarrow> string" where
  "digits_loop digits base v buf =
     (if v = 0 \<or> base \<le> 1 then buf
      else digits_loop digits base (v div base) (buf @ [digits ! (v mod base)]))"

declare digits_loop.simps [simp del]

definition print_uint :: "u64 \<Rightarrow> nat \<Rightarrow> bool \<Rightarrow> string" where
  "print_uint val base upper =
     (if val = 0 then ''0''
      else rev (digits_loop (if upper then digits_hi else digits_lo) base (unat val) []))"

definition print_int :: "u64 \<Rightarrow> string" where
  "print_int val =
     (if sint val < 0 then CHR ''-'' # print_uint (- val) 10 False else print_uint val 10 False)"

text \<open>\<open>print_str\<close>: a null pointer prints as \<open>(null)\<close>.\<close>

fun print_str :: "string option \<Rightarrow> string" where
  "print_str None = ''(null)''"
| "print_str (Some s) = s"

section \<open>The format interpreter\<close>

datatype va_arg = VInt u64 | VStr "string option"

text \<open>An \<open>int\<close> argument is the low 32 bits of its slot, sign-extended to \<open>long long\<close>.\<close>

definition sext32 :: "u64 \<Rightarrow> u64" where
  "sext32 w = scast (ucast w :: u32)"

definition zext32 :: "u64 \<Rightarrow> u64" where
  "zext32 w = ucast (ucast w :: u32)"

text \<open>
  The printers of the directives that take one integer argument: after \<open>%\<close> and after \<open>%l\<close> or
  \<open>%ll\<close>.  An unknown letter after \<open>%l\<close> prints nothing and takes no argument.
\<close>

definition conv_int :: "char \<Rightarrow> (u64 \<Rightarrow> string) option" where
  "conv_int f =
     (if f = CHR ''c'' then Some (\<lambda>w. [char_of (unat w)])
      else if f = CHR ''d'' \<or> f = CHR ''i'' then Some (\<lambda>w. print_int (sext32 w))
      else if f = CHR ''u'' then Some (\<lambda>w. print_uint (zext32 w) 10 False)
      else if f = CHR ''x'' then Some (\<lambda>w. print_uint (zext32 w) 16 False)
      else if f = CHR ''X'' then Some (\<lambda>w. print_uint (zext32 w) 16 True)
      else if f = CHR ''p'' then Some (\<lambda>w. ''0x'' @ print_uint w 16 False)
      else None)"

definition conv_long :: "char \<Rightarrow> (u64 \<Rightarrow> string) option" where
  "conv_long f =
     (if f = CHR ''d'' \<or> f = CHR ''i'' then Some print_int
      else if f = CHR ''u'' then Some (\<lambda>w. print_uint w 10 False)
      else if f = CHR ''x'' then Some (\<lambda>w. print_uint w 16 False)
      else None)"

text \<open>
  The \<open>switch\<close> on the characters after a \<open>%\<close>: what to print and where the format goes on.
  \<open>None\<close> is a format that ends before the directive does.
\<close>

datatype fmt_item = DStr | DInt "u64 \<Rightarrow> string" | DLit string

definition long_directive :: "char \<Rightarrow> fmt_item" where
  "long_directive g = (case conv_long g of None \<Rightarrow> DLit [] | Some pr \<Rightarrow> DInt pr)"

fun directive :: "string \<Rightarrow> (fmt_item \<times> string) option" where
  "directive [] = None"
| "directive (f # fmt) =
     (if f = CHR ''s'' then Some (DStr, fmt)
      else if f = CHR ''%'' then Some (DLit [CHR ''%''], fmt)
      else if f = CHR ''l'' then
        (case fmt of
           [] \<Rightarrow> None
         | g # fmt1 \<Rightarrow>
             if g = CHR ''l'' then
               (case fmt1 of [] \<Rightarrow> None | h # fmt2 \<Rightarrow> Some (long_directive h, fmt2))
             else Some (long_directive g, fmt1))
      else
        (case conv_int f of
           None \<Rightarrow> Some (DLit [CHR ''%'', f], fmt)
         | Some pr \<Rightarrow> Some (DInt pr, fmt)))"

lemma directive_shorter: "directive fmt = Some (d, rest) \<Longrightarrow> length rest < length fmt"
  by (cases fmt) (auto split: if_splits list.splits option.splits)

text \<open>\<open>va_arg\<close> takes the next argument from the list.\<close>

fun print_directive :: "fmt_item \<Rightarrow> va_arg list \<Rightarrow> (string \<times> va_arg list) option" where
  "print_directive (DLit out) args = Some (out, args)"
| "print_directive (DInt pr) (VInt w # args) = Some (pr w, args)"
| "print_directive DStr (VStr s # args) = Some (print_str s, args)"
| "print_directive d args = None"

function kvprintf :: "string \<Rightarrow> va_arg list \<Rightarrow> string option" where
  "kvprintf [] args = Some []"
| "kvprintf (c # fmt) args =
     (if c \<noteq> CHR ''%'' then map_option (Cons c) (kvprintf fmt args)
      else case directive fmt of
        None \<Rightarrow> None
      | Some (d, fmt1) \<Rightarrow>
          (case print_directive d args of
             None \<Rightarrow> None
           | Some (out, args1) \<Rightarrow> map_option (append out) (kvprintf fmt1 args1)))"
  by pat_completeness auto
termination
  by (relation "measure (\<lambda>(fmt, args). length fmt)") (auto dest: directive_shorter)

definition kprintf :: "string \<Rightarrow> va_arg list \<Rightarrow> 'a machine_scheme \<Rightarrow> 'a machine_scheme option" where
  "kprintf fmt args s =
     (case kvprintf fmt args of
        None \<Rightarrow> None
      | Some out \<Rightarrow> Some (s\<lparr>console := console s @ out\<rparr>))"

text \<open>The newline that ends the kernel's messages.\<close>

definition nl :: string where [simp]: "nl = [CHR 0x0A]"

lemma kprintf_SomeE:
  assumes "kprintf fmt args s = Some t"
  obtains out where "t = s\<lparr>console := console s @ out\<rparr>"
  using assms by (auto simp: kprintf_def split: option.splits)

section \<open>Printed numbers read back\<close>

text \<open>Reading a number back: the position of each digit in the digit table, in base \<open>base\<close>.\<close>

fun index_of :: "'a \<Rightarrow> 'a list \<Rightarrow> nat" where
  "index_of x [] = 0"
| "index_of x (y # ys) = (if x = y then 0 else Suc (index_of x ys))"

definition parse_uint :: "string \<Rightarrow> nat \<Rightarrow> string \<Rightarrow> nat" where
  "parse_uint digits base = foldl (\<lambda>acc c. acc * base + index_of c digits) 0"

lemma index_of_nth: "distinct xs \<Longrightarrow> i < length xs \<Longrightarrow> index_of (xs ! i) xs = i"
proof (induction xs arbitrary: i)
  case (Cons x xs)
  then show ?case by (cases i) auto
qed simp

lemma digits_loop_append:
  "digits_loop digits base v buf = buf @ digits_loop digits base v []"
proof (induction v arbitrary: buf rule: less_induct)
  case (less v)
  show ?case
  proof (cases "v = 0 \<or> base \<le> 1")
    case True
    then show ?thesis by (simp add: digits_loop.simps)
  next
    case False
    then have "v div base < v" by (simp add: div_less_dividend)
    note IH = less [OF this]
    show ?thesis
      using False by (simp add: digits_loop.simps [of digits base v]
        IH [of "buf @ [digits ! (v mod base)]"] IH [of "[digits ! (v mod base)]"])
  qed
qed

lemma digits_loop_step:
  assumes "v \<noteq> 0" "1 < base"
  shows "digits_loop digits base v [] =
    digits ! (v mod base) # digits_loop digits base (v div base) []"
  using assms digits_loop_append [of digits base "v div base" "[digits ! (v mod base)]"]
  by (subst digits_loop.simps) simp

lemma digits_loop_0 [simp]: "digits_loop digits base 0 buf = buf"
  by (simp add: digits_loop.simps)

lemma parse_uint_snoc:
  "parse_uint digits base (s @ [c]) = parse_uint digits base s * base + index_of c digits"
  by (simp add: parse_uint_def)

lemma parse_digits_loop:
  assumes "distinct digits" "1 < base" "base \<le> length digits"
  shows "parse_uint digits base (rev (digits_loop digits base v [])) = v"
proof (induction v rule: less_induct)
  case (less v)
  show ?case
  proof (cases "v = 0")
    case True
    then show ?thesis by (simp add: parse_uint_def)
  next
    case False
    with assms(2) have "v div base < v" by (simp add: div_less_dividend)
    note IH = less [OF this]
    have "v mod base < length digits"
      using assms(2,3) by (meson less_le_trans mod_less_divisor zero_less_one less_trans)
    with False assms show ?thesis
      by (simp add: digits_loop_step parse_uint_snoc IH index_of_nth)
  qed
qed

lemma length_digits_loop:
  "1 < base \<Longrightarrow> v < 2 ^ k \<Longrightarrow> length (digits_loop digits base v []) \<le> k"
proof (induction k arbitrary: v)
  case 0
  then show ?case by simp
next
  case (Suc k)
  show ?case
  proof (cases "v = 0")
    case False
    have "v div base \<le> v div 2" using Suc.prems(1) by (simp add: div_le_mono2)
    also have "\<dots> < 2 ^ k" using Suc.prems(2) by auto
    finally show ?thesis
      using Suc False by (simp add: digits_loop_step)
  qed simp
qed

lemma digit_tables:
  "distinct digits_lo" "distinct digits_hi" "length digits_lo = 16" "length digits_hi = 16"
  by (simp_all add: digits_lo_def digits_hi_def)

text \<open>
  \<open>print_uint\<close> is correct: reading its output back gives the value, in every base the kernel uses,
  and the 64 bytes of \<open>buf\<close> are enough for every base of at least 2.
\<close>

lemma parse_print_uint:
  assumes "1 < base" "base \<le> 16"
  shows "parse_uint (if upper then digits_hi else digits_lo) base (print_uint v base upper) = unat v"
proof (cases "v = 0")
  case True
  then show ?thesis by (simp add: print_uint_def parse_uint_def digits_lo_def digits_hi_def)
next
  case False
  then show ?thesis
    using assms digit_tables by (auto simp: print_uint_def intro!: parse_digits_loop)
qed

lemma print_uint_fits_buf:
  assumes "1 < base"
  shows "length (print_uint v base upper) \<le> 64"
proof -
  have "unat v < 2 ^ 64" using unat_lt_64 [of v] by simp
  from length_digits_loop [OF assms this] show ?thesis
    by (simp add: print_uint_def)
qed

section \<open>Formats and their arguments\<close>

text \<open>
  The arguments a format takes, in order (\<open>True\<close> for a string); \<open>None\<close> for a format that ends
  inside a directive.
\<close>

function fmt_kinds :: "string \<Rightarrow> bool list option" where
  "fmt_kinds [] = Some []"
| "fmt_kinds (c # fmt) =
     (if c \<noteq> CHR ''%'' then fmt_kinds fmt
      else case directive fmt of
        None \<Rightarrow> None
      | Some (DLit out, fmt1) \<Rightarrow> fmt_kinds fmt1
      | Some (DInt pr, fmt1) \<Rightarrow> map_option (Cons False) (fmt_kinds fmt1)
      | Some (DStr, fmt1) \<Rightarrow> map_option (Cons True) (fmt_kinds fmt1))"
  by pat_completeness auto
termination
  by (relation "measure length") (auto dest: directive_shorter)

fun kind_of :: "va_arg \<Rightarrow> bool" where
  "kind_of (VInt w) = False"
| "kind_of (VStr s) = True"

lemma kinds_Cons:
  assumes "map_option (Cons b) k = Some (map kind_of args)"
  obtains w rest where "args = VInt w # rest" "\<not> b" "k = Some (map kind_of rest)"
  | s rest where "args = VStr s # rest" "b" "k = Some (map kind_of rest)"
proof -
  from assms obtain ks where ks: "k = Some ks" "map kind_of args = b # ks" by auto
  then obtain a rest where "args = a # rest" "kind_of a = b" "map kind_of rest = ks"
    by auto
  then show ?thesis using ks that by (cases a) auto
qed

text \<open>A format whose arguments are present and of the right kinds prints.\<close>

lemma kvprintf_total:
  "fmt_kinds fmt = Some (map kind_of args) \<Longrightarrow> \<exists>out. kvprintf fmt args = Some out"
proof (induction fmt args rule: kvprintf.induct)
  case (1 args)
  then show ?case by simp
next
  case (2 c fmt args)
  show ?case
  proof (cases "c = CHR ''%''")
    case False
    with 2 show ?thesis by auto
  next
    case True
    with "2.prems" obtain d fmt1 where d: "directive fmt = Some (d, fmt1)"
      by (auto split: option.splits)
    show ?thesis
    proof (cases d)
      case DStr
      with "2.prems" True d have "map_option (Cons True) (fmt_kinds fmt1) = Some (map kind_of args)"
        by simp
      then obtain s rest where "args = VStr s # rest" "fmt_kinds fmt1 = Some (map kind_of rest)"
        by (rule kinds_Cons) auto
      with "2.IH" True d DStr show ?thesis by auto
    next
      case (DInt pr)
      with "2.prems" True d have "map_option (Cons False) (fmt_kinds fmt1) = Some (map kind_of args)"
        by simp
      then obtain w rest where "args = VInt w # rest" "fmt_kinds fmt1 = Some (map kind_of rest)"
        by (rule kinds_Cons) auto
      with "2.IH" True d DInt show ?thesis by auto
    next
      case (DLit out)
      with 2 True d show ?thesis by auto
    qed
  qed
qed

lemma kprintf_total:
  assumes "fmt_kinds fmt = Some (map kind_of args)"
  obtains out where "kprintf fmt args s = Some (s\<lparr>console := console s @ out\<rparr>)"
  using kvprintf_total [OF assms] by (auto simp: kprintf_def)

text \<open>What the interpreter does at the end of a directive-less or broken format.\<close>

lemma kvprintf_plain: "CHR ''%'' \<notin> set fmt \<Longrightarrow> kvprintf fmt args = Some fmt"
  by (induction fmt) auto

lemma kvprintf_trailing_percent:
  "CHR ''%'' \<notin> set fmt \<Longrightarrow> kvprintf (fmt @ [CHR ''%'']) args = None"
  by (induction fmt) auto

section \<open>Properties\<close>

text \<open>
  Number printing is correct: in every base from 2 to 16 the printed digits read back as the
  value, and no value needs more than the 64 bytes of the buffer.
\<close>

lemma print_uint_correct:
  assumes "1 < base" "base \<le> 16"
  shows "parse_uint (if upper then digits_hi else digits_lo) base (print_uint v base upper) = unat v \<and>
    length (print_uint v base upper) \<le> 64"
  using parse_print_uint [OF assms] print_uint_fits_buf [OF assms(1)] by simp

lemma print_uint_correct_witness:
  "parse_uint digits_lo 16 (print_uint 0xffff800000000000 16 False) = 0xffff800000000000"
  using print_uint_correct [of 16 False "0xffff800000000000"] by simp

text \<open>
  A format string whose arguments are all present and of the right kinds is printed completely
  and only appends to the console.
\<close>

lemma kprintf_well_formed:
  assumes "fmt_kinds fmt = Some (map kind_of args)"
  shows "\<exists>out. kprintf fmt args s = Some (s\<lparr>console := console s @ out\<rparr>)"
  by (rule kprintf_total [OF assms]) blast

lemma kprintf_well_formed_witness:
  "\<exists>out. kprintf ''%s: %llu at 0x%x'' [VStr (Some ''pmm''), VInt 7, VInt 0xff]
     \<lparr>mem = (\<lambda>_. 0), hhdm_offset = 0, console = [], port_outs = [], port_ins = (\<lambda>_. 0)\<rparr>
   = Some \<lparr>mem = (\<lambda>_. 0), hhdm_offset = 0, console = out, port_outs = [], port_ins = (\<lambda>_. 0)\<rparr>"
proof -
  have "fmt_kinds ''%s: %llu at 0x%x'' = Some (map kind_of [VStr (Some ''pmm''), VInt 7, VInt 0xff])"
    by (simp add: conv_int_def conv_long_def long_directive_def)
  from kprintf_well_formed [OF this, of "\<lparr>mem = (\<lambda>_. 0), hhdm_offset = 0, console = [], port_outs = [], port_ins = (\<lambda>_. 0)\<rparr>"]
  show ?thesis by auto
qed

end
