(* ===== verification/Pmm.thy ===== *)
theory Pmm
  imports Kprintf
begin

text \<open>
  \<^verbatim>\<open>vm/pmm.c\<close>: the bitmap allocator for physical pages.

  The C array \<open>bitmap\<close> (one bit per 4 KB page, 1 = used) is a function from word indices to 64-bit
  words; \<open>bitmap_base\<close> is the pointer the C variable holds.  The array lives in pages the allocator
  never hands out (proved below), so the model keeps its contents apart from \<open>mem\<close>.  Page numbers
  and counters are \<open>size_t\<close>, that is 64-bit words.
\<close>

section \<open>State and bitmap primitives\<close>

record pmm = machine +
  bitmap :: "u64 \<Rightarrow> u64"
  bitmap_base :: addr
  total_pages :: u64
  free_count :: u64

definition BITS_PER_WORD :: u64 where [simp]: "BITS_PER_WORD = 64"
definition PMM_MAX_PAGES :: u64 where [simp]: "PMM_MAX_PAGES = 1048576"
definition PMM_BITMAP_WORDS :: u64 where [simp]: "PMM_BITMAP_WORDS = 16384"
definition PMM_BITMAP_BYTES :: u64 where [simp]: "PMM_BITMAP_BYTES = 131072"

definition WORD_IDX :: "u64 \<Rightarrow> u64" where
  "WORD_IDX page = page div BITS_PER_WORD"

definition BIT_IDX :: "u64 \<Rightarrow> nat" where
  "BIT_IDX page = unat (page mod BITS_PER_WORD)"

definition bitmap_set :: "u64 \<Rightarrow> 'a pmm_scheme \<Rightarrow> 'a pmm_scheme" where
  "bitmap_set page s =
     s\<lparr>bitmap := (bitmap s)(WORD_IDX page := bitmap s (WORD_IDX page) OR push_bit (BIT_IDX page) 1)\<rparr>"

definition bitmap_clear :: "u64 \<Rightarrow> 'a pmm_scheme \<Rightarrow> 'a pmm_scheme" where
  "bitmap_clear page s =
     s\<lparr>bitmap := (bitmap s)(WORD_IDX page :=
        bitmap s (WORD_IDX page) AND NOT (push_bit (BIT_IDX page) 1))\<rparr>"

definition bitmap_test :: "'a pmm_scheme \<Rightarrow> u64 \<Rightarrow> bool" where
  "bitmap_test s page \<longleftrightarrow> drop_bit (BIT_IDX page) (bitmap s (WORD_IDX page)) AND 1 \<noteq> 0"

lemma bitmap_test_bit: "bitmap_test s page \<longleftrightarrow> bit (bitmap s (WORD_IDX page)) (BIT_IDX page)"
proof -
  have "x AND 1 \<noteq> 0 \<longleftrightarrow> odd x" for x :: u64
    by (simp add: and_one_eq mod_2_eq_odd)
  then show ?thesis by (simp only: bitmap_test_def bit_iff_odd_drop_bit)
qed

lemma BIT_IDX_eq: "BIT_IDX p = unat p mod 64"
  unfolding BIT_IDX_def BITS_PER_WORD_def unat_mod by simp

lemma WORD_IDX_eq: "unat (WORD_IDX p) = unat p div 64"
  unfolding WORD_IDX_def BITS_PER_WORD_def unat_div by simp

lemma BIT_IDX_lt: "BIT_IDX p < 64"
  by (simp add: BIT_IDX_eq)

lemma page_idx_eq:
  assumes "WORD_IDX p = WORD_IDX q" "BIT_IDX p = BIT_IDX q"
  shows "p = q"
proof (rule word64_eqI)
  have "unat p div 64 = unat q div 64" using assms(1) unfolding WORD_IDX_eq [symmetric] by (rule arg_cong)
  moreover have "unat p mod 64 = unat q mod 64" using assms(2) unfolding BIT_IDX_eq .
  ultimately show "unat p = unat q" by (metis div_mult_mod_eq)
qed

lemma page_idx_iff: "q = p \<longleftrightarrow> WORD_IDX q = WORD_IDX p \<and> BIT_IDX q = BIT_IDX p"
  using page_idx_eq [of q p] by (cases "q = p") auto

lemma bitmap_test_set [simp]:
  "bitmap_test (bitmap_set p s) q \<longleftrightarrow> q = p \<or> bitmap_test s q"
  using BIT_IDX_lt [of p]
  by (simp add: bitmap_test_bit bitmap_set_def page_idx_iff [of q p] bit_or_iff bit_exp_iff) auto

lemma bitmap_test_clear [simp]:
  "bitmap_test (bitmap_clear p s) q \<longleftrightarrow> q \<noteq> p \<and> bitmap_test s q"
  using BIT_IDX_lt [of q]
  by (simp add: bitmap_test_bit bitmap_clear_def page_idx_iff [of q p] bit_and_iff bit_not_iff
      bit_exp_iff) auto

section \<open>Initialisation\<close>

text \<open>The Limine memory map (\<^verbatim>\<open>include/limine.h\<close>): the list of entries the boot loader reports.\<close>

record memmap_entry =
  me_base :: u64
  me_length :: u64
  me_type :: u64

definition LIMINE_MEMMAP_USABLE :: u64 where [simp]: "LIMINE_MEMMAP_USABLE = 0"

definition region_start :: "memmap_entry \<Rightarrow> u64" where
  "region_start e = (me_base e + PMM_PAGE_SIZE - 1) AND NOT (PMM_PAGE_SIZE - 1)"

definition region_end :: "memmap_entry \<Rightarrow> u64" where
  "region_end e = (me_base e + me_length e) AND NOT (PMM_PAGE_SIZE - 1)"

text \<open>The first usable region above 1 MB that holds the bitmap; 0 when there is none.\<close>

fun find_bitmap :: "memmap_entry list \<Rightarrow> u64" where
  "find_bitmap [] = 0"
| "find_bitmap (e # es) =
     (if me_type e \<noteq> LIMINE_MEMMAP_USABLE then find_bitmap es
      else let start = (if region_start e < 0x100000 then 0x100000 else region_start e) in
        if start + PMM_BITMAP_BYTES > me_base e + me_length e then find_bitmap es
        else start)"

text \<open>
  The loop that frees the pages of one usable region.  It stops at the end of the tracked 4 GB,
  so it ends: while it runs, \<open>addr\<close> is below \<open>2^32\<close> and grows.
\<close>

function free_range :: "u64 \<Rightarrow> u64 \<Rightarrow> 'a pmm_scheme \<Rightarrow> 'a pmm_scheme" where
  "free_range addr stop s =
     (if addr < stop then
        let page = drop_bit PMM_PAGE_SHIFT addr in
        if page \<ge> PMM_MAX_PAGES then s
        else
          let s = s\<lparr>total_pages := total_pages s + 1\<rparr>;
              s = bitmap_clear page s;
              s = s\<lparr>free_count := free_count s + 1\<rparr>
          in free_range (addr + PMM_PAGE_SIZE) stop s
      else s)"
  by pat_completeness auto

lemma tracked_addr:
  "drop_bit 12 (a :: u64) < 1048576 \<longleftrightarrow> unat a < 4294967296"
  by (simp only: word_less_nat_alt unat_drop_bit_eq)
    (simp add: drop_bit_eq_div div_less_iff_less_mult)

lemma tracked_step:
  "unat (a :: u64) < 4294967296 \<Longrightarrow> unat (a + 4096) = unat a + 4096"
  by (subst unat_add_no_wrap) simp_all

termination free_range
  by (relation "measure (\<lambda>(addr, stop, s). 4294967296 - unat addr)")
    (auto simp: not_le tracked_addr tracked_step)

declare free_range.simps [simp del]

fun free_usable :: "memmap_entry list \<Rightarrow> 'a pmm_scheme \<Rightarrow> 'a pmm_scheme" where
  "free_usable [] s = s"
| "free_usable (e # es) s =
     (if me_type e \<noteq> LIMINE_MEMMAP_USABLE then free_usable es s
      else free_usable es (free_range (region_start e) (region_end e) s))"

text \<open>
  The reserving loops have no such stop: with an upper bound in the last page of the address space
  \<open>addr\<close> wraps around, so they are partial.
\<close>

definition reserve_page :: "u64 \<Rightarrow> 'a pmm_scheme \<Rightarrow> 'a pmm_scheme" where
  "reserve_page addr s =
     (let page = drop_bit PMM_PAGE_SHIFT addr in
      if page < PMM_MAX_PAGES \<and> \<not> bitmap_test s page then
        (bitmap_set page s)\<lparr>free_count := free_count s - 1\<rparr>
      else s)"

partial_function (option) reserve_range ::
  "u64 \<Rightarrow> u64 \<Rightarrow> 'a pmm_scheme \<Rightarrow> 'a pmm_scheme option" where
  "reserve_range addr stop s =
     (if addr < stop then reserve_range (addr + PMM_PAGE_SIZE) stop (reserve_page addr s)
      else Some s)"

text \<open>\<open>kmemset(bitmap, 0xff, PMM_BITMAP_BYTES)\<close> on the words of the array.\<close>

definition bitmap_fill :: "'a pmm_scheme \<Rightarrow> 'a pmm_scheme" where
  "bitmap_fill s = s\<lparr>bitmap := (\<lambda>w. if w < PMM_BITMAP_WORDS then - 1 else bitmap s w)\<rparr>"

definition pmm_init ::
  "memmap_entry list \<Rightarrow> u64 \<Rightarrow> u64 \<Rightarrow> 'a pmm_scheme \<Rightarrow> 'a pmm_scheme option" where
  "pmm_init mmap kern_phys_start kern_phys_end s =
     (let bitmap_phys = find_bitmap mmap in
      if bitmap_phys = 0 then kprintf (''PMM: FATAL: no region for bitmap'' @ nl) [] s
      else do {
        let s = s\<lparr>bitmap_base := PHYS_TO_VIRT s bitmap_phys\<rparr>;
        let s = bitmap_fill s;
        let s = s\<lparr>total_pages := 0, free_count := 0\<rparr>;
        let s = free_usable mmap s;
        let s = (if \<not> bitmap_test s 0 then (bitmap_set 0 s)\<lparr>free_count := free_count s - 1\<rparr> else s);
        s \<leftarrow> reserve_range bitmap_phys (bitmap_phys + PMM_BITMAP_BYTES) s;
        s \<leftarrow> reserve_range kern_phys_start kern_phys_end s;
        kprintf (''PMM: %u MB free (%u total pages)'' @ nl)
          [VInt (drop_bit 8 (free_count s)), VInt (total_pages s)] s
      })"

section \<open>Allocation\<close>

text \<open>\<open>__builtin_ctzll\<close>: the index of the lowest bit that is set.\<close>

function ctz_from :: "u64 \<Rightarrow> nat \<Rightarrow> nat" where
  "ctz_from x i = (if i < 64 \<and> \<not> bit x i then ctz_from x (Suc i) else i)"
  by pat_completeness auto
termination by (relation "measure (\<lambda>(x, i). 64 - i)") auto

declare ctz_from.simps [simp del]

definition ctz :: "u64 \<Rightarrow> nat" where "ctz x = ctz_from x 0"

function alloc_scan :: "u64 \<Rightarrow> 'a pmm_scheme \<Rightarrow> u64 \<times> 'a pmm_scheme" where
  "alloc_scan w s =
     (if w < PMM_BITMAP_WORDS then
        if bitmap s w = - 1 then alloc_scan (w + 1) s
        else
          let page = w * BITS_PER_WORD + of_nat (ctz (NOT (bitmap s w))) in
          if page \<ge> PMM_MAX_PAGES then (PMM_NULL, s)
          else
            let s = bitmap_set page s;
                s = (if free_count s > 0 then s\<lparr>free_count := free_count s - 1\<rparr> else s)
            in (push_bit PMM_PAGE_SHIFT page, s)
      else (PMM_NULL, s))"
  by pat_completeness auto

lemma unat_Suc_small: "w < 16384 \<Longrightarrow> unat (w + 1 :: u64) = Suc (unat w)"
  by (subst unat_add_no_wrap) (simp_all add: word_less_nat_alt)

termination alloc_scan
  by (relation "measure (\<lambda>(w, s). 16384 - unat w)")
    (auto simp: unat_Suc_small, simp add: word_less_nat_alt)

declare alloc_scan.simps [simp del]

definition pmm_alloc_page :: "'a pmm_scheme \<Rightarrow> u64 \<times> 'a pmm_scheme" where
  "pmm_alloc_page s = alloc_scan 0 s"

definition pmm_free_page :: "u64 \<Rightarrow> 'a pmm_scheme \<Rightarrow> 'a pmm_scheme" where
  "pmm_free_page paddr s =
     (let page = drop_bit PMM_PAGE_SHIFT paddr in
      if page = 0 \<or> page \<ge> PMM_MAX_PAGES then s
      else (bitmap_clear page s)\<lparr>free_count := free_count s + 1\<rparr>)"

definition pmm_free_pages :: "'a pmm_scheme \<Rightarrow> u64" where
  "pmm_free_pages s = free_count s"

definition pmm_total_pages :: "'a pmm_scheme \<Rightarrow> u64" where
  "pmm_total_pages s = total_pages s"

section \<open>What the allocator does\<close>

lemma ctz_from_spec:
  "bit x k \<Longrightarrow> i \<le> k \<Longrightarrow> bit x (ctz_from x i) \<and> i \<le> ctz_from x i \<and> ctz_from x i \<le> k"
proof (induction x i rule: ctz_from.induct)
  case (1 x i)
  show ?case
  proof (cases "i < 64 \<and> \<not> bit x i")
    case True
    with "1.prems" have "i \<noteq> k" by auto
    with 1 True show ?thesis by (subst (1 2 3) ctz_from.simps) auto
  next
    case False
    with "1.prems" have "bit x i"
      using bit_imp_le_length [of x k] by auto
    with False "1.prems" show ?thesis by (subst (1 2 3) ctz_from.simps) auto
  qed
qed

text \<open>The lowest clear bit of a word that is not all ones.\<close>

lemma ctz_not:
  assumes "(w :: u64) \<noteq> - 1"
  shows "ctz (NOT w) < 64" "\<not> bit w (ctz (NOT w))"
    "\<And>k. k < 64 \<Longrightarrow> \<not> bit w k \<Longrightarrow> ctz (NOT w) \<le> k"
proof -
  have "\<exists>k < 64. \<not> bit w k"
  proof (rule ccontr)
    assume "\<not> (\<exists>k < 64. \<not> bit w k)"
    then have "w = - 1" by (auto intro: bit_word_eqI)
    with assms show False ..
  qed
  then obtain k where "k < 64" "\<not> bit w k" by blast
  then have "bit (NOT w) k" by (simp add: bit_not_iff)
  from ctz_from_spec [OF this, of 0] have "bit (NOT w) (ctz (NOT w))"
    by (simp add: ctz_def)
  then show "ctz (NOT w) < 64" "\<not> bit w (ctz (NOT w))"
    using bit_imp_le_length [of "NOT w" "ctz (NOT w)"] by (simp_all add: bit_not_iff)
  fix k assume "k < 64" "\<not> bit w k"
  then have "bit (NOT w) k" by (simp add: bit_not_iff)
  from ctz_from_spec [OF this, of 0] show "ctz (NOT w) \<le> k" by (simp add: ctz_def)
qed

text \<open>Taking page \<open>p\<close>: the state after \<open>bitmap_set\<close> and the count.\<close>

definition take_page :: "u64 \<Rightarrow> 'a pmm_scheme \<Rightarrow> 'a pmm_scheme" where
  "take_page p s = (bitmap_set p s)
     \<lparr>free_count := (if free_count s > 0 then free_count s - 1 else free_count s)\<rparr>"

lemma page_number:
  assumes "w < 16384" "b < 64"
  shows "unat (w * 64 + of_nat b :: u64) = unat w * 64 + b"
proof -
  have w: "unat w < 16384" using assms(1) by (simp add: word_less_nat_alt)
  have m: "unat (w * 64) = unat w * 64"
    using w by (subst unat_mult_lem [THEN iffD1]) auto
  have b: "unat (of_nat b :: u64) = b" using assms(2) by (simp add: unat_of_nat64)
  show ?thesis
    using w assms(2) by (subst unat_add_no_wrap) (simp_all add: m b)
qed

lemma WORD_BIT_number:
  assumes "w < 16384" "b < 64"
  shows "WORD_IDX (w * 64 + of_nat b) = w" "BIT_IDX (w * 64 + of_nat b) = b"
proof -
  show "WORD_IDX (w * 64 + of_nat b) = w"
    using assms by (intro word64_eqI) (simp only: WORD_IDX_eq page_number)
  show "BIT_IDX (w * 64 + of_nat b) = b"
    using assms by (simp only: BIT_IDX_eq page_number) simp
qed

lemma tracked_WORD_IDX: "p < 1048576 \<longleftrightarrow> WORD_IDX p < 16384"
  by (simp add: word_less_nat_alt WORD_IDX_eq div_less_iff_less_mult)

lemma full_word_used:
  "bitmap s (WORD_IDX p) = - 1 \<Longrightarrow> bitmap_test s p"
  using BIT_IDX_lt [of p] by (simp add: bitmap_test_bit)

lemma alloc_scan_found:
  "p < 1048576 \<Longrightarrow> \<not> bitmap_test s p \<Longrightarrow> w \<le> WORD_IDX p \<Longrightarrow>
   \<exists>q. alloc_scan w s = (push_bit 12 q, take_page q s) \<and> q < 1048576 \<and> \<not> bitmap_test s q \<and>
     (\<forall>r. r < 1048576 \<longrightarrow> \<not> bitmap_test s r \<longrightarrow> w \<le> WORD_IDX r \<longrightarrow> q \<le> r)"
proof (induction w s rule: alloc_scan.induct)
  case (1 w s)
  have pw: "WORD_IDX p < 16384" using "1.prems" by (simp add: tracked_WORD_IDX)
  then have w: "w < 16384" using "1.prems"(3) by simp
  show ?case
  proof (cases "bitmap s w = - 1")
    case True
    have shift: "w + 1 \<le> WORD_IDX r" if "\<not> bitmap_test s r" "w \<le> WORD_IDX r" for r
    proof -
      have "WORD_IDX r \<noteq> w" using that full_word_used [of s r] True by auto
      with that(2) show ?thesis
        by (auto simp: word_le_nat_alt unat_Suc_small [OF w] word_unat_eq_iff)
    qed
    have "alloc_scan w s = alloc_scan (w + 1) s"
      using w True by (subst alloc_scan.simps) simp
    then show ?thesis
      using "1.IH" [of] w True shift "1.prems" by auto
  next
    case False
    note c = ctz_not [OF False]
    define q where "q = w * 64 + of_nat (ctz (NOT (bitmap s w)))"
    have idx: "WORD_IDX q = w" "BIT_IDX q = ctz (NOT (bitmap s w))"
      unfolding q_def using WORD_BIT_number [OF w c(1)] by simp_all
    have q: "q < 1048576" "\<not> bitmap_test s q"
      using w c(2) by (simp_all add: tracked_WORD_IDX idx bitmap_test_bit)
    have least: "q \<le> r" if "\<not> bitmap_test s r" "w \<le> WORD_IDX r" for r
    proof -
      have uq: "unat q = unat w * 64 + BIT_IDX q"
        unfolding idx(2) unfolding q_def by (rule page_number [OF w c(1)])
      have ur: "unat r = unat (WORD_IDX r) * 64 + BIT_IDX r"
        by (simp add: WORD_IDX_eq BIT_IDX_eq)
      show ?thesis
      proof (cases "WORD_IDX r = w")
        case True
        then have "BIT_IDX q \<le> BIT_IDX r"
          using that(1) c(3) [OF BIT_IDX_lt [of r]] by (simp add: bitmap_test_bit idx)
        with True show ?thesis unfolding word_le_nat_alt uq ur by simp
      next
        case False
        with that(2) have "unat w < unat (WORD_IDX r)"
          by (auto simp: word_le_nat_alt word_unat_eq_iff)
        with BIT_IDX_lt [of q] show ?thesis unfolding word_le_nat_alt uq ur by linarith
      qed
    qed
    have "alloc_scan w s = (push_bit 12 q, take_page q s)"
      using w False q(1)
      by (subst alloc_scan.simps) (simp add: q_def [symmetric] take_page_def Let_def bitmap_set_def)
    with q least show ?thesis by blast
  qed
qed

lemma alloc_scan_none:
  "(\<And>p. p < 1048576 \<Longrightarrow> w \<le> WORD_IDX p \<Longrightarrow> bitmap_test s p) \<Longrightarrow> alloc_scan w s = (0, s)"
proof (induction w s rule: alloc_scan.induct)
  case (1 w s)
  show ?case
  proof (cases "w < 16384")
    case True
    have "bitmap s w = - 1"
    proof (rule ccontr)
      assume ne: "bitmap s w \<noteq> - 1"
      note c = ctz_not [OF ne]
      define q where "q = w * 64 + of_nat (ctz (NOT (bitmap s w)))"
      have idx: "WORD_IDX q = w" "BIT_IDX q = ctz (NOT (bitmap s w))"
        unfolding q_def using WORD_BIT_number [OF True c(1)] by simp_all
      with True have "bitmap_test s q" by (intro "1.prems") (simp_all add: tracked_WORD_IDX)
      with c(2) show False by (simp add: bitmap_test_bit idx)
    qed
    moreover from this have "alloc_scan (w + 1) s = (0, s)"
      using True by (intro "1.IH" "1.prems") (auto simp: word_le_nat_alt unat_Suc_small)
    ultimately show ?thesis using True by (subst alloc_scan.simps) simp
  next
    case False
    then show ?thesis by (subst alloc_scan.simps) simp
  qed
qed

text \<open>The two outcomes of \<open>pmm_alloc_page\<close>.\<close>

lemma pmm_alloc_page_cases:
  obtains (none) "pmm_alloc_page s = (0, s)" "\<And>q. q < 1048576 \<Longrightarrow> bitmap_test s q"
  | (page) p where "pmm_alloc_page s = (push_bit 12 p, take_page p s)" "p < 1048576"
      "\<not> bitmap_test s p" "\<And>q. q < 1048576 \<Longrightarrow> \<not> bitmap_test s q \<Longrightarrow> p \<le> q"
proof (cases "\<exists>p < 1048576. \<not> bitmap_test s p")
  case True
  then obtain p where "p < 1048576" "\<not> bitmap_test s p" by blast
  from alloc_scan_found [OF this, of 0] obtain q where
    "alloc_scan 0 s = (push_bit 12 q, take_page q s)" "q < 1048576" "\<not> bitmap_test s q"
    "\<forall>r. r < 1048576 \<longrightarrow> \<not> bitmap_test s r \<longrightarrow> 0 \<le> WORD_IDX r \<longrightarrow> q \<le> r" by auto
  then show ?thesis by (intro page) (auto simp: pmm_alloc_page_def)
next
  case False
  then show ?thesis
    by (intro none) (auto simp: pmm_alloc_page_def intro: alloc_scan_none)
qed

section \<open>Page addresses and the invariant\<close>

lemma unat_page_addr: "p < 1048576 \<Longrightarrow> unat (push_bit 12 p :: u64) = unat p * 4096"
  by (simp add: push_bit_eq_mult word_less_nat_alt unat_word_ariths)

lemma page_addr_inverse: "p < 1048576 \<Longrightarrow> drop_bit 12 (push_bit 12 p :: u64) = p"
  by (rule word64_eqI) (simp only: unat_drop_bit_eq unat_page_addr, simp add: drop_bit_eq_div)

lemma aligned_page_addr: "p < 1048576 \<Longrightarrow> aligned 4096 (push_bit 12 p)"
  unfolding aligned_def by (simp only: unat_page_addr) simp

lemma page_addr_eq_0: "p < 1048576 \<Longrightarrow> push_bit 12 p = (0 :: u64) \<longleftrightarrow> p = 0"
  using page_addr_inverse [of p] by auto

lemma page_addr_inj:
  "p < 1048576 \<Longrightarrow> q < 1048576 \<Longrightarrow> push_bit 12 p = (push_bit 12 q :: u64) \<Longrightarrow> p = q"
  by (metis page_addr_inverse)

text \<open>
  The pages that can be handed out, and the page addresses in use (reserved or allocated).
  The invariant: page 0 is reserved, and \<open>free_count\<close> is the number of free pages.
\<close>

definition free_set :: "'a pmm_scheme \<Rightarrow> u64 set" where
  "free_set s = {p. p < PMM_MAX_PAGES \<and> \<not> bitmap_test s p}"

definition used_pages :: "'a pmm_scheme \<Rightarrow> u64 set" where
  "used_pages s = {push_bit 12 p | p. p < PMM_MAX_PAGES \<and> bitmap_test s p}"

definition count_ok :: "'a pmm_scheme \<Rightarrow> bool" where
  "count_ok s \<longleftrightarrow> free_count s = of_nat (card (free_set s))"

definition pmm_inv :: "'a pmm_scheme \<Rightarrow> bool" where
  "pmm_inv s \<longleftrightarrow> bitmap_test s 0 \<and> count_ok s"

lemma finite_free_set [simp]: "finite (free_set s)"
  by (rule finite_subset [OF subset_UNIV finite])

lemma card_tracked_le:
  assumes "P \<subseteq> {p :: u64. p < 1048576}"
  shows "card P \<le> 1048576"
proof -
  have "unat ` P \<subseteq> {..<1048576}"
    using assms by (auto simp: word_less_nat_alt)
  moreover have "inj_on unat P" by (auto intro: inj_onI word64_eqI)
  ultimately show ?thesis
    using card_mono [of "{..<1048576 :: nat}" "unat ` P"] by (simp add: card_image)
qed

lemma card_free_set_le: "card (free_set s) \<le> 1048576"
  by (rule card_tracked_le) (auto simp: free_set_def)

lemma count_ok_unat: "count_ok s \<Longrightarrow> unat (free_count s) = card (free_set s)"
  using card_free_set_le [of s] by (simp add: count_ok_def unat_of_nat64)

lemma bitmap_test_counts [simp]:
  "bitmap_test (s\<lparr>free_count := c\<rparr>) p = bitmap_test s p"
  "bitmap_test (s\<lparr>total_pages := c\<rparr>) p = bitmap_test s p"
  "bitmap_test (s\<lparr>bitmap_base := a\<rparr>) p = bitmap_test s p"
  "bitmap_test (s\<lparr>console := out\<rparr>) p = bitmap_test s p"
  "bitmap_test (s\<lparr>mem := m\<rparr>) p = bitmap_test s p"
  by (simp_all add: bitmap_test_def)

lemma free_set_set:
  "p < 1048576 \<Longrightarrow> free_set (bitmap_set p s) = free_set s - {p}"
  by (auto simp: free_set_def)

lemma free_set_clear:
  "p < 1048576 \<Longrightarrow> free_set (bitmap_clear p s) = insert p (free_set s)"
  by (auto simp: free_set_def)

lemma free_set_counts [simp]:
  "free_set (s\<lparr>free_count := c\<rparr>) = free_set s"
  "free_set (s\<lparr>total_pages := c\<rparr>) = free_set s"
  by (simp_all add: free_set_def)

lemma count_ok_set:
  assumes "count_ok s" "p \<in> free_set s"
  shows "count_ok ((bitmap_set p s)\<lparr>free_count := free_count s - 1\<rparr>)"
proof -
  have p: "p < 1048576" using assms(2) by (simp add: free_set_def)
  have "card (free_set s) = Suc (card (free_set s - {p}))"
    by (rule card_Suc_Diff1 [symmetric]) (simp_all add: assms(2))
  then show ?thesis using assms(1) by (simp add: count_ok_def free_set_set [OF p])
qed

lemma count_ok_clear:
  assumes "count_ok s" "p \<notin> free_set s" "p < 1048576"
  shows "count_ok ((bitmap_clear p s)\<lparr>free_count := free_count s + 1\<rparr>)"
  using assms by (simp add: count_ok_def free_set_clear)

lemma pmm_inv_take_page:
  assumes "pmm_inv s" "p < 1048576" "\<not> bitmap_test s p"
  shows "pmm_inv (take_page p s)"
proof -
  have p: "p \<in> free_set s" using assms(2,3) by (simp add: free_set_def)
  then have "0 < card (free_set s)" by (auto simp: card_gt_0_iff)
  then have "free_count s > 0"
    using count_ok_unat [of s] assms(1) by (simp add: pmm_inv_def word_less_nat_alt)
  then have "take_page p s = (bitmap_set p s)\<lparr>free_count := free_count s - 1\<rparr>"
    by (simp add: take_page_def)
  with assms p show ?thesis by (simp add: pmm_inv_def count_ok_set)
qed

lemma bitmap_test_take_page [simp]: "bitmap_test (take_page p s) q \<longleftrightarrow> q = p \<or> bitmap_test s q"
  by (simp add: take_page_def)

lemma used_pages_take_page:
  "p < 1048576 \<Longrightarrow> used_pages (take_page p s) = insert (push_bit 12 p) (used_pages s)"
  by (auto simp: used_pages_def)

lemma page_in_used_pages:
  "p < 1048576 \<Longrightarrow> push_bit 12 p \<in> used_pages s \<longleftrightarrow> bitmap_test s p"
  by (auto simp: used_pages_def dest: page_addr_inj)

section \<open>The interface of a page allocator\<close>

text \<open>
  What the clients of the allocator (zones, page tables, the VM layer, thread stacks) rely on.
  \<open>used s\<close> is the set of page addresses that are not free.
\<close>

locale page_allocator =
  fixes alloc :: "'s \<Rightarrow> u64 \<times> 's"
    and free :: "u64 \<Rightarrow> 's \<Rightarrow> 's"
    and used :: "'s \<Rightarrow> u64 set"
    and inv :: "'s \<Rightarrow> bool"
  assumes alloc_fresh: "inv s \<Longrightarrow> alloc s = (pa, t) \<Longrightarrow> pa \<noteq> 0 \<Longrightarrow>
      pa \<notin> used s \<and> used t = insert pa (used s) \<and> aligned 4096 pa \<and> inv t"
    and alloc_full: "inv s \<Longrightarrow> alloc s = (0, t) \<Longrightarrow> t = s"
    and free_used: "inv s \<Longrightarrow> pa \<in> used s \<Longrightarrow> pa \<noteq> 0 \<Longrightarrow>
      used (free pa s) = used s - {pa} \<and> inv (free pa s)"

text \<open>
  A client's run: each \<open>PgAlloc\<close> asks for a page, each \<open>PgFree\<close> gives back a page the client
  holds (a request to free anything else is not made).  The list holds the pages in hand.
\<close>

datatype page_op = PgAlloc | PgFree u64

fun run_ops ::
  "('s \<Rightarrow> u64 \<times> 's) \<Rightarrow> (u64 \<Rightarrow> 's \<Rightarrow> 's) \<Rightarrow> page_op list \<Rightarrow> u64 list \<times> 's \<Rightarrow> u64 list \<times> 's" where
  "run_ops alloc free [] (held, s) = (held, s)"
| "run_ops alloc free (PgAlloc # ops) (held, s) =
     (case alloc s of (pa, t) \<Rightarrow>
        run_ops alloc free ops (if pa = 0 then held else pa # held, t))"
| "run_ops alloc free (PgFree pa # ops) (held, s) =
     (if pa \<in> set held then run_ops alloc free ops (remove1 pa held, free pa s)
      else run_ops alloc free ops (held, s))"

context page_allocator
begin

lemma run_ops_distinct:
  "inv s \<Longrightarrow> distinct held \<Longrightarrow> set held \<subseteq> used s \<Longrightarrow> 0 \<notin> set held \<Longrightarrow>
   run_ops alloc free ops (held, s) = (held', s') \<Longrightarrow>
   inv s' \<and> distinct held' \<and> set held' \<subseteq> used s' \<and> 0 \<notin> set held' \<and>
   used s' - set held' = used s - set held"
proof (induction ops arbitrary: held s)
  case Nil
  then show ?case by simp
next
  case (Cons x ops)
  show ?case
  proof (cases x)
    case PgAlloc
    obtain pa t where a: "alloc s = (pa, t)" by (cases "alloc s")
    show ?thesis
    proof (cases "pa = 0")
      case True
      with Cons PgAlloc a alloc_full [OF Cons.prems(1)] show ?thesis by auto
    next
      case False
      from alloc_fresh [OF Cons.prems(1) a False]
      have "inv t" "distinct (pa # held)" "set (pa # held) \<subseteq> used t" "0 \<notin> set (pa # held)"
        using Cons.prems False by auto
      moreover have "run_ops alloc free ops (pa # held, t) = (held', s')"
        using Cons.prems(5) PgAlloc a False by simp
      ultimately have "inv s' \<and> distinct held' \<and> set held' \<subseteq> used s' \<and> 0 \<notin> set held' \<and>
        used s' - set held' = used t - set (pa # held)" by (rule Cons.IH)
      then show ?thesis using alloc_fresh [OF Cons.prems(1) a False] by auto
    qed
  next
    case (PgFree pa)
    show ?thesis
    proof (cases "pa \<in> set held")
      case False
      with Cons PgFree show ?thesis by simp
    next
      case True
      then have pa: "pa \<in> used s" "pa \<noteq> 0" using Cons.prems by auto
      from free_used [OF Cons.prems(1) pa]
      have "inv (free pa s)" "distinct (remove1 pa held)" "set (remove1 pa held) \<subseteq> used (free pa s)"
        "0 \<notin> set (remove1 pa held)"
        using Cons.prems by auto
      moreover have "run_ops alloc free ops (remove1 pa held, free pa s) = (held', s')"
        using Cons.prems(5) PgFree True by simp
      ultimately have "inv s' \<and> distinct held' \<and> set held' \<subseteq> used s' \<and> 0 \<notin> set held' \<and>
        used s' - set held' = used (free pa s) - set (remove1 pa held)" by (rule Cons.IH)
      then show ?thesis
        using free_used [OF Cons.prems(1) pa] Cons.prems(2) True by (auto simp: set_remove1_eq)
    qed
  qed
qed

lemma fresh_for_owner:
  "inv s \<Longrightarrow> P \<subseteq> used s \<Longrightarrow> alloc s = (pa, t) \<Longrightarrow> pa \<noteq> 0 \<Longrightarrow> pa \<notin> P \<and> insert pa P \<subseteq> used t"
  using alloc_fresh by blast

end

text \<open>The bitmap allocator provides the interface.\<close>

lemma pmm_alloc_page_fresh:
  assumes "pmm_inv s" "pmm_alloc_page s = (pa, t)" "pa \<noteq> 0"
  shows "pa \<notin> used_pages s \<and> used_pages t = insert pa (used_pages s) \<and> aligned 4096 pa \<and> pmm_inv t"
proof (cases s rule: pmm_alloc_page_cases)
  case none
  with assms show ?thesis by simp
next
  case (page p)
  then have "pa = push_bit 12 p" "t = take_page p s" using assms(2) by simp_all
  with page assms show ?thesis
    by (simp add: used_pages_take_page pmm_inv_take_page aligned_page_addr page_in_used_pages)
qed

lemma pmm_alloc_page_full:
  assumes "pmm_inv s" "pmm_alloc_page s = (0, t)"
  shows "t = s \<and> free_set s = {}"
proof (cases s rule: pmm_alloc_page_cases)
  case none
  with assms show ?thesis by (auto simp: free_set_def)
next
  case (page p)
  with assms have "p = 0" by (auto simp: page_addr_eq_0)
  with page assms show ?thesis by (simp add: pmm_inv_def)
qed

lemma pmm_free_page_used:
  assumes "pmm_inv s" "pa \<in> used_pages s" "pa \<noteq> 0"
  shows "used_pages (pmm_free_page pa s) = used_pages s - {pa} \<and> pmm_inv (pmm_free_page pa s)"
proof -
  obtain p where p: "pa = push_bit 12 p" "p < 1048576" "bitmap_test s p"
    using assms(2) by (auto simp: used_pages_def)
  have p0: "p \<noteq> 0" using assms(3) p by auto
  have eq: "pmm_free_page pa s = (bitmap_clear p s)\<lparr>free_count := free_count s + 1\<rparr>"
    using p p0 by (simp add: pmm_free_page_def page_addr_inverse Let_def bitmap_clear_def)
  have "count_ok ((bitmap_clear p s)\<lparr>free_count := free_count s + 1\<rparr>)"
    using assms(1) p by (intro count_ok_clear) (simp_all add: pmm_inv_def free_set_def)
  moreover have "used_pages (pmm_free_page pa s) = used_pages s - {pa}"
    using p(2) by (auto simp: used_pages_def eq [unfolded p(1)] p(1) dest: page_addr_inj)
  ultimately show ?thesis using assms(1) p0 by (simp add: eq pmm_inv_def)
qed

interpretation pmm: page_allocator pmm_alloc_page pmm_free_page used_pages pmm_inv
proof unfold_locales
  show "\<And>s pa t. pmm_inv s \<Longrightarrow> pmm_alloc_page s = (pa, t) \<Longrightarrow> pa \<noteq> 0 \<Longrightarrow>
      pa \<notin> used_pages s \<and> used_pages t = insert pa (used_pages s) \<and> aligned 4096 pa \<and> pmm_inv t"
    by (rule pmm_alloc_page_fresh)
  show "\<And>s t. pmm_inv s \<Longrightarrow> pmm_alloc_page s = (0, t) \<Longrightarrow> t = s"
    using pmm_alloc_page_full by blast
  show "\<And>s pa. pmm_inv s \<Longrightarrow> pa \<in> used_pages s \<Longrightarrow> pa \<noteq> 0 \<Longrightarrow>
      used_pages (pmm_free_page pa s) = used_pages s - {pa} \<and> pmm_inv (pmm_free_page pa s)"
    by (rule pmm_free_page_used)
qed

text \<open>What the two operations leave alone: everything but the bitmap and the counter.\<close>

lemma pmm_alloc_page_frame:
  assumes "pmm_alloc_page s = (pa, t)"
  obtains b c where "t = s\<lparr>bitmap := b, free_count := c\<rparr>"
proof (cases s rule: pmm_alloc_page_cases)
  case none
  then have "t = s\<lparr>bitmap := bitmap s, free_count := free_count s\<rparr>" using assms by simp
  then show ?thesis by (rule that)
next
  case (page p)
  with assms show ?thesis by (auto simp: take_page_def bitmap_set_def intro: that)
qed

lemma pmm_free_page_frame:
  obtains b c where "pmm_free_page pa s = s\<lparr>bitmap := b, free_count := c\<rparr>"
proof (cases "drop_bit 12 pa = 0 \<or> 1048576 \<le> drop_bit 12 pa")
  case True
  then have "pmm_free_page pa s = s\<lparr>bitmap := bitmap s, free_count := free_count s\<rparr>"
    by (auto simp: pmm_free_page_def)
  then show ?thesis by (rule that)
next
  case False
  then show ?thesis
    by (intro that) (simp add: pmm_free_page_def bitmap_clear_def Let_def)
qed

text \<open>Giving a page back right after taking it restores the allocator.\<close>

lemma pmm_alloc_free_restores:
  assumes "pmm_inv s" "pmm_alloc_page s = (pa, t)" "pa \<noteq> 0"
  shows "free_set (pmm_free_page pa t) = free_set s \<and> free_count (pmm_free_page pa t) = free_count s"
proof (cases s rule: pmm_alloc_page_cases)
  case none
  with assms show ?thesis by simp
next
  case (page p)
  then have eq: "pa = push_bit 12 p" "t = take_page p s" using assms(2) by simp_all
  have p: "p \<in> free_set s" "p \<noteq> 0" using page assms by (auto simp: free_set_def eq)
  then have "card (free_set s) > 0" by (auto simp: card_gt_0_iff)
  then have "free_count s > 0"
    using count_ok_unat [of s] assms(1) by (simp add: pmm_inv_def word_less_nat_alt)
  then have fc: "free_count t = free_count s - 1" by (simp add: eq take_page_def)
  have f: "pmm_free_page pa t = (bitmap_clear p t)\<lparr>free_count := free_count t + 1\<rparr>"
    using page(2) p(2) by (simp add: pmm_free_page_def eq(1) page_addr_inverse Let_def bitmap_clear_def)
  have "free_set (bitmap_clear p t) = insert p (free_set t)" by (rule free_set_clear [OF page(2)])
  moreover have "free_set t = free_set s - {p}" using page(2) by (auto simp: eq free_set_def)
  ultimately show ?thesis using p(1) by (auto simp: f fc)
qed

section \<open>Initialisation is correct\<close>

text \<open>
  The pages the loops of \<open>pmm_init\<close> visit, running from \<open>a\<close> in steps of 4 KB while below \<open>e\<close>.
\<close>

definition range_pages :: "u64 \<Rightarrow> u64 \<Rightarrow> u64 set" where
  "range_pages a e = {p. \<exists>k. unat a + 4096 * k < unat e \<and> unat p = (unat a + 4096 * k) div 4096}"

lemma range_pages_empty: "\<not> a < e \<Longrightarrow> range_pages a e = {}"
  by (auto simp: range_pages_def word_less_nat_alt)

lemma unat_page_index: "unat (drop_bit 12 a :: u64) = unat a div 4096"
  by (simp only: unat_drop_bit_eq) (simp add: drop_bit_eq_div)

lemma range_pages_step:
  assumes "a < e" "unat a + 4096 < 18446744073709551616"
  shows "range_pages a e = insert (drop_bit 12 a) (range_pages (a + 4096) e)"
    (is "_ = insert ?p _")
proof -
  have u: "unat (a + 4096) = unat a + 4096"
    using assms(2) by (subst unat_add_no_wrap) simp_all
  have "p \<in> range_pages a e \<longleftrightarrow> p = ?p \<or> p \<in> range_pages (a + 4096) e" for p
  proof
    assume "p \<in> range_pages a e"
    then obtain k where k: "unat a + 4096 * k < unat e" "unat p = (unat a + 4096 * k) div 4096"
      by (auto simp: range_pages_def)
    show "p = ?p \<or> p \<in> range_pages (a + 4096) e"
    proof (cases k)
      case 0
      with k have "unat p = unat ?p" by (simp add: unat_page_index)
      then show ?thesis by (blast intro: word64_eqI)
    next
      case (Suc j)
      with k show ?thesis by (auto simp: range_pages_def u intro: exI [of _ j])
    qed
  next
    assume "p = ?p \<or> p \<in> range_pages (a + 4096) e"
    then show "p \<in> range_pages a e"
    proof
      assume "p = ?p"
      then show ?thesis
        using assms(1) by (auto simp: range_pages_def unat_page_index word_less_nat_alt intro: exI [of _ 0])
    next
      assume "p \<in> range_pages (a + 4096) e"
      then obtain k where "unat a + 4096 + 4096 * k < unat e"
        "unat p = (unat a + 4096 + 4096 * k) div 4096"
        by (auto simp: range_pages_def u)
      then show ?thesis by (auto simp: range_pages_def intro: exI [of _ "Suc k"])
    qed
  qed
  then show ?thesis by blast
qed

lemma range_pages_next_notin:
  assumes "unat a + 4096 < 18446744073709551616"
  shows "drop_bit 12 a \<notin> range_pages (a + 4096) e"
proof -
  have "unat (a + 4096) = unat a + 4096"
    using assms by (subst unat_add_no_wrap) simp_all
  then show ?thesis by (auto simp: range_pages_def unat_page_index)
qed

text \<open>The tracked pages of a range: what one call of \<open>free_range\<close> frees.\<close>

definition tracked :: "u64 set" where
  "tracked = {p. p < PMM_MAX_PAGES}"

lemma range_pages_untracked:
  "\<not> unat a < 4294967296 \<Longrightarrow> range_pages a e \<inter> tracked = {}"
  by (auto simp: range_pages_def tracked_def word_less_nat_alt)

lemma free_range_step:
  assumes "a < e" "unat a < 4294967296"
  shows "free_range a e s =
    free_range (a + 4096) e ((bitmap_clear (drop_bit 12 a) (s\<lparr>total_pages := total_pages s + 1\<rparr>))
      \<lparr>free_count := free_count s + 1\<rparr>)"
  using assms tracked_addr [of a]
  by (subst free_range.simps) (simp add: Let_def not_le [symmetric] bitmap_clear_def)

lemma free_range_stop:
  assumes "\<not> (a < e \<and> unat a < 4294967296)"
  shows "free_range a e s = s"
  using assms tracked_addr [of a]
  by (subst free_range.simps) (auto simp: Let_def)

text \<open>The effect of freeing one region on a bitmap in which the region was reserved.\<close>

lemma free_range_spec:
  "(\<forall>q. bitmap_test (free_range a e s) q \<longleftrightarrow>
       bitmap_test s q \<and> q \<notin> range_pages a e \<inter> tracked) \<and>
   total_pages (free_range a e s) =
     total_pages s + of_nat (card (range_pages a e \<inter> tracked)) \<and>
   (count_ok s \<longrightarrow> (\<forall>q \<in> range_pages a e \<inter> tracked. bitmap_test s q) \<longrightarrow>
      count_ok (free_range a e s)) \<and>
   (\<exists>b n c. free_range a e s = s\<lparr>bitmap := b, total_pages := n, free_count := c\<rparr>)"
proof (induction "4294967296 - unat a" arbitrary: a s rule: less_induct)
  case less
  show ?case
  proof (cases "a < e \<and> unat a < 4294967296")
    case False
    have "range_pages a e \<inter> tracked = {}"
      using False range_pages_empty range_pages_untracked by blast
    moreover have "\<exists>b n c. s = s\<lparr>bitmap := b, total_pages := n, free_count := c\<rparr>"
      by (rule exI [of _ "bitmap s"], rule exI [of _ "total_pages s"],
          rule exI [of _ "free_count s"]) simp
    ultimately show ?thesis
      unfolding free_range_stop [OF False] by simp
  next
    case True
    let ?p = "drop_bit 12 a"
    let ?R = "range_pages (a + 4096) e \<inter> tracked"
    let ?t = "(bitmap_clear ?p (s\<lparr>total_pages := total_pages s + 1\<rparr>))
      \<lparr>free_count := free_count s + 1\<rparr>"
    have nw: "unat a + 4096 < 18446744073709551616" using True by simp
    have step: "unat (a + 4096) = unat a + 4096" using True by (simp add: tracked_step)
    have "4294967296 - unat (a + 4096) < 4294967296 - unat a" using True step by linarith
    note IH = less [OF this, of ?t]
    have p: "?p < 1048576" using True by (simp add: tracked_addr)
    then have R: "range_pages a e \<inter> tracked = insert ?p ?R"
      using range_pages_step [OF _ nw] True by (auto simp: tracked_def)
    have pR: "?p \<notin> ?R" using range_pages_next_notin [OF nw] by simp
    have fin: "finite ?R" by (rule finite_subset [OF subset_UNIV finite])
    have eq: "free_range a e s = free_range (a + 4096) e ?t"
      using True by (intro free_range_step) simp_all
    have t: "bitmap_test ?t q \<longleftrightarrow> q \<noteq> ?p \<and> bitmap_test s q" for q by simp
    have c: "count_ok ?t" if "count_ok s" "bitmap_test s ?p"
    proof -
      have "count_ok ((bitmap_clear ?p s)\<lparr>free_count := free_count s + 1\<rparr>)"
        using that p by (intro count_ok_clear) (simp_all add: free_set_def)
      then show ?thesis by (simp add: count_ok_def free_set_def)
    qed
    have "\<exists>b n c. free_range a e s = s\<lparr>bitmap := b, total_pages := n, free_count := c\<rparr>"
    proof -
      obtain b n c where "free_range a e s = ?t\<lparr>bitmap := b, total_pages := n, free_count := c\<rparr>"
        using IH unfolding eq by blast
      also have "\<dots> = s\<lparr>bitmap := b, total_pages := n, free_count := c\<rparr>"
        by (cases s) (simp add: bitmap_clear_def)
      finally show ?thesis by blast
    qed
    moreover have "count_ok (free_range a e s)"
      if "count_ok s" "\<forall>q \<in> insert ?p ?R. bitmap_test s q"
      using IH c that pR unfolding eq by auto
    moreover have "total_pages (free_range a e s) = total_pages s + of_nat (card (insert ?p ?R))"
      using IH pR fin unfolding eq by (simp add: bitmap_clear_def)
    moreover have "bitmap_test (free_range a e s) q \<longleftrightarrow> bitmap_test s q \<and> q \<notin> insert ?p ?R" for q
    proof -
      have "bitmap_test (free_range a e s) q \<longleftrightarrow> bitmap_test ?t q \<and> q \<notin> ?R"
        using IH unfolding eq by blast
      then show ?thesis unfolding t by blast
    qed
    ultimately show ?thesis unfolding R by blast
  qed
qed

definition usable :: "memmap_entry \<Rightarrow> bool" where
  "usable e \<longleftrightarrow> me_type e = LIMINE_MEMMAP_USABLE"

definition region_pages :: "memmap_entry \<Rightarrow> u64 set" where
  "region_pages e = range_pages (region_start e) (region_end e) \<inter> tracked"

definition usable_pages :: "memmap_entry list \<Rightarrow> u64 set" where
  "usable_pages es = (\<Union>e \<in> {e \<in> set es. usable e}. region_pages e)"

text \<open>
  The guarantees of the Limine protocol for its memory map: entries are sorted by base address,
  do not overlap, and usable ones are page-aligned; physical addresses have at most 52 bits.
\<close>

fun limine_memmap :: "u64 \<Rightarrow> memmap_entry list \<Rightarrow> bool" where
  "limine_memmap lo [] \<longleftrightarrow> True"
| "limine_memmap lo (e # es) \<longleftrightarrow>
     lo \<le> me_base e \<and> unat (me_base e) + unat (me_length e) \<le> 4503599627370496 \<and>
     (usable e \<longrightarrow> aligned 4096 (me_base e) \<and> aligned 4096 (me_length e)) \<and>
     limine_memmap (me_base e + me_length e) es"

lemma limine_memmap_lower:
  "limine_memmap lo es \<Longrightarrow> e \<in> set es \<Longrightarrow> lo \<le> me_base e"
proof (induction es arbitrary: lo)
  case (Cons x es)
  show ?case
  proof (cases "e = x")
    case False
    with Cons have "me_base x + me_length x \<le> me_base e" by auto
    moreover have "unat (me_base x + me_length x) = unat (me_base x) + unat (me_length x)"
      using Cons.prems by (intro unat_add_no_wrap) simp
    ultimately have "me_base x \<le> me_base e" by (simp add: word_le_nat_alt)
    then show ?thesis using Cons.prems(1) by auto
  qed (use Cons in simp)
qed simp

lemma usable_region:
  assumes "usable e" "limine_memmap lo (e # es)"
  shows "region_start e = me_base e" "region_end e = me_base e + me_length e"
    "unat (region_end e) = unat (me_base e) + unat (me_length e)"
    "aligned 4096 (region_start e)" "aligned 4096 (region_end e)"
proof -
  from assms have a: "aligned 4096 (me_base e)" "aligned 4096 (me_length e)" by simp_all
  have "page_of (me_base e + 4095) = me_base e"
    by (rule page_of_iff [OF a(1), THEN iffD1]) simp
  then show start: "region_start e = me_base e"
    by (simp add: region_start_def page_of_def add.commute)
  have ae: "aligned 4096 (me_base e + me_length e)"
    using a by (intro aligned_add) simp_all
  then have "page_of (me_base e + me_length e) = me_base e + me_length e"
    by (rule page_of_aligned)
  then show stop: "region_end e = me_base e + me_length e"
    by (simp add: region_end_def page_of_def)
  show "unat (region_end e) = unat (me_base e) + unat (me_length e)"
    unfolding stop using assms by (intro unat_add_no_wrap) simp
  show "aligned 4096 (region_start e)" "aligned 4096 (region_end e)"
    unfolding start stop using a ae by simp_all
qed

text \<open>A page of a usable region lies between the region's ends.\<close>

lemma region_page_bounds:
  assumes "usable e" "limine_memmap lo (e # es)" "p \<in> region_pages e"
  shows "unat (me_base e) \<le> unat p * 4096 \<and>
    unat p * 4096 < unat (me_base e) + unat (me_length e)"
proof -
  note r = usable_region [OF assms(1,2)]
  obtain k where k: "unat (me_base e) + 4096 * k < unat (me_base e) + unat (me_length e)"
    "unat p = (unat (me_base e) + 4096 * k) div 4096"
    using assms(3) r(1) r(3) by (auto simp: region_pages_def range_pages_def)
  have "unat (me_base e) mod 4096 = 0" using r(4) by (simp add: r(1) aligned_def)
  then have "unat p * 4096 = unat (me_base e) + 4096 * k"
    using k(2) by (auto simp: mod_eq_0_iff_dvd)
  with k(1) show ?thesis by simp
qed

lemma usable_pages_above:
  assumes "limine_memmap lo es" "p \<in> usable_pages es"
  shows "unat lo \<le> unat p * 4096"
  using assms
proof (induction es arbitrary: lo)
  case Nil
  then show ?case by (simp add: usable_pages_def)
next
  case (Cons e es)
  show ?case
  proof (cases "usable e \<and> p \<in> region_pages e")
    case True
    then have "unat (me_base e) \<le> unat p * 4096"
      using region_page_bounds [OF _ Cons.prems(1)] by blast
    then show ?thesis using Cons.prems(1) by (simp add: word_le_nat_alt)
  next
    case False
    then have "p \<in> usable_pages es" using Cons.prems(2) by (auto simp: usable_pages_def)
    then have "unat (me_base e + me_length e) \<le> unat p * 4096"
      using Cons by simp
    moreover have "unat (me_base e + me_length e) = unat (me_base e) + unat (me_length e)"
      using Cons.prems(1) by (intro unat_add_no_wrap) simp
    ultimately show ?thesis using Cons.prems(1) by (simp add: word_le_nat_alt)
  qed
qed

lemma regions_disjoint:
  assumes "limine_memmap lo (e # es)" "usable e"
  shows "region_pages e \<inter> usable_pages es = {}"
proof -
  have u: "unat (me_base e + me_length e) = unat (me_base e) + unat (me_length e)"
    using assms(1) by (intro unat_add_no_wrap) simp
  have "\<not> p \<in> usable_pages es" if "p \<in> region_pages e" for p
    using region_page_bounds [OF assms(2,1) that]
      usable_pages_above [of "me_base e + me_length e" es p] assms(1) u by auto
  then show ?thesis by blast
qed

lemma usable_pages_Cons:
  "usable_pages (e # es) = (if usable e then region_pages e \<union> usable_pages es else usable_pages es)"
  by (auto simp: usable_pages_def)

lemma finite_pages [simp]: "finite (P :: u64 set)"
  by (rule finite_subset [OF subset_UNIV finite])

lemma free_usable_spec:
  "limine_memmap lo es \<Longrightarrow>
   (\<forall>q. bitmap_test (free_usable es s) q \<longleftrightarrow> bitmap_test s q \<and> q \<notin> usable_pages es) \<and>
   total_pages (free_usable es s) = total_pages s + of_nat (card (usable_pages es)) \<and>
   (count_ok s \<longrightarrow> (\<forall>q \<in> usable_pages es. bitmap_test s q) \<longrightarrow> count_ok (free_usable es s)) \<and>
   (\<exists>b n c. free_usable es s = s\<lparr>bitmap := b, total_pages := n, free_count := c\<rparr>)"
proof (induction es arbitrary: lo s)
  case Nil
  have "\<exists>b n c. s = s\<lparr>bitmap := b, total_pages := n, free_count := c\<rparr>"
    by (rule exI [of _ "bitmap s"], rule exI [of _ "total_pages s"],
        rule exI [of _ "free_count s"]) simp
  then show ?case by (simp add: usable_pages_def)
next
  case (Cons e es)
  from Cons.prems have rest: "limine_memmap (me_base e + me_length e) es" by simp
  show ?case
  proof (cases "usable e")
    case False
    then show ?thesis using Cons.IH [OF rest, of s] by (simp add: usable_pages_Cons usable_def)
  next
    case True
    let ?t = "free_range (region_start e) (region_end e) s"
    note fr = free_range_spec [of "region_start e" "region_end e" s, folded region_pages_def]
    note IH = Cons.IH [OF rest, of ?t]
    have eq: "free_usable (e # es) s = free_usable es ?t" using True by (simp add: usable_def)
    have dj: "region_pages e \<inter> usable_pages es = {}"
      by (rule regions_disjoint [OF Cons.prems True])
    have card: "card (region_pages e \<union> usable_pages es) =
        card (region_pages e) + card (usable_pages es)"
      by (rule card_Un_disjoint) (simp_all add: dj)
    have frame: "\<exists>b n c. free_usable es ?t = s\<lparr>bitmap := b, total_pages := n, free_count := c\<rparr>"
    proof -
      obtain b n c where "?t = s\<lparr>bitmap := b, total_pages := n, free_count := c\<rparr>" using fr by blast
      then show ?thesis using IH by auto
    qed
    have cnt: "count_ok (free_usable es ?t)"
      if "count_ok s" "\<forall>q \<in> region_pages e \<union> usable_pages es. bitmap_test s q"
    proof -
      have "count_ok ?t" using fr that by blast
      moreover have "\<forall>q \<in> usable_pages es. bitmap_test ?t q" using fr that dj by blast
      ultimately show ?thesis using IH by blast
    qed
    have tot: "total_pages (free_usable es ?t) =
        total_pages s + of_nat (card (region_pages e) + card (usable_pages es))"
      using IH fr by simp
    have test: "bitmap_test (free_usable es ?t) q \<longleftrightarrow>
        bitmap_test s q \<and> q \<notin> region_pages e \<union> usable_pages es" for q
      using IH fr by blast
    show ?thesis
      unfolding eq usable_pages_Cons card [symmetric]
      using frame cnt tot test True card by simp
  qed
qed

lemma reserve_page_spec:
  "bitmap_test (reserve_page a s) q \<longleftrightarrow>
     bitmap_test s q \<or> q = drop_bit 12 a \<and> q \<in> tracked"
  "count_ok s \<Longrightarrow> count_ok (reserve_page a s)"
  "\<exists>b c. reserve_page a s = s\<lparr>bitmap := b, free_count := c\<rparr>"
proof -
  let ?p = "drop_bit 12 a"
  show "bitmap_test (reserve_page a s) q \<longleftrightarrow>
     bitmap_test s q \<or> q = drop_bit 12 a \<and> q \<in> tracked"
    by (auto simp: reserve_page_def tracked_def Let_def)
  show "count_ok (reserve_page a s)" if "count_ok s"
    using that count_ok_set [of s ?p] by (auto simp: reserve_page_def free_set_def Let_def)
  show "\<exists>b c. reserve_page a s = s\<lparr>bitmap := b, free_count := c\<rparr>"
  proof (cases "?p < 1048576 \<and> \<not> bitmap_test s ?p")
    case True
    then have "reserve_page a s = s\<lparr>bitmap := (bitmap s)(WORD_IDX ?p :=
        bitmap s (WORD_IDX ?p) OR push_bit (BIT_IDX ?p) 1), free_count := free_count s - 1\<rparr>"
      by (simp add: reserve_page_def bitmap_set_def Let_def)
    then show ?thesis by blast
  next
    case False
    then have "reserve_page a s = s\<lparr>bitmap := bitmap s, free_count := free_count s\<rparr>"
      by (auto simp: reserve_page_def)
    then show ?thesis by blast
  qed
qed

text \<open>
  A reserving loop whose end is not in the last page of the address space returns, and reserves
  exactly the tracked pages of its range.
\<close>

lemma reserve_range_spec:
  assumes "unat e \<le> 18446744073709547520"
  shows "\<exists>t. reserve_range a e s = Some t \<and>
    (\<forall>q. bitmap_test t q \<longleftrightarrow> bitmap_test s q \<or> q \<in> range_pages a e \<inter> tracked) \<and>
    (count_ok s \<longrightarrow> count_ok t) \<and> (\<exists>b c. t = s\<lparr>bitmap := b, free_count := c\<rparr>)"
proof (induction "unat e - unat a" arbitrary: a s rule: less_induct)
  case less
  show ?case
  proof (cases "a < e")
    case False
    have "\<exists>b c. s = s\<lparr>bitmap := b, free_count := c\<rparr>"
      by (rule exI [of _ "bitmap s"], rule exI [of _ "free_count s"]) simp
    with False show ?thesis
      by (subst reserve_range.simps) (simp add: range_pages_empty)
  next
    case True
    let ?t = "reserve_page a s"
    have lt: "unat a < unat e" using True by (simp add: word_less_nat_alt)
    with assms have nw: "unat a + 4096 < 18446744073709551616" by linarith
    then have step: "unat (a + 4096) = unat a + 4096" by (subst unat_add_no_wrap) simp_all
    have "unat e - unat (a + 4096) < unat e - unat a" using lt step by linarith
    from less [OF this, of ?t] obtain t where t:
      "reserve_range (a + 4096) e ?t = Some t"
      "\<And>q. bitmap_test t q \<longleftrightarrow> bitmap_test ?t q \<or> q \<in> range_pages (a + 4096) e \<inter> tracked"
      "count_ok ?t \<longrightarrow> count_ok t" "\<exists>b c. t = ?t\<lparr>bitmap := b, free_count := c\<rparr>"
      by blast
    have "reserve_range a e s = Some t"
      using True t(1) by (subst reserve_range.simps) simp
    moreover have "bitmap_test t q \<longleftrightarrow> bitmap_test s q \<or> q \<in> range_pages a e \<inter> tracked" for q
      unfolding t(2) reserve_page_spec(1) range_pages_step [OF True nw] by blast
    moreover have "\<exists>b c. t = s\<lparr>bitmap := b, free_count := c\<rparr>"
    proof -
      obtain b c b' c' where "t = ?t\<lparr>bitmap := b, free_count := c\<rparr>"
        "?t = s\<lparr>bitmap := b', free_count := c'\<rparr>"
        using t(4) reserve_page_spec(3) [of a s] by blast
      then have "t = s\<lparr>bitmap := b, free_count := c\<rparr>" by simp
      then show ?thesis by blast
    qed
    ultimately show ?thesis using t(3) reserve_page_spec(2) by blast
  qed
qed

lemma find_bitmap_fits:
  "limine_memmap lo es \<Longrightarrow> find_bitmap es \<noteq> 0 \<Longrightarrow>
   \<exists>e \<in> set es. usable e \<and> me_base e \<le> find_bitmap es \<and> 0x100000 \<le> find_bitmap es \<and>
     aligned 4096 (find_bitmap es) \<and>
     unat (find_bitmap es) + 131072 \<le> unat (me_base e) + unat (me_length e)"
proof (induction es arbitrary: lo)
  case (Cons e es)
  define start where "start = (if region_start e < 0x100000 then 0x100000 else region_start e)"
  have fb: "find_bitmap (e # es) =
      (if usable e \<and> \<not> start + 131072 > me_base e + me_length e then start else find_bitmap es)"
    by (simp add: start_def usable_def)
  show ?case
  proof (cases "usable e \<and> \<not> start + 131072 > me_base e + me_length e")
    case False
    with Cons fb show ?thesis by auto
  next
    case True
    then have u: "usable e" by simp
    note r = usable_region [OF u Cons.prems(1)]
    have us: "unat start \<le> unat (me_base e) + 1048576"
      using r(1) by (auto simp: start_def word_less_nat_alt)
    with Cons.prems(1) have "unat (start + 131072) = unat start + 131072"
      by (subst unat_add_no_wrap) auto
    moreover have "unat (me_base e + me_length e) = unat (me_base e) + unat (me_length e)"
      using r(2,3) by simp
    ultimately have "unat start + 131072 \<le> unat (me_base e) + unat (me_length e)"
      using True by (simp add: not_less word_le_nat_alt)
    moreover have "me_base e \<le> start" "0x100000 \<le> start" "aligned 4096 start"
      using r(1,4) by (auto simp: start_def not_less aligned_def)
    ultimately show ?thesis using True fb by auto
  qed
qed simp

definition reserved_pages :: "memmap_entry list \<Rightarrow> u64 \<Rightarrow> u64 \<Rightarrow> u64 set" where
  "reserved_pages mmap kern_phys_start kern_phys_end =
     {0} \<union> range_pages (find_bitmap mmap) (find_bitmap mmap + PMM_BITMAP_BYTES) \<union>
     range_pages kern_phys_start kern_phys_end"

lemma bitmap_fill_tracked: "q \<in> tracked \<Longrightarrow> bitmap_test (bitmap_fill s) q"
  by (rule full_word_used) (simp add: bitmap_fill_def tracked_def tracked_WORD_IDX)

lemma usable_pages_tracked: "usable_pages es \<subseteq> tracked"
  by (auto simp: usable_pages_def region_pages_def)

lemma pmm_init_spec:
  assumes mm: "limine_memmap 0 mmap"
    and bp: "find_bitmap mmap \<noteq> 0"
    and ke: "unat kern_phys_end \<le> 18446744073709547520"
  shows "\<exists>t. pmm_init mmap kern_phys_start kern_phys_end s = Some t \<and> pmm_inv t \<and>
    free_set t = usable_pages mmap - reserved_pages mmap kern_phys_start kern_phys_end \<and>
    unat (total_pages t) = card (usable_pages mmap) \<and>
    bitmap_base t = PHYS_TO_VIRT s (find_bitmap mmap) \<and> mem t = mem s \<and>
    (\<exists>c b a n f. t = s\<lparr>console := c, bitmap := b, bitmap_base := a, total_pages := n, free_count := f\<rparr>)"
proof -
  let ?bp = "find_bitmap mmap"
  define s1 where "s1 = (bitmap_fill (s\<lparr>bitmap_base := PHYS_TO_VIRT s ?bp\<rparr>))
      \<lparr>total_pages := 0, free_count := 0\<rparr>"
  define s2 where "s2 = free_usable mmap s1"
  define s3 where "s3 =
    (if \<not> bitmap_test s2 0 then (bitmap_set 0 s2)\<lparr>free_count := free_count s2 - 1\<rparr> else s2)"
  have t1: "bitmap_test s1 q" if "q \<in> tracked" for q
    using bitmap_fill_tracked [OF that] by (simp add: s1_def)
  have c1: "count_ok s1"
  proof -
    have "free_set s1 = {}" using t1 by (auto simp: free_set_def tracked_def)
    then show ?thesis by (simp add: count_ok_def) (simp add: s1_def)
  qed
  from free_usable_spec [OF mm, of s1] t1 c1 usable_pages_tracked
  have t2: "bitmap_test s2 q \<longleftrightarrow> bitmap_test s1 q \<and> q \<notin> usable_pages mmap"
    and n2: "total_pages s2 = total_pages s1 + of_nat (card (usable_pages mmap))"
    and c2: "count_ok s2"
    and f2: "\<exists>b n c. s2 = s1\<lparr>bitmap := b, total_pages := n, free_count := c\<rparr>" for q
    unfolding s2_def by blast+
  have c3: "count_ok s3"
    using c2 count_ok_set [OF c2, of 0] by (auto simp: s3_def free_set_def)
  have t3: "bitmap_test s3 q \<longleftrightarrow> q = 0 \<or> bitmap_test s2 q" for q
    by (auto simp: s3_def)
  have f3': "\<exists>b c. s3 = s2\<lparr>bitmap := b, free_count := c\<rparr>"
    by (intro exI [of _ "bitmap s3"] exI [of _ "free_count s3"]) (simp add: s3_def bitmap_set_def)
  have f3: "total_pages s3 = total_pages s2" "bitmap_base s3 = bitmap_base s2" "mem s3 = mem s2"
    by (simp_all add: s3_def bitmap_set_def)
  have "unat (?bp + 131072) \<le> 18446744073709547520"
  proof -
    obtain e where "e \<in> set mmap" "unat ?bp + 131072 \<le> unat (me_base e) + unat (me_length e)"
      using find_bitmap_fits [OF mm bp] by blast
    moreover have "e \<in> set es \<Longrightarrow> limine_memmap lo es \<Longrightarrow>
        unat (me_base e) + unat (me_length e) \<le> 4503599627370496" for es lo
      by (induction es arbitrary: lo) auto
    ultimately have "unat ?bp + 131072 \<le> 4503599627370496" using mm by fastforce
    then show ?thesis by (subst unat_add_no_wrap) simp_all
  qed
  from reserve_range_spec [OF this, of ?bp s3] c3 obtain s4 where s4:
    "reserve_range ?bp (?bp + 131072) s3 = Some s4" "count_ok s4"
    "\<And>q. bitmap_test s4 q \<longleftrightarrow> bitmap_test s3 q \<or> q \<in> range_pages ?bp (?bp + 131072) \<inter> tracked"
    "\<exists>b c. s4 = s3\<lparr>bitmap := b, free_count := c\<rparr>" by blast
  from reserve_range_spec [OF ke, of kern_phys_start s4] s4(2) obtain s5 where s5:
    "reserve_range kern_phys_start kern_phys_end s4 = Some s5" "count_ok s5"
    "\<And>q. bitmap_test s5 q \<longleftrightarrow> bitmap_test s4 q \<or>
       q \<in> range_pages kern_phys_start kern_phys_end \<inter> tracked"
    "\<exists>b c. s5 = s4\<lparr>bitmap := b, free_count := c\<rparr>" by blast
  have kinds: "fmt_kinds (''PMM: %u MB free (%u total pages)'' @ nl) =
      Some (map kind_of [VInt (drop_bit 8 (free_count s5)), VInt (total_pages s5)])"
    by (simp add: conv_int_def)
  obtain out where out: "kprintf (''PMM: %u MB free (%u total pages)'' @ nl)
      [VInt (drop_bit 8 (free_count s5)), VInt (total_pages s5)] s5
      = Some (s5\<lparr>console := console s5 @ out\<rparr>)"
    by (rule kprintf_total [OF kinds, of s5])
  let ?t = "s5\<lparr>console := console s5 @ out\<rparr>"
  have "pmm_init mmap kern_phys_start kern_phys_end s =
    do {
      s \<leftarrow> reserve_range ?bp (?bp + 131072) s3;
      s \<leftarrow> reserve_range kern_phys_start kern_phys_end s;
      kprintf (''PMM: %u MB free (%u total pages)'' @ nl)
        [VInt (drop_bit 8 (free_count s)), VInt (total_pages s)] s
    }"
    unfolding pmm_init_def Let_def s3_def s2_def s1_def using bp by (simp split del: if_split)
  then have run: "pmm_init mmap kern_phys_start kern_phys_end s = Some ?t"
    using s4(1) s5(1) out by simp
  have test: "bitmap_test ?t q \<longleftrightarrow> q \<notin> usable_pages mmap \<or>
      q \<in> reserved_pages mmap kern_phys_start kern_phys_end" if "q \<in> tracked" for q
    using that t1 by (simp add: s5(3) s4(3) t3 t2 reserved_pages_def)
  have "free_set ?t = usable_pages mmap - reserved_pages mmap kern_phys_start kern_phys_end"
    using test usable_pages_tracked unfolding free_set_def tracked_def by auto
  moreover have "pmm_inv ?t"
    using s5(2) s5(3) s4(3) t3 by (simp add: pmm_inv_def count_ok_def free_set_def)
  moreover have "total_pages ?t = of_nat (card (usable_pages mmap))" "mem ?t = mem s"
    "bitmap_base ?t = PHYS_TO_VIRT s ?bp"
    using s5(4) s4(4) f3 f2 n2 by (auto simp: s1_def bitmap_fill_def)
  moreover have "\<exists>c b a n f. ?t = s\<lparr>console := c, bitmap := b, bitmap_base := a, total_pages := n, free_count := f\<rparr>"
  proof -
    obtain b2 n2 c2 b3 c3 b4 c4 b5 c5 where
      "s2 = s1\<lparr>bitmap := b2, total_pages := n2, free_count := c2\<rparr>" "s3 = s2\<lparr>bitmap := b3, free_count := c3\<rparr>"
      "s4 = s3\<lparr>bitmap := b4, free_count := c4\<rparr>" "s5 = s4\<lparr>bitmap := b5, free_count := c5\<rparr>"
      using f2 f3' s4(4) s5(4) by blast
    then have "?t = s\<lparr>console := console s5 @ out, bitmap := b5, bitmap_base := PHYS_TO_VIRT s ?bp, total_pages := n2,
        free_count := c5\<rparr>"
      by (simp add: s1_def bitmap_fill_def)
    then show ?thesis by blast
  qed
  moreover have "card (usable_pages mmap) \<le> 1048576"
    using usable_pages_tracked [of mmap] by (intro card_tracked_le) (simp add: tracked_def)
  ultimately show ?thesis using run by (auto simp: unat_of_nat64)
qed

section \<open>How many pages an operation takes\<close>

definition takes :: "nat \<Rightarrow> 'a pmm_scheme \<Rightarrow> 'a pmm_scheme \<Rightarrow> bool" where
  "takes n s t \<longleftrightarrow> card (free_set s) \<le> card (free_set t) + n"

lemma takes_trans: "takes m s t \<Longrightarrow> takes n t u \<Longrightarrow> takes (m + n) s u"
  by (simp add: takes_def)

lemma takes_same: "bitmap t = bitmap s \<Longrightarrow> takes n s t"
  by (simp add: takes_def free_set_def bitmap_test_def)

lemma alloc_takes: "pmm_alloc_page s = (pa, t) \<Longrightarrow> takes 1 s t"
proof (cases s rule: pmm_alloc_page_cases)
  case (page p)
  moreover assume "pmm_alloc_page s = (pa, t)"
  ultimately have "t = take_page p s" by simp
  then have "free_set s \<subseteq> insert p (free_set t)" by (auto simp: free_set_def take_page_def)
  then have "card (free_set s) \<le> card (insert p (free_set t))" by (intro card_mono) simp_all
  also have "\<dots> \<le> card (free_set t) + 1" by (simp add: card_insert_if)
  finally show ?thesis by (simp add: takes_def)
qed (simp add: takes_same)

lemma free_takes: "takes n s t \<Longrightarrow> takes n s (pmm_free_page pa t)"
proof -
  have "free_set t \<subseteq> free_set (pmm_free_page pa t)"
    by (auto simp: free_set_def pmm_free_page_def Let_def)
  then have "card (free_set t) \<le> card (free_set (pmm_free_page pa t))" by (intro card_mono) simp_all
  then show "takes n s t \<Longrightarrow> takes n s (pmm_free_page pa t)" by (simp add: takes_def)
qed

section \<open>Properties\<close>

text \<open>The states and the memory map the witnesses use.\<close>

definition blank_pmm :: pmm where
  "blank_pmm = \<lparr>mem = (\<lambda>_. 0), hhdm_offset = 0xffff800000000000, console = [], port_outs = [],
     port_ins = (\<lambda>_. 0),
     bitmap = (\<lambda>_. - 1), bitmap_base = 0, total_pages = 0, free_count = 0\<rparr>"

definition small_memmap :: "memmap_entry list" where
  "small_memmap = [\<lparr>me_base = 0x100000, me_length = 0x400000, me_type = 0\<rparr>]"

lemma all_pages_used:
  assumes "bitmap s = (\<lambda>_. - 1)" "free_count s = 0"
  shows "bitmap_test s p" "pmm_inv s" "free_set s = {}"
proof -
  have u: "bitmap_test s q" for q using BIT_IDX_lt [of q] by (simp add: bitmap_test_bit assms)
  then show "bitmap_test s p" .
  show "free_set s = {}" by (simp add: free_set_def u)
  then show "pmm_inv s" by (simp add: pmm_inv_def count_ok_def u assms)
qed

text \<open>One free page, number 5.\<close>

lemma one_page_free:
  assumes "bitmap s = (\<lambda>_. - 1)" "free_count s = 0"
  shows "pmm_inv (pmm_free_page 0x5000 s)" "free_set (pmm_free_page 0x5000 s) = {5}"
    "\<exists>t. pmm_alloc_page (pmm_free_page 0x5000 s) = (0x5000, t)"
proof -
  note a = all_pages_used [OF assms]
  have pa: "push_bit 12 (5 :: u64) = 0x5000" by simp
  have u: "0x5000 \<in> used_pages s" using page_in_used_pages [of 5 s] a(1) by simp
  from pmm_free_page_used [OF a(2) u] show "pmm_inv (pmm_free_page 0x5000 s)" by simp
  have d: "drop_bit 12 (0x5000 :: u64) = 5" using page_addr_inverse [of 5] by simp
  show f: "free_set (pmm_free_page 0x5000 s) = {5}"
    using free_set_clear [of 5 s] a(3) by (simp add: pmm_free_page_def d Let_def)
  show "\<exists>t. pmm_alloc_page (pmm_free_page 0x5000 s) = (0x5000, t)"
  proof (cases "pmm_free_page 0x5000 s" rule: pmm_alloc_page_cases)
    case none
    then have "(5 :: u64) \<notin> free_set (pmm_free_page 0x5000 s)" unfolding free_set_def by auto
    then show ?thesis by (simp add: f)
  next
    case (page p)
    then have "p \<in> free_set (pmm_free_page 0x5000 s)" by (simp add: free_set_def)
    then have "p = 5" by (simp add: f)
    with page(1) show ?thesis by simp
  qed
qed

definition one_page_pmm :: pmm where
  "one_page_pmm = pmm_free_page 0x5000 blank_pmm"

lemma one_page_pmm:
  "pmm_inv one_page_pmm" "free_set one_page_pmm = {5}"
  "\<exists>t. pmm_alloc_page one_page_pmm = (0x5000, t)"
  unfolding one_page_pmm_def by (rule one_page_free; simp add: blank_pmm_def)+

text \<open>
  C3: Initialisation.  For every memory map that satisfies what Limine promises and has room for the
  bitmap, \<open>pmm_init\<close> returns; the free pages are then exactly the tracked pages of the usable
  regions minus page 0, the bitmap's own pages and the kernel image; \<open>total_pages\<close> counts the usable
  pages and \<open>free_count\<close> the free ones (part of \<open>pmm_inv\<close>).
\<close>

theorem pmm_init_correct:
  assumes "limine_memmap 0 mmap" "find_bitmap mmap \<noteq> 0" "unat kern_phys_end \<le> 18446744073709547520"
  shows "\<exists>t. pmm_init mmap kern_phys_start kern_phys_end s = Some t \<and> pmm_inv t \<and>
    free_set t = usable_pages mmap - reserved_pages mmap kern_phys_start kern_phys_end \<and>
    unat (total_pages t) = card (usable_pages mmap) \<and>
    bitmap_base t = PHYS_TO_VIRT s (find_bitmap mmap) \<and> mem t = mem s"
  using pmm_init_spec [OF assms] by blast

lemma small_memmap:
  "limine_memmap 0 small_memmap" "find_bitmap small_memmap = 0x100000"
  by (simp_all add: small_memmap_def region_start_def Let_def aligned_def)

theorem pmm_init_correct_witness:
  "\<exists>t. pmm_init small_memmap 0x200000 0x201000 blank_pmm = Some t \<and> pmm_inv t \<and>
    free_set t = usable_pages small_memmap - reserved_pages small_memmap 0x200000 0x201000"
proof -
  have "find_bitmap small_memmap \<noteq> 0" "unat (0x201000 :: u64) \<le> 18446744073709547520"
    by (simp_all add: small_memmap(2))
  from pmm_init_correct [OF small_memmap(1) this] show ?thesis by blast
qed

text \<open>
  The bitmap is placed inside one usable region, above the first megabyte, on a page boundary.
\<close>

lemma find_bitmap_placed:
  assumes "limine_memmap 0 mmap" "find_bitmap mmap \<noteq> 0"
  shows "\<exists>e \<in> set mmap. me_type e = LIMINE_MEMMAP_USABLE \<and> unat (me_base e) \<le> unat (find_bitmap mmap) \<and>
    0x100000 \<le> unat (find_bitmap mmap) \<and> aligned 4096 (find_bitmap mmap) \<and>
    unat (find_bitmap mmap) + unat PMM_BITMAP_BYTES \<le> unat (me_base e) + unat (me_length e)"
proof -
  obtain e where "e \<in> set mmap" "usable e" "me_base e \<le> find_bitmap mmap" "1048576 \<le> find_bitmap mmap"
    "aligned 4096 (find_bitmap mmap)" "unat (find_bitmap mmap) + 131072 \<le> unat (me_base e) + unat (me_length e)"
    using find_bitmap_fits [OF assms] by auto
  then show ?thesis by (intro conjI bexI [of _ e]) (simp_all add: usable_def word_le_nat_alt)
qed

lemma find_bitmap_placed_witness:
  "\<exists>e \<in> set small_memmap. 0x100000 \<le> unat (find_bitmap small_memmap) \<and>
    unat (find_bitmap small_memmap) + 131072 \<le> unat (me_base e) + unat (me_length e)"
  using find_bitmap_placed [OF small_memmap(1)] small_memmap(2) by auto

text \<open>
  Allocation.  \<open>pmm_alloc_page\<close> returns 0 and changes nothing exactly when no page is free;
  otherwise it takes the lowest free page, never page 0, and the counter goes down by one.
\<close>

lemma pmm_alloc_page_lowest:
  assumes "pmm_inv s"
  shows "pmm_alloc_page s = (0, s) \<and> free_set s = {} \<or>
    (\<exists>p t. pmm_alloc_page s = (push_bit 12 p, t) \<and> push_bit 12 p \<noteq> 0 \<and> p \<in> free_set s \<and>
      (\<forall>q \<in> free_set s. p \<le> q) \<and> free_set t = free_set s - {p} \<and>
      free_count t = free_count s - 1 \<and> pmm_inv t)"
proof (cases s rule: pmm_alloc_page_cases)
  case none
  then show ?thesis by (auto simp: free_set_def)
next
  case (page p)
  then have p: "p \<in> free_set s" by (simp add: free_set_def)
  then have "card (free_set s) > 0" by (auto simp: card_gt_0_iff)
  then have "free_count s > 0"
    using count_ok_unat [of s] assms by (simp add: pmm_inv_def word_less_nat_alt)
  moreover have "p \<noteq> 0" using page assms by (auto simp: pmm_inv_def)
  then have "push_bit 12 p \<noteq> 0" using page(2) by (simp add: page_addr_eq_0)
  ultimately show ?thesis
    using page p assms pmm_inv_take_page [OF assms page(2,3)]
    by (intro disjI2 exI [of _ p] exI [of _ "take_page p s"]) (auto simp: take_page_def free_set_def)
qed

lemma pmm_alloc_page_lowest_witness:
  "\<exists>t. pmm_alloc_page one_page_pmm = (0x5000, t) \<and> free_set t = {}"
  using pmm_alloc_page_lowest [OF one_page_pmm(1)] by (auto simp: one_page_pmm(2))

text \<open>
  C13: No page is handed out twice.  In every run of allocations and frees of a client that frees only
  pages it holds, the pages in hand are distinct, none is page 0, and none was in use before the run;
  every page in use by somebody else stays in use.
\<close>

theorem pmm_no_double_handout:
  assumes "pmm_inv s" "run_ops pmm_alloc_page pmm_free_page ops ([], s) = (held, t)"
  shows "distinct held \<and> 0 \<notin> set held \<and> set held \<inter> used_pages s = {} \<and>
    used_pages t = used_pages s \<union> set held \<and> pmm_inv t"
proof -
  have "pmm_inv t \<and> distinct held \<and> set held \<subseteq> used_pages t \<and> 0 \<notin> set held \<and>
      used_pages t - set held = used_pages s - set []"
    using pmm.run_ops_distinct [OF assms(1) _ _ _ assms(2)] by simp
  then show ?thesis by auto
qed

theorem pmm_no_double_handout_witness:
  "let (held, t) = run_ops pmm_alloc_page pmm_free_page [PgAlloc, PgFree 0x5000, PgAlloc, PgAlloc] ([], one_page_pmm)
   in distinct held \<and> set held \<inter> used_pages one_page_pmm = {}"
proof -
  obtain held t where r: "run_ops pmm_alloc_page pmm_free_page [PgAlloc, PgFree 0x5000, PgAlloc, PgAlloc]
      ([], one_page_pmm) = (held, t)" by (cases "run_ops pmm_alloc_page pmm_free_page
        [PgAlloc, PgFree 0x5000, PgAlloc, PgAlloc] ([], one_page_pmm)")
  from pmm_no_double_handout [OF one_page_pmm(1) r] show ?thesis unfolding r by simp
qed

text \<open>
  A page that is allocated and freed again leaves the allocator as it was: the same free pages and
  the same count.
\<close>

lemma pmm_alloc_free_roundtrip:
  assumes "pmm_inv s" "pmm_alloc_page s = (pa, t)" "pa \<noteq> 0"
  shows "free_set (pmm_free_page pa t) = free_set s \<and> free_count (pmm_free_page pa t) = free_count s"
  by (rule pmm_alloc_free_restores [OF assms])

lemma pmm_alloc_free_roundtrip_witness:
  "free_set (pmm_free_page 0x5000 (snd (pmm_alloc_page one_page_pmm))) = {5}"
proof -
  obtain t where "pmm_alloc_page one_page_pmm = (0x5000, t)" using one_page_pmm(3) by blast
  then show ?thesis
    using pmm_alloc_free_roundtrip [OF one_page_pmm(1)] by (simp add: one_page_pmm(2))
qed

text \<open>
  Freeing a page that is already free is not detected: the page stays free, but the counter no
  longer agrees with the bitmap.
\<close>

lemma pmm_double_free_breaks_count:
  assumes "pmm_inv s" "p \<in> free_set s"
  shows "free_set (pmm_free_page (push_bit 12 p) s) = free_set s \<and>
    free_count (pmm_free_page (push_bit 12 p) s) = free_count s + 1 \<and>
    \<not> pmm_inv (pmm_free_page (push_bit 12 p) s)"
proof -
  have p: "p < 1048576" "p \<noteq> 0" using assms by (auto simp: free_set_def pmm_inv_def)
  have f: "pmm_free_page (push_bit 12 p) s = (bitmap_clear p s)\<lparr>free_count := free_count s + 1\<rparr>"
    using p by (simp add: pmm_free_page_def page_addr_inverse Let_def bitmap_clear_def)
  have "free_set (bitmap_clear p s) = free_set s" using free_set_clear [OF p(1)] assms(2) by auto
  with assms(1) show ?thesis by (simp add: f pmm_inv_def count_ok_def)
qed

lemma pmm_double_free_breaks_count_witness:
  "\<not> pmm_inv (pmm_free_page (push_bit 12 5) one_page_pmm)"
proof -
  have "5 \<in> free_set one_page_pmm" by (simp add: one_page_pmm(2))
  from pmm_double_free_breaks_count [OF one_page_pmm(1) this] show ?thesis by simp
qed

end
