(* ===== verification/Kstring.thy ===== *)
theory Kstring
  imports Memory
begin

text \<open>
  \<^verbatim>\<open>libkern/string.c\<close>: \<open>kmemset\<close>, \<open>kmemcpy\<close>, \<open>kstrlen\<close> and \<open>kstrcmp\<close> over the byte memory,
  each with the closed form of its loop.  \<open>kstrlen\<close> and \<open>kstrcmp\<close> run until they meet a NUL
  byte, so they are partial: \<open>None\<close> means the loop never ends.
\<close>

section \<open>kmemset and kmemcpy\<close>

text \<open>
  \<^verbatim>\<open>while (n--) *p++ = (unsigned char)c;\<close>  The loop counts \<open>n\<close> down to 0, so it ends after \<open>n\<close>
  iterations.  Both routines return \<open>dst\<close>, which no caller uses; the model returns the memory.
\<close>

function kmemset :: "addr \<Rightarrow> u32 \<Rightarrow> u64 \<Rightarrow> memory \<Rightarrow> memory" where
  "kmemset dst c n m =
     (if n = 0 then m else kmemset (dst + 1) c (n - 1) (m(dst := ucast c)))"
  by pat_completeness auto
termination
  by (relation "measure (\<lambda>(dst, c, n, m). unat n)") (auto simp: measure_unat)

function kmemcpy :: "addr \<Rightarrow> addr \<Rightarrow> u64 \<Rightarrow> memory \<Rightarrow> memory" where
  "kmemcpy dst src n m =
     (if n = 0 then m else kmemcpy (dst + 1) (src + 1) (n - 1) (m(dst := m src)))"
  by pat_completeness auto
termination
  by (relation "measure (\<lambda>(dst, src, n, m). unat n)") (auto simp: measure_unat)

declare kmemset.simps [simp del] kmemcpy.simps [simp del]

lemma shift_less_iff:
  assumes "(n :: u64) \<noteq> 0" "d \<noteq> 0"
  shows "d - 1 < n - 1 \<longleftrightarrow> d < n"
  using assms unat_minus_one [of n] unat_minus_one [of d]
  by (auto simp: word_less_nat_alt unat_gt_0 [symmetric] simp del: unat_gt_0)

lemma kmemset_apply: "kmemset p c n m b = (if b - p < n then ucast c else m b)"
proof (induction p c n m rule: kmemset.induct)
  case (1 p c n m)
  show ?case
  proof (cases "n = 0")
    case True
    then show ?thesis by (simp add: kmemset.simps)
  next
    case False
    have step: "kmemset p c n m b =
        (if b - (p + 1) < n - 1 then ucast c else (m(p := ucast c)) b)"
      using False "1.IH" by (subst kmemset.simps) (simp del: fun_upd_apply)
    show ?thesis
    proof (cases "b = p")
      case True
      with False show ?thesis unfolding step by (simp add: word_gt_0)
    next
      case nb: False
      have "b - (p + 1) < n - 1 \<longleftrightarrow> b - p < n"
        using shift_less_iff [OF False, of "b - p"] nb by (simp add: algebra_simps)
      with nb show ?thesis by (simp add: step)
    qed
  qed
qed

text \<open>
  A copy whose target does not reach into the source behaves as a simultaneous copy.
\<close>

lemma kmemcpy_apply:
  assumes "\<And>i j. i < n \<Longrightarrow> j < n \<Longrightarrow> dst + i \<noteq> src + j"
  shows "kmemcpy dst src n m b = (if b - dst < n then m (src + (b - dst)) else m b)"
  using assms
proof (induction dst src n m rule: kmemcpy.induct)
  case (1 dst src n m)
  show ?case
  proof (cases "n = 0")
    case True
    then show ?thesis by (simp add: kmemcpy.simps)
  next
    case False
    have lt: "i + 1 < n" if "i < n - 1" for i
    proof -
      have "i \<noteq> - 1"
      proof
        assume "i = - 1"
        then have "unat i = 18446744073709551615"
          by (simp add: unsigned_minus_1_eq_mask mask_eq_exp_minus_1)
        then show False
          using that unat_lt_64 [of "n - 1"] unfolding word_less_nat_alt by linarith
      qed
      then have "i + 1 \<noteq> 0" by (simp add: eq_neg_iff_add_eq_0)
      then show ?thesis using shift_less_iff [OF False, of "i + 1"] that by simp
    qed
    have "dst + 1 + i \<noteq> src + 1 + j" if "i < n - 1" "j < n - 1" for i j
      using "1.prems" [OF lt [OF that(1)] lt [OF that(2)]] by (simp add: algebra_simps)
    then have step: "kmemcpy dst src n m b =
        (if b - (dst + 1) < n - 1 then (m(dst := m src)) (src + 1 + (b - (dst + 1)))
         else (m(dst := m src)) b)"
      using False "1.IH" by (subst kmemcpy.simps) (simp del: fun_upd_apply)
    show ?thesis
    proof (cases "b = dst")
      case True
      with False show ?thesis
        using "1.prems" unfolding step by (auto simp: word_gt_0)
    next
      case nb: False
      have eq: "b - (dst + 1) < n - 1 \<longleftrightarrow> b - dst < n"
        using shift_less_iff [OF False, of "b - dst"] nb by (simp add: algebra_simps)
      have "src + (b - dst) \<noteq> dst" if "b - dst < n"
        using "1.prems" [of 0 "b - dst"] that False by (auto simp: word_gt_0)
      with nb show ?thesis unfolding step eq by (auto simp: algebra_simps)
    qed
  qed
qed


section \<open>Filling with a word\<close>

lemma aligned_offset_less:
  assumes "aligned 8 d" "aligned 8 n" "k < 8"
  shows "d + of_nat k < n \<longleftrightarrow> d < n"
proof -
  obtain x where x: "unat d = 8 * x" using assms(1) by (auto simp: aligned_def mod_eq_0_iff_dvd)
  obtain y where y: "unat n = 8 * y" using assms(2) by (auto simp: aligned_def mod_eq_0_iff_dvd)
  have uk: "unat (of_nat k :: u64) = k" using assms(3) by (simp add: unat_of_nat64)
  have "8 * x < 18446744073709551616" using unat_lt_64 [of d] unfolding x .
  then have "x < 2305843009213693952" by linarith
  then have "unat d + unat (of_nat k :: u64) < 18446744073709551616"
    using assms(3) unfolding uk x by linarith
  then have "unat (d + of_nat k) = 8 * x + k"
    by (subst unat_add_no_wrap) (simp_all add: uk x)
  then show ?thesis using assms(3) unfolding word_less_nat_alt x y by auto
qed

lemma load64_kmemset_0:
  assumes "aligned 8 p" "aligned 8 a" "aligned 8 n"
  shows "load64 (kmemset p 0 n m) a = (if a - p < n then 0 else load64 m a)"
proof -
  have d: "aligned 8 (a - p)" using assms by (simp add: aligned_sub)
  have in_iff: "a + of_nat k - p < n \<longleftrightarrow> a - p < n" if "k < 8" for k
    using aligned_offset_less [OF d assms(3) that] by (simp add: algebra_simps)
  show ?thesis
  proof (cases "a - p < n")
    case True
    have "load64 (kmemset p 0 n m) a = load_bytes (\<lambda>_. 0) a 8"
      unfolding load64_def by (rule load_bytes_cong) (simp add: kmemset_apply in_iff True)
    also have "\<dots> = 0" by (rule bit_word_eqI) (simp add: bit_load_bytes)
    finally show ?thesis using True by simp
  next
    case False
    then show ?thesis
      unfolding load64_def by (auto intro!: load_bytes_cong simp: kmemset_apply in_iff)
  qed
qed

text \<open>The one size the page allocator's clients use: a whole page.\<close>

lemma load64_zero_page [mem_simps]:
  assumes "aligned 4096 p" "aligned 8 a"
  shows "load64 (kmemset p 0 4096 m) a = (if page_of a = p then 0 else load64 m a)"
proof -
  have "aligned 8 p" by (rule aligned_weaken [OF _ assms(1)]) simp
  moreover have "aligned 8 4096" by (simp add: aligned_def)
  ultimately show ?thesis
    using assms(2) by (simp add: load64_kmemset_0 page_of_iff [OF assms(1)])
qed

section \<open>kstrlen and kstrcmp\<close>

partial_function (option) kstrlen_loop :: "memory \<Rightarrow> addr \<Rightarrow> u64 \<Rightarrow> u64 option" where
  "kstrlen_loop m s n = (if m s = 0 then Some n else kstrlen_loop m (s + 1) (n + 1))"

definition kstrlen :: "memory \<Rightarrow> addr \<Rightarrow> u64 option" where
  "kstrlen m s = kstrlen_loop m s 0"

text \<open>The difference of the first bytes that differ, as \<open>int\<close>.\<close>

partial_function (option) kstrcmp :: "memory \<Rightarrow> addr \<Rightarrow> addr \<Rightarrow> int option" where
  "kstrcmp m a b =
     (if m a \<noteq> 0 \<and> m a = m b then kstrcmp m (a + 1) (b + 1)
      else Some (uint (m a) - uint (m b)))"

text \<open>The NUL-terminated string stored at an address.\<close>

fun c_str :: "memory \<Rightarrow> addr \<Rightarrow> u8 list \<Rightarrow> bool" where
  "c_str m a [] \<longleftrightarrow> m a = 0"
| "c_str m a (c # cs) \<longleftrightarrow> c \<noteq> 0 \<and> m a = c \<and> c_str m (a + 1) cs"

lemma kstrlen_loop_c_str:
  "c_str m s cs \<Longrightarrow> kstrlen_loop m s n = Some (n + of_nat (length cs))"
  by (induction cs arbitrary: s n) (simp_all add: kstrlen_loop.simps algebra_simps)

lemma kstrlen_c_str: "c_str m s cs \<Longrightarrow> kstrlen m s = Some (of_nat (length cs))"
  by (simp add: kstrlen_def kstrlen_loop_c_str)

text \<open>The order \<open>strcmp\<close> decides: by unsigned bytes, a proper prefix first.\<close>

fun bytes_cmp :: "u8 list \<Rightarrow> u8 list \<Rightarrow> int" where
  "bytes_cmp [] [] = 0"
| "bytes_cmp [] (y # ys) = - uint y"
| "bytes_cmp (x # xs) [] = uint x"
| "bytes_cmp (x # xs) (y # ys) = (if x = y then bytes_cmp xs ys else uint x - uint y)"

lemma kstrcmp_bytes_cmp:
  "c_str m a xs \<Longrightarrow> c_str m b ys \<Longrightarrow> kstrcmp m a b = Some (bytes_cmp xs ys)"
proof (induction xs ys arbitrary: a b rule: bytes_cmp.induct)
  case (4 x xs y ys)
  then show ?case by (subst kstrcmp.simps) auto
qed (subst kstrcmp.simps, auto)+

lemma bytes_cmp_eq_0: "0 \<notin> set xs \<Longrightarrow> 0 \<notin> set ys \<Longrightarrow> bytes_cmp xs ys = 0 \<longleftrightarrow> xs = ys"
  by (induction xs ys rule: bytes_cmp.induct) (auto simp: uint_0_iff dest: word_uint_eq_iff [THEN iffD2])

lemma c_str_nonzero: "c_str m a cs \<Longrightarrow> 0 \<notin> set cs"
  by (induction cs arbitrary: a) auto

section \<open>Properties\<close>

text \<open>
  On NUL-terminated strings \<open>kstrlen\<close> returns the length, and \<open>kstrcmp\<close> returns the difference
  of the first bytes that differ, which is 0 exactly for equal strings.
\<close>

lemma kstrcmp_correct:
  assumes "c_str m a xs" "c_str m b ys"
  shows "kstrlen m a = Some (of_nat (length xs)) \<and> kstrcmp m a b = Some (bytes_cmp xs ys) \<and>
    (kstrcmp m a b = Some 0 \<longleftrightarrow> xs = ys)"
  using assms bytes_cmp_eq_0 [of xs ys] c_str_nonzero [of m a xs] c_str_nonzero [of m b ys]
  by (simp add: kstrlen_c_str kstrcmp_bytes_cmp)

lemma kstrcmp_correct_witness:
  "kstrcmp ((\<lambda>_. 0)(16 := 97, 17 := 98, 32 := 97)) 16 32 = Some 98"
  using kstrcmp_correct [of "(\<lambda>_. 0)(16 := 97, 17 := 98, 32 := 97)" 16 "[97, 98]" 32 "[97]"] by simp

text \<open>
  \<open>kmemcpy\<close> between ranges that do not overlap copies every byte of the source and changes nothing
  else; \<open>kmemset\<close> writes exactly its range.
\<close>

lemma kmemcpy_correct:
  assumes "\<And>i j. i < n \<Longrightarrow> j < n \<Longrightarrow> dst + i \<noteq> src + j"
  shows "(\<forall>k. k < n \<longrightarrow> kmemcpy dst src n m (dst + k) = m (src + k)) \<and>
    (\<forall>b. \<not> b - dst < n \<longrightarrow> kmemcpy dst src n m b = m b) \<and>
    (\<forall>b. kmemset dst c n m b = (if b - dst < n then ucast c else m b))"
  by (simp add: kmemcpy_apply [OF assms] kmemset_apply)

lemma kmemcpy_correct_witness:
  "kmemcpy 100 10 4 (\<lambda>a. ucast a) 102 = 12"
proof -
  have sep: "100 + i \<noteq> 10 + j" if "i < 4" "j < 4" for i j :: u64
  proof
    assume "100 + i = 10 + j"
    then have "unat (100 + i) = unat (10 + j)" by (rule arg_cong)
    moreover have "unat (100 + i) = 100 + unat i" "unat (10 + j) = 10 + unat j"
      using that by (simp_all add: unat_add_no_wrap word_less_nat_alt)
    ultimately show False using that by (simp add: word_less_nat_alt)
  qed
  have "\<forall>k. k < 4 \<longrightarrow> kmemcpy 100 10 4 (\<lambda>a. ucast a) (100 + k) = ucast (10 + k)"
    using kmemcpy_correct [of 4 100 10 "\<lambda>a. ucast a" 0, OF sep] by blast
  from this [rule_format, of 2] show ?thesis by simp
qed

end
