(* ===== verification/Zalloc.thy ===== *)
theory Zalloc
  imports Pmm Kstring
begin

text \<open>
  \<^verbatim>\<open>vm/zalloc.c\<close>: zones of fixed-size kernel objects.

  A \<open>zone_t\<close> is a pointer into the static array \<open>zone_store\<close>: \<open>None\<close> is \<open>ZONE_NULL\<close>, \<open>Some i\<close> is
  \<open>&zone_store[i]\<close>.  Free elements are linked through their first word, in \<open>mem\<close>, exactly as the
  code links them.  \<open>zalloc\<close> and \<open>zfree\<close> are \<open>None\<close> where the C code dereferences a null pointer.
\<close>

section \<open>State and operations\<close>

record zone =
  zname :: string
  elem_size :: u64
  max_size :: u64
  cur_size :: u64
  free_list :: addr
  count_free :: u32
  count_alloc :: u32

record zones = pmm +
  zone_store :: "nat \<Rightarrow> zone"
  zone_count :: nat

type_synonym zone_t = "nat option"

definition ZONE_NULL :: zone_t where [simp]: "ZONE_NULL = None"
definition ZONE_MAX :: nat where [simp]: "ZONE_MAX = 32"

definition upd_zone :: "nat \<Rightarrow> (zone \<Rightarrow> zone) \<Rightarrow> 'a zones_scheme \<Rightarrow> 'a zones_scheme" where
  "upd_zone z f s = s\<lparr>zone_store := (zone_store s)(z := f (zone_store s z))\<rparr>"

definition round_elem :: "u64 \<Rightarrow> u64" where
  "round_elem esz = (let esz = (if esz < 8 then 8 else esz) in (esz + (8 - 1)) AND NOT (8 - 1))"

definition zinit ::
  "string \<Rightarrow> u64 \<Rightarrow> u64 \<Rightarrow> 'a zones_scheme \<Rightarrow> (zone_t \<times> 'a zones_scheme) option" where
  "zinit nm esz max_sz s =
     (if zone_count s \<ge> ZONE_MAX then do {
        s \<leftarrow> kprintf (''ZONE: zinit: zone table full'' @ nl) [] s;
        Some (ZONE_NULL, s)
      }
      else
        let z = zone_count s;
            s = s\<lparr>zone_count := zone_count s + 1\<rparr>;
            s = upd_zone z (\<lambda>_. \<lparr>zname = nm, elem_size = round_elem esz, max_size = max_sz, cur_size = 0,
                  free_list = 0, count_free = 0, count_alloc = 0\<rparr>) s
        in Some (Some z, s))"

text \<open>The loop that threads the elements of a new page onto the free list.\<close>

function grow_loop :: "nat \<Rightarrow> addr \<Rightarrow> u64 \<Rightarrow> u64 \<Rightarrow> 'a zones_scheme \<Rightarrow> 'a zones_scheme" where
  "grow_loop z page i n s =
     (if i < n then
        let elem = page + i * elem_size (zone_store s z);
            s = s\<lparr>mem := store64 (mem s) elem (free_list (zone_store s z))\<rparr>;
            s = upd_zone z (\<lambda>zn. zn\<lparr>free_list := elem, count_free := count_free zn + 1\<rparr>) s
        in grow_loop z page (i + 1) n s
      else s)"
  by pat_completeness auto

lemma unat_incr_less: "i < n \<Longrightarrow> unat (i + 1 :: u64) = Suc (unat i)"
proof -
  assume "i < n"
  then have "unat i < unat n" by (simp add: word_less_nat_alt)
  then have "unat i + 1 < 18446744073709551616" using unat_lt_64 [of n] by linarith
  then show ?thesis by (subst unat_add_no_wrap) simp_all
qed

termination grow_loop
  by (relation "measure (\<lambda>(z, page, i, n, s). unat n - unat i)")
    (auto simp: unat_incr_less, simp add: word_less_nat_alt diff_less_mono2)

declare grow_loop.simps [simp del]

definition zone_grow :: "nat \<Rightarrow> 'a zones_scheme \<Rightarrow> int \<times> 'a zones_scheme" where
  "zone_grow z s =
     (if max_size (zone_store s z) \<noteq> 0 \<and> cur_size (zone_store s z) \<ge> max_size (zone_store s z)
      then (-1, s)
      else case pmm_alloc_page s of (paddr, s) \<Rightarrow>
        if paddr = PMM_NULL then (-1, s)
        else
          let page = PHYS_TO_VIRT s paddr;
              n = PMM_PAGE_SIZE div elem_size (zone_store s z);
              s = grow_loop z page 0 n s;
              s = upd_zone z (\<lambda>zn. zn\<lparr>cur_size := cur_size zn + PMM_PAGE_SIZE\<rparr>) s
          in (0, s))"

definition zalloc :: "zone_t \<Rightarrow> 'a zones_scheme \<Rightarrow> (addr \<times> 'a zones_scheme) option" where
  "zalloc zt s =
     (case zt of
        None \<Rightarrow> None
      | Some z \<Rightarrow>
          (case (if free_list (zone_store s z) = 0 then zone_grow z s else (0, s)) of
             (err, s) \<Rightarrow>
               if err \<noteq> 0 then Some (0, s)
               else
                 let elem = free_list (zone_store s z) in
                 if elem = 0 then None
                 else
                   let s = upd_zone z (\<lambda>zn. zn\<lparr>free_list := load64 (mem s) elem,
                             count_free := count_free zn - 1, count_alloc := count_alloc zn + 1\<rparr>) s;
                       s = s\<lparr>mem := kmemset elem 0 (elem_size (zone_store s z)) (mem s)\<rparr>
                   in Some (elem, s)))"

definition zfree :: "zone_t \<Rightarrow> addr \<Rightarrow> 'a zones_scheme \<Rightarrow> 'a zones_scheme option" where
  "zfree zt elem s =
     (case zt of
        None \<Rightarrow> None
      | Some z \<Rightarrow>
          if elem = 0 then None
          else
            let s = s\<lparr>mem := store64 (mem s) elem (free_list (zone_store s z))\<rparr>
            in Some (upd_zone z (\<lambda>zn. zn\<lparr>free_list := elem, count_free := count_free zn + 1,
                       count_alloc := count_alloc zn - 1\<rparr>) s))"

section \<open>Element sizes\<close>

lemma unat_and_not_7: "unat (x AND NOT 7 :: u64) = unat x - unat x mod 8"
proof -
  have eq: "(x AND NOT 7) + (x AND 7) = x"
  proof -
    have "(x AND NOT 7) + (x AND 7) = (x AND NOT 7) OR (x AND 7)"
      by (rule disjunctive_add_eq_or) (rule bit_word_eqI, auto simp: bit_simps)
    also have "\<dots> = x" by (rule bit_word_eqI) (auto simp: bit_simps)
    finally show ?thesis .
  qed
  have "x AND 7 = take_bit 3 x" by (simp add: take_bit_eq_mask mask_eq_exp_minus_1)
  then have "unat (x AND 7) = take_bit 3 (unat x)" by (simp only: unsigned_take_bit_eq)
  then have u: "unat (x AND 7) = unat x mod 8" by (simp add: take_bit_eq_mod)
  have "x AND NOT 7 = x - (x AND 7)" using eq by (metis add_diff_cancel_right')
  moreover have "x AND 7 \<le> x" by (rule word_and_le2)
  ultimately show ?thesis by (simp add: unat_sub u)
qed

text \<open>\<open>zinit\<close> rounds the size up to a multiple of 8 that is at least 8.\<close>

lemma round_elem_spec:
  assumes "unat esz \<le> 4096"
  shows "aligned 8 (round_elem esz)" "8 \<le> unat (round_elem esz)" "unat (round_elem esz) \<le> 4096"
    "unat esz \<le> unat (round_elem esz)" "unat (round_elem esz) < unat esz + 8 \<or> unat (round_elem esz) = 8"
proof -
  define m where "m = (if esz < 8 then 8 else esz)"
  have m: "8 \<le> unat m" "unat m \<le> 4096" "unat esz \<le> unat m" "unat m = unat esz \<or> unat m = 8"
    using assms by (auto simp: m_def word_less_nat_alt)
  have "unat (m + 7) = unat m + 7" using m(2) by (subst unat_add_no_wrap) simp_all
  moreover have "round_elem esz = (m + 7) AND NOT 7"
    by (simp add: round_elem_def m_def)
  ultimately have r: "unat (round_elem esz) = (unat m + 7) - (unat m + 7) mod 8"
    by (simp only: unat_and_not_7)
  show "aligned 8 (round_elem esz)" unfolding aligned_def r by (simp add: minus_mod_eq_mult_div)
  obtain k d where kd: "unat m + 7 = 8 * k + d" "d < 8"
    using div_mult_mod_eq [of "unat m + 7" 8] mod_less_divisor [of 8 "unat m + 7"]
    by (metis mult.commute zero_less_numeral)
  have "unat (round_elem esz) = 8 * k" unfolding r kd using kd(2) by simp
  with m kd show "8 \<le> unat (round_elem esz)" "unat (round_elem esz) \<le> 4096"
    "unat esz \<le> unat (round_elem esz)" "unat (round_elem esz) < unat esz + 8 \<or> unat (round_elem esz) = 8"
    by presburger+
qed

section \<open>Slots\<close>

text \<open>
  \<open>zone_grow\<close> cuts a page into \<open>4096 div e\<close> slots of \<open>e\<close> bytes.  Every byte of a slot determines
  the page and the index of the slot, so different slots share no byte.
\<close>

definition elem_ok :: "u64 \<Rightarrow> bool" where
  "elem_ok e \<longleftrightarrow> aligned 8 e \<and> 8 \<le> unat e \<and> unat e \<le> 4096"

definition slot :: "u64 \<Rightarrow> addr \<Rightarrow> nat \<Rightarrow> addr" where
  "slot e pg k = pg + of_nat k * e"

definition slots :: "u64 \<Rightarrow> addr \<Rightarrow> addr set" where
  "slots e pg = slot e pg ` {..<4096 div unat e}"

lemma slot_offset:
  assumes "elem_ok e" "k < 4096 div unat e"
  shows "unat (slot e pg k - pg) = k * unat e" "k * unat e + unat e \<le> 4096"
proof -
  have "Suc k * unat e \<le> (4096 div unat e) * unat e" using assms(2) by (intro mult_le_mono1) simp
  also have "\<dots> \<le> 4096" by (rule div_times_less_eq_dividend)
  finally show le: "k * unat e + unat e \<le> 4096" by (simp add: add.commute)
  have k: "k \<le> 4096" using assms(2) div_le_dividend [of 4096 "unat e"] by linarith
  have "unat (of_nat k * e) = k * unat e"
    using le k by (simp add: unat_word_ariths unat_of_nat64)
  then show "unat (slot e pg k - pg) = k * unat e" by (simp add: slot_def)
qed

lemma slot_aligned:
  assumes "elem_ok e" "k < 4096 div unat e" "aligned 4096 pg"
  shows "aligned 8 (slot e pg k)"
proof -
  have "aligned 8 (slot e pg k - pg)"
    using assms(1) by (simp add: aligned_def slot_offset [OF assms(1,2)] elem_ok_def mod_mult_right_eq [symmetric])
  moreover have "aligned 8 pg" by (rule aligned_weaken [OF _ assms(3)]) simp
  ultimately have "aligned 8 ((slot e pg k - pg) + pg)" by (intro aligned_add) simp_all
  then show ?thesis by simp
qed

lemma slot_byte:
  assumes "elem_ok e" "k < 4096 div unat e" "aligned 4096 pg" "b - slot e pg k < e"
  shows "page_of b = pg" "unat (b - pg) div unat e = k"
proof -
  define d where "d = unat (b - slot e pg k)"
  have d: "d < unat e" using assms(4) by (simp add: d_def word_less_nat_alt)
  note so = slot_offset(1) [OF assms(1,2), of pg] slot_offset(2) [OF assms(1,2)]
  have "b - pg = (slot e pg k - pg) + (b - slot e pg k)" by simp
  then have u: "unat (b - pg) = k * unat e + d"
    using so d by (simp only: d_def) (subst unat_add_no_wrap, simp_all)
  then have "b - pg < 4096" using so(2) d by (simp add: word_less_nat_alt)
  then show "page_of b = pg" by (simp add: page_of_iff [OF assms(3)])
  show "unat (b - pg) div unat e = k" using d by (simp add: u)
qed

lemma slot_first_byte: "elem_ok e \<Longrightarrow> x - x < e"
  by (auto simp: elem_ok_def word_less_nat_alt)

lemma slot_page_of:
  assumes "elem_ok e" "k < 4096 div unat e" "aligned 4096 pg"
  shows "page_of (slot e pg k) = pg"
  using slot_byte [OF assms slot_first_byte [OF assms(1)]] by simp

lemma slot_inj:
  assumes "elem_ok e" "k < 4096 div unat e" "j < 4096 div unat e" "aligned 4096 pg"
    "slot e pg j = slot e pg k"
  shows "j = k"
  using slot_byte(2) [OF assms(1,2,4) slot_first_byte [OF assms(1)]]
    slot_byte(2) [OF assms(1,3,4) slot_first_byte [OF assms(1)]] assms(5) by simp

lemma slots_page_of: "elem_ok e \<Longrightarrow> aligned 4096 pg \<Longrightarrow> x \<in> slots e pg \<Longrightarrow> page_of x = pg"
  by (auto simp: slots_def slot_page_of)

lemma slots_aligned: "elem_ok e \<Longrightarrow> aligned 4096 pg \<Longrightarrow> x \<in> slots e pg \<Longrightarrow> aligned 8 x"
  by (auto simp: slots_def slot_aligned)

text \<open>The elements of a zone whose pages are \<open>P\<close>.\<close>

definition zone_slots :: "u64 \<Rightarrow> addr set \<Rightarrow> addr set" where
  "zone_slots e P = (\<Union>pg \<in> P. slots e pg)"

lemma slot_bytes_in_page:
  assumes "elem_ok e" "\<forall>pg \<in> P. aligned 4096 pg" "x \<in> zone_slots e P" "b - x < e"
  shows "page_of b = page_of x" "page_of b \<in> P"
proof -
  obtain pg k where x: "x = slot e pg k" "k < 4096 div unat e" "pg \<in> P"
    using assms(3) by (auto simp: zone_slots_def slots_def)
  then have "aligned 4096 pg" using assms(2) by simp
  then have "page_of b = pg" "page_of x = pg"
    using slot_byte(1) [OF assms(1) x(2)] slot_page_of [OF assms(1) x(2)] x(1) assms(4) by simp_all
  with x(3) show "page_of b = page_of x" "page_of b \<in> P" by simp_all
qed

lemma slots_disjoint_bytes:
  assumes "elem_ok e" "\<forall>pg \<in> P. aligned 4096 pg" "x \<in> zone_slots e P" "y \<in> zone_slots e P"
    "b - x < e" "b - y < e"
  shows "x = y"
proof -
  obtain pg k where x: "x = slot e pg k" "k < 4096 div unat e" "pg \<in> P"
    using assms(3) by (auto simp: zone_slots_def slots_def)
  obtain pg' k' where y: "y = slot e pg' k'" "k' < 4096 div unat e" "pg' \<in> P"
    using assms(4) by (auto simp: zone_slots_def slots_def)
  from x y assms(2) have a: "aligned 4096 pg" "aligned 4096 pg'" by simp_all
  have "page_of b = pg" "unat (b - pg) div unat e = k"
    using slot_byte [OF assms(1) x(2) a(1)] assms(5) by (simp_all add: x(1))
  moreover have "page_of b = pg'" "unat (b - pg') div unat e = k'"
    using slot_byte [OF assms(1) y(2) a(2)] assms(6) by (simp_all add: y(1))
  ultimately show ?thesis using x y by simp
qed

section \<open>Free lists\<close>

fun flist :: "memory \<Rightarrow> addr \<Rightarrow> addr list \<Rightarrow> bool" where
  "flist m p [] \<longleftrightarrow> p = 0"
| "flist m p (x # xs) \<longleftrightarrow> p = x \<and> x \<noteq> 0 \<and> flist m (load64 m x) xs"

lemma flist_cong:
  "flist m p xs \<Longrightarrow> (\<And>x. x \<in> set xs \<Longrightarrow> load64 m' x = load64 m x) \<Longrightarrow> flist m' p xs"
  by (induction xs arbitrary: p) auto

lemma flist_store:
  assumes "flist m p xs" "aligned 8 a" "a \<notin> set xs" "\<forall>x \<in> set xs. aligned 8 x"
  shows "flist (store64 m a v) p xs"
  using assms by (intro flist_cong [OF assms(1)] load64_store64_other) auto

lemma flist_push:
  assumes "flist m p xs" "aligned 8 a" "a \<noteq> 0" "a \<notin> set xs" "\<forall>x \<in> set xs. aligned 8 x"
  shows "flist (store64 m a p) a (a # xs)"
  using assms by (simp add: load64_store64_same flist_store)

lemma flist_unique: "flist m p xs \<Longrightarrow> flist m p ys \<Longrightarrow> xs = ys"
  by (induction xs arbitrary: p ys; case_tac ys) auto

text \<open>\<open>zone_grow\<close>'s loop pushes the slots of the page one by one.\<close>

lemma store64_page_of:
  assumes "aligned 8 a" "page_of b \<noteq> page_of a"
  shows "store64 m a v b = m b"
proof (rule store64_other_byte, rule ccontr)
  define p where "p = page_of a"
  have p: "aligned 4096 p" by (simp add: p_def)
  assume "\<not> 8 \<le> unat (b - a)"
  then have d: "unat (b - a) < 8" by simp
  have ap: "a - p < 4096" using page_of_iff [OF p, of a] by (simp add: p_def)
  then have u: "unat (a - p) < 4096" by (simp add: word_less_nat_alt)
  have "aligned 8 p" by (rule aligned_weaken [OF _ p]) simp
  then have "aligned 8 (a - p)" using assms(1) by (intro aligned_sub) simp_all
  with u obtain j where j: "unat (a - p) = 8 * j" "j < 512"
    by (auto simp: aligned_def mod_eq_0_iff_dvd elim: dvdE)
  have "unat (b - p) = unat (a - p) + unat (b - a)"
    using d u by (subst unat_add_no_wrap [symmetric]) simp_all
  then have "b - p < 4096" using d j by (simp add: word_less_nat_alt)
  then show False using assms(2) by (simp add: page_of_iff [OF p]) (simp add: p_def)
qed

lemma grow_loop_spec:
  assumes "elem_ok e" "aligned 4096 pg" "pg \<noteq> 0" "N = 4096 div unat e"
  shows "i \<le> N \<Longrightarrow> elem_size (zone_store s z) = e \<Longrightarrow> flist (mem s) (free_list (zone_store s z)) xs \<Longrightarrow>
    \<forall>x \<in> set xs. aligned 8 x \<and> x \<notin> slot e pg ` {i..<N} \<Longrightarrow>
    \<exists>m fl. grow_loop z pg (of_nat i) (of_nat N) s =
        s\<lparr>mem := m, zone_store := (zone_store s)(z := (zone_store s z)\<lparr>free_list := fl,
           count_free := count_free (zone_store s z) + of_nat (N - i)\<rparr>)\<rparr> \<and>
      flist m fl (rev (map (slot e pg) [i..<N]) @ xs) \<and> (\<forall>b. page_of b \<noteq> pg \<longrightarrow> m b = mem s b)"
proof (induction "N - i" arbitrary: i s xs)
  case 0
  then have "i = N" by simp
  then show ?case using "0.prems"
    by (subst grow_loop.simps) (auto intro!: exI [of _ "mem s"] exI [of _ "free_list (zone_store s z)"])
next
  case (Suc d)
  have N: "N \<le> 4096" using assms(4) div_le_dividend [of 4096 "unat e"] by simp
  have i: "i < N" using Suc.hyps(2) by simp
  then have iw: "(of_nat i :: u64) < of_nat N" using N by (simp add: word_less_nat_alt unat_of_nat64)
  define a where "a = slot e pg i"
  have a: "aligned 8 a" "page_of a = pg" using assms i by (simp_all add: a_def slot_aligned slot_page_of)
  have a0: "a \<noteq> 0"
  proof
    assume "a = 0"
    then have "pg = page_of 0" using a(2) by simp
    then show False using assms(3) by (simp add: page_of_def)
  qed
  define zn where "zn = (zone_store s z)\<lparr>free_list := a, count_free := count_free (zone_store s z) + 1\<rparr>"
  define s' where "s' = s\<lparr>mem := store64 (mem s) a (free_list (zone_store s z)),
     zone_store := (zone_store s)(z := zn)\<rparr>"
  have step: "grow_loop z pg (of_nat i) (of_nat N) s = grow_loop z pg (of_nat (Suc i)) (of_nat N) s'"
    using iw by (subst grow_loop.simps)
      (simp add: s'_def zn_def a_def slot_def Suc.prems(2) upd_zone_def Let_def add.commute)
  have anx: "a \<notin> set xs" using Suc.prems(4) i by (auto simp: a_def)
  have fl: "flist (mem s') (free_list (zone_store s' z)) (a # xs)"
    using flist_push [OF Suc.prems(3) a(1) a0 anx] Suc.prems(4) by (simp add: s'_def zn_def)
  have xs': "\<forall>x \<in> set (a # xs). aligned 8 x \<and> x \<notin> slot e pg ` {Suc i..<N}"
  proof (intro ballI conjI)
    fix x assume x: "x \<in> set (a # xs)"
    then show "aligned 8 x" using a(1) Suc.prems(4) by auto
    show "x \<notin> slot e pg ` {Suc i..<N}"
    proof
      assume "x \<in> slot e pg ` {Suc i..<N}"
      then obtain j where j: "Suc i \<le> j" "j < N" "x = slot e pg j" by auto
      show False
      proof (cases "x = a")
        case True
        then have "slot e pg j = slot e pg i" using j by (simp add: a_def)
        then have "j = i" using slot_inj [of e i j pg] assms i j by simp
        with j show False by simp
      next
        case False
        with x j Suc.prems(4) show False by auto
      qed
    qed
  qed
  obtain m fl where IH: "grow_loop z pg (of_nat (Suc i)) (of_nat N) s' =
        s'\<lparr>mem := m, zone_store := (zone_store s')(z := (zone_store s' z)\<lparr>free_list := fl,
           count_free := count_free (zone_store s' z) + of_nat (N - Suc i)\<rparr>)\<rparr>"
      "flist m fl (rev (map (slot e pg) [Suc i..<N]) @ a # xs)"
      "\<forall>b. page_of b \<noteq> pg \<longrightarrow> m b = mem s' b"
  proof -
    have "d = N - Suc i" "Suc i \<le> N" "elem_size (zone_store s' z) = e"
      using Suc.hyps(2) i Suc.prems(2) by (auto simp: s'_def zn_def)
    from Suc.hyps(1) [OF this fl xs'] show ?thesis by (elim exE conjE) (rule that)
  qed
  have cnt: "(1 :: u32) + of_nat (N - Suc i) = of_nat (N - i)"
    using i by (simp add: Suc_diff_Suc [symmetric])
  have "[i..<N] = i # [Suc i..<N]" using i by (rule upt_conv_Cons)
  then show ?case
    unfolding step IH(1) using IH(2,3) cnt
    by (intro exI [of _ m] exI [of _ fl])
      (auto simp: s'_def zn_def a_def [symmetric] add.assoc store64_page_of a)
qed

section \<open>The invariant of the zones\<close>

text \<open>
  \<open>hhdm_ok\<close> states what Limine guarantees of the direct map: its offset is page aligned and the
  4 GB the page allocator tracks do not wrap around.  The pages of the zones are direct-map
  addresses of pages in use.
\<close>

definition hhdm_ok :: "'a machine_scheme \<Rightarrow> bool" where
  "hhdm_ok s \<longleftrightarrow> aligned 4096 (hhdm_offset s) \<and> unat (hhdm_offset s) \<le> 18446744069414584320"

definition direct_pages :: "'a pmm_scheme \<Rightarrow> addr set" where
  "direct_pages s = PHYS_TO_VIRT s ` (used_pages s - {0})"

lemma used_page_bounds: "pa \<in> used_pages s \<Longrightarrow> aligned 4096 pa \<and> unat pa < 4294967296"
  by (auto simp: used_pages_def aligned_page_addr unat_page_addr word_less_nat_alt)

lemma direct_page:
  assumes "hhdm_ok s" "aligned 4096 pa" "unat pa < 4294967296" "pa \<noteq> 0"
  shows "aligned 4096 (PHYS_TO_VIRT s pa)" "PHYS_TO_VIRT s pa \<noteq> 0"
proof -
  show "aligned 4096 (PHYS_TO_VIRT s pa)"
    using assms by (simp add: PHYS_TO_VIRT_def hhdm_ok_def aligned_add)
  have "unat (PHYS_TO_VIRT s pa) = unat pa + unat (hhdm_offset s)"
    using assms(1,3) unfolding PHYS_TO_VIRT_def hhdm_ok_def by (subst unat_add_no_wrap) linarith+
  moreover have "unat pa \<noteq> 0" using assms(4) by (simp add: unat_eq_0)
  ultimately have "unat (PHYS_TO_VIRT s pa) \<noteq> 0" by linarith
  then show "PHYS_TO_VIRT s pa \<noteq> 0" by auto
qed

lemma direct_pages_ok:
  assumes "hhdm_ok s" "pg \<in> direct_pages s"
  shows "aligned 4096 pg \<and> pg \<noteq> 0"
proof -
  obtain pa where "pg = PHYS_TO_VIRT s pa" "pa \<in> used_pages s" "pa \<noteq> 0"
    using assms(2) by (auto simp: direct_pages_def)
  with used_page_bounds [of pa s] direct_page [OF assms(1), of pa] show ?thesis by simp
qed

lemma card_direct_pages:
  assumes "P \<subseteq> direct_pages s"
  shows "card P \<le> 1048576"
proof -
  define Q :: "u64 set" where "Q = {p. p < 1048576}"
  have "P \<subseteq> (\<lambda>p. PHYS_TO_VIRT s (push_bit 12 p)) ` Q"
    using assms by (auto simp: direct_pages_def used_pages_def Q_def)
  then have "card P \<le> card ((\<lambda>p. PHYS_TO_VIRT s (push_bit 12 p)) ` Q)" by (intro card_mono) simp_all
  also have "\<dots> \<le> card Q" by (rule card_image_le) simp
  also have "\<dots> \<le> 1048576" by (rule card_tracked_le) (simp add: Q_def)
  finally show ?thesis .
qed

text \<open>Zone \<open>i\<close> owns the pages \<open>P\<close> and has the elements \<open>xs\<close> free; the other slots are live.\<close>

definition live :: "u64 \<Rightarrow> addr set \<Rightarrow> addr list \<Rightarrow> addr set" where
  "live e P xs = zone_slots e P - set xs"

definition zone_ok :: "'a zones_scheme \<Rightarrow> nat \<Rightarrow> addr set \<Rightarrow> addr list \<Rightarrow> bool" where
  "zone_ok s i P xs \<longleftrightarrow>
     (let z = zone_store s i; e = elem_size z in
      elem_ok e \<and> flist (mem s) (free_list z) xs \<and> distinct xs \<and> set xs \<subseteq> zone_slots e P \<and>
      count_free z = of_nat (length xs) \<and> count_alloc z = of_nat (card (live e P xs)) \<and>
      cur_size z = of_nat (4096 * card P) \<and>
      (max_size z \<noteq> 0 \<longrightarrow> 4096 * card P < unat (max_size z) + 4096))"

definition zones_rep ::
  "(nat \<Rightarrow> addr set) \<Rightarrow> (nat \<Rightarrow> addr list) \<Rightarrow> 'a zones_scheme \<Rightarrow> bool" where
  "zones_rep P F s \<longleftrightarrow> pmm_inv s \<and> hhdm_ok s \<and> zone_count s \<le> ZONE_MAX \<and>
     (\<forall>i < zone_count s. zone_ok s i (P i) (F i) \<and> P i \<subseteq> direct_pages s) \<and>
     (\<forall>i < zone_count s. \<forall>j < zone_count s. i \<noteq> j \<longrightarrow> P i \<inter> P j = {})"

text \<open>The live elements of zone \<open>i\<close>.\<close>

definition zone_live :: "(nat \<Rightarrow> addr set) \<Rightarrow> (nat \<Rightarrow> addr list) \<Rightarrow> 'a zones_scheme \<Rightarrow> nat \<Rightarrow> addr set" where
  "zone_live P F s i = live (elem_size (zone_store s i)) (P i) (F i)"

lemma zone_ok_cong:
  assumes "zone_ok s i P xs" "zone_store t i = zone_store s i"
    "\<And>b x. x \<in> set xs \<Longrightarrow> b - x < elem_size (zone_store s i) \<Longrightarrow> mem t b = mem s b"
  shows "zone_ok t i P xs"
proof -
  have "load64 (mem t) x = load64 (mem s) x" if x: "x \<in> set xs" for x
  proof -
    have e: "8 \<le> unat (elem_size (zone_store s i))" using assms(1) by (simp add: zone_ok_def Let_def elem_ok_def)
    have "mem t (x + of_nat k) = mem s (x + of_nat k)" if "k < 8" for k
    proof (rule assms(3) [OF x])
      have "of_nat k < elem_size (zone_store s i)" using that e by (subst of_nat_less_word64) linarith+
      then show "x + of_nat k - x < elem_size (zone_store s i)" by (simp only: add_diff_cancel_left')
    qed
    then show ?thesis unfolding load64_def by (intro load_bytes_cong) simp
  qed
  moreover have "flist (mem s) (free_list (zone_store s i)) xs"
    using assms(1) unfolding zone_ok_def Let_def by blast
  ultimately have "flist (mem t) (free_list (zone_store s i)) xs" by (rule flist_cong [rotated])
  with assms(1) show ?thesis unfolding zone_ok_def Let_def assms(2) by blast
qed

lemma zones_rep_pages:
  assumes "zones_rep P F s" "i < zone_count s"
  shows "\<forall>pg \<in> P i. aligned 4096 pg" "\<forall>pg \<in> P i. pg \<noteq> 0"
proof -
  have "hhdm_ok s" "P i \<subseteq> direct_pages s" using assms by (auto simp: zones_rep_def)
  then show "\<forall>pg \<in> P i. aligned 4096 pg" "\<forall>pg \<in> P i. pg \<noteq> 0"
    using direct_pages_ok [of s] by auto
qed

lemma zones_rep_elem: "zones_rep P F s \<Longrightarrow> i < zone_count s \<Longrightarrow> elem_ok (elem_size (zone_store s i))"
  by (simp add: zones_rep_def zone_ok_def Let_def)

lemma zones_rep_free_subset:
  "zones_rep P F s \<Longrightarrow> i < zone_count s \<Longrightarrow> x \<in> set (F i) \<Longrightarrow>
   x \<in> zone_slots (elem_size (zone_store s i)) (P i)"
  by (auto simp: zones_rep_def zone_ok_def Let_def)

text \<open>Slots of different zones share no byte, nor do different slots of one zone.\<close>

lemma zones_rep_disjoint:
  assumes "zones_rep P F s" "i < zone_count s" "j < zone_count s"
    "x \<in> zone_slots (elem_size (zone_store s i)) (P i)"
    "y \<in> zone_slots (elem_size (zone_store s j)) (P j)"
    "b - x < elem_size (zone_store s i)" "b - y < elem_size (zone_store s j)"
  shows "i = j \<and> x = y"
proof (cases "i = j")
  case True
  with assms show ?thesis
    using slots_disjoint_bytes [OF zones_rep_elem [OF assms(1,2)] zones_rep_pages(1) [OF assms(1,2)]]
    by simp
next
  case False
  have "page_of b \<in> P i"
    by (rule slot_bytes_in_page [OF zones_rep_elem [OF assms(1,2)] zones_rep_pages(1) [OF assms(1,2)]
          assms(4,6)])
  moreover have "page_of b \<in> P j"
    by (rule slot_bytes_in_page [OF zones_rep_elem [OF assms(1,3)] zones_rep_pages(1) [OF assms(1,3)]
          assms(5,7)])
  ultimately show ?thesis using False assms(1,2,3) unfolding zones_rep_def by blast
qed

lemma zone_slot_nonzero:
  assumes "zones_rep P F s" "i < zone_count s" "x \<in> zone_slots (elem_size (zone_store s i)) (P i)"
  shows "x \<noteq> 0" "aligned 8 x"
proof -
  note e = zones_rep_elem [OF assms(1,2)]
  have "page_of x \<in> P i"
    by (rule slot_bytes_in_page(2) [OF e zones_rep_pages(1) [OF assms(1,2)] assms(3) slot_first_byte [OF e]])
  then have "page_of x \<noteq> 0" using zones_rep_pages(2) [OF assms(1,2)] by auto
  then show "x \<noteq> 0" by (auto simp: page_of_def)
  show "aligned 8 x"
    using assms(3) zones_rep_pages(1) [OF assms(1,2)] by (auto simp: zone_slots_def intro: slots_aligned [OF e])
qed

section \<open>Growing a zone\<close>

lemma zone_slots_insert: "zone_slots e (insert pg P) = slots e pg \<union> zone_slots e P"
  by (simp add: zone_slots_def)

lemma zone_slots_new_page:
  assumes "elem_ok e" "\<forall>pg \<in> P. aligned 4096 pg" "aligned 4096 pg" "pg \<notin> P"
  shows "slots e pg \<inter> zone_slots e P = {}"
  using assms by (auto simp: zone_slots_def dest: slots_page_of)

lemma distinct_slots:
  assumes "elem_ok e" "aligned 4096 pg"
  shows "distinct (rev (map (slot e pg) [0..<4096 div unat e]))"
  using assms by (auto simp: distinct_map intro!: inj_onI intro: slot_inj)

lemma set_slots: "set (rev (map (slot e pg) [0..<4096 div unat e])) = slots e pg"
  by (auto simp: slots_def lessThan_atLeast0)

definition grown_list :: "u64 \<Rightarrow> addr \<Rightarrow> addr list" where
  "grown_list e pg = rev (map (slot e pg) [0..<4096 div unat e])"

lemma grown_list:
  assumes "elem_ok e" "aligned 4096 pg"
  shows "distinct (grown_list e pg)" "set (grown_list e pg) = slots e pg" "grown_list e pg \<noteq> []"
    "length (grown_list e pg) = 4096 div unat e"
proof -
  show "distinct (grown_list e pg)" unfolding grown_list_def using assms by (rule distinct_slots)
  show "set (grown_list e pg) = slots e pg" unfolding grown_list_def by (rule set_slots)
  have "0 < 4096 div unat e" using assms(1) by (simp add: elem_ok_def div_greater_zero_iff)
  then show "grown_list e pg \<noteq> []" by (simp add: grown_list_def)
  show "length (grown_list e pg) = 4096 div unat e" by (simp add: grown_list_def)
qed

text \<open>What a fresh page does to the pages the zones own.\<close>

lemma fresh_direct_page:
  assumes "zones_rep P F s" "pmm_alloc_page s = (pa, t)" "pa \<noteq> 0"
  shows "aligned 4096 (PHYS_TO_VIRT s pa)" "PHYS_TO_VIRT s pa \<noteq> 0"
    "\<And>i. i < zone_count s \<Longrightarrow> PHYS_TO_VIRT s pa \<notin> P i"
    "pmm_inv t" "direct_pages t = insert (PHYS_TO_VIRT s pa) (direct_pages s)"
proof -
  have inv: "pmm_inv s" "hhdm_ok s" using assms(1) by (simp_all add: zones_rep_def)
  note f = pmm_alloc_page_fresh [OF inv(1) assms(2,3)]
  obtain b c where t: "t = s\<lparr>bitmap := b, free_count := c\<rparr>" by (rule pmm_alloc_page_frame [OF assms(2)])
  have pt: "PHYS_TO_VIRT t = PHYS_TO_VIRT s" by (rule ext) (simp add: PHYS_TO_VIRT_def t)
  have b: "aligned 4096 pa" "unat pa < 4294967296"
    using f used_page_bounds [of pa t] by auto
  show "aligned 4096 (PHYS_TO_VIRT s pa)" "PHYS_TO_VIRT s pa \<noteq> 0"
    using direct_page [OF inv(2) b assms(3)] by simp_all
  show "pmm_inv t" using f by simp
  have "PHYS_TO_VIRT s pa \<notin> direct_pages s" using f by (auto simp: direct_pages_def)
  then show "\<And>i. i < zone_count s \<Longrightarrow> PHYS_TO_VIRT s pa \<notin> P i"
    using assms(1) by (auto simp: zones_rep_def)
  show "direct_pages t = insert (PHYS_TO_VIRT s pa) (direct_pages s)"
    using f assms(3) by (auto simp: direct_pages_def pt)
qed

lemma zone_grow_full:
  assumes "pmm_inv s" "zone_grow i s = (-1, t)"
  shows "t = s"
  using assms(2) pmm_alloc_page_full [OF assms(1)]
  by (auto simp: zone_grow_def Let_def split: prod.splits if_splits)

lemma zone_grow_cases:
  assumes rep: "zones_rep P F s" and i: "i < zone_count s"
  obtains (full) "zone_grow i s = (-1, s)"
      "pmm_alloc_page s = (0, s) \<or>
       max_size (zone_store s i) \<noteq> 0 \<and> max_size (zone_store s i) \<le> cur_size (zone_store s i)"
  | (page) pa u where "zone_grow i s =
        (0, upd_zone i (\<lambda>zn. zn\<lparr>cur_size := cur_size zn + PMM_PAGE_SIZE\<rparr>)
              (grow_loop i (PHYS_TO_VIRT s pa) 0 (PMM_PAGE_SIZE div elem_size (zone_store s i)) u))"
      "pmm_alloc_page s = (pa, u)" "pa \<noteq> 0"
      "max_size (zone_store s i) \<noteq> 0 \<longrightarrow> cur_size (zone_store s i) < max_size (zone_store s i)"
proof (cases "max_size (zone_store s i) \<noteq> 0 \<and> max_size (zone_store s i) \<le> cur_size (zone_store s i)")
  case True
  then show ?thesis by (intro full) (simp_all add: zone_grow_def)
next
  case False
  obtain pa u where a: "pmm_alloc_page s = (pa, u)" by (cases "pmm_alloc_page s")
  obtain b c where u: "u = s\<lparr>bitmap := b, free_count := c\<rparr>" by (rule pmm_alloc_page_frame [OF a])
  show ?thesis
  proof (cases "pa = 0")
    case True
    have "u = s" using pmm_alloc_page_full [of s u] a True rep by (simp add: zones_rep_def)
    with True False a show ?thesis by (intro full) (auto simp: zone_grow_def)
  next
    case pa: False
    show ?thesis
    proof (rule page [OF _ a pa])
      show "zone_grow i s =
        (0, upd_zone i (\<lambda>zn. zn\<lparr>cur_size := cur_size zn + PMM_PAGE_SIZE\<rparr>)
              (grow_loop i (PHYS_TO_VIRT s pa) 0 (PMM_PAGE_SIZE div elem_size (zone_store s i)) u))"
        using False a pa by (auto simp: zone_grow_def Let_def u PHYS_TO_VIRT_def)
      show "max_size (zone_store s i) \<noteq> 0 \<longrightarrow> cur_size (zone_store s i) < max_size (zone_store s i)"
        using False by auto
    qed
  qed
qed

lemma slots_per_page: "(4096 :: u64) div e = of_nat (4096 div unat e)"
proof (rule word64_eqI)
  have "4096 div unat e < 18446744073709551616" using div_le_dividend [of 4096 "unat e"] by linarith
  then have "unat (of_nat (4096 div unat e) :: u64) = 4096 div unat e" by (rule unat_of_nat64)
  then show "unat ((4096 :: u64) div e) = unat (of_nat (4096 div unat e) :: u64)"
    by (simp only: unat_div unat_numeral) simp
qed

lemma live_grown:
  assumes "elem_ok e" "\<forall>pg \<in> P. aligned 4096 pg" "aligned 4096 pg" "pg \<notin> P"
  shows "live e (insert pg P) (grown_list e pg) = live e P []"
  using zone_slots_new_page [OF assms] grown_list(2) [OF assms(1,3)]
  by (auto simp: live_def zone_slots_insert)

lemma zone_ok_grown:
  assumes ok: "zone_ok s i P []" and e: "elem_size (zone_store s i) = e"
    and P: "\<forall>pg \<in> P. aligned 4096 pg" "card P \<le> 1048576"
    and pg: "aligned 4096 pg" "pg \<notin> P"
    and room: "max_size (zone_store s i) \<noteq> 0 \<longrightarrow> cur_size (zone_store s i) < max_size (zone_store s i)"
    and t: "zone_store t i = (zone_store s i)\<lparr>free_list := fl,
              count_free := of_nat (4096 div unat e), cur_size := cur_size (zone_store s i) + 4096\<rparr>"
    and fl: "flist (mem t) fl (grown_list e pg)"
  shows "zone_ok t i (insert pg P) (grown_list e pg)"
proof -
  have eok: "elem_ok e" using ok e by (simp add: zone_ok_def Let_def)
  note g = grown_list [OF eok pg(1)]
  have card: "card (insert pg P) = Suc (card P)" using pg(2) by simp
  have cur: "cur_size (zone_store s i) = of_nat (4096 * card P)"
    using ok unfolding zone_ok_def Let_def by blast
  then have ucur: "unat (cur_size (zone_store s i)) = 4096 * card P"
    using P(2) by (simp add: unat_of_nat64 del: of_nat_mult)
  have "max_size (zone_store s i) \<noteq> 0 \<longrightarrow> 4096 * card (insert pg P) < unat (max_size (zone_store s i)) + 4096"
    using room by (simp add: card word_less_nat_alt ucur)
  moreover have "cur_size (zone_store s i) + 4096 = of_nat (4096 * card (insert pg P))"
    by (simp add: cur card)
  moreover have "count_alloc (zone_store s i) = of_nat (card (live e (insert pg P) (grown_list e pg)))"
    using ok unfolding zone_ok_def Let_def e live_grown [OF eok P(1) pg] by blast
  ultimately show ?thesis
    using eok g fl by (simp add: zone_ok_def Let_def t e zone_slots_insert)
qed

lemma zone_grow_spec:
  assumes rep: "zones_rep P F s" and i: "i < zone_count s" and empty: "F i = []"
  obtains (full) "zone_grow i s = (-1, s)"
      "pmm_alloc_page s = (0, s) \<or>
       max_size (zone_store s i) \<noteq> 0 \<and> max_size (zone_store s i) \<le> cur_size (zone_store s i)"
  | (page) t pg where "zone_grow i s = (0, t)" "pg \<notin> direct_pages s"
      "zones_rep (P(i := insert pg (P i))) (F(i := grown_list (elem_size (zone_store s i)) pg)) t"
      "zone_count t = zone_count s" "\<And>j. elem_size (zone_store t j) = elem_size (zone_store s j)"
      "\<And>b. page_of b \<noteq> pg \<Longrightarrow> mem t b = mem s b" "aligned 4096 pg"
      "direct_pages t = insert pg (direct_pages s)"
      "\<exists>m b c zs. t = s\<lparr>mem := m, bitmap := b, free_count := c, zone_store := zs\<rparr>"
proof (cases rule: zone_grow_cases [OF rep i])
  case 1
  then show ?thesis by (rule full)
next
  case (2 pa u)
  define pg where "pg = PHYS_TO_VIRT s pa"
  define e where "e = elem_size (zone_store s i)"
  note fr = fresh_direct_page [OF rep 2(2,3), folded pg_def]
  note eok = zones_rep_elem [OF rep i, folded e_def]
  obtain b c where u: "u = s\<lparr>bitmap := b, free_count := c\<rparr>" by (rule pmm_alloc_page_frame [OF 2(2)])
  have ok: "zone_ok s i (P i) []" "P i \<subseteq> direct_pages s" using rep i empty by (auto simp: zones_rep_def)
  have "flist (mem u) (free_list (zone_store u i)) []"
    using ok(1) by (simp add: zone_ok_def Let_def u)
  from grow_loop_spec [where i = 0 and z = i and s = u, OF eok fr(1,2) refl _ _ this]
  obtain m fl where g: "grow_loop i pg 0 (of_nat (4096 div unat e)) u =
        u\<lparr>mem := m, zone_store := (zone_store u)(i := (zone_store u i)\<lparr>free_list := fl,
           count_free := count_free (zone_store u i) + of_nat (4096 div unat e)\<rparr>)\<rparr>"
      "flist m fl (grown_list e pg)" "\<forall>b. page_of b \<noteq> pg \<longrightarrow> m b = mem u b"
    by (auto simp: u e_def grown_list_def)
  have cf: "count_free (zone_store s i) = 0" using ok(1) by (simp add: zone_ok_def Let_def)
  define t where "t = u\<lparr>mem := m, zone_store := (zone_store u)(i := (zone_store u i)\<lparr>free_list := fl,
           count_free := of_nat (4096 div unat e), cur_size := cur_size (zone_store u i) + 4096\<rparr>)\<rparr>"
  have dt: "direct_pages t = direct_pages u"
    by (simp add: direct_pages_def t_def PHYS_TO_VIRT_def used_pages_def bitmap_test_def)
  have eq: "zone_grow i s = (0, t)"
    unfolding 2(1) using g(1) cf
    by (simp add: pg_def e_def slots_per_page t_def u upd_zone_def)
  show ?thesis
  proof (rule page [OF eq])
    show "pg \<notin> direct_pages s"
    proof -
      have "pa \<notin> used_pages s" using pmm_alloc_page_fresh [OF _ 2(2,3)] rep by (simp add: zones_rep_def)
      then show ?thesis by (auto simp: pg_def direct_pages_def)
    qed
    show "zone_count t = zone_count s" by (simp add: t_def u)
    show "elem_size (zone_store t j) = elem_size (zone_store s j)" for j by (simp add: t_def u)
    show "mem t b = mem s b" if "page_of b \<noteq> pg" for b using g(3) that by (simp add: t_def u)
    show "aligned 4096 pg" by (rule fr(1))
    have "t = s\<lparr>mem := mem t, bitmap := bitmap t, free_count := free_count t, zone_store := zone_store t\<rparr>"
      by (simp add: t_def u)
    then show "\<exists>m b c zs. t = s\<lparr>mem := m, bitmap := b, free_count := c, zone_store := zs\<rparr>" by blast
    show dir: "direct_pages t = insert pg (direct_pages s)" using fr(5) by (simp add: dt)
    have oki: "zone_ok t i (insert pg (P i)) (grown_list e pg)"
      using ok zones_rep_pages(1) [OF rep i] card_direct_pages [OF ok(2)] fr(1,3) i 2(4) g(2)
      by (intro zone_ok_grown [OF ok(1)]) (simp_all add: t_def u e_def)
    have okj: "zone_ok t j (P j) (F j)" if j: "j < zone_count s" "j \<noteq> i" for j
    proof (rule zone_ok_cong)
      show "zone_ok s j (P j) (F j)" using rep j by (simp add: zones_rep_def)
      show "zone_store t j = zone_store s j" using j by (simp add: t_def u)
      fix b x assume "x \<in> set (F j)" "b - x < elem_size (zone_store s j)"
      then have "page_of b \<in> P j"
        using slot_bytes_in_page(2) [OF zones_rep_elem [OF rep j(1)] zones_rep_pages(1) [OF rep j(1)]
            zones_rep_free_subset [OF rep j(1)]] by blast
      then have "page_of b \<noteq> pg" using fr(3) [OF j(1)] by auto
      then show "mem t b = mem s b" using g(3) by (simp add: t_def u)
    qed
    have inv: "pmm_inv t" "hhdm_ok t" "zone_count t \<le> 32"
      using fr(4) rep by (simp_all add: zones_rep_def hhdm_ok_def t_def u pmm_inv_def count_ok_def
          free_set_def bitmap_test_def)
    have cnt: "zone_count t = zone_count s" by (simp add: t_def u)
    have "P j \<subseteq> direct_pages s" if "j < zone_count s" for j using rep that by (simp add: zones_rep_def)
    moreover have "P j \<inter> P k = {}" if "j < zone_count s" "k < zone_count s" "j \<noteq> k" for j k
      using rep that by (simp add: zones_rep_def)
    ultimately show "zones_rep (P(i := insert pg (P i))) (F(i := grown_list (elem_size (zone_store s i)) pg)) t"
      unfolding zones_rep_def cnt dir using inv oki okj fr(3) i by (auto simp: e_def cnt)
  qed
qed

section \<open>Taking an element and giving it back\<close>

text \<open>The part of \<open>zalloc\<close> after the free list is known to be non-empty.\<close>

definition zpop :: "nat \<Rightarrow> addr \<Rightarrow> 'a zones_scheme \<Rightarrow> 'a zones_scheme" where
  "zpop i x s =
     (let s' = upd_zone i (\<lambda>zn. zn\<lparr>free_list := load64 (mem s) x,
                 count_free := count_free zn - 1, count_alloc := count_alloc zn + 1\<rparr>) s
      in s'\<lparr>mem := kmemset x 0 (elem_size (zone_store s i)) (mem s)\<rparr>)"

lemma zpop_frame: "\<exists>m b c zs. zpop i x s = s\<lparr>mem := m, bitmap := b, free_count := c, zone_store := zs\<rparr>"
proof -
  have "zpop i x s = s\<lparr>mem := mem (zpop i x s), bitmap := bitmap s, free_count := free_count s,
      zone_store := zone_store (zpop i x s)\<rparr>"
    by (simp add: zpop_def upd_zone_def)
  then show ?thesis by blast
qed

lemma zalloc_pop:
  assumes "free_list (zone_store s i) \<noteq> 0"
  shows "zalloc (Some i) s = Some (free_list (zone_store s i), zpop i (free_list (zone_store s i)) s)"
  using assms by (simp add: zalloc_def zpop_def upd_zone_def Let_def)

lemma zalloc_grow:
  assumes "free_list (zone_store s i) = 0" "zone_grow i s = (0, t)" "free_list (zone_store t i) \<noteq> 0"
  shows "zalloc (Some i) s = zalloc (Some i) t"
  using assms by (simp add: zalloc_def)

lemma zalloc_full:
  assumes "free_list (zone_store s i) = 0" "zone_grow i s = (-1, t)"
  shows "zalloc (Some i) s = Some (0, t)"
  using assms by (simp add: zalloc_def)

lemma live_insert:
  assumes "distinct (x # xs)" "set (x # xs) \<subseteq> zone_slots e P"
  shows "live e P xs = insert x (live e P (x # xs))" "x \<notin> live e P (x # xs)"
  using assms by (auto simp: live_def)

lemma zone_ok_pop:
  assumes ok: "zone_ok s i P (x # xs)" and P: "\<forall>pg \<in> P. aligned 4096 pg"
  shows "zone_ok (zpop i x s) i P xs"
proof -
  define e where "e = elem_size (zone_store s i)"
  have eok: "elem_ok e" and d: "distinct (x # xs)" "set (x # xs) \<subseteq> zone_slots e P"
    and fl: "flist (mem s) (load64 (mem s) x) xs"
    and cf: "count_free (zone_store s i) = of_nat (length (x # xs))"
    and ca: "count_alloc (zone_store s i) = of_nat (card (live e P (x # xs)))"
    using ok unfolding zone_ok_def Let_def e_def by (auto simp del: of_nat_Suc)
  have x8: "aligned 8 y" if "y \<in> set (x # xs)" for y
  proof -
    have "y \<in> zone_slots e P" using d(2) that by blast
    then show ?thesis using P by (auto simp: zone_slots_def intro: slots_aligned [OF eok])
  qed
  have "load64 (kmemset x 0 e (mem s)) y = load64 (mem s) y" if y: "y \<in> set xs" for y
  proof -
    have "\<not> y - x < e"
    proof
      assume "y - x < e"
      then have "x = y"
        using slots_disjoint_bytes [OF eok P, of x y y] d(2) y slot_first_byte [OF eok] by auto
      then show False using d(1) y by simp
    qed
    then show ?thesis
      using x8 y eok by (simp add: load64_kmemset_0 elem_ok_def)
  qed
  then have "flist (kmemset x 0 e (mem s)) (load64 (mem s) x) xs"
    using fl by (rule flist_cong [rotated])
  moreover have "count_free (zone_store s i) - 1 = of_nat (length xs)" by (simp add: cf)
  moreover have "count_alloc (zone_store s i) + 1 = of_nat (card (live e P xs))"
  proof -
    have "card (live e P xs) = Suc (card (live e P (x # xs)))"
      unfolding live_insert(1) [OF d] using live_insert(2) [OF d] by simp
    then show ?thesis by (simp add: ca add.commute)
  qed
  ultimately show ?thesis
    using ok d unfolding zone_ok_def Let_def zpop_def upd_zone_def e_def
    by (simp del: of_nat_mult)
qed

lemma zones_rep_update:
  assumes rep: "zones_rep P F s" and i: "i < zone_count s"
    and oki: "zone_ok t i (P i) ys"
    and same: "zone_count t = zone_count s" "\<And>j. j \<noteq> i \<Longrightarrow> zone_store t j = zone_store s j"
      "bitmap t = bitmap s" "free_count t = free_count s" "hhdm_offset t = hhdm_offset s"
    and m: "\<And>j x b. j < zone_count s \<Longrightarrow> j \<noteq> i \<Longrightarrow> x \<in> zone_slots (elem_size (zone_store s j)) (P j) \<Longrightarrow>
      b - x < elem_size (zone_store s j) \<Longrightarrow> mem t b = mem s b"
  shows "zones_rep P (F(i := ys)) t"
proof -
  have okj: "zone_ok t j (P j) (F j)" if j: "j < zone_count s" "j \<noteq> i" for j
  proof (rule zone_ok_cong)
    show "zone_ok s j (P j) (F j)" using rep j by (simp add: zones_rep_def)
    show "zone_store t j = zone_store s j" using j(2) by (rule same(2))
    fix b x assume "x \<in> set (F j)" "b - x < elem_size (zone_store s j)"
    then show "mem t b = mem s b" using m [OF j] zones_rep_free_subset [OF rep j(1)] by blast
  qed
  have fs: "bitmap_test t = bitmap_test s" by (rule ext) (simp add: bitmap_test_def same)
  have eq: "pmm_inv t = pmm_inv s" "hhdm_ok t = hhdm_ok s" "direct_pages t = direct_pages s"
    by (simp_all add: pmm_inv_def count_ok_def free_set_def fs same hhdm_ok_def direct_pages_def
        used_pages_def PHYS_TO_VIRT_def)
  show ?thesis using rep oki okj unfolding zones_rep_def same(1) eq by auto
qed

lemma zones_rep_pop:
  assumes rep: "zones_rep P F s" and i: "i < zone_count s" and F: "F i = x # xs"
  shows "zones_rep P (F(i := xs)) (zpop i x s)"
    "zone_live P (F(i := xs)) (zpop i x s) i = insert x (zone_live P F s i)"
    "x \<notin> zone_live P F s i" "x \<noteq> 0" "free_list (zone_store s i) = x"
proof -
  have ok: "zone_ok s i (P i) (x # xs)" using rep i F by (auto simp: zones_rep_def)
  then have d: "distinct (x # xs)" "set (x # xs) \<subseteq> zone_slots (elem_size (zone_store s i)) (P i)"
    by (auto simp: zone_ok_def Let_def)
  show "x \<notin> zone_live P F s i" "zone_live P (F(i := xs)) (zpop i x s) i = insert x (zone_live P F s i)"
    using live_insert [OF d] by (simp_all add: zone_live_def F zpop_def upd_zone_def)
  show "x \<noteq> 0" "free_list (zone_store s i) = x" using ok by (simp_all add: zone_ok_def Let_def)
  show "zones_rep P (F(i := xs)) (zpop i x s)"
  proof (rule zones_rep_update [OF rep i])
    show "zone_ok (zpop i x s) i (P i) xs" by (rule zone_ok_pop [OF ok zones_rep_pages(1) [OF rep i]])
    fix j y b assume j: "j < zone_count s" "j \<noteq> i" "y \<in> zone_slots (elem_size (zone_store s j)) (P j)"
      "b - y < elem_size (zone_store s j)"
    then have "\<not> b - x < elem_size (zone_store s i)"
      using zones_rep_disjoint [OF rep i j(1) _ j(3) _ j(4), of x] d(2) by auto
    then show "mem (zpop i x s) b = mem s b" by (simp add: zpop_def upd_zone_def kmemset_apply)
  qed (simp_all add: zpop_def upd_zone_def)
qed

text \<open>
  \<open>zalloc\<close> returns; it hands out a zeroed element that was not live, and no byte of a live element
  of any zone changes; or it returns null, with nothing changed, when the zone is at its limit or
  no page is free.
\<close>

lemma zalloc_spec:
  assumes rep: "zones_rep P F s" and i: "i < zone_count s"
  obtains (full) "zalloc (Some i) s = Some (0, s)" "F i = []"
      "pmm_alloc_page s = (0, s) \<or>
       max_size (zone_store s i) \<noteq> 0 \<and> max_size (zone_store s i) \<le> cur_size (zone_store s i)"
  | (elem) x t P' F' where "zalloc (Some i) s = Some (x, t)" "zones_rep P' F' t" "x \<noteq> 0"
      "x \<notin> zone_live P F s i" "zone_live P' F' t i = insert x (zone_live P F s i)"
      "\<And>j. j \<noteq> i \<Longrightarrow> P' j = P j \<and> F' j = F j"
      "zone_count t = zone_count s" "\<And>j. elem_size (zone_store t j) = elem_size (zone_store s j)"
      "\<And>b. b - x < elem_size (zone_store s i) \<Longrightarrow> mem t b = 0"
      "\<And>b. page_of b \<in> direct_pages s \<Longrightarrow> \<not> b - x < elem_size (zone_store s i) \<Longrightarrow> mem t b = mem s b"
      "\<And>b. page_of b \<notin> direct_pages t \<Longrightarrow> mem t b = mem s b"
      "direct_pages s \<subseteq> direct_pages t" "P' i - P i \<subseteq> direct_pages t - direct_pages s"
      "\<exists>m b c zs. t = s\<lparr>mem := m, bitmap := b, free_count := c, zone_store := zs\<rparr>"
proof (cases "F i")
  case (Cons x xs)
  note pop = zones_rep_pop [OF rep i Cons]
  have P: "P i \<subseteq> direct_pages s" "x \<in> zone_slots (elem_size (zone_store s i)) (P i)"
    using rep i Cons zones_rep_free_subset [OF rep i, of x] by (auto simp: zones_rep_def)
  have dp: "direct_pages (zpop i x s) = direct_pages s"
    by (simp add: zpop_def upd_zone_def direct_pages_def PHYS_TO_VIRT_def used_pages_def bitmap_test_def)
  show ?thesis
  proof (rule elem [OF _ pop(1,4,3,2)])
    show "zalloc (Some i) s = Some (x, zpop i x s)" using zalloc_pop [of s i] pop(4,5) by simp
    fix b assume "page_of b \<notin> direct_pages (zpop i x s)"
    then have "page_of b \<notin> P i" using P(1) dp by auto
    then have "\<not> b - x < elem_size (zone_store s i)"
      using slot_bytes_in_page(2) [OF zones_rep_elem [OF rep i] zones_rep_pages(1) [OF rep i] P(2)] by blast
    then show "mem (zpop i x s) b = mem s b" by (simp add: zpop_def upd_zone_def kmemset_apply)
  next
    show "\<exists>m b c zs. zpop i x s = s\<lparr>mem := m, bitmap := b, free_count := c, zone_store := zs\<rparr>"
      by (rule zpop_frame)
  qed (simp_all add: zpop_def upd_zone_def kmemset_apply dp [unfolded zpop_def upd_zone_def Let_def])
next
  case Nil
  have fl0: "free_list (zone_store s i) = 0"
    using rep i Nil by (auto simp: zones_rep_def zone_ok_def Let_def)
  show ?thesis
  proof (cases rule: zone_grow_spec [OF rep i Nil])
    case 1
    then show ?thesis using zalloc_full [OF fl0 1(1)] Nil by (intro full)
  next
    case (2 u pg)
    define e where "e = elem_size (zone_store s i)"
    have eok: "elem_ok e" using zones_rep_elem [OF rep i] by (simp add: e_def)
    define Q where "Q = P(i := insert pg (P i))"
    define G where "G = F(i := grown_list e pg)"
    have rep': "zones_rep Q G u" using 2(3) by (simp add: Q_def G_def e_def)
    have i': "i < zone_count u" using i 2(4) by simp
    obtain x xs where G: "G i = x # xs"
      using grown_list(3) [OF eok 2(7)] by (cases "grown_list e pg") (auto simp: G_def)
    note pop = zones_rep_pop [OF rep' i' G]
    have lv: "zone_live Q G u i = zone_live P F s i"
    proof -
      have "pg \<notin> P i" using 2(2) rep i by (auto simp: zones_rep_def)
      from live_grown [OF eok zones_rep_pages(1) [OF rep i] 2(7) this] show ?thesis
        by (simp add: zone_live_def Q_def G_def 2(5) Nil) (simp add: e_def)
    qed
    have xpg: "page_of x = pg"
    proof -
      have "x \<in> slots e pg" using grown_list(2) [OF eok 2(7)] G by (auto simp: G_def)
      then show ?thesis by (rule slots_page_of [OF eok 2(7)])
    qed
    have in_pg: "page_of b = pg" if "b - x < e" for b
      using slot_bytes_in_page(1) [OF zones_rep_elem [OF rep' i'] zones_rep_pages(1) [OF rep' i']
          zones_rep_free_subset [OF rep' i'], of x b] that G xpg by (simp add: 2(5) e_def)
    have dp: "direct_pages (zpop i x u) = direct_pages u"
      by (simp add: zpop_def upd_zone_def direct_pages_def PHYS_TO_VIRT_def used_pages_def bitmap_test_def)
    have other: "mem (zpop i x u) b = mem s b" if "page_of b \<noteq> pg" for b
    proof -
      have "\<not> b - x < e" using that in_pg by blast
      then show ?thesis using 2(6) [OF that] by (simp add: zpop_def upd_zone_def kmemset_apply 2(5) e_def)
    qed
    show ?thesis
    proof (rule elem [OF _ pop(1,4)])
      show "zalloc (Some i) s = Some (x, zpop i x u)"
        using zalloc_grow [OF fl0 2(1)] zalloc_pop [of u i] pop(4,5) by simp
      show "x \<notin> zone_live P F s i" using pop(3) lv by simp
      show "zone_live Q (G(i := xs)) (zpop i x u) i = insert x (zone_live P F s i)" using pop(2) lv by simp
      show "Q j = P j \<and> (G(i := xs)) j = F j" if "j \<noteq> i" for j using that by (simp add: Q_def G_def)
      show "mem (zpop i x u) b = 0" if "b - x < elem_size (zone_store s i)" for b
        using that by (simp add: zpop_def upd_zone_def kmemset_apply 2(5))
      show "mem (zpop i x u) b = mem s b" if "page_of b \<in> direct_pages s" for b
        using that 2(2) by (intro other) auto
      show "mem (zpop i x u) b = mem s b" if "page_of b \<notin> direct_pages (zpop i x u)" for b
        using that 2(8) dp by (intro other) auto
      show "direct_pages s \<subseteq> direct_pages (zpop i x u)" using 2(8) dp by auto
      show "Q i - P i \<subseteq> direct_pages (zpop i x u) - direct_pages s" using 2(2,8) dp by (auto simp: Q_def)
      obtain m b c zs where "zpop i x u = u\<lparr>mem := m, bitmap := b, free_count := c, zone_store := zs\<rparr>"
        using zpop_frame [of i x u] by blast
      then show "\<exists>m b c zs. zpop i x u = s\<lparr>mem := m, bitmap := b, free_count := c, zone_store := zs\<rparr>"
        using 2(9) by (elim exE) (simp, blast)
    qed (simp_all add: zpop_def upd_zone_def 2(4,5))
  qed
qed


lemma zfree_spec:
  assumes rep: "zones_rep P F s" and i: "i < zone_count s" and x: "x \<in> zone_live P F s i"
  obtains t where "zfree (Some i) x s = Some t" "zones_rep P (F(i := x # F i)) t"
    "zone_live P (F(i := x # F i)) t i = zone_live P F s i - {x}"
    "zone_count t = zone_count s" "\<And>j. elem_size (zone_store t j) = elem_size (zone_store s j)"
    "\<And>b. \<not> b - x < elem_size (zone_store s i) \<Longrightarrow> mem t b = mem s b"
    "direct_pages t = direct_pages s" "\<exists>m zs. t = s\<lparr>mem := m, zone_store := zs\<rparr>"
proof -
  define e where "e = elem_size (zone_store s i)"
  have ok: "zone_ok s i (P i) (F i)" using rep i by (auto simp: zones_rep_def)
  then have eok: "elem_ok e" and fl: "flist (mem s) (free_list (zone_store s i)) (F i)"
    and d: "distinct (F i)" "set (F i) \<subseteq> zone_slots e (P i)"
    and cf: "count_free (zone_store s i) = of_nat (length (F i))"
    and ca: "count_alloc (zone_store s i) = of_nat (card (live e (P i) (F i)))"
    unfolding zone_ok_def Let_def e_def by simp_all
  have xs: "x \<in> zone_slots e (P i)" "x \<notin> set (F i)" using x by (simp_all add: zone_live_def live_def e_def)
  have x0: "x \<noteq> 0" "aligned 8 x" using zone_slot_nonzero [OF rep i] xs(1) by (simp_all add: e_def)
  have al: "\<forall>y \<in> set (F i). aligned 8 y"
    using zone_slot_nonzero(2) [OF rep i] d(2) by (auto simp: e_def)
  define t where "t = upd_zone i (\<lambda>zn. zn\<lparr>free_list := x, count_free := count_free zn + 1,
      count_alloc := count_alloc zn - 1\<rparr>) (s\<lparr>mem := store64 (mem s) x (free_list (zone_store s i))\<rparr>)"
  have eq: "zfree (Some i) x s = Some t" using x0 by (simp add: zfree_def t_def)
  have frame: "mem t b = mem s b" if "\<not> b - x < e" for b
  proof -
    have "8 \<le> unat (b - x)" using that eok by (auto simp: elem_ok_def word_less_nat_alt)
    then show ?thesis by (simp add: t_def upd_zone_def store64_other_byte)
  qed
  have lv: "live e (P i) (x # F i) = live e (P i) (F i) - {x}" by (auto simp: live_def)
  have "card (live e (P i) (F i)) = Suc (card (live e (P i) (x # F i)))"
    unfolding lv by (rule card_Suc_Diff1 [symmetric]) (use xs in \<open>simp_all add: live_def\<close>)
  then have ca': "count_alloc (zone_store s i) - 1 = of_nat (card (live e (P i) (x # F i)))"
    by (simp add: ca)
  have oki: "zone_ok t i (P i) (x # F i)"
    using ok flist_push [OF fl x0(2,1) xs(2) al] xs d cf ca'
    unfolding zone_ok_def Let_def t_def upd_zone_def e_def
    by (simp del: of_nat_mult flist.simps)
  show ?thesis
  proof (rule that [OF eq])
    show "zones_rep P (F(i := x # F i)) t"
    proof (rule zones_rep_update [OF rep i oki])
      fix j y b assume j: "j < zone_count s" "j \<noteq> i" "y \<in> zone_slots (elem_size (zone_store s j)) (P j)"
        "b - y < elem_size (zone_store s j)"
      then have "\<not> b - x < e"
        using zones_rep_disjoint [OF rep i j(1) _ j(3) _ j(4), of x] xs(1) by (auto simp: e_def)
      then show "mem t b = mem s b" by (rule frame)
    qed (simp_all add: t_def upd_zone_def)
    show "zone_live P (F(i := x # F i)) t i = zone_live P F s i - {x}"
      using lv by (simp add: zone_live_def t_def upd_zone_def e_def)
    show "direct_pages t = direct_pages s"
      by (simp add: t_def upd_zone_def direct_pages_def PHYS_TO_VIRT_def used_pages_def bitmap_test_def)
    show "mem t b = mem s b" if "\<not> b - x < elem_size (zone_store s i)" for b
      using frame that by (simp add: e_def)
    have "t = s\<lparr>mem := mem t, zone_store := zone_store t\<rparr>" by (simp add: t_def upd_zone_def)
    then show "\<exists>m zs. t = s\<lparr>mem := m, zone_store := zs\<rparr>" by blast
  qed (simp_all add: t_def upd_zone_def)
qed

lemma zinit_spec:
  assumes rep: "zones_rep P F s" and n: "zone_count s < 32" and sz: "unat esz \<le> 4096"
  obtains t where "zinit nm esz mx s = Some (Some (zone_count s), t)"
    "zones_rep (P(zone_count s := {})) (F(zone_count s := [])) t"
    "zone_count t = Suc (zone_count s)" "elem_size (zone_store t (zone_count s)) = round_elem esz"
    "\<And>i. i < zone_count s \<Longrightarrow> zone_store t i = zone_store s i" "mem t = mem s"
proof -
  define k where "k = zone_count s"
  define zn where "zn = \<lparr>zname = nm, elem_size = round_elem esz, max_size = mx, cur_size = 0,
                  free_list = 0, count_free = 0, count_alloc = 0\<rparr>"
  define t where "t = s\<lparr>zone_count := Suc k, zone_store := (zone_store s)(k := zn)\<rparr>"
  have eq: "zinit nm esz mx s = Some (Some k, t)"
    using n by (simp add: zinit_def Let_def upd_zone_def t_def zn_def k_def)
  have "elem_ok (round_elem esz)" using round_elem_spec [OF sz] by (simp add: elem_ok_def)
  then have okk: "zone_ok t k {} []" by (simp add: zone_ok_def t_def zn_def live_def zone_slots_def)
  have eqs: "pmm_inv t = pmm_inv s" "hhdm_ok t = hhdm_ok s" "direct_pages t = direct_pages s"
    by (simp_all add: pmm_inv_def count_ok_def free_set_def bitmap_test_def hhdm_ok_def direct_pages_def
        used_pages_def PHYS_TO_VIRT_def t_def)
  have okj: "zone_ok t j (P j) (F j)" if "j < k" for j
    by (rule zone_ok_cong [of s]) (use rep that in \<open>simp_all add: zones_rep_def t_def k_def\<close>)
  have "zones_rep (P(k := {})) (F(k := [])) t"
    using rep okk okj n unfolding zones_rep_def eqs by (auto simp: t_def less_Suc_eq k_def)
  then show ?thesis using eq by (intro that [of t]) (simp_all add: k_def t_def zn_def)
qed

section \<open>The interface of an object pool\<close>

text \<open>
  What the kernel's object layers rely on: \<open>rep L s\<close> says that the pool's live objects are \<open>L\<close>.
\<close>

locale object_pool =
  fixes alloc :: "'s \<Rightarrow> (addr \<times> 's) option"
    and free :: "addr \<Rightarrow> 's \<Rightarrow> 's option"
    and rep :: "addr set \<Rightarrow> 's \<Rightarrow> bool"
  assumes alloc_some: "rep L s \<Longrightarrow> \<exists>x t. alloc s = Some (x, t) \<and> rep (if x = 0 then L else insert x L) t \<and> x \<notin> L"
    and live_nonzero: "rep L s \<Longrightarrow> 0 \<notin> L"
    and free_some: "rep L s \<Longrightarrow> x \<in> L \<Longrightarrow> \<exists>t. free x s = Some t \<and> rep (L - {x}) t"

datatype obj_op = ObjAlloc | ObjFree nat

text \<open>A client's run: \<open>ObjFree k\<close> gives back the \<open>k\<close>-th object in hand.\<close>

fun run_pool ::
  "('s \<Rightarrow> (addr \<times> 's) option) \<Rightarrow> (addr \<Rightarrow> 's \<Rightarrow> 's option) \<Rightarrow> obj_op list \<Rightarrow> addr list \<times> 's \<Rightarrow>
   (addr list \<times> 's) option" where
  "run_pool alloc free [] (held, s) = Some (held, s)"
| "run_pool alloc free (ObjAlloc # ops) (held, s) = do {
     (x, s) \<leftarrow> alloc s;
     run_pool alloc free ops (if x = 0 then held else x # held, s)
   }"
| "run_pool alloc free (ObjFree k # ops) (held, s) =
     (if k < length held then do {
        s \<leftarrow> free (held ! k) s;
        run_pool alloc free ops (take k held @ drop (Suc k) held, s)
      }
      else run_pool alloc free ops (held, s))"

lemma distinct_drop_nth:
  assumes "distinct xs" "k < length xs"
  shows "distinct (take k xs @ drop (Suc k) xs)" "set (take k xs @ drop (Suc k) xs) = set xs - {xs ! k}"
proof -
  have xs: "xs = take k xs @ xs ! k # drop (Suc k) xs" using assms(2) by (rule id_take_nth_drop)
  then have d: "distinct (take k xs @ xs ! k # drop (Suc k) xs)" using assms(1) by simp
  then show "distinct (take k xs @ drop (Suc k) xs)" by auto
  have "set xs = set (take k xs @ xs ! k # drop (Suc k) xs)" using xs by (rule arg_cong)
  then show "set (take k xs @ drop (Suc k) xs) = set xs - {xs ! k}" using d by auto
qed

context object_pool
begin

text \<open>No run fails, and the objects in hand are always distinct live objects.\<close>

lemma run_pool_ok:
  "rep L s \<Longrightarrow> distinct held \<Longrightarrow> set held \<subseteq> L \<Longrightarrow>
   \<exists>held' t L'. run_pool alloc free ops (held, s) = Some (held', t) \<and> rep L' t \<and> distinct held' \<and>
     set held' \<subseteq> L' \<and> L' - set held' = L - set held"
proof (induction ops arbitrary: held s L)
  case Nil
  then show ?case by auto
next
  case (Cons op ops)
  show ?case
  proof (cases op)
    case ObjAlloc
    obtain x t where a: "alloc s = Some (x, t)" "rep (if x = 0 then L else insert x L) t" "x \<notin> L"
      using alloc_some [OF Cons.prems(1)] by blast
    have "distinct (if x = 0 then held else x # held)"
      "set (if x = 0 then held else x # held) \<subseteq> (if x = 0 then L else insert x L)"
      using Cons.prems(2,3) a(3) by auto
    from Cons.IH [OF a(2) this] a Cons.prems(3) ObjAlloc show ?thesis by (auto split: if_splits)
  next
    case (ObjFree k)
    show ?thesis
    proof (cases "k < length held")
      case False
      with Cons ObjFree show ?thesis by simp
    next
      case True
      note dr = distinct_drop_nth [OF Cons.prems(2) True]
      have k: "held ! k \<in> L" "held ! k \<in> set held" using True Cons.prems(3) by auto
      from free_some [OF Cons.prems(1) k(1)] obtain t where
        f: "free (held ! k) s = Some t" "rep (L - {held ! k}) t" by blast
      have "set (take k held @ drop (Suc k) held) \<subseteq> L - {held ! k}" using dr(2) Cons.prems(3) by auto
      from Cons.IH [OF f(2) dr(1) this] obtain held' t' L' where
        r: "run_pool alloc free ops (take k held @ drop (Suc k) held, t) = Some (held', t')" "rep L' t'"
          "distinct held'" "set held' \<subseteq> L'"
          "L' - set held' = L - {held ! k} - set (take k held @ drop (Suc k) held)" by blast
      have "L' - set held' = L - set held" unfolding r(5) dr(2) using k(2) by auto
      with r(1-4) show ?thesis using True f(1) ObjFree by auto
    qed
  qed
qed

end

text \<open>Every zone of the kernel is a pool.\<close>

definition zone_pool :: "nat \<Rightarrow> addr set \<Rightarrow> 'a zones_scheme \<Rightarrow> bool" where
  "zone_pool i L s \<longleftrightarrow> (\<exists>P F. zones_rep P F s \<and> i < zone_count s \<and> L = zone_live P F s i)"

interpretation zone: object_pool "zalloc (Some i)" "zfree (Some i)" "zone_pool i" for i
proof unfold_locales
  fix L and s :: "'a zones_scheme" assume "zone_pool i L s"
  then obtain P F where r: "zones_rep P F s" "i < zone_count s" "L = zone_live P F s i"
    by (auto simp: zone_pool_def)
  have "x \<noteq> 0" if "x \<in> L" for x
    using that zone_slot_nonzero(1) [OF r(1,2)] by (simp add: r(3) zone_live_def live_def)
  then show nz: "0 \<notin> L" by auto
  show "\<exists>x t. zalloc (Some i) s = Some (x, t) \<and> zone_pool i (if x = 0 then L else insert x L) t \<and> x \<notin> L"
  proof (cases rule: zalloc_spec [OF r(1,2)])
    case 1
    with r nz show ?thesis by (intro exI [of _ 0] exI [of _ s]) (auto simp: zone_pool_def)
  next
    case (2 x t P' F')
    then have "zone_pool i (insert x L) t"
      unfolding zone_pool_def r(3) using r(2) by (intro exI [of _ P'] exI [of _ F']) simp
    with 2(1,3,4) show ?thesis by (intro exI [of _ x] exI [of _ t]) (simp add: r(3))
  qed
next
  fix L and s :: "'a zones_scheme" and x assume "zone_pool i L s" and x: "x \<in> L"
  then obtain P F where r: "zones_rep P F s" "i < zone_count s" "L = zone_live P F s i"
    by (auto simp: zone_pool_def)
  show "\<exists>t. zfree (Some i) x s = Some t \<and> zone_pool i (L - {x}) t"
  proof (rule zfree_spec [OF r(1,2) x [unfolded r(3)]])
    fix t assume "zfree (Some i) x s = Some t" "zones_rep P (F(i := x # F i)) t"
      "zone_live P (F(i := x # F i)) t i = zone_live P F s i - {x}" "zone_count t = zone_count s"
    then show ?thesis
      unfolding zone_pool_def r(3) using r(2)
      by (intro exI [of _ t]) (metis (no_types))
  qed
qed

section \<open>Zones of large elements\<close>

text \<open>
  An element that does not fit a page gives a page with no slot: \<open>zone_grow\<close> succeeds and
  \<open>zalloc\<close> dereferences the null free list.
\<close>

lemma zalloc_oversized:
  assumes "unat (elem_size (zone_store s i)) > 4096" "free_list (zone_store s i) = 0"
    "max_size (zone_store s i) = 0" "fst (pmm_alloc_page s) \<noteq> 0"
  shows "zalloc (Some i) s = None"
proof -
  obtain pa t where a: "pmm_alloc_page s = (pa, t)" by (cases "pmm_alloc_page s")
  obtain b c where t: "t = s\<lparr>bitmap := b, free_count := c\<rparr>" by (rule pmm_alloc_page_frame [OF a])
  have "(4096 :: u64) div elem_size (zone_store s i) = 0"
    using assms(1) by (simp only: slots_per_page) simp
  then have "zone_grow i s = (0, upd_zone i (\<lambda>zn. zn\<lparr>cur_size := cur_size zn + 4096\<rparr>) t)"
    using assms(3,4) a by (simp add: zone_grow_def Let_def t grow_loop.simps)
  then show ?thesis using assms(2) by (simp add: zalloc_def t upd_zone_def)
qed

section \<open>How many pages an allocation takes\<close>

lemma grow_loop_bitmap: "bitmap (grow_loop z page i n s) = bitmap s"
proof (induction z page i n s rule: grow_loop.induct)
  case (1 z page i n s)
  show ?case
  proof (cases "i < n")
    case True
    show ?thesis using "1.IH" [OF True refl refl refl] by (subst grow_loop.simps) (simp add: True Let_def upd_zone_def)
  qed (simp add: grow_loop.simps)
qed

lemma zalloc_takes:
  assumes "zalloc z s = Some (x, t)"
  shows "takes 1 s t"
proof -
  obtain pa v where al: "pmm_alloc_page s = (pa, v)" by (cases "pmm_alloc_page s")
  have "bitmap t = bitmap s \<or> bitmap t = bitmap v"
    using assms al
    by (auto simp: zalloc_def zone_grow_def Let_def upd_zone_def grow_loop_bitmap split: option.splits if_splits)
  then show ?thesis using alloc_takes [OF al] by (auto simp: takes_def free_set_def bitmap_test_def)
qed

lemma grow_loop_max_size: "max_size (zone_store (grow_loop z page i n s) k) = max_size (zone_store s k)"
proof (induction z page i n s rule: grow_loop.induct)
  case (1 z page i n s)
  show ?case
  proof (cases "i < n")
    case True
    show ?thesis using "1.IH" [OF True refl refl refl] by (subst grow_loop.simps) (simp add: True Let_def upd_zone_def)
  qed (simp add: grow_loop.simps)
qed

lemma zalloc_max_size:
  assumes "zalloc z s = Some (x, t)"
  shows "max_size (zone_store t k) = max_size (zone_store s k)"
proof -
  obtain pa v where al: "pmm_alloc_page s = (pa, v)" by (cases "pmm_alloc_page s")
  obtain b c where v: "v = s\<lparr>bitmap := b, free_count := c\<rparr>" by (rule pmm_alloc_page_frame [OF al])
  show ?thesis
    using assms al
    by (auto simp: zalloc_def zone_grow_def Let_def upd_zone_def grow_loop_max_size v split: option.splits if_splits)
qed

section \<open>Properties\<close>

text \<open>The state the witnesses use: one zone of 64-byte elements, and one free page.\<close>

definition blank_zone :: zone where
  "blank_zone = \<lparr>zname = [], elem_size = 0, max_size = 0, cur_size = 0, free_list = 0,
     count_free = 0, count_alloc = 0\<rparr>"

definition blank_zones :: zones where
  "blank_zones = \<lparr>mem = (\<lambda>_. 0), hhdm_offset = 0xffff800000000000, console = [], port_outs = [],
     port_ins = (\<lambda>_. 0),
     bitmap = (\<lambda>_. - 1), bitmap_base = 0, total_pages = 0, free_count = 0,
     zone_store = (\<lambda>_. blank_zone), zone_count = 0\<rparr>"

lemma zones_rep_no_zones: "pmm_inv s \<Longrightarrow> hhdm_ok s \<Longrightarrow> zone_count s = 0 \<Longrightarrow> zones_rep P F s"
  by (simp add: zones_rep_def)

definition one_page_zones :: zones where
  "one_page_zones = pmm_free_page 0x5000 blank_zones"

lemma one_page_zones: "zones_rep P F one_page_zones" "zone_count one_page_zones = 0"
    "\<exists>t. pmm_alloc_page one_page_zones = (0x5000, t)"
proof -
  obtain b c where eq: "one_page_zones = blank_zones\<lparr>bitmap := b, free_count := c\<rparr>"
    unfolding one_page_zones_def by (rule pmm_free_page_frame)
  have "bitmap blank_zones = (\<lambda>_. - 1)" "free_count blank_zones = 0" by (simp_all add: blank_zones_def)
  note f = one_page_free [OF this, folded one_page_zones_def]
  show z: "zone_count one_page_zones = 0" by (simp add: eq blank_zones_def)
  have "hhdm_ok one_page_zones" by (simp add: hhdm_ok_def eq blank_zones_def aligned_def)
  with f(1) z show "zones_rep P F one_page_zones" by (intro zones_rep_no_zones)
  show "\<exists>t. pmm_alloc_page one_page_zones = (0x5000, t)" by (rule f(3))
qed

lemma one_zone_state:
  obtains s :: zones where "zinit ''t'' 64 0 one_page_zones = Some (Some 0, s)"
    "zones_rep (\<lambda>_. {}) (\<lambda>_. []) s" "zone_count s = 1" "elem_size (zone_store s 0) = 64"
proof -
  have sz: "zone_count one_page_zones < 32" "unat (64 :: u64) \<le> 4096"
    by (simp_all add: one_page_zones(2))
  show thesis
  proof (rule zinit_spec [OF one_page_zones(1) [of "\<lambda>_. {}" "\<lambda>_. []"] sz, of "''t''" 0])
    fix t assume t: "zinit ''t'' 64 0 one_page_zones = Some (Some (zone_count one_page_zones), t)"
      "zones_rep ((\<lambda>_. {})(zone_count one_page_zones := {})) ((\<lambda>_. [])(zone_count one_page_zones := [])) t"
      "zone_count t = Suc (zone_count one_page_zones)"
      "elem_size (zone_store t (zone_count one_page_zones)) = round_elem 64"
    have "round_elem 64 = 64" by (simp add: round_elem_def)
    with t show thesis by (intro that [of t]) (simp_all add: one_page_zones(2) fun_upd_idem)
  qed
qed

text \<open>
  C19: \<open>zalloc\<close> never fails to return on zones that satisfy the invariant.  It returns null with the
  state unchanged, or a fresh element: one that was not live, is zeroed, and whose allocation changes
  no byte of any live element of any zone.
\<close>

theorem zalloc_correct:
  assumes "zones_rep P F s" "i < zone_count s"
  shows "\<exists>x t P' F'. zalloc (Some i) s = Some (x, t) \<and> zones_rep P' F' t \<and>
    (x = 0 \<longrightarrow> t = s) \<and>
    (x \<noteq> 0 \<longrightarrow> x \<notin> zone_live P F s i \<and> zone_live P' F' t i = insert x (zone_live P F s i) \<and>
      (\<forall>j. j \<noteq> i \<longrightarrow> zone_live P' F' t j = zone_live P F s j) \<and>
      (\<forall>b. b - x < elem_size (zone_store s i) \<longrightarrow> mem t b = 0) \<and>
      (\<forall>j < zone_count s. \<forall>y \<in> zone_live P F s j. \<forall>b. b - y < elem_size (zone_store s j) \<longrightarrow>
         mem t b = mem s b))"
proof (cases rule: zalloc_spec [OF assms])
  case 1
  then show ?thesis using assms(1) by (intro exI [of _ 0] exI [of _ s]) auto
next
  case (2 x t P' F')
  have other: "zone_live P' F' t j = zone_live P F s j" if "j \<noteq> i" for j
    using 2(6) [OF that] by (simp add: zone_live_def 2(8))
  have "mem t b = mem s b"
    if j: "j < zone_count s" and y: "y \<in> zone_live P F s j" and b: "b - y < elem_size (zone_store s j)" for j y b
  proof (rule 2(10))
    have ys: "y \<in> zone_slots (elem_size (zone_store s j)) (P j)" using y by (simp add: zone_live_def live_def)
    then have "page_of b \<in> P j"
      using slot_bytes_in_page(2) [OF zones_rep_elem [OF assms(1) j] zones_rep_pages(1) [OF assms(1) j]] b
      by blast
    then show "page_of b \<in> direct_pages s" using assms(1) j by (auto simp: zones_rep_def)
    show "\<not> b - x < elem_size (zone_store s i)"
    proof
      assume bx: "b - x < elem_size (zone_store s i)"
      have "x \<in> zone_live P' F' t i" "y \<in> zone_live P' F' t j"
        using 2(5) y other [of j] by (cases "j = i"; auto)+
      then have sl: "x \<in> zone_slots (elem_size (zone_store t i)) (P' i)"
        "y \<in> zone_slots (elem_size (zone_store t j)) (P' j)" by (simp_all add: zone_live_def live_def)
      have "i = j \<and> x = y"
        using zones_rep_disjoint [OF 2(2) _ _ sl] assms(2) j bx b by (simp add: 2(7,8))
      with y 2(4) show False by simp
    qed
  qed
  with 2 other show ?thesis by (intro exI [of _ x] exI [of _ t] exI [of _ P'] exI [of _ F']) simp
qed

theorem zalloc_correct_witness:
  "\<exists>s x t. zinit ''t'' 64 0 one_page_zones = Some (Some 0, s) \<and> zalloc (Some 0) s = Some (x, t) \<and>
     (x \<noteq> 0 \<longrightarrow> mem t x = 0)"
proof -
  obtain s where s: "zinit ''t'' 64 0 one_page_zones = Some (Some 0, s)"
    "zones_rep (\<lambda>_. {}) (\<lambda>_. []) s" "zone_count s = 1" "elem_size (zone_store s 0) = 64"
    by (rule one_zone_state)
  have "0 < zone_count s" by (simp add: s(3))
  from zalloc_correct [OF s(2) this] obtain x t where
    "zalloc (Some 0) s = Some (x, t)" "x \<noteq> 0 \<longrightarrow> (\<forall>b. b - x < elem_size (zone_store s 0) \<longrightarrow> mem t b = 0)"
    by blast
  with s show ?thesis by (intro exI [of _ s] exI [of _ x] exI [of _ t]) simp
qed

text \<open>
  \<open>zfree\<close> of a live element makes exactly that element free, keeps the invariant of all zones and
  changes no byte outside the element.
\<close>

lemma zfree_correct:
  assumes "zones_rep P F s" "i < zone_count s" "x \<in> zone_live P F s i"
  shows "\<exists>t. zfree (Some i) x s = Some t \<and> zones_rep P (F(i := x # F i)) t \<and>
    zone_live P (F(i := x # F i)) t i = zone_live P F s i - {x} \<and>
    (\<forall>b. \<not> b - x < elem_size (zone_store s i) \<longrightarrow> mem t b = mem s b)"
  by (rule zfree_spec [OF assms]) blast

lemma zfree_correct_witness:
  "\<exists>s x t u. zinit ''t'' 64 0 one_page_zones = Some (Some 0, s) \<and> zalloc (Some 0) s = Some (x, t) \<and>
     (x \<noteq> 0 \<longrightarrow> zfree (Some 0) x t = Some u)"
proof -
  obtain s where s: "zinit ''t'' 64 0 one_page_zones = Some (Some 0, s)"
    "zones_rep (\<lambda>_. {}) (\<lambda>_. []) s" "zone_count s = 1" "elem_size (zone_store s 0) = 64"
    by (rule one_zone_state)
  have i: "0 < zone_count s" by (simp add: s(3))
  show ?thesis
  proof (cases rule: zalloc_spec [OF s(2) i])
    case 1
    with s(1) show ?thesis by auto
  next
    case (2 x t P' F')
    have "0 < zone_count t" "x \<in> zone_live P' F' t 0" using 2(5,7) i by simp_all
    from zfree_correct [OF 2(2) this] obtain u where "zfree (Some 0) x t = Some u" by blast
    with s(1) 2(1) show ?thesis by blast
  qed
qed

text \<open>
  In every run of allocations and frees of one zone by a client that frees only elements it
  holds, no call fails to return, the elements in hand are distinct live elements, and every
  element that was live before the run is still live and not among them.
\<close>

lemma zone_run_distinct:
  assumes "zone_pool i L s"
  shows "\<exists>held t L'. run_pool (zalloc (Some i)) (zfree (Some i)) ops ([], s) = Some (held, t) \<and>
    zone_pool i L' t \<and> distinct held \<and> 0 \<notin> set held \<and> L' = L \<union> set held \<and> set held \<inter> L = {}"
proof -
  obtain held t L' where r: "run_pool (zalloc (Some i)) (zfree (Some i)) ops ([], s) = Some (held, t)"
    "zone_pool i L' t" "distinct held" "set held \<subseteq> L'" "L' - set held = L - set []"
    using zone.run_pool_ok [OF assms, of "[]" ops] by auto
  moreover have "0 \<notin> L'" using zone.live_nonzero [OF r(2)] .
  ultimately show ?thesis by (intro exI [of _ held] exI [of _ t] exI [of _ L']) auto
qed

lemma zone_run_distinct_witness:
  "\<exists>s held t. zinit ''t'' 64 0 one_page_zones = Some (Some 0, s) \<and>
     run_pool (zalloc (Some 0)) (zfree (Some 0)) [ObjAlloc, ObjAlloc, ObjFree 1, ObjAlloc] ([], s) = Some (held, t) \<and>
     distinct held"
proof -
  obtain s where s: "zinit ''t'' 64 0 one_page_zones = Some (Some 0, s)"
    "zones_rep (\<lambda>_. {}) (\<lambda>_. []) s" "zone_count s = 1" by (rule one_zone_state)
  have "zone_pool 0 (zone_live (\<lambda>_. {}) (\<lambda>_. []) s 0) s" using s by (auto simp: zone_pool_def)
  from zone_run_distinct [OF this, of "[ObjAlloc, ObjAlloc, ObjFree 1, ObjAlloc]"] s(1) show ?thesis by blast
qed

text \<open>
  A zone never holds more memory than its limit rounded up to whole pages, and its counters are
  the lengths of its free list and the number of its live elements.
\<close>

lemma zone_accounting:
  assumes "zones_rep P F s" "i < zone_count s"
  shows "unat (cur_size (zone_store s i)) = 4096 * card (P i) \<and>
    (max_size (zone_store s i) \<noteq> 0 \<longrightarrow>
       unat (cur_size (zone_store s i)) < unat (max_size (zone_store s i)) + 4096) \<and>
    count_free (zone_store s i) = of_nat (length (F i)) \<and>
    count_alloc (zone_store s i) = of_nat (card (zone_live P F s i)) \<and>
    zone_slots (elem_size (zone_store s i)) (P i) = zone_live P F s i \<union> set (F i)"
proof -
  have ok: "zone_ok s i (P i) (F i)" "P i \<subseteq> direct_pages s" using assms by (auto simp: zones_rep_def)
  then have "cur_size (zone_store s i) = of_nat (4096 * card (P i))" unfolding zone_ok_def Let_def by blast
  then have u: "unat (cur_size (zone_store s i)) = 4096 * card (P i)"
    using card_direct_pages [OF ok(2)] by (simp add: unat_of_nat64 del: of_nat_mult)
  show ?thesis
    using ok(1) unfolding u zone_ok_def Let_def zone_live_def live_def by auto
qed

lemma zone_accounting_witness:
  "\<exists>s. zinit ''t'' 64 0 one_page_zones = Some (Some 0, s) \<and> unat (cur_size (zone_store s 0)) = 0"
proof -
  obtain s where s: "zinit ''t'' 64 0 one_page_zones = Some (Some 0, s)"
    "zones_rep (\<lambda>_. {}) (\<lambda>_. []) s" "zone_count s = 1" by (rule one_zone_state)
  have "0 < zone_count s" by (simp add: s(3))
  from zone_accounting [OF s(2) this] s(1) show ?thesis by auto
qed

text \<open>
  A zone whose elements are larger than a page cannot serve a request: as soon as a page is
  available the zone grows by a page without any slot and \<open>zalloc\<close> dereferences the null free list.
  The zone of IPC spaces is such a zone.
\<close>

lemma zalloc_oversized_faults:
  assumes "unat (elem_size (zone_store s i)) > 4096" "free_list (zone_store s i) = 0"
    "max_size (zone_store s i) = 0" "fst (pmm_alloc_page s) \<noteq> 0"
  shows "zalloc (Some i) s = None"
  using assms by (rule zalloc_oversized)

lemma zalloc_oversized_faults_witness:
  "case zinit ''ipc_space'' 24584 0 one_page_zones of Some (z, s) \<Rightarrow> zalloc z s = None | None \<Rightarrow> False"
proof -
  define z where "z = \<lparr>zname = ''ipc_space'', elem_size = round_elem 24584, max_size = 0, cur_size = 0,
      free_list = 0, count_free = 0, count_alloc = 0\<rparr>"
  define s where "s = one_page_zones\<lparr>zone_count := 1, zone_store := (zone_store one_page_zones)(0 := z)\<rparr>"
  have zi: "zinit ''ipc_space'' 24584 0 one_page_zones = Some (Some 0, s)"
    by (simp add: zinit_def one_page_zones(2) Let_def upd_zone_def s_def z_def)
  have sz: "unat (elem_size (zone_store s 0)) > 4096"
    by (simp add: s_def z_def round_elem_def)
  obtain t where "pmm_alloc_page one_page_zones = (0x5000, t)" using one_page_zones(3) by blast
  then have "alloc_scan 0 one_page_zones = (0x5000, t)" by (simp add: pmm_alloc_page_def)
  have al: "fst (pmm_alloc_page s) \<noteq> 0"
  proof (cases s rule: pmm_alloc_page_cases)
    case none
    have "bitmap_test s q = bitmap_test one_page_zones q" for q by (simp add: s_def bitmap_test_def)
    with none have "free_set one_page_zones = {}" by (auto simp: free_set_def)
    moreover obtain p where "pmm_alloc_page one_page_zones = (push_bit 12 p, take_page p one_page_zones)"
      "p \<in> free_set one_page_zones"
      by (cases one_page_zones rule: pmm_alloc_page_cases)
        (use one_page_zones(3) in \<open>auto simp: free_set_def\<close>)
    ultimately show ?thesis by simp
  next
    case (page p)
    have "bitmap_test s 0" using one_page_zones(1) by (simp add: zones_rep_def pmm_inv_def s_def bitmap_test_def)
    then have "p \<noteq> 0" using page(3) by auto
    then show ?thesis using page by (simp add: page_addr_eq_0)
  qed
  have "free_list (zone_store s 0) = 0" "max_size (zone_store s 0) = 0" by (simp_all add: s_def z_def)
  from zalloc_oversized_faults [OF sz this al] show ?thesis by (simp add: zi)
qed

end
