(* ===== verification/Pmap.thy ===== *)
theory Pmap
  imports Zalloc
begin

text \<open>
  \<^verbatim>\<open>hal/x86_64/pmap.c\<close>: four-level page tables.

  Page tables are pages of \<open>mem\<close>, read and written as 64-bit entries through the direct map, as the
  code does.  A \<open>pmap_t\<close> lives at its address in the typed heap \<open>pmaps\<close>; \<open>pmap_kernel\<close> is the address
  of the static variable of that name.  \<open>cr3\<close> and \<open>tlb\<close> are the hardware state the code touches: the
  \<open>tlb\<close> holds the entries the processor may have cached, by virtual page address; \<open>invlpg\<close> drops
  one entry and a write to CR3 drops all of them.
\<close>

section \<open>State and constants\<close>

record pmap =
  pml4_phys :: u64
  pm_ref_count :: u32

record pmap_state = zones +
  pmaps :: "addr \<Rightarrow> pmap"
  pmap_kernel :: addr
  cr3 :: u64
  tlb :: "addr \<Rightarrow> u64 option"

definition PTE_P :: u64 where "PTE_P = push_bit 0 1"
definition PTE_W :: u64 where "PTE_W = push_bit 1 1"
definition PTE_U :: u64 where "PTE_U = push_bit 2 1"
definition PTE_PS :: u64 where "PTE_PS = push_bit 7 1"
definition PTE_G :: u64 where "PTE_G = push_bit 8 1"
definition PTE_NX :: u64 where "PTE_NX = push_bit 63 1"
definition PTE_ADDR_MASK :: u64 where "PTE_ADDR_MASK = 0x000ffffffffff000"

definition PML4_IDX :: "addr \<Rightarrow> u64" where "PML4_IDX va = drop_bit 39 va AND 0x1ff"
definition PDPT_IDX :: "addr \<Rightarrow> u64" where "PDPT_IDX va = drop_bit 30 va AND 0x1ff"
definition PD_IDX :: "addr \<Rightarrow> u64" where "PD_IDX va = drop_bit 21 va AND 0x1ff"
definition PT_IDX :: "addr \<Rightarrow> u64" where "PT_IDX va = drop_bit 12 va AND 0x1ff"

text \<open>\<open>&table[idx]\<close> for a table given by its physical address.\<close>

definition pte_addr :: "'a machine_scheme \<Rightarrow> u64 \<Rightarrow> u64 \<Rightarrow> addr" where
  "pte_addr s table idx = PHYS_TO_VIRT s table + 8 * idx"

definition read_pte :: "'a machine_scheme \<Rightarrow> u64 \<Rightarrow> u64 \<Rightarrow> u64" where
  "read_pte s table idx = load64 (mem s) (pte_addr s table idx)"

section \<open>Hardware access\<close>

definition read_cr3 :: "'a pmap_state_scheme \<Rightarrow> u64" where
  "read_cr3 s = cr3 s"

definition write_cr3 :: "u64 \<Rightarrow> 'a pmap_state_scheme \<Rightarrow> 'a pmap_state_scheme" where
  "write_cr3 v s = s\<lparr>cr3 := v, tlb := (\<lambda>_. None)\<rparr>"

definition invlpg :: "addr \<Rightarrow> 'a pmap_state_scheme \<Rightarrow> 'a pmap_state_scheme" where
  "invlpg va s = s\<lparr>tlb := (tlb s)(page_of va := None)\<rparr>"

definition tlb_flush_all :: "'a pmap_state_scheme \<Rightarrow> 'a pmap_state_scheme" where
  "tlb_flush_all s = write_cr3 (read_cr3 s) s"

section \<open>Walking the tables\<close>

definition pmap_alloc_table :: "'a pmap_state_scheme \<Rightarrow> u64 \<times> 'a pmap_state_scheme" where
  "pmap_alloc_table s =
     (case pmm_alloc_page s of (pa, s) \<Rightarrow>
        if pa = PMM_NULL then (PMM_NULL, s)
        else (pa, s\<lparr>mem := kmemset (PHYS_TO_VIRT s pa) 0 PMM_PAGE_SIZE (mem s)\<rparr>))"

text \<open>
  One level of \<open>pmap_walk\<close>: the block the code repeats for PML4, PDPT and PD.  \<open>None\<close> is the
  \<open>return NULL\<close>; otherwise the physical address of the next table.
\<close>

definition walk_level ::
  "bool \<Rightarrow> u64 \<Rightarrow> u64 \<Rightarrow> 'a pmap_state_scheme \<Rightarrow> u64 option \<times> 'a pmap_state_scheme" where
  "walk_level create table idx s =
     (if read_pte s table idx AND PTE_P = 0 then
        if \<not> create then (None, s)
        else case pmap_alloc_table s of (pa, s) \<Rightarrow>
          if pa = PMM_NULL then (None, s)
          else
            let s = s\<lparr>mem := store64 (mem s) (pte_addr s table idx) (pa OR PTE_P OR PTE_W OR PTE_U)\<rparr>
            in (Some (read_pte s table idx AND PTE_ADDR_MASK), s)
      else (Some (read_pte s table idx AND PTE_ADDR_MASK), s))"

text \<open>The result is the address of the page-table entry, or the null pointer.\<close>

definition pmap_walk :: "addr \<Rightarrow> addr \<Rightarrow> bool \<Rightarrow> 'a pmap_state_scheme \<Rightarrow> addr \<times> 'a pmap_state_scheme" where
  "pmap_walk pmap vaddr create s =
     (let pml4 = pml4_phys (pmaps s pmap) in
      case walk_level create pml4 (PML4_IDX vaddr) s of
        (None, s) \<Rightarrow> (0, s)
      | (Some pdpt, s) \<Rightarrow>
          (case walk_level create pdpt (PDPT_IDX vaddr) s of
             (None, s) \<Rightarrow> (0, s)
           | (Some pd, s) \<Rightarrow>
               (case walk_level create pd (PD_IDX vaddr) s of
                  (None, s) \<Rightarrow> (0, s)
                | (Some pt, s) \<Rightarrow> (pte_addr s pt (PT_IDX vaddr), s))))"

section \<open>Life cycle\<close>

text \<open>The three nested loops of \<open>pmap_free_tables\<close>; each runs over the 512 entries of a table.\<close>

definition free_pd_entry :: "u64 \<Rightarrow> nat \<Rightarrow> 'a pmap_state_scheme \<Rightarrow> 'a pmap_state_scheme" where
  "free_pd_entry pd i2 s =
     (let e = read_pte s pd (of_nat i2) in
      if e AND PTE_P = 0 then s
      else if e AND PTE_PS \<noteq> 0 then s
      else pmm_free_page (e AND PTE_ADDR_MASK) s)"

definition free_pdpt_entry :: "u64 \<Rightarrow> nat \<Rightarrow> 'a pmap_state_scheme \<Rightarrow> 'a pmap_state_scheme" where
  "free_pdpt_entry pdpt i3 s =
     (let e = read_pte s pdpt (of_nat i3) in
      if e AND PTE_P = 0 then s
      else if e AND PTE_PS \<noteq> 0 then s
      else
        let s = fold (free_pd_entry (e AND PTE_ADDR_MASK)) [0..<512] s
        in pmm_free_page (read_pte s pdpt (of_nat i3) AND PTE_ADDR_MASK) s)"

definition free_pml4_entry :: "u64 \<Rightarrow> nat \<Rightarrow> 'a pmap_state_scheme \<Rightarrow> 'a pmap_state_scheme" where
  "free_pml4_entry pml4 i4 s =
     (let e = read_pte s pml4 (of_nat i4) in
      if e AND PTE_P = 0 then s
      else
        let s = fold (free_pdpt_entry (e AND PTE_ADDR_MASK)) [0..<512] s
        in pmm_free_page (read_pte s pml4 (of_nat i4) AND PTE_ADDR_MASK) s)"

definition pmap_free_tables :: "u64 \<Rightarrow> 'a pmap_state_scheme \<Rightarrow> 'a pmap_state_scheme" where
  "pmap_free_tables pml4 s = pmm_free_page pml4 (fold (free_pml4_entry pml4) [0..<512] s)"

definition pmap_init :: "'a pmap_state_scheme \<Rightarrow> 'a pmap_state_scheme option" where
  "pmap_init s =
     (let c = read_cr3 s AND PTE_ADDR_MASK;
          s = s\<lparr>pmaps := (pmaps s)(pmap_kernel s := \<lparr>pml4_phys = c, pm_ref_count = 1\<rparr>)\<rparr>
      in kprintf (''PMAP: kernel PML4 at phys 0x%x'' @ nl) [VInt c] s)"

text \<open>The loop that copies the upper 256 entries of the kernel's PML4.\<close>

definition copy_kernel_entry :: "u64 \<Rightarrow> nat \<Rightarrow> 'a pmap_state_scheme \<Rightarrow> 'a pmap_state_scheme" where
  "copy_kernel_entry pa i s =
     s\<lparr>mem := store64 (mem s) (pte_addr s pa (of_nat i))
         (read_pte s (pml4_phys (pmaps s (pmap_kernel s))) (of_nat i))\<rparr>"

text \<open>
  The new \<open>pmap_t\<close> is placed at the physical address of its page, which the code uses as a pointer.
\<close>

definition pmap_create :: "'a pmap_state_scheme \<Rightarrow> addr \<times> 'a pmap_state_scheme" where
  "pmap_create s =
     (case pmap_alloc_table s of (pa, s) \<Rightarrow>
        if pa = PMM_NULL then (0, s)
        else
          let s = fold (copy_kernel_entry pa) [256..<512] s
          in (case pmm_alloc_page s of (pmap, s) \<Rightarrow>
                if pmap = 0 then (0, pmm_free_page pa s)
                else (pmap, s\<lparr>pmaps := (pmaps s)(pmap := \<lparr>pml4_phys = pa, pm_ref_count = 1\<rparr>)\<rparr>)))"

definition pmap_reference :: "addr \<Rightarrow> 'a pmap_state_scheme \<Rightarrow> 'a pmap_state_scheme" where
  "pmap_reference pmap s =
     s\<lparr>pmaps := (pmaps s)(pmap := (pmaps s pmap)\<lparr>pm_ref_count := pm_ref_count (pmaps s pmap) + 1\<rparr>)\<rparr>"

definition pmap_destroy :: "addr \<Rightarrow> 'a pmap_state_scheme \<Rightarrow> 'a pmap_state_scheme" where
  "pmap_destroy pmap s =
     (if pmap = pmap_kernel s then s
      else
        let s = s\<lparr>pmaps := (pmaps s)(pmap := (pmaps s pmap)\<lparr>pm_ref_count := pm_ref_count (pmaps s pmap) - 1\<rparr>)\<rparr>
        in if pm_ref_count (pmaps s pmap) > 0 then s
           else
             let s = pmap_free_tables (pml4_phys (pmaps s pmap)) s
             in pmm_free_page (VIRT_TO_PHYS s pmap) s)"

definition pmap_switch :: "addr \<Rightarrow> 'a pmap_state_scheme \<Rightarrow> 'a pmap_state_scheme" where
  "pmap_switch pmap s = write_cr3 (pml4_phys (pmaps s pmap)) s"

section \<open>Mappings\<close>

definition make_pte :: "u64 \<Rightarrow> u64 \<Rightarrow> u64" where
  "make_pte pa flags = (pa AND PTE_ADDR_MASK) OR (flags AND NOT PTE_ADDR_MASK) OR PTE_P"

definition pmap_map :: "addr \<Rightarrow> addr \<Rightarrow> u64 \<Rightarrow> u64 \<Rightarrow> 'a pmap_state_scheme \<Rightarrow> int \<times> 'a pmap_state_scheme" where
  "pmap_map pmap vaddr paddr flags s =
     (case pmap_walk pmap vaddr True s of (pte, s) \<Rightarrow>
        if pte = 0 then (-1, s)
        else (0, invlpg vaddr (s\<lparr>mem := store64 (mem s) pte (make_pte paddr flags)\<rparr>)))"

definition pmap_unmap :: "addr \<Rightarrow> addr \<Rightarrow> 'a pmap_state_scheme \<Rightarrow> int \<times> 'a pmap_state_scheme" where
  "pmap_unmap pmap vaddr s =
     (case pmap_walk pmap vaddr False s of (pte, s) \<Rightarrow>
        if pte = 0 \<or> load64 (mem s) pte AND PTE_P = 0 then (-1, s)
        else (0, invlpg vaddr (s\<lparr>mem := store64 (mem s) pte 0\<rparr>)))"

definition pmap_protect :: "addr \<Rightarrow> addr \<Rightarrow> u64 \<Rightarrow> 'a pmap_state_scheme \<Rightarrow> int \<times> 'a pmap_state_scheme" where
  "pmap_protect pmap vaddr flags s =
     (case pmap_walk pmap vaddr False s of (pte, s) \<Rightarrow>
        if pte = 0 \<or> load64 (mem s) pte AND PTE_P = 0 then (-1, s)
        else (0, invlpg vaddr (s\<lparr>mem := store64 (mem s) pte (make_pte (load64 (mem s) pte) flags)\<rparr>)))"

definition pmap_query :: "addr \<Rightarrow> addr \<Rightarrow> 'a pmap_state_scheme \<Rightarrow> u64" where
  "pmap_query pmap vaddr s =
     (case pmap_walk pmap vaddr False s of (pte, s) \<Rightarrow>
        if pte = 0 \<or> load64 (mem s) pte AND PTE_P = 0 then 0
        else (load64 (mem s) pte AND PTE_ADDR_MASK) OR (vaddr AND (PMM_PAGE_SIZE - 1)))"

section \<open>Entries\<close>

lemma PTE_ADDR_MASK_mask: "PTE_ADDR_MASK = push_bit 12 (mask 40)"
  by (simp add: PTE_ADDR_MASK_def mask_eq_exp_minus_1)

lemma bit_PTE_ADDR_MASK: "bit PTE_ADDR_MASK n \<longleftrightarrow> 12 \<le> n \<and> n < 52"
  by (auto simp: PTE_ADDR_MASK_mask bit_push_bit_iff bit_mask_iff)

lemma and_PTE_P: "e AND PTE_P = 0 \<longleftrightarrow> \<not> bit e 0"
proof -
  have "e AND PTE_P = e mod 2" by (simp add: PTE_P_def and_one_eq)
  also have "\<dots> = of_bool (odd e)" by (rule mod_2_eq_odd)
  finally show ?thesis by (simp add: bit_0)
qed

lemma bit_flags:
  "bit PTE_P n \<longleftrightarrow> n = 0" "bit PTE_W n \<longleftrightarrow> n = 1" "bit PTE_U n \<longleftrightarrow> n = 2"
  "bit PTE_PS n \<longleftrightarrow> n = 7" "bit PTE_NX n \<longleftrightarrow> n = 63"
  unfolding PTE_P_def PTE_W_def PTE_U_def PTE_PS_def PTE_NX_def bit_push_bit_iff bit_1_iff by auto

text \<open>The addresses of tables and of mapped pages.\<close>

definition is_page :: "u64 \<Rightarrow> bool" where
  "is_page pa \<longleftrightarrow> aligned 4096 pa \<and> unat pa < 4294967296"

lemma is_page_bits:
  assumes "is_page pa" "bit pa n"
  shows "12 \<le> n \<and> n < 52"
proof -
  have "unat pa mod 4096 = 0" "unat pa < 2 ^ 32" using assms(1) by (simp_all add: is_page_def aligned_def)
  have a: "take_bit 12 (unat pa) = 0" using \<open>unat pa mod 4096 = 0\<close> by (simp add: take_bit_eq_mod)
  have b: "take_bit 32 (unat pa) = unat pa" using \<open>unat pa < 2 ^ 32\<close> by (simp add: take_bit_nat_eq_self)
  have bn: "bit (unat pa) n" using assms(2) by (simp add: bit_unsigned_iff bit_imp_le_length)
  have "\<not> n < 12"
  proof
    assume "n < 12"
    then have "bit (take_bit 12 (unat pa)) n" using bn by (simp add: bit_take_bit_iff)
    then show False by (simp add: a)
  qed
  moreover have "n < 32"
  proof -
    have "bit (take_bit 32 (unat pa)) n" using bn by (simp add: b)
    then show ?thesis by (simp add: bit_take_bit_iff)
  qed
  ultimately show ?thesis by simp
qed

lemma table_entry:
  assumes "is_page pa"
  shows "(pa OR PTE_P OR PTE_W OR PTE_U) AND PTE_ADDR_MASK = pa"
    "(pa OR PTE_P OR PTE_W OR PTE_U) AND PTE_P \<noteq> 0"
proof -
  show "(pa OR PTE_P OR PTE_W OR PTE_U) AND PTE_ADDR_MASK = pa"
    using is_page_bits [OF assms]
    by (intro bit_word_eqI)
      (auto simp: bit_and_iff bit_or_iff bit_PTE_ADDR_MASK bit_flags)
  show "(pa OR PTE_P OR PTE_W OR PTE_U) AND PTE_P \<noteq> 0"
    by (simp add: and_PTE_P bit_or_iff bit_flags)
qed

lemma make_pte_present: "make_pte pa flags AND PTE_P \<noteq> 0"
  by (simp add: and_PTE_P make_pte_def bit_or_iff bit_flags)

lemma make_pte_addr: "make_pte pa flags AND PTE_ADDR_MASK = pa AND PTE_ADDR_MASK"
  by (rule bit_word_eqI)
    (auto simp: make_pte_def bit_and_iff bit_or_iff bit_not_iff bit_PTE_ADDR_MASK bit_flags)

lemma make_pte_flags:
  "make_pte pa flags AND NOT PTE_ADDR_MASK = (flags AND NOT PTE_ADDR_MASK) OR PTE_P"
  by (rule bit_word_eqI)
    (auto simp: make_pte_def bit_and_iff bit_or_iff bit_not_iff bit_PTE_ADDR_MASK bit_flags)

lemma is_page_mask: "is_page pa \<Longrightarrow> pa AND PTE_ADDR_MASK = pa"
  by (rule bit_word_eqI) (auto simp: bit_and_iff bit_PTE_ADDR_MASK dest: is_page_bits)

lemma used_is_page: "pa \<in> used_pages s \<Longrightarrow> is_page pa"
  by (drule used_page_bounds) (simp add: is_page_def)

section \<open>Entry addresses\<close>

lemma idx_offset:
  assumes "(i :: u64) < 512"
  shows "unat (8 * i) = 8 * unat i" "8 * i < 4096"
proof -
  have i: "unat i < 512" using assms by (simp add: word_less_nat_alt)
  then show u: "unat (8 * i) = 8 * unat i" by (simp add: unat_word_ariths)
  show "8 * i < 4096" using i by (simp add: word_less_nat_alt u)
qed

lemma pte_addr_props:
  assumes "hhdm_ok s" "is_page t" "i < 512"
  shows "page_of (pte_addr s t i) = PHYS_TO_VIRT s t" "aligned 8 (pte_addr s t i)"
proof -
  have pg: "aligned 4096 (PHYS_TO_VIRT s t)"
    using assms(1,2) by (simp add: PHYS_TO_VIRT_def hhdm_ok_def is_page_def aligned_add)
  have "pte_addr s t i - PHYS_TO_VIRT s t = 8 * i" by (simp add: pte_addr_def)
  then show "page_of (pte_addr s t i) = PHYS_TO_VIRT s t"
    using idx_offset(2) [OF assms(3)] page_of_iff [OF pg, of "pte_addr s t i"] by simp
  have "aligned 8 (PHYS_TO_VIRT s t)" by (rule aligned_weaken [OF _ pg]) simp
  moreover have "aligned 8 (8 * i)" unfolding aligned_def idx_offset(1) [OF assms(3)] by simp
  ultimately show "aligned 8 (pte_addr s t i)" unfolding pte_addr_def by (intro aligned_add) simp_all
qed

lemma pte_addr_inj:
  assumes "hhdm_ok s" "is_page t" "is_page u" "i < 512" "j < 512" "pte_addr s t i = pte_addr s u j"
  shows "t = u \<and> i = j"
proof -
  have "PHYS_TO_VIRT s t = PHYS_TO_VIRT s u"
    using pte_addr_props(1) [OF assms(1,2,4)] pte_addr_props(1) [OF assms(1,3,5)] assms(6) by simp
  then have tu: "t = u" by simp
  then have "8 * i = 8 * j" using assms(6) by (simp add: pte_addr_def)
  then have "unat (8 * i) = unat (8 * j)" by (rule arg_cong)
  then have "unat i = unat j" by (simp only: idx_offset(1) [OF assms(4)] idx_offset(1) [OF assms(5)])
  with tu show ?thesis by (simp add: word_unat_eq_iff)
qed

lemma pte_addr_nonzero:
  assumes "hhdm_ok s" "is_page t" "t \<noteq> 0" "i < 512"
  shows "pte_addr s t i \<noteq> 0"
proof
  assume "pte_addr s t i = 0"
  then have "PHYS_TO_VIRT s t = page_of 0" using pte_addr_props(1) [OF assms(1,2,4)] by simp
  then have "PHYS_TO_VIRT s t = 0" by (simp add: page_of_def)
  then show False using direct_page(2) [OF assms(1), of t] assms(2,3) by (simp add: is_page_def)
qed

text \<open>Reading an entry after a store to an entry, and after zeroing a page.\<close>

lemma read_pte_store:
  assumes "hhdm_ok s" "is_page t" "is_page u" "i < 512" "j < 512"
    "mem s' = store64 (mem s) (pte_addr s t i) v" "hhdm_offset s' = hhdm_offset s"
  shows "read_pte s' u j = (if u = t \<and> j = i then v else read_pte s u j)"
proof -
  have pa: "pte_addr s' u j = pte_addr s u j" by (simp add: pte_addr_def PHYS_TO_VIRT_def assms(7))
  show ?thesis
  proof (cases "u = t \<and> j = i")
    case True
    then show ?thesis using pa by (simp add: read_pte_def assms(6) load64_store64_same)
  next
    case False
    then have "pte_addr s t i \<noteq> pte_addr s u j" using pte_addr_inj [OF assms(1-5)] by auto
    then have "load64 (store64 (mem s) (pte_addr s t i) v) (pte_addr s u j) = load64 (mem s) (pte_addr s u j)"
      by (intro load64_store64_other pte_addr_props(2) assms)
    with False show ?thesis by (auto simp: read_pte_def pa assms(6))
  qed
qed

lemma load64_page_cong:
  assumes "aligned 8 a" "\<And>b. page_of b = page_of a \<Longrightarrow> m' b = m b"
  shows "load64 m' a = load64 m a"
  unfolding load64_def
proof (rule load_bytes_cong)
  fix k :: nat assume k: "k < 8"
  define p where "p = page_of a"
  have p: "aligned 4096 p" by (simp add: p_def)
  have "aligned 8 p" by (rule aligned_weaken [OF _ p]) simp
  then have d: "aligned 8 (a - p)" using assms(1) by (intro aligned_sub) simp_all
  have "a - p < 4096" using page_of_iff [OF p, of a] by (simp add: p_def)
  then have "a - p + of_nat k < 4096"
    using aligned_offset_less [OF d _ k, of 4096] by (simp add: aligned_def)
  then have "a + of_nat k - p < 4096" by (simp add: algebra_simps)
  then have "page_of (a + of_nat k) = p" by (simp add: page_of_iff [OF p])
  then show "m' (a + of_nat k) = m (a + of_nat k)" by (intro assms(2)) (simp add: p_def)
qed

lemma read_pte_page_cong:
  assumes "hhdm_ok s" "is_page t" "i < 512" "hhdm_offset s' = hhdm_offset s"
    "\<And>b. page_of b = PHYS_TO_VIRT s t \<Longrightarrow> mem s' b = mem s b"
  shows "read_pte s' t i = read_pte s t i"
proof -
  have "pte_addr s' t i = pte_addr s t i" by (simp add: pte_addr_def PHYS_TO_VIRT_def assms(4))
  moreover have "load64 (mem s') (pte_addr s t i) = load64 (mem s) (pte_addr s t i)"
  proof (rule load64_page_cong [OF pte_addr_props(2) [OF assms(1-3)]])
    fix b assume "page_of b = page_of (pte_addr s t i)"
    then show "mem s' b = mem s b" using pte_addr_props(1) [OF assms(1-3)] by (intro assms(5)) simp
  qed
  ultimately show ?thesis by (simp only: read_pte_def)
qed

section \<open>The tree of tables\<close>

text \<open>
  \<open>table_at s root p\<close> follows the indices \<open>p\<close> from \<open>root\<close>.  \<open>pt_tree s I root\<close>: below the entries \<open>I\<close>
  of the PML4 the tables form a tree of pages in use: no table is reached on two paths.
\<close>

definition next_table :: "'a machine_scheme \<Rightarrow> u64 \<Rightarrow> u64 \<Rightarrow> u64 option" where
  "next_table s t i = (let e = read_pte s t i in if e AND PTE_P = 0 then None else Some (e AND PTE_ADDR_MASK))"

fun table_at :: "'a machine_scheme \<Rightarrow> u64 \<Rightarrow> u64 list \<Rightarrow> u64 option" where
  "table_at s t [] = Some t"
| "table_at s t (i # p) = (case next_table s t i of None \<Rightarrow> None | Some u \<Rightarrow> table_at s u p)"

definition vpath :: "u64 set \<Rightarrow> u64 list \<Rightarrow> bool" where
  "vpath I p \<longleftrightarrow> (\<forall>i \<in> set p. i < 512) \<and> (p \<noteq> [] \<longrightarrow> hd p \<in> I)"

definition tables :: "'a machine_scheme \<Rightarrow> u64 set \<Rightarrow> u64 \<Rightarrow> u64 set" where
  "tables s I root = {t. \<exists>p. vpath I p \<and> length p \<le> 3 \<and> table_at s root p = Some t}"

definition pt_tree :: "'a pmm_scheme \<Rightarrow> u64 set \<Rightarrow> u64 \<Rightarrow> bool" where
  "pt_tree s I root \<longleftrightarrow> hhdm_ok s \<and> tables s I root \<subseteq> used_pages s - {0} \<and>
     (\<forall>p q t. vpath I p \<longrightarrow> vpath I q \<longrightarrow> length p \<le> 3 \<longrightarrow> length q \<le> 3 \<longrightarrow>
        table_at s root p = Some t \<longrightarrow> table_at s root q = Some t \<longrightarrow> p = q)"

text \<open>What the hardware finds for \<open>va\<close>: the last-level entry, when every level is present.\<close>

definition va_path :: "addr \<Rightarrow> u64 list" where
  "va_path va = [PML4_IDX va, PDPT_IDX va, PD_IDX va]"

definition translate :: "'a machine_scheme \<Rightarrow> u64 \<Rightarrow> addr \<Rightarrow> u64 option" where
  "translate s root va =
     (case table_at s root (va_path va) of
        None \<Rightarrow> None
      | Some t \<Rightarrow> if read_pte s t (PT_IDX va) AND PTE_P = 0 then None else Some (read_pte s t (PT_IDX va)))"

lemma table_at_append:
  "table_at s t (p @ q) = (case table_at s t p of None \<Rightarrow> None | Some u \<Rightarrow> table_at s u q)"
  by (induction p arbitrary: t) (auto split: option.splits)

lemma table_at_snoc:
  "table_at s t (p @ [i]) = (case table_at s t p of None \<Rightarrow> None | Some u \<Rightarrow> next_table s u i)"
  by (auto simp: table_at_append split: option.splits)

lemma vpath_snocD: "vpath I (p @ [i]) \<Longrightarrow> vpath I p \<and> i < 512"
  by (cases p) (auto simp: vpath_def)

lemma idx_less: "PML4_IDX va < 512" "PDPT_IDX va < 512" "PD_IDX va < 512" "PT_IDX va < 512"
proof -
  have "x AND 511 < 512" for x :: u64
  proof -
    have "x AND 511 \<le> 511" by (rule word_and_le1)
    then show ?thesis by (simp add: word_less_nat_alt word_le_nat_alt)
  qed
  then show "PML4_IDX va < 512" "PDPT_IDX va < 512" "PD_IDX va < 512" "PT_IDX va < 512"
    by (simp_all add: PML4_IDX_def PDPT_IDX_def PD_IDX_def PT_IDX_def)
qed

lemma va_path_vpath: "PML4_IDX va \<in> I \<Longrightarrow> vpath I (va_path va)"
  by (simp add: vpath_def va_path_def idx_less)

lemma length_va_path [simp]: "length (va_path va) = 3"
  by (simp add: va_path_def)

lemma pt_treeD:
  assumes "pt_tree s I root" "vpath I p" "length p \<le> 3" "table_at s root p = Some t"
  shows "is_page t" "t \<noteq> 0" "t \<in> used_pages s" "t \<in> tables s I root"
    "\<And>q. vpath I q \<Longrightarrow> length q \<le> 3 \<Longrightarrow> table_at s root q = Some t \<Longrightarrow> q = p"
proof -
  show t: "t \<in> tables s I root" using assms by (auto simp: tables_def)
  then show "t \<noteq> 0" "t \<in> used_pages s" using assms(1) by (auto simp: pt_tree_def)
  then show "is_page t" by (simp add: used_is_page)
  show "q = p" if "vpath I q" "length q \<le> 3" "table_at s root q = Some t" for q
    using assms that unfolding pt_tree_def by blast
qed

lemma pt_tree_hhdm: "pt_tree s I root \<Longrightarrow> hhdm_ok s"
  by (simp add: pt_tree_def)

text \<open>A change outside the tables is not seen by the walk.\<close>

lemma table_at_cong:
  assumes pt: "pt_tree s I root" and h: "hhdm_offset s' = hhdm_offset s"
    and m: "\<And>b t. t \<in> tables s I root \<Longrightarrow> page_of b = PHYS_TO_VIRT s t \<Longrightarrow> mem s' b = mem s b"
  shows "vpath I p \<Longrightarrow> length p \<le> 3 \<Longrightarrow> table_at s' root p = table_at s root p"
proof (induction p rule: rev_induct)
  case (snoc i p)
  then have v: "vpath I p" "i < 512" "length p \<le> 3" by (auto dest: vpath_snocD)
  note IH = snoc.IH [OF v(1,3)]
  show ?case
  proof (cases "table_at s root p")
    case None
    then show ?thesis by (simp add: table_at_snoc IH)
  next
    case (Some t)
    note t = pt_treeD [OF pt v(1,3) Some]
    have "read_pte s' t i = read_pte s t i"
      by (rule read_pte_page_cong [OF pt_tree_hhdm [OF pt] t(1) v(2) h m [OF t(4)]])
    then show ?thesis by (simp add: table_at_snoc IH Some next_table_def)
  qed
qed simp

lemma translate_cong:
  assumes pt: "pt_tree s I root" and h: "hhdm_offset s' = hhdm_offset s"
    and m: "\<And>b t. t \<in> tables s I root \<Longrightarrow> page_of b = PHYS_TO_VIRT s t \<Longrightarrow> mem s' b = mem s b"
    and va: "PML4_IDX va \<in> I"
  shows "translate s' root va = translate s root va"
proof -
  note v = va_path_vpath [OF va]
  have eq: "table_at s' root (va_path va) = table_at s root (va_path va)"
    by (rule table_at_cong [OF pt h m v]) simp_all
  show ?thesis
  proof (cases "table_at s root (va_path va)")
    case None
    then show ?thesis by (simp add: translate_def eq)
  next
    case (Some t)
    note t = pt_treeD [OF pt v _ Some, simplified]
    have "read_pte s' t (PT_IDX va) = read_pte s t (PT_IDX va)"
      by (rule read_pte_page_cong [OF pt_tree_hhdm [OF pt] t(1) idx_less(4) h m [OF t(4)]])
    then show ?thesis by (simp add: translate_def eq Some)
  qed
qed

lemma tables_cong:
  assumes "\<And>p. vpath I p \<Longrightarrow> length p \<le> 3 \<Longrightarrow> table_at s' root p = table_at s root p"
  shows "tables s' I root = tables s I root"
  using assms by (auto simp: tables_def)

lemma pt_tree_cong:
  assumes pt: "pt_tree s I root" and h: "hhdm_offset s' = hhdm_offset s"
    and m: "\<And>b t. t \<in> tables s I root \<Longrightarrow> page_of b = PHYS_TO_VIRT s t \<Longrightarrow> mem s' b = mem s b"
    and u: "tables s I root \<subseteq> used_pages s'"
  shows "pt_tree s' I root" "tables s' I root = tables s I root"
proof -
  note eq = table_at_cong [OF pt h m]
  show t: "tables s' I root = tables s I root" by (rule tables_cong) (rule eq)
  show "pt_tree s' I root"
    using pt u unfolding pt_tree_def t by (auto simp: eq hhdm_ok_def h)
qed

section \<open>Storing into a table\<close>

text \<open>A store to entry \<open>i\<close> of the table at path \<open>q\<close> changes only what lies below that entry.\<close>

lemma table_at_store:
  assumes pt: "pt_tree s I root" and q: "vpath I q" "length q \<le> 3" "table_at s root q = Some t"
    and i: "i < 512"
    and s': "mem s' = store64 (mem s) (pte_addr s t i) v" "hhdm_offset s' = hhdm_offset s"
  shows "vpath I p \<Longrightarrow> length p \<le> 3 \<Longrightarrow> (\<And>r. p \<noteq> q @ [i] @ r) \<Longrightarrow> table_at s' root p = table_at s root p"
proof (induction p rule: rev_induct)
  case (snoc j p)
  then have v: "vpath I p" "j < 512" "length p \<le> 3" by (auto dest: vpath_snocD)
  have "p \<noteq> q @ [i] @ r" for r using snoc.prems(3) [of "r @ [j]"] by auto
  note IH = snoc.IH [OF v(1,3) this]
  show ?case
  proof (cases "table_at s root p")
    case None
    then show ?thesis by (simp add: table_at_snoc IH)
  next
    case (Some x)
    note x = pt_treeD [OF pt v(1,3) Some] and t = pt_treeD [OF pt q]
    have "\<not> (x = t \<and> j = i)"
    proof
      assume "x = t \<and> j = i"
      then have "p = q" using t(5) [OF v(1,3)] Some by simp
      with \<open>x = t \<and> j = i\<close> snoc.prems(3) [of "[]"] show False by simp
    qed
    then have "read_pte s' x j = read_pte s x j"
      using read_pte_store [OF pt_tree_hhdm [OF pt] t(1) x(1) i v(2) s'] by auto
    then show ?thesis by (simp add: table_at_snoc IH Some next_table_def)
  qed
qed simp


text \<open>Two addresses that the walk cannot tell apart: the same page, up to bits 48 to 63.\<close>

definition same_slot :: "addr \<Rightarrow> addr \<Rightarrow> bool" where
  "same_slot va vb \<longleftrightarrow> va_path va = va_path vb \<and> PT_IDX va = PT_IDX vb"

lemma translate_store_leaf:
  assumes pt: "pt_tree s I root" and va: "PML4_IDX va \<in> I" and t: "table_at s root (va_path va) = Some t"
    and s': "mem s' = store64 (mem s) (pte_addr s t (PT_IDX va)) v" "hhdm_offset s' = hhdm_offset s"
    and u: "used_pages s' = used_pages s"
  shows "pt_tree s' I root" "tables s' I root = tables s I root"
    "\<And>vb. PML4_IDX vb \<in> I \<Longrightarrow> translate s' root vb =
       (if same_slot va vb then (if v AND PTE_P = 0 then None else Some v) else translate s root vb)"
proof -
  note tt = pt_treeD [OF pt va_path_vpath [OF va] _ t, simplified]
  have eq: "table_at s' root p = table_at s root p" if "vpath I p" "length p \<le> 3" for p
    by (rule table_at_store [OF pt va_path_vpath [OF va] _ t idx_less(4) s' that]) (use that in auto)
  show tb: "tables s' I root = tables s I root" by (rule tables_cong) (rule eq)
  have h: "hhdm_ok s' = hhdm_ok s" by (simp add: hhdm_ok_def s'(2))
  show "pt_tree s' I root" using pt unfolding pt_tree_def tb h u by (auto simp: eq)
  fix vb assume vb: "PML4_IDX vb \<in> I"
  have e: "table_at s' root (va_path vb) = table_at s root (va_path vb)"
    by (rule eq [OF va_path_vpath [OF vb]]) simp
  show "translate s' root vb =
       (if same_slot va vb then (if v AND PTE_P = 0 then None else Some v) else translate s root vb)"
  proof (cases "table_at s root (va_path vb)")
    case None
    then have "va_path va \<noteq> va_path vb" using t by auto
    then show ?thesis by (simp add: translate_def e None same_slot_def)
  next
    case (Some x)
    note x = pt_treeD [OF pt va_path_vpath [OF vb] _ Some, simplified]
    have "x = t \<longleftrightarrow> va_path va = va_path vb"
    proof
      assume "x = t"
      then show "va_path va = va_path vb"
        using x(5) [OF va_path_vpath [OF va]] t by simp
    qed (use t Some in simp)
    then have "read_pte s' x (PT_IDX vb) = (if same_slot va vb then v else read_pte s x (PT_IDX vb))"
      using read_pte_store [OF pt_tree_hhdm [OF pt] tt(1) x(1) idx_less(4) idx_less(4) s', of vb]
      by (auto simp: same_slot_def)
    then show ?thesis by (auto simp: translate_def e Some)
  qed
qed

section \<open>Creating a level\<close>

text \<open>
  \<open>extends I root s s'\<close>: going from \<open>s\<close> to \<open>s'\<close> only added empty tables below the entries \<open>I\<close>; every
  translation is the same, and memory outside the tables did not change.
\<close>

definition extends :: "u64 set \<Rightarrow> u64 \<Rightarrow> 'a pmap_state_scheme \<Rightarrow> 'a pmap_state_scheme \<Rightarrow> bool" where
  "extends I root s s' \<longleftrightarrow> pt_tree s' I root \<and> pmm_inv s' \<and>
     (\<exists>m b c. s' = s\<lparr>mem := m, bitmap := b, free_count := c\<rparr>) \<and>
     (\<forall>va. PML4_IDX va \<in> I \<longrightarrow> translate s' root va = translate s root va) \<and>
     (\<forall>p t. vpath I p \<longrightarrow> length p \<le> 3 \<longrightarrow> table_at s root p = Some t \<longrightarrow> table_at s' root p = Some t) \<and>
     used_pages s' - used_pages s = tables s' I root - tables s I root \<and> used_pages s \<subseteq> used_pages s' \<and>
     tables s I root \<subseteq> tables s' I root \<and>
     (\<forall>b. page_of b \<notin> PHYS_TO_VIRT s ` tables s' I root \<longrightarrow> mem s' b = mem s b)"

lemma extends_refl: "pt_tree s I root \<Longrightarrow> pmm_inv s \<Longrightarrow> extends I root s s"
proof -
  have "s = s\<lparr>mem := mem s, bitmap := bitmap s, free_count := free_count s\<rparr>" by simp
  then show "pt_tree s I root \<Longrightarrow> pmm_inv s \<Longrightarrow> extends I root s s" unfolding extends_def by blast
qed

lemma extendsD:
  assumes "extends I root s s'"
  shows "pt_tree s' I root" "pmm_inv s'" "\<exists>m b c. s' = s\<lparr>mem := m, bitmap := b, free_count := c\<rparr>"
    "\<And>va. PML4_IDX va \<in> I \<Longrightarrow> translate s' root va = translate s root va"
    "\<And>p t. vpath I p \<Longrightarrow> length p \<le> 3 \<Longrightarrow> table_at s root p = Some t \<Longrightarrow> table_at s' root p = Some t"
    "used_pages s' - used_pages s = tables s' I root - tables s I root" "used_pages s \<subseteq> used_pages s'"
    "tables s I root \<subseteq> tables s' I root"
    "\<And>b. page_of b \<notin> PHYS_TO_VIRT s ` tables s' I root \<Longrightarrow> mem s' b = mem s b"
    "hhdm_offset s' = hhdm_offset s"
  using assms unfolding extends_def by (blast | auto)+

lemma extends_trans:
  assumes "extends I root s s'" "extends I root s' s''" "tables s I root \<subseteq> used_pages s"
  shows "extends I root s s''"
proof -
  note a = extendsD [OF assms(1)] and b = extendsD [OF assms(2)]
  have "\<exists>m b c. s'' = s\<lparr>mem := m, bitmap := b, free_count := c\<rparr>" using a(3) b(3) by (elim exE) (simp, blast)
  moreover have "PHYS_TO_VIRT s' = PHYS_TO_VIRT s" by (rule ext) (simp add: PHYS_TO_VIRT_def a(10))
  then have "mem s'' c = mem s c" if "page_of c \<notin> PHYS_TO_VIRT s ` tables s'' I root" for c
    using that a(9) [of c] b(9) [of c] b(8) by auto
  moreover have "used_pages s'' - used_pages s = tables s'' I root - tables s I root"
  proof -
    have "used_pages s'' - used_pages s = (used_pages s'' - used_pages s') \<union> (used_pages s' - used_pages s)"
      using a(7) b(7) by auto
    also have "\<dots> = (tables s'' I root - tables s' I root) \<union> (tables s' I root - tables s I root)"
      using a(6) b(6) by simp
    also have "\<dots> = tables s'' I root - tables s I root" using a(8) b(8) by auto
    finally show ?thesis .
  qed
  moreover have "translate s'' root va = translate s root va" if "PML4_IDX va \<in> I" for va
    using a(4) [OF that] b(4) [OF that] by simp
  moreover have "table_at s'' root p = Some t" if "vpath I p" "length p \<le> 3" "table_at s root p = Some t" for p t
    using b(5) [OF that(1,2) a(5) [OF that]] .
  moreover have "used_pages s \<subseteq> used_pages s''" "tables s I root \<subseteq> tables s'' I root"
    using a(7,8) b(7,8) by auto
  ultimately show ?thesis unfolding extends_def using b(1,2) by blast
qed

text \<open>A fresh page linked into an empty entry.\<close>

lemma link_table:
  assumes pt: "pt_tree s I root" and inv: "pmm_inv s"
    and q: "vpath I q" "length q < 3" "table_at s root q = Some t" and i: "i < 512" "vpath I (q @ [i])"
    and empty: "next_table s t i = None" and al: "pmm_alloc_page s = (pa, w)" "pa \<noteq> 0"
    and s': "s' = w\<lparr>mem := store64 (kmemset (PHYS_TO_VIRT w pa) 0 4096 (mem w)) (pte_addr s t i)
               (pa OR PTE_P OR PTE_W OR PTE_U)\<rparr>"
  shows "extends I root s s'" "table_at s' root (q @ [i]) = Some pa"
    "read_pte s' t i AND PTE_ADDR_MASK = pa"
proof -
  have q3: "length q \<le> 3" using q(2) by simp
  note t = pt_treeD [OF pt q(1) q3 q(3)]
  note hh = pt_tree_hhdm [OF pt]
  note f = pmm_alloc_page_fresh [OF inv al]
  obtain b c where w: "w = s\<lparr>bitmap := b, free_count := c\<rparr>" by (rule pmm_alloc_page_frame [OF al(1)])
  have pg: "is_page pa" using f by (intro used_is_page [of pa w]) simp
  have pt_addr: "pte_addr s' = pte_addr s" "PHYS_TO_VIRT w = PHYS_TO_VIRT s"
    by (rule ext; simp add: pte_addr_def PHYS_TO_VIRT_def s' w)+
  have vp: "aligned 4096 (PHYS_TO_VIRT s pa)"
    using hh pg by (simp add: PHYS_TO_VIRT_def hhdm_ok_def is_page_def aligned_add)
  have pat: "pa \<noteq> t" "pa \<notin> tables s I root"
    using f t pt by (auto simp: pt_tree_def)
  define z where "z = w\<lparr>mem := kmemset (PHYS_TO_VIRT s pa) 0 4096 (mem w)\<rparr>"
  have zb: "mem z b = (if page_of b = PHYS_TO_VIRT s pa then 0 else mem s b)" for b
    by (simp add: z_def w kmemset_apply page_of_iff [OF vp])
  have up: "used_pages z = insert pa (used_pages s)"
    using f by (simp add: z_def used_pages_def)
  have zh: "hhdm_offset z = hhdm_offset s" by (simp add: z_def w)
  have zm: "mem z b = mem s b" if "x \<in> tables s I root" "page_of b = PHYS_TO_VIRT s x" for b x
    using that pat by (auto simp: zb)
  have zu: "tables s I root \<subseteq> used_pages z" using pt by (auto simp: up pt_tree_def)
  have zt: "pt_tree z I root" "tables z I root = tables s I root"
    by (rule pt_tree_cong [OF pt zh _ zu], erule (1) zm)+
  have zeq: "table_at z root p = table_at s root p" if "vpath I p" "length p \<le> 3" for p
    by (rule table_at_cong [OF pt zh _ that], erule (1) zm)
  have zzero: "read_pte z pa j = 0" if "j < 512" for j
  proof -
    have "page_of (pte_addr s pa j) = PHYS_TO_VIRT s pa" "aligned 8 (pte_addr s pa j)"
      using pte_addr_props [OF hh pg that] by simp_all
    then show ?thesis
      by (simp add: read_pte_def z_def w pte_addr_def PHYS_TO_VIRT_def load64_zero_page vp [unfolded PHYS_TO_VIRT_def])
  qed
  have s'z: "mem s' = store64 (mem z) (pte_addr z t i) (pa OR PTE_P OR PTE_W OR PTE_U)"
    "hhdm_offset s' = hhdm_offset z"
    by (simp_all add: s' z_def pt_addr w pte_addr_def PHYS_TO_VIRT_def)
  have qz: "table_at z root q = Some t" using zeq [OF q(1) q3] q(3) by simp
  note rd = read_pte_store [OF pt_tree_hhdm [OF zt(1)] t(1) _ i(1) _ s'z]
  have e: "read_pte s' t i = pa OR PTE_P OR PTE_W OR PTE_U" using rd [OF t(1) i(1)] by simp
  then show "read_pte s' t i AND PTE_ADDR_MASK = pa" using table_entry(1) [OF pg] by simp
  have nt: "next_table s' t i = Some pa"
    unfolding next_table_def e Let_def using table_entry [OF pg] by simp
  have before: "table_at s root (q @ [i] @ r) = None" for r
    using table_at_append [of s root "q @ [i]" r] table_at_snoc [of s root q i] q(3) empty by simp
  have keep: "table_at s' root p = table_at s root p"
    if "vpath I p" "length p \<le> 3" "\<And>r. p \<noteq> q @ [i] @ r" for p
    using table_at_store [OF zt(1) q(1) q3 qz i(1) s'z that] zeq [OF that(1,2)] by simp
  have at: "table_at s' root q = Some t" using keep [OF q(1) q3] q(3) by simp
  then show new: "table_at s' root (q @ [i]) = Some pa" by (simp add: table_at_snoc nt)
  have below: "table_at s' root (q @ [i] @ j # r) = None" if "j < 512" for j r
  proof -
    have "read_pte s' pa j = 0" using rd [OF pg that] zzero [OF that] pat(1) by simp
    then have "next_table s' pa j = None" by (simp add: next_table_def)
    then show ?thesis using table_at_append [of s' root "q @ [i]" "j # r"] new by simp
  qed
  have all: "table_at s' root p = (if p = q @ [i] then Some pa else table_at s root p)"
    if p: "vpath I p" "length p \<le> 3" for p
  proof (cases "\<exists>r. p = q @ [i] @ r")
    case False
    then show ?thesis using keep [OF p] by auto
  next
    case True
    then obtain r where r: "p = q @ [i] @ r" by blast
    show ?thesis
    proof (cases r)
      case Nil
      then show ?thesis using r new by simp
    next
      case (Cons j r')
      then have "j < 512" using p(1) r by (auto simp: vpath_def)
      then show ?thesis using below [of j r'] before [of r] r Cons by simp
    qed
  qed
  have tb: "tables s' I root = insert pa (tables s I root)"
  proof -
    have "x \<in> tables s' I root" if "x = pa \<or> x \<in> tables s I root" for x
    proof -
      have "length (q @ [i]) \<le> 3" using q(2) by simp
      moreover have "p \<noteq> q @ [i]" if "table_at s root p = Some y" for p y
        using that before [of "[]"] by auto
      ultimately show ?thesis using that i(2) all unfolding tables_def by fastforce
    qed
    moreover have "x = pa \<or> x \<in> tables s I root" if "x \<in> tables s' I root" for x
      using that all by (auto simp: tables_def split: if_splits)
    ultimately show ?thesis by blast
  qed
  have ups: "used_pages s' = insert pa (used_pages s)" using f by (simp add: s' used_pages_def)
  have tree: "pt_tree s' I root"
  proof -
    have "p = p'" if v: "vpath I p" "vpath I p'" "length p \<le> 3" "length p' \<le> 3"
      "table_at s' root p = Some x" "table_at s' root p' = Some x" for p p' x
    proof -
      have "x \<in> tables s I root" if "vpath I r" "length r \<le> 3" "table_at s root r = Some x" for r
        using that by (auto simp: tables_def)
      then have "x \<noteq> pa \<Longrightarrow> p = p'" "x = pa \<Longrightarrow> p = p'"
        using v all pt pat(2) unfolding pt_tree_def by (auto split: if_splits)
      then show ?thesis by blast
    qed
    moreover have "hhdm_ok s'" using hh by (simp add: hhdm_ok_def s' w)
    moreover have "tables s' I root \<subseteq> used_pages s' - {0}"
      using pt al(2) by (auto simp: tb ups pt_tree_def)
    ultimately show ?thesis unfolding pt_tree_def by blast
  qed
  have tr: "translate s' root va = translate s root va" if va: "PML4_IDX va \<in> I" for va
  proof -
    note v = va_path_vpath [OF va]
    have ta: "table_at s' root (va_path va) = (if va_path va = q @ [i] then Some pa else table_at s root (va_path va))"
      by (rule all [OF v]) simp
    show ?thesis
    proof (cases "va_path va = q @ [i]")
      case True
      then have "table_at s root (va_path va) = None" using before [of "[]"] by simp
      moreover have "read_pte s' pa (PT_IDX va) = 0"
        using rd [OF pg idx_less(4)] zzero [OF idx_less(4)] pat(1) by simp
      ultimately show ?thesis by (simp add: translate_def True new)
    next
      case False
      show ?thesis
      proof (cases "table_at s root (va_path va)")
        case None
        then show ?thesis using False by (simp add: translate_def ta)
      next
        case (Some x)
        note x = pt_treeD [OF pt v _ Some, simplified]
        have xt: "x \<noteq> t" using x(5) [OF q(1) q3] q(2,3) by (metis length_va_path nat_neq_iff)
        have "read_pte s' x (PT_IDX va) = read_pte z x (PT_IDX va)"
          using rd [OF x(1) idx_less(4)] xt by simp
        also have "\<dots> = read_pte s x (PT_IDX va)"
          by (rule read_pte_page_cong [OF hh x(1) idx_less(4) zh zm [OF x(4)]])
        finally show ?thesis using False by (simp add: translate_def ta Some)
      qed
    qed
  qed
  have frame: "mem s' b = mem s b" if "page_of b \<notin> PHYS_TO_VIRT s ` tables s' I root" for b
  proof -
    have ne: "page_of b \<noteq> PHYS_TO_VIRT s pa" "page_of b \<noteq> PHYS_TO_VIRT s t"
      using that t(4) by (auto simp: tb)
    have "mem s' b = mem z b"
      unfolding s'z(1)
      using pte_addr_props [OF pt_tree_hhdm [OF zt(1)] t(1) i(1)] ne(2)
      by (intro store64_page_of) (simp_all add: z_def w PHYS_TO_VIRT_def)
    then show ?thesis using ne(1) by (simp add: zb)
  qed
  have inv': "pmm_inv s'" using f by (simp add: s' pmm_inv_def count_ok_def free_set_def)
  have rec: "\<exists>m b c. s' = s\<lparr>mem := m, bitmap := b, free_count := c\<rparr>"
    unfolding s' w by (intro exI) (rule pmap_state.equality; simp)
  have mono: "table_at s' root p = Some x" if "vpath I p" "length p \<le> 3" "table_at s root p = Some x" for p x
    using that all before [of "[]"] by auto
  show "extends I root s s'"
    unfolding extends_def
    using tree inv' rec tr mono frame f pat(2) by (auto simp: tb ups)
qed

section \<open>What the walk finds\<close>

lemma walk_level_lookup: "walk_level False t i s = (next_table s t i, s)"
  by (simp add: walk_level_def next_table_def Let_def)

lemma walk_level_create:
  assumes pt: "pt_tree s I root" and inv: "pmm_inv s"
    and q: "vpath I q" "length q < 3" "table_at s root q = Some t" and i: "vpath I (q @ [i])"
  obtains (oom) "walk_level True t i s = (None, s)" "free_set s = {}" "next_table s t i = None"
  | (found) u s' where "walk_level True t i s = (Some u, s')" "extends I root s s'"
      "table_at s' root (q @ [i]) = Some u"
proof (cases "next_table s t i")
  case (Some u)
  then have "walk_level True t i s = (Some u, s)"
    by (auto simp: walk_level_def next_table_def Let_def split: if_splits)
  moreover have "table_at s root (q @ [i]) = Some u" by (simp add: table_at_snoc q(3) Some)
  ultimately show ?thesis using extends_refl [OF pt inv] by (intro found)
next
  case None
  have i5: "i < 512" using vpath_snocD [OF i] by simp
  obtain pa w where al: "pmm_alloc_page s = (pa, w)" by (cases "pmm_alloc_page s")
  have np: "read_pte s t i AND PTE_P = 0" using None by (auto simp: next_table_def Let_def split: if_splits)
  show ?thesis
  proof (cases "pa = 0")
    case True
    then have "w = s" "free_set s = {}" using pmm_alloc_page_full [OF inv, of w] al by simp_all
    then show ?thesis using np al True None by (intro oom) (simp_all add: walk_level_def pmap_alloc_table_def)
  next
    case False
    define s' where "s' = w\<lparr>mem := store64 (kmemset (PHYS_TO_VIRT w pa) 0 4096 (mem w)) (pte_addr s t i)
               (pa OR PTE_P OR PTE_W OR PTE_U)\<rparr>"
    obtain b c where w: "w = s\<lparr>bitmap := b, free_count := c\<rparr>" by (rule pmm_alloc_page_frame [OF al])
    note lk = link_table [OF pt inv q i5 i None al False s'_def]
    have "pte_addr (w\<lparr>mem := m\<rparr>) = pte_addr s" for m
      by (rule ext)+ (simp add: pte_addr_def PHYS_TO_VIRT_def w)
    then have "walk_level True t i s = (Some (read_pte s' t i AND PTE_ADDR_MASK), s')"
      using np al False by (simp add: walk_level_def pmap_alloc_table_def s'_def Let_def)
    then show ?thesis using lk by (intro found) simp_all
  qed
qed

lemma pmap_walk_lookup:
  "pmap_walk pmap va False s =
     (case table_at s (pml4_phys (pmaps s pmap)) (va_path va) of
        None \<Rightarrow> (0, s)
      | Some t \<Rightarrow> (pte_addr s t (PT_IDX va), s))"
  by (simp add: pmap_walk_def walk_level_lookup va_path_def split: option.splits)

lemma pmap_walk_create:
  assumes pt: "pt_tree s I root" and inv: "pmm_inv s" and va: "PML4_IDX va \<in> I"
    and root: "root = pml4_phys (pmaps s pmap)"
  obtains (oom) s' where "pmap_walk pmap va True s = (0, s')" "extends I root s s'" "free_set s' = {}"
      "translate s root va = None"
  | (found) t s' where "pmap_walk pmap va True s = (pte_addr s' t (PT_IDX va), s')" "extends I root s s'"
      "table_at s' root (va_path va) = Some t" "pte_addr s' t (PT_IDX va) \<noteq> 0"
proof -
  let ?i4 = "PML4_IDX va" and ?i3 = "PDPT_IDX va" and ?i2 = "PD_IDX va"
  have v: "vpath I []" "vpath I [?i4]" "vpath I [?i4, ?i3]" "vpath I [?i4, ?i3, ?i2]"
    using va by (simp_all add: vpath_def idx_less)
  have ts: "tables s I root \<subseteq> used_pages s" using pt by (auto simp: pt_tree_def)
  note v2 = walk_level_create [where q = "[]" and i = ?i4, simplified]
  show ?thesis
  proof (cases rule: walk_level_create [where q = "[]" and i = ?i4, OF pt inv v(1) _ table_at.simps(1)])
    case 1 then show ?case by simp
  next
    case 2 then show ?case using v(2) by simp
  next
    case 3
    then have "pmap_walk pmap va True s = (0, s)" "translate s root va = None"
      by (simp_all add: pmap_walk_def root [symmetric] translate_def va_path_def)
    with 3 show ?thesis using extends_refl [OF pt inv] by (intro oom)
  next
    case (4 u4 s4)
    note e4 = extendsD [OF 4(2)]
    have a4: "table_at s4 root [?i4] = Some u4" using 4(3) by simp
    show ?thesis
    proof (cases rule: walk_level_create [where q = "[?i4]" and i = ?i3, OF e4(1,2) v(2) _ a4])
      case 1 then show ?case by simp
    next
      case 2 then show ?case using v(3) by simp
    next
      case 3
      have "table_at s4 root (va_path va) = None"
        using table_at_append [of s4 root "[?i4]" "[?i3, ?i2]"] a4 3(3) by (simp add: va_path_def)
      then have "translate s root va = None" using e4(4) [OF va] by (simp add: translate_def)
      moreover have "pmap_walk pmap va True s = (0, s4)"
        using 4(1) 3(1) by (simp add: pmap_walk_def root [symmetric])
      ultimately show ?thesis using 4(2) 3(2) by (intro oom)
    next
      case l3: (4 u3 s3)
      note e3 = extendsD [OF l3(2)]
      have ex3: "extends I root s s3" by (rule extends_trans [OF 4(2) l3(2) ts])
      have a3: "table_at s3 root [?i4, ?i3] = Some u3" using l3(3) by simp
      show ?thesis
      proof (cases rule: walk_level_create [where q = "[?i4, ?i3]" and i = ?i2, OF e3(1,2) v(3) _ a3])
        case 1 then show ?case by simp
      next
        case 2 then show ?case using v(4) by simp
      next
        case 3
        have "table_at s3 root (va_path va) = None"
          using table_at_append [of s3 root "[?i4, ?i3]" "[?i2]"] a3 3(3) by (simp add: va_path_def)
        then have "translate s root va = None"
          using extendsD(4) [OF ex3 va] by (simp add: translate_def)
        moreover have "pmap_walk pmap va True s = (0, s3)"
          using 4(1) l3(1) 3(1) by (simp add: pmap_walk_def root [symmetric])
        ultimately show ?thesis using ex3 3(2) by (intro oom)
      next
        case l2: (4 u2 s2)
        have ex2: "extends I root s s2" by (rule extends_trans [OF ex3 l2(2) ts])
        have a2: "table_at s2 root (va_path va) = Some u2" using l2(3) by (simp add: va_path_def)
        have "pmap_walk pmap va True s = (pte_addr s2 u2 (PT_IDX va), s2)"
          using 4(1) l3(1) l2(1) by (simp add: pmap_walk_def root [symmetric])
        moreover have "pte_addr s2 u2 (PT_IDX va) \<noteq> 0"
          using pt_treeD [OF extendsD(1) [OF ex2] va_path_vpath [OF va] _ a2]
          by (intro pte_addr_nonzero [OF pt_tree_hhdm [OF extendsD(1) [OF ex2]]] idx_less) simp_all
        ultimately show ?thesis using ex2 a2 by (intro found)
      qed
    qed
  qed
qed

section \<open>What the operations do\<close>

text \<open>
  The part of the state an operation on the tables below \<open>I\<close> may change: new tables come from free
  pages, other pages stay in use, and memory outside the tables keeps its contents.
\<close>

definition pt_frame :: "u64 set \<Rightarrow> u64 \<Rightarrow> 'a pmap_state_scheme \<Rightarrow> 'a pmap_state_scheme \<Rightarrow> bool" where
  "pt_frame I root s s' \<longleftrightarrow> pt_tree s' I root \<and> pmm_inv s' \<and>
     (\<exists>m b c tl. s' = s\<lparr>mem := m, bitmap := b, free_count := c, tlb := tl\<rparr>) \<and>
     used_pages s' - used_pages s = tables s' I root - tables s I root \<and> used_pages s \<subseteq> used_pages s' \<and>
     tables s I root \<subseteq> tables s' I root \<and>
     (\<forall>b. page_of b \<notin> PHYS_TO_VIRT s ` tables s' I root \<longrightarrow> mem s' b = mem s b)"

lemma extends_pt_frame:
  assumes "extends I root s s'"
  shows "pt_frame I root s s'"
proof -
  obtain m b c where "s' = s\<lparr>mem := m, bitmap := b, free_count := c\<rparr>" using extendsD(3) [OF assms] by blast
  then have "s' = s\<lparr>mem := m, bitmap := b, free_count := c, tlb := tlb s\<rparr>" by simp
  then show ?thesis using extendsD [OF assms] unfolding pt_frame_def by blast
qed

text \<open>A store to the last-level entry that a walk has found, followed by \<open>invlpg\<close>.\<close>

definition set_leaf :: "addr \<Rightarrow> u64 \<Rightarrow> u64 \<Rightarrow> 'a pmap_state_scheme \<Rightarrow> 'a pmap_state_scheme" where
  "set_leaf va t v s = invlpg va (s\<lparr>mem := store64 (mem s) (pte_addr s t (PT_IDX va)) v\<rparr>)"

lemma set_leaf_spec:
  assumes pt: "pt_tree s I root" and inv: "pmm_inv s" and va: "PML4_IDX va \<in> I"
    and t: "table_at s root (va_path va) = Some t"
  shows "pt_frame I root s (set_leaf va t v s)"
    "\<And>vb. PML4_IDX vb \<in> I \<Longrightarrow> translate (set_leaf va t v s) root vb =
       (if same_slot va vb then (if v AND PTE_P = 0 then None else Some v) else translate s root vb)"
    "tlb (set_leaf va t v s) = (tlb s)(page_of va := None)"
proof -
  let ?s = "set_leaf va t v s"
  have eqs: "mem ?s = store64 (mem s) (pte_addr s t (PT_IDX va)) v" "hhdm_offset ?s = hhdm_offset s"
    "used_pages ?s = used_pages s" "pmm_inv ?s = pmm_inv s"
    by (simp_all add: set_leaf_def invlpg_def used_pages_def bitmap_test_def pmm_inv_def count_ok_def
        free_set_def)
  note st = translate_store_leaf [OF pt va t eqs(1,2,3)]
  show "translate ?s root vb =
       (if same_slot va vb then (if v AND PTE_P = 0 then None else Some v) else translate s root vb)"
    if "PML4_IDX vb \<in> I" for vb by (rule st(3) [OF that])
  show "tlb ?s = (tlb s)(page_of va := None)" by (simp add: set_leaf_def invlpg_def)
  note tt = pt_treeD [OF pt va_path_vpath [OF va] _ t, simplified]
  have "mem ?s b = mem s b" if "page_of b \<notin> PHYS_TO_VIRT s ` tables ?s I root" for b
    unfolding eqs(1)
  proof (rule store64_page_of)
    show "aligned 8 (pte_addr s t (PT_IDX va))" by (rule pte_addr_props(2) [OF pt_tree_hhdm [OF pt] tt(1) idx_less(4)])
    show "page_of b \<noteq> page_of (pte_addr s t (PT_IDX va))"
      using that tt(4) pte_addr_props(1) [OF pt_tree_hhdm [OF pt] tt(1) idx_less(4)] by (auto simp: st(2))
  qed
  moreover have "\<exists>m b c tl. ?s = s\<lparr>mem := m, bitmap := b, free_count := c, tlb := tl\<rparr>"
  proof -
    have "?s = s\<lparr>mem := mem ?s, bitmap := bitmap s, free_count := free_count s, tlb := tlb ?s\<rparr>"
      by (simp add: set_leaf_def invlpg_def)
    then show ?thesis by blast
  qed
  ultimately show "pt_frame I root s ?s"
    unfolding pt_frame_def using st(1,2) eqs inv by auto
qed

lemma pt_frame_trans:
  assumes "pt_frame I root s s'" "pt_frame I root s' s''"
  shows "pt_frame I root s s''"
proof -
  obtain m b c tl where s': "s' = s\<lparr>mem := m, bitmap := b, free_count := c, tlb := tl\<rparr>"
    using assms(1) by (auto simp: pt_frame_def)
  obtain m' b' c' tl' where s'': "s'' = s'\<lparr>mem := m', bitmap := b', free_count := c', tlb := tl'\<rparr>"
    using assms(2) by (auto simp: pt_frame_def)
  have rec: "s'' = s\<lparr>mem := m', bitmap := b', free_count := c', tlb := tl'\<rparr>" unfolding s'' s' by simp
  have p: "PHYS_TO_VIRT s' = PHYS_TO_VIRT s" by (rule ext) (simp add: PHYS_TO_VIRT_def s')
  have a: "used_pages s' - used_pages s = tables s' I root - tables s I root" "used_pages s \<subseteq> used_pages s'"
    "tables s I root \<subseteq> tables s' I root"
    "\<And>b. page_of b \<notin> PHYS_TO_VIRT s ` tables s' I root \<Longrightarrow> mem s' b = mem s b"
    using assms(1) unfolding pt_frame_def by blast+
  have b: "used_pages s'' - used_pages s' = tables s'' I root - tables s' I root" "used_pages s' \<subseteq> used_pages s''"
    "tables s' I root \<subseteq> tables s'' I root"
    "\<And>b. page_of b \<notin> PHYS_TO_VIRT s ` tables s'' I root \<Longrightarrow> mem s'' b = mem s' b"
    using assms(2) unfolding pt_frame_def p by blast+
  have "used_pages s'' - used_pages s = (used_pages s'' - used_pages s') \<union> (used_pages s' - used_pages s)"
    using a(2) b(2) by auto
  also have "\<dots> = (tables s'' I root - tables s' I root) \<union> (tables s' I root - tables s I root)"
    using a(1) b(1) by simp
  also have "\<dots> = tables s'' I root - tables s I root" using a(3) b(3) by auto
  finally have u: "used_pages s'' - used_pages s = tables s'' I root - tables s I root" .
  have "mem s'' c = mem s c" if "page_of c \<notin> PHYS_TO_VIRT s ` tables s'' I root" for c
    using that a(4) [of c] b(4) [of c] b(3) by auto
  moreover have "pt_tree s'' I root" "pmm_inv s''" using assms(2) by (simp_all add: pt_frame_def)
  ultimately show ?thesis unfolding pt_frame_def using rec a(2,3) b(2,3) u by blast
qed

lemma pmap_map_spec:
  assumes pt: "pt_tree s I root" and inv: "pmm_inv s" and va: "PML4_IDX va \<in> I"
    and root: "root = pml4_phys (pmaps s pmap)"
  obtains (oom) s' where "pmap_map pmap va pa flags s = (-1, s')" "pt_frame I root s s'" "free_set s' = {}"
      "\<And>vb. PML4_IDX vb \<in> I \<Longrightarrow> translate s' root vb = translate s root vb" "tlb s' = tlb s"
      "translate s root va = None"
  | (ok) s' where "pmap_map pmap va pa flags s = (0, s')" "pt_frame I root s s'"
      "\<And>vb. PML4_IDX vb \<in> I \<Longrightarrow> translate s' root vb =
         (if same_slot va vb then Some (make_pte pa flags) else translate s root vb)"
      "tlb s' = (tlb s)(page_of va := None)"
proof (cases rule: pmap_walk_create [OF pt inv va root])
  case (1 s')
  have "tlb s' = tlb s" using extendsD(3) [OF 1(2)] by auto
  with 1 show ?thesis
    by (intro oom [OF _ extends_pt_frame [OF 1(2)]]) (simp_all add: pmap_map_def extendsD(4) [OF 1(2)])
next
  case (2 t w)
  note e = extendsD [OF 2(2)]
  note sl = set_leaf_spec [OF e(1,2) va 2(3)]
  have "tlb w = tlb s" using e(3) by auto
  moreover have "pmap_map pmap va pa flags s = (0, set_leaf va t (make_pte pa flags) w)"
    using 2(1,4) by (simp add: pmap_map_def set_leaf_def)
  moreover have "translate (set_leaf va t (make_pte pa flags) w) root vb =
      (if same_slot va vb then Some (make_pte pa flags) else translate s root vb)" if "PML4_IDX vb \<in> I" for vb
    using sl(2) [OF that, of "make_pte pa flags"] e(4) [OF that] make_pte_present [of pa flags] by simp
  ultimately show ?thesis
    using sl(3) by (intro ok [OF _ pt_frame_trans [OF extends_pt_frame [OF 2(2)] sl(1)]]) (assumption | simp)+
qed

lemma walk_found:
  assumes pt: "pt_tree s I root" and va: "PML4_IDX va \<in> I" and t: "table_at s root (va_path va) = Some t"
  shows "pte_addr s t (PT_IDX va) \<noteq> 0"
  using pt_treeD [OF pt va_path_vpath [OF va] _ t]
  by (intro pte_addr_nonzero [OF pt_tree_hhdm [OF pt]] idx_less) simp_all

lemma pmap_unmap_spec:
  assumes pt: "pt_tree s I root" and inv: "pmm_inv s" and va: "PML4_IDX va \<in> I"
    and root: "root = pml4_phys (pmaps s pmap)"
  obtains (none) "pmap_unmap pmap va s = (-1, s)" "translate s root va = None"
  | (ok) s' where "pmap_unmap pmap va s = (0, s')" "translate s root va \<noteq> None" "pt_frame I root s s'"
      "\<And>vb. PML4_IDX vb \<in> I \<Longrightarrow> translate s' root vb = (if same_slot va vb then None else translate s root vb)"
      "tlb s' = (tlb s)(page_of va := None)" "used_pages s' = used_pages s" "tables s' I root = tables s I root"
proof (cases "table_at s root (va_path va)")
  case None
  then show ?thesis
    by (intro none) (simp_all add: pmap_unmap_def pmap_walk_lookup root [symmetric] translate_def)
next
  case (Some t)
  note nz = walk_found [OF pt va Some]
  show ?thesis
  proof (cases "read_pte s t (PT_IDX va) AND PTE_P = 0")
    case True
    then show ?thesis
      by (intro none)
        (simp_all add: pmap_unmap_def pmap_walk_lookup root [symmetric] translate_def Some read_pte_def)
  next
    case False
    note sl = set_leaf_spec [where v = 0, OF pt inv va Some]
    have "pmap_unmap pmap va s = (0, set_leaf va t 0 s)"
      using False nz by (simp add: pmap_unmap_def pmap_walk_lookup root [symmetric] Some set_leaf_def read_pte_def)
    moreover have "tables (set_leaf va t 0 s) I root = tables s I root"
      "used_pages (set_leaf va t 0 s) = used_pages s"
    proof -
      show u: "used_pages (set_leaf va t 0 s) = used_pages s"
        by (simp add: set_leaf_def invlpg_def used_pages_def bitmap_test_def)
      with sl(1) show "tables (set_leaf va t 0 s) I root = tables s I root" by (auto simp: pt_frame_def)
    qed
    moreover have "translate s root va \<noteq> None" using False by (simp add: translate_def Some)
    ultimately show ?thesis using sl(2,3) by (intro ok [OF _ _ sl(1)]) simp_all
  qed
qed

lemma pmap_protect_spec:
  assumes pt: "pt_tree s I root" and inv: "pmm_inv s" and va: "PML4_IDX va \<in> I"
    and root: "root = pml4_phys (pmaps s pmap)"
  obtains (none) "pmap_protect pmap va flags s = (-1, s)" "translate s root va = None"
  | (ok) e s' where "pmap_protect pmap va flags s = (0, s')" "translate s root va = Some e" "pt_frame I root s s'"
      "\<And>vb. PML4_IDX vb \<in> I \<Longrightarrow> translate s' root vb =
         (if same_slot va vb then Some (make_pte e flags) else translate s root vb)"
      "tlb s' = (tlb s)(page_of va := None)"
proof (cases "table_at s root (va_path va)")
  case None
  then show ?thesis
    by (intro none) (simp_all add: pmap_protect_def pmap_walk_lookup root [symmetric] translate_def)
next
  case (Some t)
  note nz = walk_found [OF pt va Some]
  show ?thesis
  proof (cases "read_pte s t (PT_IDX va) AND PTE_P = 0")
    case True
    then show ?thesis
      by (intro none)
        (simp_all add: pmap_protect_def pmap_walk_lookup root [symmetric] translate_def Some read_pte_def)
  next
    case False
    define v where "v = make_pte (read_pte s t (PT_IDX va)) flags"
    note sl = set_leaf_spec [where v = v, OF pt inv va Some]
    have "pmap_protect pmap va flags s = (0, set_leaf va t v s)"
      using False nz
      by (simp add: pmap_protect_def pmap_walk_lookup root [symmetric] Some set_leaf_def read_pte_def v_def)
    moreover have "translate s root va = Some (read_pte s t (PT_IDX va))"
      using False by (simp add: translate_def Some)
    moreover have "v AND PTE_P \<noteq> 0" by (simp only: v_def make_pte_present not_False_eq_True)
    moreover have "translate (set_leaf va t v s) root vb =
        (if same_slot va vb then Some (make_pte (read_pte s t (PT_IDX va)) flags) else translate s root vb)"
      if "PML4_IDX vb \<in> I" for vb
      unfolding sl(2) [OF that] using make_pte_present [of "read_pte s t (PT_IDX va)" flags] by (simp add: v_def)
    ultimately show ?thesis
      using sl(3) by (intro ok [OF _ _ sl(1)]) (assumption | simp)+
  qed
qed

lemma pmap_query_spec:
  assumes pt: "pt_tree s I root" and va: "PML4_IDX va \<in> I" and root: "root = pml4_phys (pmaps s pmap)"
  shows "pmap_query pmap va s =
     (case translate s root va of None \<Rightarrow> 0 | Some e \<Rightarrow> (e AND PTE_ADDR_MASK) OR (va AND 4095))"
  using walk_found [OF pt va]
  by (auto simp: pmap_query_def pmap_walk_lookup root [symmetric] translate_def read_pte_def split: option.splits)

section \<open>The interface of an address space\<close>

text \<open>
  What the virtual-memory layer relies on.  \<open>look s va\<close> is the last-level entry for \<open>va\<close>, \<open>same\<close> relates
  addresses of one page, \<open>D\<close> are the addresses the client uses.
\<close>

locale address_space =
  fixes look :: "'s \<Rightarrow> addr \<Rightarrow> u64 option"
    and map_page :: "addr \<Rightarrow> u64 \<Rightarrow> u64 \<Rightarrow> 's \<Rightarrow> int \<times> 's"
    and unmap_page :: "addr \<Rightarrow> 's \<Rightarrow> int \<times> 's"
    and protect_page :: "addr \<Rightarrow> u64 \<Rightarrow> 's \<Rightarrow> int \<times> 's"
    and query_page :: "addr \<Rightarrow> 's \<Rightarrow> u64"
    and same :: "addr \<Rightarrow> addr \<Rightarrow> bool"
    and D :: "addr set"
    and inv :: "'s \<Rightarrow> bool"
  assumes map_law: "inv s \<Longrightarrow> va \<in> D \<Longrightarrow> map_page va pa fl s = (r, t) \<Longrightarrow> inv t \<and> (r = 0 \<or> r = -1) \<and>
      (\<forall>vb \<in> D. look t vb = (if r = 0 \<and> same va vb then Some (make_pte pa fl) else look s vb))"
    and unmap_law: "inv s \<Longrightarrow> va \<in> D \<Longrightarrow> unmap_page va s = (r, t) \<Longrightarrow> inv t \<and>
      r = (if look s va = None then -1 else 0) \<and>
      (\<forall>vb \<in> D. look t vb = (if same va vb then None else look s vb))"
    and protect_law: "inv s \<Longrightarrow> va \<in> D \<Longrightarrow> protect_page va fl s = (r, t) \<Longrightarrow> inv t \<and>
      r = (if look s va = None then -1 else 0) \<and>
      (\<forall>vb \<in> D. look t vb = (if same va vb then map_option (\<lambda>e. make_pte e fl) (look s va) else look s vb))"
    and query_law: "inv s \<Longrightarrow> va \<in> D \<Longrightarrow> query_page va s =
      (case look s va of None \<Rightarrow> 0 | Some e \<Rightarrow> (e AND PTE_ADDR_MASK) OR (va AND 4095))"
    and same_look: "same va vb \<Longrightarrow> look s va = look s vb"
    and same_refl: "same va va"

datatype pm_cmd = PmMap addr u64 u64 | PmUnmap addr | PmProtect addr u64

fun cmd_va :: "pm_cmd \<Rightarrow> addr" where
  "cmd_va (PmMap va pa fl) = va"
| "cmd_va (PmUnmap va) = va"
| "cmd_va (PmProtect va fl) = va"

text \<open>A run of commands, with the return codes, and its specification on a map from addresses.\<close>

fun run_pm ::
  "(addr \<Rightarrow> u64 \<Rightarrow> u64 \<Rightarrow> 's \<Rightarrow> int \<times> 's) \<Rightarrow> (addr \<Rightarrow> 's \<Rightarrow> int \<times> 's) \<Rightarrow> (addr \<Rightarrow> u64 \<Rightarrow> 's \<Rightarrow> int \<times> 's) \<Rightarrow>
   pm_cmd list \<Rightarrow> 's \<Rightarrow> int list \<times> 's" where
  "run_pm mp um pr [] s = ([], s)"
| "run_pm mp um pr (c # cs) s =
     (case (case c of PmMap va pa fl \<Rightarrow> mp va pa fl s | PmUnmap va \<Rightarrow> um va s | PmProtect va fl \<Rightarrow> pr va fl s)
      of (r, s) \<Rightarrow> (case run_pm mp um pr cs s of (rs, s) \<Rightarrow> (r # rs, s)))"

fun spec_pm :: "(addr \<Rightarrow> addr \<Rightarrow> bool) \<Rightarrow> pm_cmd \<Rightarrow> int \<Rightarrow> (addr \<Rightarrow> u64 option) \<Rightarrow> addr \<Rightarrow> u64 option" where
  "spec_pm same (PmMap va pa fl) r f vb = (if r = 0 \<and> same va vb then Some (make_pte pa fl) else f vb)"
| "spec_pm same (PmUnmap va) r f vb = (if same va vb then None else f vb)"
| "spec_pm same (PmProtect va fl) r f vb =
     (if same va vb then map_option (\<lambda>e. make_pte e fl) (f vb) else f vb)"

fun spec_run :: "(addr \<Rightarrow> addr \<Rightarrow> bool) \<Rightarrow> pm_cmd list \<Rightarrow> int list \<Rightarrow> (addr \<Rightarrow> u64 option) \<Rightarrow> addr \<Rightarrow> u64 option" where
  "spec_run same (c # cs) (r # rs) f = spec_run same cs rs (spec_pm same c r f)"
| "spec_run same cs rs f = f"

lemma spec_pm_cong: "(f vb = g vb) \<Longrightarrow> spec_pm same c r f vb = spec_pm same c r g vb"
  by (cases c) auto

lemma spec_run_cong: "(\<And>vb. vb \<in> D \<Longrightarrow> f vb = g vb) \<Longrightarrow> vb \<in> D \<Longrightarrow> spec_run same cs rs f vb = spec_run same cs rs g vb"
proof (induction cs arbitrary: rs f g)
  case (Cons c cs)
  show ?case
  proof (cases rs)
    case (Cons r rs')
    have "spec_pm same c r f vb = spec_pm same c r g vb" if "vb \<in> D" for vb
      by (rule spec_pm_cong) (rule Cons.prems(1) [OF that])
    from Cons.IH [OF this Cons.prems(2)] show ?thesis by (simp add: Cons)
  qed (use Cons in simp)
qed simp

context address_space
begin

lemma query_after_map:
  assumes "inv s" "va \<in> D" "map_page va pa fl s = (0, t)"
  shows "query_page va t = (pa AND PTE_ADDR_MASK) OR (va AND 4095)"
  using map_law [OF assms] query_law [of t va] assms(2) same_refl [of va] by (simp add: make_pte_addr)

lemma query_after_unmap:
  assumes "inv s" "va \<in> D" "unmap_page va s = (r, t)"
  shows "query_page va t = 0"
  using unmap_law [OF assms] query_law [of t va] assms(2) same_refl [of va] by simp

lemma step_refines:
  assumes "inv s" "cmd_va c \<in> D"
    "(case c of PmMap va pa fl \<Rightarrow> map_page va pa fl s | PmUnmap va \<Rightarrow> unmap_page va s
       | PmProtect va fl \<Rightarrow> protect_page va fl s) = (r, t)"
  shows "inv t" "\<And>vb. vb \<in> D \<Longrightarrow> look t vb = spec_pm same c r (look s) vb"
proof (atomize (full), cases c)
  case (PmMap va pa fl)
  then show "inv t \<and> (\<forall>vb. vb \<in> D \<longrightarrow> look t vb = spec_pm same c r (look s) vb)"
    using map_law [OF assms(1), of va pa fl r t] assms by simp
next
  case (PmUnmap va)
  then show "inv t \<and> (\<forall>vb. vb \<in> D \<longrightarrow> look t vb = spec_pm same c r (look s) vb)"
    using unmap_law [OF assms(1), of va r t] assms by simp
next
  case (PmProtect va fl)
  then show "inv t \<and> (\<forall>vb. vb \<in> D \<longrightarrow> look t vb = spec_pm same c r (look s) vb)"
    using protect_law [OF assms(1), of va fl r t] assms same_look [of va _ s] by auto
qed

lemma run_refines:
  "inv s \<Longrightarrow> \<forall>c \<in> set cs. cmd_va c \<in> D \<Longrightarrow> run_pm map_page unmap_page protect_page cs s = (rs, t) \<Longrightarrow>
   inv t \<and> length rs = length cs \<and> (\<forall>vb \<in> D. look t vb = spec_run same cs rs (look s) vb)"
proof (induction cs arbitrary: s rs)
  case (Cons c cs)
  obtain r u where st: "(case c of PmMap va pa fl \<Rightarrow> map_page va pa fl s | PmUnmap va \<Rightarrow> unmap_page va s
       | PmProtect va fl \<Rightarrow> protect_page va fl s) = (r, u)" by fastforce
  obtain rs' where rs: "run_pm map_page unmap_page protect_page cs u = (rs', t)" "rs = r # rs'"
    using Cons.prems(3) st by (auto split: prod.splits)
  have "cmd_va c \<in> D" using Cons.prems(2) by simp
  note sr = step_refines [OF Cons.prems(1) this st]
  have "inv t \<and> length rs' = length cs \<and> (\<forall>vb \<in> D. look t vb = spec_run same cs rs' (look u) vb)"
    using Cons.IH [OF sr(1) _ rs(1)] Cons.prems(2) by simp
  moreover have "spec_run same cs rs' (look u) vb = spec_run same cs rs' (spec_pm same c r (look s)) vb"
    if "vb \<in> D" for vb by (rule spec_run_cong [OF sr(2) that])
  ultimately show ?case by (simp add: rs(2))
qed simp

end

text \<open>The page tables below the entries \<open>I\<close> of a pmap's PML4 provide the interface.\<close>

definition pmap_inv :: "u64 set \<Rightarrow> u64 \<Rightarrow> addr \<Rightarrow> 'a pmap_state_scheme \<Rightarrow> bool" where
  "pmap_inv I root pmap s \<longleftrightarrow> pt_tree s I root \<and> pmm_inv s \<and> pml4_phys (pmaps s pmap) = root"

definition covered :: "u64 set \<Rightarrow> addr set" where
  "covered I = {va. PML4_IDX va \<in> I}"

lemma pmap_inv_frame:
  assumes "pt_frame I root s t" "pmap_inv I root pmap s"
  shows "pmap_inv I root pmap t"
  using assms by (auto simp: pt_frame_def pmap_inv_def)

lemma same_slot_translate: "same_slot va vb \<Longrightarrow> translate s root va = translate s root vb"
  by (auto simp: same_slot_def translate_def split: option.split)

lemma same_slot_none: "same_slot va vb \<Longrightarrow> translate s root va = None \<Longrightarrow> translate s root vb = None"
  using same_slot_translate [of va vb s root] by simp

interpretation pm: address_space "\<lambda>s. translate s root" "pmap_map pmap" "pmap_unmap pmap" "pmap_protect pmap"
    "pmap_query pmap" same_slot "covered I" "pmap_inv I root pmap" for root pmap I
proof unfold_locales
  fix s t :: "'a pmap_state_scheme" and va pa fl r
  assume inv: "pmap_inv I root pmap s" and va: "va \<in> covered I"
  note a = inv [unfolded pmap_inv_def] va [unfolded covered_def, simplified]
  show "pmap_map pmap va pa fl s = (r, t) \<Longrightarrow> pmap_inv I root pmap t \<and> (r = 0 \<or> r = - 1) \<and>
      (\<forall>vb \<in> covered I. translate t root vb =
         (if r = 0 \<and> same_slot va vb then Some (make_pte pa fl) else translate s root vb))"
    by (rule pmap_map_spec [of s I root va pmap pa fl])
      (use a pmap_inv_frame [OF _ inv] in \<open>auto simp: covered_def\<close>)
  show "pmap_unmap pmap va s = (r, t) \<Longrightarrow> pmap_inv I root pmap t \<and>
      r = (if translate s root va = None then - 1 else 0) \<and>
      (\<forall>vb \<in> covered I. translate t root vb = (if same_slot va vb then None else translate s root vb))"
    by (rule pmap_unmap_spec [of s I root va pmap])
      (use a inv pmap_inv_frame [OF _ inv] in \<open>auto simp: covered_def intro: same_slot_none\<close>)
  show "pmap_protect pmap va fl s = (r, t) \<Longrightarrow> pmap_inv I root pmap t \<and>
      r = (if translate s root va = None then - 1 else 0) \<and>
      (\<forall>vb \<in> covered I. translate t root vb =
         (if same_slot va vb then map_option (\<lambda>e. make_pte e fl) (translate s root va) else translate s root vb))"
    by (rule pmap_protect_spec [of s I root va pmap fl])
      (use a inv pmap_inv_frame [OF _ inv] in \<open>auto simp: covered_def intro: same_slot_none\<close>)
  show "pmap_query pmap va s =
      (case translate s root va of None \<Rightarrow> 0 | Some e \<Rightarrow> (e AND PTE_ADDR_MASK) OR (va AND 4095))"
    using a by (intro pmap_query_spec) auto
qed (auto simp: same_slot_translate, simp add: same_slot_def)

section \<open>User addresses and the TLB\<close>

lemma bit_idx: "bit (drop_bit n va AND 0x1ff :: u64) k \<longleftrightarrow> k < 9 \<and> bit va (n + k)"
proof -
  have "drop_bit n va AND 0x1ff = take_bit 9 (drop_bit n va)" by (simp add: take_bit_eq_mask mask_eq_exp_minus_1)
  then show ?thesis by (simp only: bit_take_bit_iff bit_drop_bit_eq) simp
qed

lemma bits_above: "unat (va :: u64) < 2 ^ m \<Longrightarrow> bit va n \<Longrightarrow> n < m"
proof -
  assume "unat va < 2 ^ m" and b: "bit va n"
  then have "take_bit m (unat va) = unat va" by (simp add: take_bit_nat_eq_self)
  moreover have "bit (unat va) n" using b by (simp add: bit_unsigned_iff bit_imp_le_length)
  ultimately show "n < m" by (metis bit_take_bit_iff)
qed

text \<open>Below \<open>2^47\<close> the walk distinguishes every two pages.\<close>

definition user_addr :: "addr \<Rightarrow> bool" where
  "user_addr va \<longleftrightarrow> unat va < 2 ^ 47"

lemma bit_page_of: "bit (page_of va) n \<longleftrightarrow> 12 \<le> n \<and> bit va n"
proof -
  have "page_of va = va AND NOT (mask 12)" by (simp add: page_of_def mask_eq_exp_minus_1)
  then show ?thesis by (auto simp: bit_and_iff bit_not_iff bit_mask_iff dest: bit_imp_le_length)
qed

lemma same_slot_user:
  assumes "user_addr va" "user_addr vb"
  shows "same_slot va vb \<longleftrightarrow> page_of va = page_of vb"
proof
  assume s: "same_slot va vb"
  have e: "bit va (n + k) = bit vb (n + k)"
    if "drop_bit n va AND 0x1ff = drop_bit n vb AND 0x1ff" "k < 9" for n k
    using bit_idx [of n va k] bit_idx [of n vb k] that by simp
  have ix: "drop_bit m va AND 0x1ff = drop_bit m vb AND 0x1ff" if "m \<in> {12, 21, 30, 39}" for m
    using s that by (auto simp: same_slot_def va_path_def PML4_IDX_def PDPT_IDX_def PD_IDX_def PT_IDX_def)
  have b: "bit va n = bit vb n" if "12 \<le> n" for n
  proof (cases "n < 48")
    case True
    then have "\<exists>m \<in> {12, 21, 30, 39}. m \<le> n \<and> n < m + 9" using that by auto
    then obtain m where m: "m \<in> {12, 21, 30, 39}" "m \<le> n" "n < m + 9" by blast
    have "n - m < 9" using m(2,3) by linarith
    from e [OF ix [OF m(1)] this] m(2) show ?thesis by simp
  next
    case False
    then show ?thesis using bits_above [of va 47 n] bits_above [of vb 47 n] assms by (auto simp: user_addr_def)
  qed
  show "page_of va = page_of vb" by (rule bit_word_eqI) (auto simp: bit_page_of b)
next
  assume p: "page_of va = page_of vb"
  have b: "bit va n = bit vb n" if "12 \<le> n" for n
    using bit_page_of [of va n] bit_page_of [of vb n] p that by simp
  have "drop_bit m va AND 0x1ff = drop_bit m vb AND 0x1ff" if "12 \<le> m" for m
    by (rule bit_word_eqI) (use that in \<open>auto simp: bit_idx b\<close>)
  then show "same_slot va vb"
    by (simp add: same_slot_def va_path_def PML4_IDX_def PDPT_IDX_def PD_IDX_def PT_IDX_def)
qed

lemma user_PML4_IDX: "user_addr va \<Longrightarrow> PML4_IDX va < 256"
proof -
  assume u: "user_addr va"
  have b: "n < 9" if "bit va (39 + n)" for n
    using bits_above [of va 47 "39 + n"] u that by (simp add: user_addr_def)
  have "drop_bit 39 va AND 0x1ff = drop_bit 39 va"
    by (rule bit_word_eqI) (use b in \<open>auto simp: bit_idx bit_drop_bit_eq\<close>)
  moreover have "unat (drop_bit 39 va) < 256"
  proof -
    have "unat (drop_bit 39 va) = drop_bit 39 (unat va)" by (rule unat_drop_bit_eq)
    then have "unat (drop_bit 39 va) = unat va div 2 ^ 39" by (simp only: drop_bit_eq_div)
    then show ?thesis using u by (simp add: user_addr_def div_less_iff_less_mult)
  qed
  ultimately show ?thesis by (simp add: PML4_IDX_def word_less_nat_alt)
qed

definition user_half :: "u64 set" where "user_half = {i. i < 256}"

lemma user_covered: "user_addr va \<Longrightarrow> va \<in> covered user_half"
  by (simp add: covered_def user_half_def user_PML4_IDX)

text \<open>
  The processor may load any present translation into the TLB at any time (\<open>tlb_fill\<close>).  The TLB is
  coherent when every cached user entry is what the tables say.
\<close>

definition tlb_fill :: "u64 \<Rightarrow> addr \<Rightarrow> 'a pmap_state_scheme \<Rightarrow> 'a pmap_state_scheme" where
  "tlb_fill root va s = s\<lparr>tlb := (tlb s)(page_of va := translate s root va)\<rparr>"

definition tlb_coherent :: "u64 \<Rightarrow> 'a pmap_state_scheme \<Rightarrow> bool" where
  "tlb_coherent root s \<longleftrightarrow> (\<forall>va e. user_addr va \<longrightarrow> tlb s (page_of va) = Some e \<longrightarrow> translate s root va = Some e)"

lemma tlb_coherent_step:
  assumes co: "tlb_coherent root s" and va: "user_addr va" and tl: "tlb t = (tlb s)(page_of va := None)"
    and tr: "\<And>vb. user_addr vb \<Longrightarrow> \<not> same_slot va vb \<Longrightarrow> translate t root vb = translate s root vb"
  shows "tlb_coherent root t"
  unfolding tlb_coherent_def
proof (intro allI impI)
  fix vb e assume vb: "user_addr vb" and e: "tlb t (page_of vb) = Some e"
  then have "page_of va \<noteq> page_of vb" "tlb s (page_of vb) = Some e" by (auto simp: tl split: if_splits)
  then show "translate t root vb = Some e"
    using co vb tr [OF vb] same_slot_user [OF va vb] by (simp add: tlb_coherent_def)
qed

lemma tlb_coherent_cmd:
  assumes inv: "pmap_inv user_half root pmap s" and co: "tlb_coherent root s" and va: "user_addr (cmd_va c)"
    and c: "(case c of PmMap va pa fl \<Rightarrow> pmap_map pmap va pa fl s | PmUnmap va \<Rightarrow> pmap_unmap pmap va s
       | PmProtect va fl \<Rightarrow> pmap_protect pmap va fl s) = (r, t)"
  shows "tlb_coherent root t"
proof -
  note a = inv [unfolded pmap_inv_def]
  have cov: "PML4_IDX vb \<in> user_half" if "user_addr vb" for vb using user_covered [OF that] by (simp add: covered_def)
  have mp: ?thesis if c: "c = PmMap va pa fl" "pmap_map pmap va pa fl s = (r, t)" and u: "user_addr va" for va pa fl
  proof (rule pmap_map_spec [of s user_half root va pmap pa fl])
    fix s' assume h: "pmap_map pmap va pa fl s = (-1, s')" "tlb s' = tlb s"
      "\<And>vb. PML4_IDX vb \<in> user_half \<Longrightarrow> translate s' root vb = translate s root vb"
    then have "t = s'" using c by simp
    then show ?thesis using co h cov by (simp add: tlb_coherent_def)
  next
    fix s' assume h: "pmap_map pmap va pa fl s = (0, s')" "tlb s' = (tlb s)(page_of va := None)"
      "\<And>vb. PML4_IDX vb \<in> user_half \<Longrightarrow> translate s' root vb =
         (if same_slot va vb then Some (make_pte pa fl) else translate s root vb)"
    then have "t = s'" using c by simp
    then show ?thesis using tlb_coherent_step [OF co u h(2)] h(3) cov by simp
  qed (use a cov [OF u] in auto)
  have um: ?thesis if c: "pmap_unmap pmap va s = (r, t)" and u: "user_addr va" for va
  proof (rule pmap_unmap_spec [of s user_half root va pmap])
    assume "pmap_unmap pmap va s = (-1, s)"
    then show ?thesis using co c by simp
  next
    fix s' assume h: "pmap_unmap pmap va s = (0, s')" "tlb s' = (tlb s)(page_of va := None)"
      "\<And>vb. PML4_IDX vb \<in> user_half \<Longrightarrow> translate s' root vb =
         (if same_slot va vb then None else translate s root vb)"
    then have "t = s'" using c by simp
    then show ?thesis using tlb_coherent_step [OF co u h(2)] h(3) cov by simp
  qed (use a cov [OF u] in auto)
  have pr: ?thesis if c: "pmap_protect pmap va fl s = (r, t)" and u: "user_addr va" for va fl
  proof (rule pmap_protect_spec [of s user_half root va pmap fl])
    assume "pmap_protect pmap va fl s = (-1, s)"
    then show ?thesis using co c by simp
  next
    fix e s' assume h: "pmap_protect pmap va fl s = (0, s')" "tlb s' = (tlb s)(page_of va := None)"
      "\<And>vb. PML4_IDX vb \<in> user_half \<Longrightarrow> translate s' root vb =
         (if same_slot va vb then Some (make_pte e fl) else translate s root vb)"
    then have "t = s'" using c by simp
    then show ?thesis using tlb_coherent_step [OF co u h(2)] h(3) cov by simp
  qed (use a cov [OF u] in auto)
  show ?thesis using c va by (cases c) (auto intro: mp um pr)
qed

section \<open>Freeing the tables\<close>

text \<open>\<open>frees A s t\<close>: from \<open>s\<close> to \<open>t\<close> exactly the pages with numbers \<open>A\<close> were marked free.\<close>

definition frees :: "u64 set \<Rightarrow> 'a pmap_state_scheme \<Rightarrow> 'a pmap_state_scheme \<Rightarrow> bool" where
  "frees A s t \<longleftrightarrow> (\<exists>b c. t = s\<lparr>bitmap := b, free_count := c\<rparr>) \<and>
     (\<forall>p. bitmap_test t p \<longleftrightarrow> bitmap_test s p \<and> p \<notin> A)"

lemma frees_refl: "frees {} s s"
proof -
  have "s = s\<lparr>bitmap := bitmap s, free_count := free_count s\<rparr>" by simp
  then show ?thesis unfolding frees_def by blast
qed

lemma frees_trans: "frees A s t \<Longrightarrow> frees B t u \<Longrightarrow> frees (A \<union> B) s u"
proof -
  assume a: "frees A s t" "frees B t u"
  obtain b c b' c' where "t = s\<lparr>bitmap := b, free_count := c\<rparr>" "u = t\<lparr>bitmap := b', free_count := c'\<rparr>"
    using a by (auto simp: frees_def)
  then have "u = s\<lparr>bitmap := b', free_count := c'\<rparr>" by simp
  moreover have "\<forall>p. bitmap_test u p \<longleftrightarrow> bitmap_test s p \<and> p \<notin> A \<union> B"
    using a by (auto simp: frees_def)
  ultimately show ?thesis unfolding frees_def by blast
qed

lemma frees_read: "frees A s t \<Longrightarrow> read_pte t a i = read_pte s a i"
  by (auto simp: frees_def read_pte_def pte_addr_def PHYS_TO_VIRT_def)

definition page_freed :: "u64 \<Rightarrow> u64 set" where
  "page_freed pa = {p. p = drop_bit 12 pa \<and> p \<noteq> 0 \<and> p < PMM_MAX_PAGES}"

lemma frees_free_page: "frees (page_freed pa) s (pmm_free_page pa s)"
proof -
  have "\<exists>b c. pmm_free_page pa s = s\<lparr>bitmap := b, free_count := c\<rparr>" by (rule pmm_free_page_frame) blast
  then show ?thesis by (auto simp: frees_def page_freed_def pmm_free_page_def Let_def)
qed

lemma frees_fold:
  assumes "\<And>i s'. i \<in> set xs \<Longrightarrow> (\<And>a j. read_pte s' a j = read_pte s a j) \<Longrightarrow> frees (A i) s' (f i s')"
  shows "frees (\<Union>i \<in> set xs. A i) s (fold f xs s)"
  using assms
proof (induction xs rule: rev_induct)
  case Nil
  then show ?case by (simp add: frees_refl)
next
  case (snoc x xs)
  then have IH: "frees (\<Union>i \<in> set xs. A i) s (fold f xs s)" by simp
  have "frees (A x) (fold f xs s) (f x (fold f xs s))"
    by (rule snoc.prems) (simp_all add: frees_read [OF IH])
  from frees_trans [OF IH this] show ?case by (simp add: Un_commute)
qed

text \<open>The page numbers the three loops free.\<close>

definition pd_freed :: "'a machine_scheme \<Rightarrow> u64 \<Rightarrow> nat \<Rightarrow> u64 set" where
  "pd_freed s pd i2 = (let e = read_pte s pd (of_nat i2) in
     if e AND PTE_P = 0 \<or> e AND PTE_PS \<noteq> 0 then {} else page_freed (e AND PTE_ADDR_MASK))"

definition pdpt_freed :: "'a machine_scheme \<Rightarrow> u64 \<Rightarrow> nat \<Rightarrow> u64 set" where
  "pdpt_freed s pdpt i3 = (let e = read_pte s pdpt (of_nat i3) in
     if e AND PTE_P = 0 \<or> e AND PTE_PS \<noteq> 0 then {}
     else (\<Union>i2 \<in> {..<512}. pd_freed s (e AND PTE_ADDR_MASK) i2) \<union> page_freed (e AND PTE_ADDR_MASK))"

definition pml4_freed :: "'a machine_scheme \<Rightarrow> u64 \<Rightarrow> nat \<Rightarrow> u64 set" where
  "pml4_freed s pml4 i4 = (let e = read_pte s pml4 (of_nat i4) in
     if e AND PTE_P = 0 then {}
     else (\<Union>i3 \<in> {..<512}. pdpt_freed s (e AND PTE_ADDR_MASK) i3) \<union> page_freed (e AND PTE_ADDR_MASK))"

lemma free_pd_entry_frees: "frees (pd_freed s pd i2) s (free_pd_entry pd i2 s)"
  by (simp add: free_pd_entry_def pd_freed_def Let_def frees_refl frees_free_page)

lemma freed_cong:
  assumes "\<And>a j. read_pte s' a j = read_pte s a j"
  shows "pd_freed s' = pd_freed s" "pdpt_freed s' = pdpt_freed s" "pml4_freed s' = pml4_freed s"
proof -
  show 1: "pd_freed s' = pd_freed s" by (intro ext) (simp add: pd_freed_def assms)
  show 2: "pdpt_freed s' = pdpt_freed s" by (intro ext) (simp add: pdpt_freed_def Let_def assms 1)
  show "pml4_freed s' = pml4_freed s" by (intro ext) (simp add: pml4_freed_def Let_def assms 2)
qed

lemma set_upt_512: "set [0..<512] = {..<512::nat}"
  by auto

lemma free_pdpt_entry_frees:
  fixes s :: "'a pmap_state_scheme"
  shows "frees (pdpt_freed s pdpt i3) s (free_pdpt_entry pdpt i3 s)"
proof -
  define e where "e = read_pte s pdpt (of_nat i3)"
  define t where "t = fold (free_pd_entry (e AND PTE_ADDR_MASK)) [0..<512] s"
  have "frees (\<Union>i \<in> set [0..<512]. pd_freed s (e AND PTE_ADDR_MASK) i) s t"
    unfolding t_def
  proof (rule frees_fold)
    fix i and s' :: "'a pmap_state_scheme" assume "\<And>a j. read_pte s' a j = read_pte s a j"
    from freed_cong(1) [OF this] show "frees (pd_freed s (e AND PTE_ADDR_MASK) i) s' (free_pd_entry (e AND PTE_ADDR_MASK) i s')"
      using free_pd_entry_frees [of s' "e AND PTE_ADDR_MASK" i] by simp
  qed
  note l = this [unfolded set_upt_512]
  have "read_pte t pdpt (of_nat i3) = e" by (simp add: frees_read [OF l] e_def)
  then have "free_pdpt_entry pdpt i3 s =
      (if e AND PTE_P = 0 \<or> e AND PTE_PS \<noteq> 0 then s else pmm_free_page (e AND PTE_ADDR_MASK) t)"
    by (simp add: free_pdpt_entry_def Let_def e_def [symmetric] t_def [symmetric])
  then show ?thesis
    using frees_trans [OF l frees_free_page] by (simp add: pdpt_freed_def e_def [symmetric] frees_refl)
qed

lemma free_pml4_entry_frees:
  fixes s :: "'a pmap_state_scheme"
  shows "frees (pml4_freed s pml4 i4) s (free_pml4_entry pml4 i4 s)"
proof -
  define e where "e = read_pte s pml4 (of_nat i4)"
  define t where "t = fold (free_pdpt_entry (e AND PTE_ADDR_MASK)) [0..<512] s"
  have "frees (\<Union>i \<in> set [0..<512]. pdpt_freed s (e AND PTE_ADDR_MASK) i) s t"
    unfolding t_def
  proof (rule frees_fold)
    fix i and s' :: "'a pmap_state_scheme" assume "\<And>a j. read_pte s' a j = read_pte s a j"
    from freed_cong(2) [OF this] show "frees (pdpt_freed s (e AND PTE_ADDR_MASK) i) s' (free_pdpt_entry (e AND PTE_ADDR_MASK) i s')"
      using free_pdpt_entry_frees [of s' "e AND PTE_ADDR_MASK" i] by simp
  qed
  note l = this [unfolded set_upt_512]
  have "read_pte t pml4 (of_nat i4) = e" by (simp add: frees_read [OF l] e_def)
  then have "free_pml4_entry pml4 i4 s = (if e AND PTE_P = 0 then s else pmm_free_page (e AND PTE_ADDR_MASK) t)"
    by (simp add: free_pml4_entry_def Let_def e_def [symmetric] t_def [symmetric])
  then show ?thesis
    using frees_trans [OF l frees_free_page] by (simp add: pml4_freed_def e_def [symmetric] frees_refl)
qed

lemma pmap_free_tables_frees:
  fixes s :: "'a pmap_state_scheme"
  shows "frees ((\<Union>i4 \<in> {..<512}. pml4_freed s pml4 i4) \<union> page_freed pml4) s (pmap_free_tables pml4 s)"
proof -
  have "frees (\<Union>i \<in> set [0..<512]. pml4_freed s pml4 i) s (fold (free_pml4_entry pml4) [0..<512] s)"
  proof (rule frees_fold)
    fix i and s' :: "'a pmap_state_scheme" assume "\<And>a j. read_pte s' a j = read_pte s a j"
    from freed_cong(3) [OF this] show "frees (pml4_freed s pml4 i) s' (free_pml4_entry pml4 i s')"
      using free_pml4_entry_frees [of s' pml4 i] by simp
  qed
  from frees_trans [OF this frees_free_page] show ?thesis by (simp only: pmap_free_tables_def set_upt_512)
qed

section \<open>Creating and destroying a pmap\<close>

lemma copy_kernel_entries:
  assumes h: "hhdm_ok s" and pg: "is_page pa" "is_page k" "pa \<noteq> k"
    and k: "k = pml4_phys (pmaps s (pmap_kernel s))"
  shows "n \<le> 512 \<Longrightarrow> \<exists>m. fold (copy_kernel_entry pa) [256..<n] s = s\<lparr>mem := m\<rparr> \<and>
     (\<forall>j < 512. read_pte (s\<lparr>mem := m\<rparr>) pa (of_nat j) =
        (if 256 \<le> j \<and> j < n then read_pte s k (of_nat j) else read_pte s pa (of_nat j))) \<and>
     (\<forall>b. page_of b \<noteq> PHYS_TO_VIRT s pa \<longrightarrow> m b = mem s b)"
proof (induction n)
  case 0
  then show ?case by (intro exI [of _ "mem s"]) simp
next
  case (Suc n)
  then obtain m where m: "fold (copy_kernel_entry pa) [256..<n] s = s\<lparr>mem := m\<rparr>"
    "\<forall>j < 512. read_pte (s\<lparr>mem := m\<rparr>) pa (of_nat j) =
        (if 256 \<le> j \<and> j < n then read_pte s k (of_nat j) else read_pte s pa (of_nat j))"
    "\<forall>b. page_of b \<noteq> PHYS_TO_VIRT s pa \<longrightarrow> m b = mem s b" by auto
  show ?case
  proof (cases "256 \<le> n")
    case False
    with m show ?thesis by (intro exI [of _ m]) auto
  next
    case True
    have idx: "(of_nat j :: u64) < 512" if "j < 512" for j using that by (simp add: of_nat_less_word64)
    have inj: "(of_nat i :: u64) = of_nat j \<longleftrightarrow> i = j" if "i < 512" "j < 512" for i j
    proof
      assume "(of_nat i :: u64) = of_nat j"
      then have "unat (of_nat i :: u64) = unat (of_nat j :: u64)" by (rule arg_cong)
      then show "i = j" using that by (simp add: unat_of_nat64)
    qed simp
    define u where "u = s\<lparr>mem := m\<rparr>"
    have n: "n < 512" using Suc.prems by simp
    have hu: "hhdm_ok u" using h by (simp add: u_def hhdm_ok_def)
    have pv: "PHYS_TO_VIRT u = PHYS_TO_VIRT s" by (rule ext) (simp add: u_def PHYS_TO_VIRT_def)
    have kn: "read_pte u k (of_nat n) = read_pte s k (of_nat n)"
      by (rule read_pte_page_cong [OF h pg(2) idx [OF n]]) (use m(3) pg(3) in \<open>auto simp: u_def\<close>)
    define w where "w = u\<lparr>mem := store64 m (pte_addr u pa (of_nat n)) (read_pte s k (of_nat n))\<rparr>"
    have "fold (copy_kernel_entry pa) [256..<Suc n] s = w"
      using True m(1) kn by (simp add: copy_kernel_entry_def u_def [symmetric] w_def)
        (simp add: u_def k)
    moreover have "w = s\<lparr>mem := mem w\<rparr>" by (simp add: w_def u_def)
    moreover have "read_pte w pa (of_nat j) =
        (if 256 \<le> j \<and> j < Suc n then read_pte s k (of_nat j) else read_pte s pa (of_nat j))" if j: "j < 512" for j
    proof -
      have "read_pte w pa (of_nat j) =
          (if j = n then read_pte s k (of_nat n) else read_pte u pa (of_nat j))"
        using read_pte_store [OF hu pg(1,1) idx [OF n] idx [OF j], of w] inj [OF j n]
        by (simp add: w_def u_def)
      then show ?thesis using m(2) j True by (auto simp: u_def less_Suc_eq)
    qed
    moreover have "mem w b = mem s b" if b: "page_of b \<noteq> PHYS_TO_VIRT s pa" for b
    proof -
      have "mem w b = m b"
        using pte_addr_props [OF hu pg(1) idx [OF n]] b by (simp add: w_def store64_page_of pv)
      then show ?thesis using m(3) b by simp
    qed
    ultimately show ?thesis by (intro exI [of _ "mem w"]) metis
  qed
qed

definition kernel_root :: "'a pmap_state_scheme \<Rightarrow> u64" where
  "kernel_root s = pml4_phys (pmaps s (pmap_kernel s))"

lemma pmap_alloc_table_cases:
  assumes inv: "pmm_inv s" and h: "hhdm_ok s"
  obtains (none) "pmap_alloc_table s = (0, s)" "free_set s = {}"
  | (page) pa b c t where "pmap_alloc_table s = (pa, t)" "pa \<noteq> 0" "pa \<notin> used_pages s" "is_page pa" "pmm_inv t"
      "used_pages t = insert pa (used_pages s)"
      "t = s\<lparr>mem := kmemset (PHYS_TO_VIRT s pa) 0 4096 (mem s), bitmap := b, free_count := c\<rparr>"
proof -
  obtain pa w where al: "pmm_alloc_page s = (pa, w)" by (cases "pmm_alloc_page s")
  obtain b c where w: "w = s\<lparr>bitmap := b, free_count := c\<rparr>" by (rule pmm_alloc_page_frame [OF al])
  show ?thesis
  proof (cases "pa = 0")
    case True
    then have "w = s" "free_set s = {}" using pmm_alloc_page_full [OF inv, of w] al by simp_all
    then show ?thesis using al True by (intro none) (simp_all add: pmap_alloc_table_def)
  next
    case False
    note f = pmm_alloc_page_fresh [OF inv al False]
    let ?t = "w\<lparr>mem := kmemset (PHYS_TO_VIRT w pa) 0 4096 (mem w)\<rparr>"
    have "pmap_alloc_table s = (pa, ?t)" using al False by (simp add: pmap_alloc_table_def)
    moreover have "is_page pa" using f by (intro used_is_page [of pa w]) simp
    moreover have "pmm_inv ?t" "used_pages ?t = insert pa (used_pages s)"
      using f by (simp_all add: pmm_inv_def count_ok_def free_set_def used_pages_def)
    moreover have "?t = s\<lparr>mem := kmemset (PHYS_TO_VIRT s pa) 0 4096 (mem s), bitmap := b, free_count := c\<rparr>"
      unfolding w by (simp add: PHYS_TO_VIRT_def)
    ultimately show ?thesis using False f by (intro page) auto
  qed
qed

lemma read_pte_zeroed:
  assumes "hhdm_ok s" "is_page pa" "j < 512" "mem t = kmemset (PHYS_TO_VIRT s pa) 0 4096 (mem s)"
    "hhdm_offset t = hhdm_offset s"
  shows "read_pte t pa j = 0"
proof -
  note p = pte_addr_props [OF assms(1-3)]
  have "aligned 4096 (PHYS_TO_VIRT s pa)" using p(1) by (metis aligned_page_of)
  then have "load64 (mem t) (pte_addr s pa j) = 0" using p by (simp add: assms(4) load64_zero_page)
  moreover have "pte_addr t pa j = pte_addr s pa j" by (simp add: pte_addr_def PHYS_TO_VIRT_def assms(5))
  ultimately show ?thesis by (simp add: read_pte_def)
qed

lemma zeroed_other_byte:
  assumes "hhdm_ok s" "is_page pa" "page_of b \<noteq> PHYS_TO_VIRT s pa"
  shows "kmemset (PHYS_TO_VIRT s pa) 0 4096 m b = m b"
proof -
  have "aligned 4096 (PHYS_TO_VIRT s pa)"
    using assms(1,2) by (simp add: PHYS_TO_VIRT_def hhdm_ok_def is_page_def aligned_add)
  then show ?thesis using assms(3) by (simp add: kmemset_apply page_of_iff)
qed

text \<open>
  \<open>pmap_create\<close>: a new PML4 with an empty user half that shares the kernel half; when a page is
  missing, the pages taken are given back.
\<close>

lemma pmap_create_spec:
  assumes inv: "pmm_inv s" and h: "hhdm_ok s" and k: "kernel_root s \<in> used_pages s"
  obtains (fail) t where "pmap_create s = (0, t)" "free_set t = free_set s" "free_count t = free_count s"
      "card (free_set s) < 2"
  | (ok) pm pa t where "pmap_create s = (pm, t)" "pm \<noteq> 0" "pa \<noteq> 0" "pm \<notin> used_pages s" "pa \<notin> used_pages s"
      "pm \<noteq> pa" "is_page pa" "is_page pm" "used_pages t = insert pm (insert pa (used_pages s))" "pmm_inv t"
      "pmaps t = (pmaps s)(pm := \<lparr>pml4_phys = pa, pm_ref_count = 1\<rparr>)"
      "\<And>j. j < 256 \<Longrightarrow> read_pte t pa (of_nat j) = 0"
      "\<And>j. 256 \<le> j \<Longrightarrow> j < 512 \<Longrightarrow> read_pte t pa (of_nat j) = read_pte s (kernel_root s) (of_nat j)"
      "\<And>b. page_of b \<noteq> PHYS_TO_VIRT s pa \<Longrightarrow> mem t b = mem s b"
      "hhdm_offset t = hhdm_offset s" "pmap_kernel t = pmap_kernel s"
proof (cases rule: pmap_alloc_table_cases [OF inv h])
  case 1
  then have "pmap_create s = (0, s)" by (simp add: pmap_create_def)
  then show ?thesis using 1(2) by (intro fail) simp_all
next
  case (2 pa b c u)
  have hu: "hhdm_ok u" using h by (simp add: 2(7) hhdm_ok_def)
  have k2: "is_page (kernel_root s)" "pa \<noteq> kernel_root s" using k 2(3) by (auto intro: used_is_page)
  have ku: "kernel_root u = kernel_root s" by (simp add: kernel_root_def 2(7))
  have "kernel_root s = pml4_phys (pmaps u (pmap_kernel u))" by (simp add: kernel_root_def 2(7))
  from copy_kernel_entries [OF hu 2(4) k2 this, of 512]
  obtain m where m: "fold (copy_kernel_entry pa) [256..<512] u = u\<lparr>mem := m\<rparr>"
    "\<forall>j < 512. read_pte (u\<lparr>mem := m\<rparr>) pa (of_nat j) =
       (if 256 \<le> j then read_pte u (kernel_root s) (of_nat j) else read_pte u pa (of_nat j))"
    "\<forall>b. page_of b \<noteq> PHYS_TO_VIRT u pa \<longrightarrow> m b = mem u b" by auto
  define v where "v = u\<lparr>mem := m\<rparr>"
  have pv: "PHYS_TO_VIRT u = PHYS_TO_VIRT s" by (rule ext) (simp add: PHYS_TO_VIRT_def 2(7))
  have mv: "mem v x = mem s x" if "page_of x \<noteq> PHYS_TO_VIRT s pa" for x
    using m(3) that zeroed_other_byte [OF h 2(4) that] by (simp add: v_def pv) (simp add: 2(7))
  have idx: "(of_nat j :: u64) < 512" if "j < 512" for j using that by (simp add: of_nat_less_word64)
  have rv: "read_pte v pa (of_nat j) = (if 256 \<le> j then read_pte s (kernel_root s) (of_nat j) else 0)"
    if j: "j < 512" for j
  proof -
    have "read_pte u (kernel_root s) (of_nat j) = read_pte s (kernel_root s) (of_nat j)"
      by (rule read_pte_page_cong [OF h k2(1) idx [OF j]])
        (use zeroed_other_byte [OF h 2(4)] k2(2) in \<open>auto simp: 2(7)\<close>)
    moreover have "read_pte u pa (of_nat j) = 0"
      by (rule read_pte_zeroed [OF h 2(4) idx [OF j]]) (simp_all add: 2(7))
    ultimately show ?thesis using m(2) j by (simp add: v_def)
  qed
  have iv: "pmm_inv v" "used_pages v = used_pages u"
    using 2(5) by (simp_all add: v_def pmm_inv_def count_ok_def free_set_def used_pages_def)
  obtain pm w where al: "pmm_alloc_page v = (pm, w)" by (cases "pmm_alloc_page v")
  obtain b' c' where w: "w = v\<lparr>bitmap := b', free_count := c'\<rparr>" by (rule pmm_alloc_page_frame [OF al])
  have start: "pmap_create s = (if pm = 0 then (0, pmm_free_page pa w)
      else (pm, w\<lparr>pmaps := (pmaps w)(pm := \<lparr>pml4_phys = pa, pm_ref_count = 1\<rparr>)\<rparr>))"
    using 2(1,2) al m(1) by (simp add: pmap_create_def Let_def v_def [symmetric])
  show ?thesis
  proof (cases "pm = 0")
    case True
    then have wv: "w = v" using pmm_alloc_page_full [OF iv(1), of w] al by simp
    have bt: "bitmap_test v q = bitmap_test u q" "free_count v = free_count u" for q by (simp_all add: v_def)
    have r: "free_set (pmm_free_page pa v) = free_set s \<and> free_count (pmm_free_page pa v) = free_count s"
    proof -
      obtain a0 where a0: "pmm_alloc_page s = (pa, a0)" "bitmap u = bitmap a0" "free_count u = free_count a0"
        using 2(1,2) by (auto simp: pmap_alloc_table_def split: prod.splits if_splits)
      have e: "free_set (pmm_free_page pa v) = free_set (pmm_free_page pa a0)"
        "free_count (pmm_free_page pa v) = free_count (pmm_free_page pa a0)"
        using a0(2,3) by (simp_all add: v_def pmm_free_page_def free_set_def bitmap_test_def bitmap_clear_def Let_def)
      then show ?thesis using pmm_alloc_free_restores [OF inv a0(1) 2(2)] by simp
    qed
    have "free_set v = {}" using pmm_alloc_page_full [OF iv(1), of w] al True by simp
    then have "free_set (pmm_free_page pa v) \<subseteq> {drop_bit 12 pa}"
      by (auto simp: pmm_free_page_def free_set_def Let_def split: if_splits)
    then have "card (free_set s) < 2"
      using r card_mono [of "{drop_bit 12 pa}" "free_set s"] by simp
    with r show ?thesis using start True by (intro fail [of "pmm_free_page pa w"]) (simp_all add: wv)
  next
    case False
    note f = pmm_alloc_page_fresh [OF iv(1) al False]
    let ?t = "w\<lparr>pmaps := (pmaps w)(pm := \<lparr>pml4_phys = pa, pm_ref_count = 1\<rparr>)\<rparr>"
    have rt: "read_pte ?t a j = read_pte v a j" for a j by (simp add: read_pte_def pte_addr_def PHYS_TO_VIRT_def w)
    show ?thesis
    proof (rule ok [of pm ?t pa])
      show "pmap_create s = (pm, ?t)" using start False by simp
      show "used_pages ?t = insert pm (insert pa (used_pages s))" "pm \<notin> used_pages s" "pm \<noteq> pa"
        using f iv(2) 2(6) by (simp_all add: used_pages_def bitmap_test_def, auto)
      show "is_page pm" using f by (intro used_is_page [of pm w]) simp
      show "pmm_inv ?t" using f by (simp add: pmm_inv_def count_ok_def free_set_def bitmap_test_def)
      show "read_pte ?t pa (of_nat j) = 0" if "j < 256" for j using rv [of j] that by (simp add: rt)
      show "read_pte ?t pa (of_nat j) = read_pte s (kernel_root s) (of_nat j)" if "256 \<le> j" "j < 512" for j
        using rv [of j] that by (simp add: rt)
      show "mem ?t x = mem s x" if "page_of x \<noteq> PHYS_TO_VIRT s pa" for x using mv [OF that] by (simp add: w)
    qed (use False 2 in \<open>simp_all add: w v_def\<close>)
  qed
qed

text \<open>The new address space has no user mapping.\<close>

lemma empty_user_half:
  assumes "hhdm_ok t" "is_page pa" "pa \<noteq> 0" "pa \<in> used_pages t"
    "\<And>j. j < 256 \<Longrightarrow> read_pte t pa (of_nat j) = 0"
  shows "pt_tree t user_half pa" "\<And>va. PML4_IDX va \<in> user_half \<Longrightarrow> translate t pa va = None"
    "tables t user_half pa = {pa}"
proof -
  have z: "next_table t pa i = None" if "i \<in> user_half" for i
  proof -
    have "read_pte t pa (of_nat (unat i)) = 0"
      using that by (intro assms(5)) (simp add: user_half_def word_less_nat_alt)
    then show ?thesis by (simp add: next_table_def)
  qed
  have only: "p = [] \<and> x = pa" if "vpath user_half p" "table_at t pa p = Some x" for p x
    using that z by (cases p) (auto simp: vpath_def)
  have "[] \<in> {p. vpath user_half p}" by (simp add: vpath_def)
  then show tb: "tables t user_half pa = {pa}"
    using only by (auto simp: tables_def intro!: exI [of _ "[]"])
  show "pt_tree t user_half pa" using assms(1,3,4) only unfolding pt_tree_def tb by blast
  show "translate t pa va = None" if "PML4_IDX va \<in> user_half" for va
    using z [OF that] by (simp add: translate_def va_path_def)
qed

text \<open>\<open>pmap_destroy\<close> of the last reference.\<close>

lemma pmap_destroy_last:
  assumes "pm \<noteq> pmap_kernel s" "pm_ref_count (pmaps s pm) = 1"
  shows "frees ((\<Union>i4 \<in> {..<512}. pml4_freed s (pml4_phys (pmaps s pm)) i4) \<union>
      page_freed (pml4_phys (pmaps s pm)) \<union> page_freed (VIRT_TO_PHYS s pm))
    (s\<lparr>pmaps := (pmaps s)(pm := (pmaps s pm)\<lparr>pm_ref_count := 0\<rparr>)\<rparr>) (pmap_destroy pm s)"
proof -
  define u where "u = s\<lparr>pmaps := (pmaps s)(pm := (pmaps s pm)\<lparr>pm_ref_count := 0\<rparr>)\<rparr>"
  define t where "t = pmap_free_tables (pml4_phys (pmaps s pm)) u"
  have fc: "pml4_freed u = pml4_freed s"
    by (rule freed_cong) (simp add: u_def read_pte_def pte_addr_def PHYS_TO_VIRT_def)
  have f: "frees ((\<Union>i4 \<in> {..<512}. pml4_freed s (pml4_phys (pmaps s pm)) i4) \<union> page_freed (pml4_phys (pmaps s pm))) u t"
    using pmap_free_tables_frees [of u "pml4_phys (pmaps s pm)"] by (simp add: fc t_def)
  have "hhdm_offset t = hhdm_offset s" using f by (auto simp: frees_def u_def)
  then have "VIRT_TO_PHYS t pm = VIRT_TO_PHYS s pm" by (simp add: VIRT_TO_PHYS_def)
  moreover have "pmap_destroy pm s = pmm_free_page (VIRT_TO_PHYS t pm) t"
    using assms by (simp add: pmap_destroy_def Let_def u_def [symmetric] t_def)
      (simp add: u_def)
  ultimately show ?thesis using frees_trans [OF f frees_free_page] by (simp add: u_def)
qed

section \<open>How many pages the operations take\<close>

lemma walk_level_takes: "walk_level c t i s = (r, u) \<Longrightarrow> takes 1 s u"
proof -
  assume w: "walk_level c t i s = (r, u)"
  obtain pa v where al: "pmm_alloc_page s = (pa, v)" by (cases "pmm_alloc_page s")
  have "u = s \<or> bitmap u = bitmap v"
    using w al by (auto simp: walk_level_def pmap_alloc_table_def Let_def split: if_splits)
  then show "takes 1 s u"
    using alloc_takes [OF al] by (auto simp: takes_def free_set_def bitmap_test_def)
qed

lemma pmap_walk_takes: "pmap_walk pm va c s = (r, u) \<Longrightarrow> takes 3 s u"
proof -
  assume w: "pmap_walk pm va c s = (r, u)"
  obtain r4 s4 where 4: "walk_level c (pml4_phys (pmaps s pm)) (PML4_IDX va) s = (r4, s4)" by fastforce
  obtain r3 s3 where 3: "walk_level c (the r4) (PDPT_IDX va) s4 = (r3, s3)" by fastforce
  obtain r2 s2 where 2: "walk_level c (the r3) (PD_IDX va) s3 = (r2, s2)" by fastforce
  note t = walk_level_takes [OF 4] walk_level_takes [OF 3] walk_level_takes [OF 2]
  have "u = s4 \<or> u = s3 \<or> u = s2" using w 4 3 2 by (auto simp: pmap_walk_def Let_def split: option.splits)
  then show "takes 3 s u" using t unfolding takes_def by auto
qed

lemma pmap_map_takes: "pmap_map pm va pa fl s = (r, u) \<Longrightarrow> takes 3 s u"
proof -
  assume m: "pmap_map pm va pa fl s = (r, u)"
  obtain e v where w: "pmap_walk pm va True s = (e, v)" by fastforce
  have "bitmap u = bitmap v" using m w by (auto simp: pmap_map_def invlpg_def split: if_splits)
  then show "takes 3 s u" using pmap_walk_takes [OF w] by (simp add: takes_def free_set_def bitmap_test_def)
qed

section \<open>Properties\<close>

text \<open>
  The state the witnesses use: the kernel's PML4 at 0x1000 with one entry (256) for the PDPT at 0x2000,
  every page in use except those given back.
\<close>

definition blank_pmap :: pmap_state where
  "blank_pmap = \<lparr>mem = store64 (\<lambda>_. 0) 0xffff800000001800 0x2003, hhdm_offset = 0xffff800000000000, console = [], port_outs = [],
     port_ins = (\<lambda>_. 0),
     bitmap = (\<lambda>_. - 1), bitmap_base = 0, total_pages = 0, free_count = 0,
     zone_store = (\<lambda>_. blank_zone), zone_count = 0,
     pmaps = (\<lambda>_. \<lparr>pml4_phys = 0x1000, pm_ref_count = 1\<rparr>), pmap_kernel = 0xffffffff80000000, cr3 = 0x1000,
     tlb = (\<lambda>_. None)\<rparr>"

definition two_pages_pmap :: pmap_state where
  "two_pages_pmap = pmm_free_page 0x6000 (pmm_free_page 0x5000 blank_pmap)"

lemma two_pages_frame:
  obtains b c where "two_pages_pmap = blank_pmap\<lparr>bitmap := b, free_count := c\<rparr>"
proof -
  obtain b c where 1: "pmm_free_page 0x5000 blank_pmap = blank_pmap\<lparr>bitmap := b, free_count := c\<rparr>"
    by (rule pmm_free_page_frame)
  obtain b' c' where "two_pages_pmap = (pmm_free_page 0x5000 blank_pmap)\<lparr>bitmap := b', free_count := c'\<rparr>"
    unfolding two_pages_pmap_def by (rule pmm_free_page_frame)
  then have "two_pages_pmap = blank_pmap\<lparr>bitmap := b', free_count := c'\<rparr>" by (simp add: 1)
  then show thesis by (rule that)
qed

lemma two_pages_pmap:
  "pmm_inv two_pages_pmap" "free_set two_pages_pmap = {5, 6}" "hhdm_ok two_pages_pmap"
  "kernel_root two_pages_pmap = 0x1000" "0x1000 \<in> used_pages two_pages_pmap" "0x2000 \<in> used_pages two_pages_pmap"
  "read_pte two_pages_pmap 0x1000 256 = 0x2003" "\<And>j. j < 256 \<Longrightarrow> read_pte two_pages_pmap 0x1000 (of_nat j) = 0"
proof -
  have b: "bitmap blank_pmap = (\<lambda>_. - 1)" "free_count blank_pmap = 0" by (simp_all add: blank_pmap_def)
  note a = all_pages_used [OF b]
  note f5 = one_page_free [OF b]
  obtain b' c' where eq: "two_pages_pmap = blank_pmap\<lparr>bitmap := b', free_count := c'\<rparr>" by (rule two_pages_frame)
  have d: "drop_bit 12 (0x5000 :: u64) = 5" "drop_bit 12 (0x6000 :: u64) = 6"
    "push_bit 12 (6 :: u64) = 0x6000" "push_bit 12 (1 :: u64) = 0x1000" "push_bit 12 (2 :: u64) = 0x2000" by simp_all
  have t5: "bitmap_test (pmm_free_page 0x5000 blank_pmap) q \<longleftrightarrow> q \<noteq> 5" for q
    using a(1) by (simp add: pmm_free_page_def d(1) Let_def)
  have t6: "bitmap_test two_pages_pmap q \<longleftrightarrow> q \<noteq> 5 \<and> q \<noteq> 6" for q
    using t5 by (simp add: two_pages_pmap_def pmm_free_page_def [of "0x6000"] d(2) Let_def, auto)
  have "0x6000 \<in> used_pages (pmm_free_page 0x5000 blank_pmap)"
    using page_in_used_pages [of 6 "pmm_free_page 0x5000 blank_pmap"] t5 [of 6] d(3) by simp
  from pmm_free_page_used [OF f5(1) this] show inv: "pmm_inv two_pages_pmap" by (simp add: two_pages_pmap_def)
  show "free_set two_pages_pmap = {5, 6}" by (auto simp: free_set_def t6)
  show h: "hhdm_ok two_pages_pmap" by (simp add: eq hhdm_ok_def blank_pmap_def aligned_def)
  show "kernel_root two_pages_pmap = 0x1000" by (simp add: kernel_root_def eq blank_pmap_def)
  show u: "0x1000 \<in> used_pages two_pages_pmap" "0x2000 \<in> used_pages two_pages_pmap"
    using page_in_used_pages [of 1 two_pages_pmap] page_in_used_pages [of 2 two_pages_pmap] t6 d(4,5) by simp_all
  have z: "load64 (\<lambda>_. 0) q = 0" for q by (rule bit_word_eqI) (simp add: load64_def bit_load_bytes)
  define zero where "zero = two_pages_pmap\<lparr>mem := (\<lambda>_. 0)\<rparr>"
  have hz: "hhdm_ok zero" using h by (simp add: zero_def hhdm_ok_def)
  have "pte_addr zero 0x1000 256 = 0xffff800000001800"
    by (simp add: pte_addr_def PHYS_TO_VIRT_def zero_def eq blank_pmap_def)
  then have "mem two_pages_pmap = store64 (mem zero) (pte_addr zero 0x1000 256) 0x2003"
    "hhdm_offset two_pages_pmap = hhdm_offset zero" by (simp_all add: eq blank_pmap_def zero_def)
  note r = read_pte_store [OF hz used_is_page [OF u(1)] used_is_page [OF u(1)] _ _ this]
  show "read_pte two_pages_pmap 0x1000 256 = 0x2003" using r [of 256] by simp
  show "read_pte two_pages_pmap 0x1000 (of_nat j) = 0" if "j < 256" for j
  proof -
    have lt: "(of_nat j :: u64) < 256" using that by (simp add: of_nat_less_word64)
    then have "(of_nat j :: u64) < 512" "(of_nat j :: u64) \<noteq> 256" by (auto simp: word_less_nat_alt)
    then have "read_pte two_pages_pmap 0x1000 (of_nat j) = read_pte zero 0x1000 (of_nat j)"
      using r [of "of_nat j"] by simp
    then show ?thesis by (simp add: read_pte_def zero_def z)
  qed
qed

lemma two_pages_pmap_inv:
  "pmap_inv user_half 0x1000 0xffffffff80000000 two_pages_pmap"
  "\<And>va. PML4_IDX va \<in> user_half \<Longrightarrow> translate two_pages_pmap 0x1000 va = None"
proof -
  note t = two_pages_pmap
  note e = empty_user_half [OF t(3) used_is_page [OF t(5)] _ t(5) t(8)]
  obtain b c where eq: "two_pages_pmap = blank_pmap\<lparr>bitmap := b, free_count := c\<rparr>" by (rule two_pages_frame)
  have "pml4_phys (pmaps two_pages_pmap 0xffffffff80000000) = 0x1000" by (simp add: eq blank_pmap_def)
  then show "pmap_inv user_half 0x1000 0xffffffff80000000 two_pages_pmap"
    using e(1) t(1) by (simp add: pmap_inv_def)
  show "\<And>va. PML4_IDX va \<in> user_half \<Longrightarrow> translate two_pages_pmap 0x1000 va = None" using e(2) by simp
qed

text \<open>
  C2: The page tables refine a finite map from user pages to entries: whatever sequence of map, unmap and
  protect commands runs on user addresses, the invariant of the tables holds afterwards and the hardware
  walk finds, at every user address, exactly what the specification computes from the commands and their
  return codes.
\<close>

theorem pmap_refines_map:
  assumes "pmap_inv user_half root pmap s" "\<forall>c \<in> set cs. user_addr (cmd_va c)"
    "run_pm (pmap_map pmap) (pmap_unmap pmap) (pmap_protect pmap) cs s = (rs, t)"
  shows "pmap_inv user_half root pmap t \<and> length rs = length cs \<and>
    (\<forall>vb. user_addr vb \<longrightarrow> translate t root vb = spec_run same_slot cs rs (translate s root) vb)"
  using pm.run_refines [OF assms(1) _ assms(3)] assms(2) user_covered by blast

theorem pmap_refines_map_witness:
  "\<exists>rs t. run_pm (pmap_map 0xffffffff80000000) (pmap_unmap 0xffffffff80000000) (pmap_protect 0xffffffff80000000)
       [PmMap 0x400000 0x7000 PTE_W, PmUnmap 0x400000] two_pages_pmap = (rs, t) \<and>
     translate t 0x1000 0x400000 = None"
proof -
  let ?cs = "[PmMap 0x400000 0x7000 PTE_W, PmUnmap 0x400000]"
  obtain rs t where r: "run_pm (pmap_map 0xffffffff80000000) (pmap_unmap 0xffffffff80000000)
      (pmap_protect 0xffffffff80000000) ?cs two_pages_pmap = (rs, t)" by fastforce
  have u: "user_addr 0x400000" by (simp add: user_addr_def)
  then have "\<forall>c \<in> set ?cs. user_addr (cmd_va c)" by simp
  note p = pmap_refines_map [OF two_pages_pmap_inv(1) this r]
  then obtain r1 r2 where "rs = [r1, r2]" by (auto simp: length_Suc_conv)
  with p u have "translate t 0x1000 0x400000 = None" by (auto simp: same_slot_def)
  with r show ?thesis by blast
qed

text \<open>
  Mapping a page.  \<open>pmap_map\<close> either installs the entry, after which a query of any user address of
  that page returns the physical address plus the offset and every other user page translates as
  before; or it returns -1, only when no page is free for a table, and no translation changes.
\<close>

lemma pmap_map_correct:
  assumes "pmap_inv user_half root pmap s" "user_addr va" "pmap_map pmap va pa flags s = (r, t)"
  shows "pmap_inv user_half root pmap t \<and>
    (r = 0 \<longrightarrow> pmap_query pmap va t = (pa AND PTE_ADDR_MASK) OR (va AND 4095) \<and>
      (\<forall>vb. user_addr vb \<longrightarrow> page_of vb \<noteq> page_of va \<longrightarrow> translate t root vb = translate s root vb)) \<and>
    (r \<noteq> 0 \<longrightarrow> r = -1 \<and> free_set t = {} \<and> (\<forall>vb. user_addr vb \<longrightarrow> translate t root vb = translate s root vb))"
proof -
  note va = user_covered [OF assms(2)]
  note law = pm.map_law [OF assms(1) va assms(3)]
  have "translate t root vb = translate s root vb"
    if "user_addr vb" "page_of vb \<noteq> page_of va" for vb
    using law user_covered [OF that(1)] same_slot_user [OF assms(2) that(1)] that(2) by auto
  moreover have "free_set t = {}" if "r \<noteq> 0"
  proof (rule pmap_map_spec [of s user_half root va pmap pa flags])
    fix s' assume "pmap_map pmap va pa flags s = (-1, s')" "free_set s' = {}"
    then show ?thesis using assms(3) by simp
  next
    fix s' assume "pmap_map pmap va pa flags s = (0, s')"
    then show ?thesis using assms(3) that by simp
  qed (use assms(1) va in \<open>auto simp: pmap_inv_def covered_def\<close>)
  moreover have "pmap_query pmap va t = (pa AND PTE_ADDR_MASK) OR (va AND 4095)" if "r = 0"
    using pm.query_after_map [OF assms(1) va] assms(3) that by simp
  moreover have "translate t root vb = translate s root vb" if "r \<noteq> 0" "user_addr vb" for vb
    using law user_covered [OF that(2)] that(1) by auto
  ultimately show ?thesis using law by blast
qed

lemma pmap_map_correct_witness:
  "case pmap_map 0xffffffff80000000 0x400000 0x7000 PTE_W two_pages_pmap of (r, t) \<Rightarrow>
     (r = 0 \<longrightarrow> pmap_query 0xffffffff80000000 0x400000 t = 0x7000) \<and> (r \<noteq> 0 \<longrightarrow> free_set t = {})"
proof -
  obtain r t where m: "pmap_map 0xffffffff80000000 0x400000 0x7000 PTE_W two_pages_pmap = (r, t)" by fastforce
  have "user_addr 0x400000" by (simp add: user_addr_def)
  from pmap_map_correct [OF two_pages_pmap_inv(1) this m] show ?thesis by (simp add: m PTE_ADDR_MASK_def)
qed

text \<open>What the processor and the pmap's callers do, in any order.\<close>

datatype tlb_event = TlbCmd pm_cmd | TlbFill addr

fun run_tlb :: "addr \<Rightarrow> u64 \<Rightarrow> tlb_event list \<Rightarrow> 'a pmap_state_scheme \<Rightarrow> 'a pmap_state_scheme" where
  "run_tlb pmap root [] s = s"
| "run_tlb pmap root (TlbFill va # es) s = run_tlb pmap root es (tlb_fill root va s)"
| "run_tlb pmap root (TlbCmd c # es) s =
     run_tlb pmap root es (snd (case c of PmMap va pa fl \<Rightarrow> pmap_map pmap va pa fl s
       | PmUnmap va \<Rightarrow> pmap_unmap pmap va s | PmProtect va fl \<Rightarrow> pmap_protect pmap va fl s))"

fun event_va :: "tlb_event \<Rightarrow> addr" where
  "event_va (TlbCmd c) = cmd_va c"
| "event_va (TlbFill va) = va"

lemma tlb_fill_invs:
  assumes "pmap_inv user_half root pmap s" "tlb_coherent root s" "user_addr va"
  shows "pmap_inv user_half root pmap (tlb_fill root va s)" "tlb_coherent root (tlb_fill root va s)"
proof -
  have rd: "read_pte (tlb_fill root va s) a i = read_pte s a i" for a i
    by (simp add: tlb_fill_def read_pte_def pte_addr_def PHYS_TO_VIRT_def)
  have ta: "table_at (tlb_fill root va s) a p = table_at s a p" for a p
    by (induction p arbitrary: a) (auto simp: next_table_def rd split: option.split)
  have tr: "translate (tlb_fill root va s) root vb = translate s root vb" for vb
    by (simp add: translate_def ta rd split: option.split)
  show "pmap_inv user_half root pmap (tlb_fill root va s)"
    using assms(1) by (simp add: pmap_inv_def pt_tree_def tables_def ta)
      (simp add: tlb_fill_def hhdm_ok_def used_pages_def bitmap_test_def pmm_inv_def count_ok_def free_set_def)
  show "tlb_coherent root (tlb_fill root va s)"
    unfolding tlb_coherent_def tr
  proof (intro allI impI)
    fix vb e assume vb: "user_addr vb" and e: "tlb (tlb_fill root va s) (page_of vb) = Some e"
    show "translate s root vb = Some e"
    proof (cases "page_of vb = page_of va")
      case True
      then have "same_slot va vb" using same_slot_user [OF assms(3) vb] by simp
      then show ?thesis using e True same_slot_translate [of va vb s root] by (simp add: tlb_fill_def)
    next
      case False
      then show ?thesis using e vb assms(2) by (simp add: tlb_fill_def tlb_coherent_def)
    qed
  qed
qed

lemma run_tlb_coherent:
  "pmap_inv user_half root pmap s \<Longrightarrow> tlb_coherent root s \<Longrightarrow> \<forall>e \<in> set es. user_addr (event_va e) \<Longrightarrow>
   tlb_coherent root (run_tlb pmap root es s)"
proof (induction es arbitrary: s)
  case (Cons e es)
  show ?case
  proof (cases e)
    case (TlbFill va)
    then show ?thesis using Cons tlb_fill_invs [OF Cons.prems(1,2), of va] by simp
  next
    case (TlbCmd c)
    obtain r t where st: "(case c of PmMap va pa fl \<Rightarrow> pmap_map pmap va pa fl s | PmUnmap va \<Rightarrow> pmap_unmap pmap va s
       | PmProtect va fl \<Rightarrow> pmap_protect pmap va fl s) = (r, t)" by fastforce
    have u: "user_addr (cmd_va c)" using Cons.prems(3) TlbCmd by simp
    have "tlb_coherent root t" by (rule tlb_coherent_cmd [OF Cons.prems(1,2) u st])
    moreover have "pmap_inv user_half root pmap t"
      by (rule pm.step_refines(1) [OF Cons.prems(1) user_covered [OF u] st])
    ultimately show ?thesis using Cons.IH [of t] Cons.prems(3) by (simp add: TlbCmd st)
  qed
qed simp

text \<open>
  C20: No stale translation: while the pmap's commands run on user addresses, and the processor fills its
  TLB from the tables at any moment in between, every cached user entry agrees with the tables.
\<close>

theorem tlb_never_stale:
  assumes "pmap_inv user_half root pmap s" "tlb_coherent root s" "\<forall>e \<in> set es. user_addr (event_va e)"
  shows "tlb_coherent root (run_tlb pmap root es s)"
  using assms by (rule run_tlb_coherent)

theorem tlb_never_stale_witness:
  "tlb_coherent 0x1000 (run_tlb 0xffffffff80000000 0x1000
     [TlbFill 0x400000, TlbCmd (PmMap 0x400000 0x7000 PTE_W), TlbFill 0x400000, TlbCmd (PmUnmap 0x400000)] two_pages_pmap)"
proof (rule tlb_never_stale [OF two_pages_pmap_inv(1)])
  obtain b c where eq: "two_pages_pmap = blank_pmap\<lparr>bitmap := b, free_count := c\<rparr>" by (rule two_pages_frame)
  show "tlb_coherent 0x1000 two_pages_pmap" unfolding tlb_coherent_def by (simp add: eq blank_pmap_def)
qed (simp add: user_addr_def)

text \<open>
  A new address space has no user mapping and shares every kernel entry of the PML4; when fewer than
  two pages are free, \<open>pmap_create\<close> returns null and gives back what it took.
\<close>

lemma pmap_create_correct:
  assumes "pmm_inv s" "hhdm_ok s" "kernel_root s \<in> used_pages s" "pmap_create s = (pm, t)"
  shows "pm = 0 \<and> card (free_set s) < 2 \<and> free_set t = free_set s \<and> free_count t = free_count s \<or>
    pm \<noteq> 0 \<and> pm \<notin> used_pages s \<and> (\<exists>root. pmaps t pm = \<lparr>pml4_phys = root, pm_ref_count = 1\<rparr> \<and>
      root \<notin> used_pages s \<and> pmap_inv user_half root pm t \<and>
      (\<forall>va. user_addr va \<longrightarrow> translate t root va = None) \<and>
      (\<forall>j. 256 \<le> j \<longrightarrow> j < 512 \<longrightarrow> read_pte t root (of_nat j) = read_pte s (kernel_root s) (of_nat j)))"
proof (cases rule: pmap_create_spec [OF assms(1-3)])
  case (1 u)
  then show ?thesis using assms(4) by simp
next
  case (2 q pa u)
  then have eq: "q = pm" "u = t" using assms(4) by simp_all
  have h: "hhdm_ok t" using assms(2) 2(15) by (simp add: hhdm_ok_def eq)
  have "pa \<in> used_pages t" using 2(9) by (simp add: eq)
  note e = empty_user_half [OF h 2(7,3) this 2(12) [unfolded eq]]
  have cov: "PML4_IDX va \<in> user_half" if "user_addr va" for va using user_covered [OF that] by (simp add: covered_def)
  have "pmaps t pm = \<lparr>pml4_phys = pa, pm_ref_count = 1\<rparr>" using 2(11) by (simp add: eq)
  moreover have "pmap_inv user_half pa pm t" using e(1) 2(10,11) by (simp add: pmap_inv_def eq)
  ultimately show ?thesis using 2(2,4,5,13) e(2) cov unfolding eq by blast
qed

lemma pmap_create_correct_witness:
  "case pmap_create two_pages_pmap of (pm, t) \<Rightarrow> pm \<noteq> 0 \<and> pm_ref_count (pmaps t pm) = 1"
proof -
  obtain pm t where c: "pmap_create two_pages_pmap = (pm, t)" by fastforce
  have k: "kernel_root two_pages_pmap \<in> used_pages two_pages_pmap" by (simp add: two_pages_pmap)
  from pmap_create_correct [OF two_pages_pmap(1,3) k c]
  show ?thesis by (auto simp: c two_pages_pmap(2))
qed

text \<open>
  C40: \<open>pmap_destroy\<close> of a pmap that \<open>pmap_create\<close> made walks into the shared kernel half: every PDPT of
  the kernel is marked free although the kernel's PML4 still refers to it; and the page of the
  descriptor itself stays in use, because its physical address is converted a second time.
\<close>

theorem pmap_destroy_frees_kernel_tables:
  assumes "pmm_inv s" "hhdm_ok s" "kernel_root s \<in> used_pages s" "pmap_create s = (pm, t)" "pm \<noteq> 0"
    "pm \<noteq> pmap_kernel s" "256 \<le> j" "j < 512" "next_table s (kernel_root s) (of_nat j) = Some pdpt"
    "is_page pdpt" "pdpt \<noteq> 0" "unat (hhdm_offset s) \<ge> 0x200000000"
  shows "drop_bit 12 pdpt \<in> free_set (pmap_destroy pm t) \<and>
    next_table (pmap_destroy pm t) (kernel_root s) (of_nat j) = Some pdpt \<and>
    pmm_free_page (VIRT_TO_PHYS t pm) u = u"
proof (cases rule: pmap_create_spec [OF assms(1-3)])
  case (1 w)
  then show ?thesis using assms(4,5) by simp
next
  case (2 q pa w)
  then have eq: "q = pm" "w = t" using assms(4) by simp_all
  have km: "is_page (kernel_root s)" "kernel_root s \<noteq> pa" using assms(3) 2(5) used_is_page by auto
  have pt: "pml4_phys (pmaps t pm) = pa" using 2(11) by (simp add: eq)
  have ref: "pm \<noteq> pmap_kernel t" "pm_ref_count (pmaps t pm) = 1" using 2(11,16) assms(6) by (simp_all add: eq)
  note fr = pmap_destroy_last [OF ref, unfolded pt]
  let ?A = "(\<Union>i4 \<in> {..<512}. pml4_freed t pa i4) \<union> page_freed pa \<union> page_freed (VIRT_TO_PHYS t pm)"
  have test: "bitmap_test (pmap_destroy pm t) p \<longleftrightarrow> bitmap_test t p \<and> p \<notin> ?A" for p
    using fr by (simp add: frees_def bitmap_test_def)
  have read: "read_pte (pmap_destroy pm t) a i = read_pte t a i" for a i
    using frees_read [OF fr, of a i] by (simp add: read_pte_def pte_addr_def PHYS_TO_VIRT_def)
  have dpn: "drop_bit 12 x < 1048576" "drop_bit 12 x \<noteq> 0" if "is_page x" "x \<noteq> 0" for x :: u64
  proof -
    show "drop_bit 12 x < 1048576" using that by (simp add: tracked_addr is_page_def)
    show "drop_bit 12 x \<noteq> 0"
    proof
      assume "drop_bit 12 x = 0"
      then have "unat x div 4096 = 0" using unat_page_index [of x] by simp
      then have "unat x = 0" using that(1) by (auto simp: is_page_def aligned_def div_eq_0_iff)
      then show False using that(2) by (simp add: unat_eq_0)
    qed
  qed
  have entry: "read_pte t pa (of_nat j) = read_pte s (kernel_root s) (of_nat j)"
    using 2(13) [OF assms(7,8)] by (simp add: eq)
  have pres: "read_pte s (kernel_root s) (of_nat j) AND PTE_P \<noteq> 0"
    "read_pte s (kernel_root s) (of_nat j) AND PTE_ADDR_MASK = pdpt"
    using assms(9) by (auto simp: next_table_def Let_def split: if_splits)
  have "drop_bit 12 pdpt \<in> pml4_freed t pa j"
    using entry pres dpn [OF assms(10,11)] by (simp add: pml4_freed_def Let_def page_freed_def)
  then have "drop_bit 12 pdpt \<in> ?A" using assms(8) by blast
  then have one: "drop_bit 12 pdpt \<in> free_set (pmap_destroy pm t)"
    using dpn [OF assms(10,11)] by (simp add: free_set_def test)
  have jj: "(of_nat j :: u64) < 512" using assms(8) by (simp add: of_nat_less_word64)
  have "read_pte t (kernel_root s) (of_nat j) = read_pte s (kernel_root s) (of_nat j)"
    by (rule read_pte_page_cong [OF assms(2) km(1) jj]) (use 2(14,15) km(2) in \<open>simp_all add: eq\<close>)
  then have two: "next_table (pmap_destroy pm t) (kernel_root s) (of_nat j) = Some pdpt"
    using assms(9) by (simp add: next_table_def read)
  have "unat (VIRT_TO_PHYS t pm) \<ge> 4294967296"
  proof -
    have "unat (hhdm_offset s) \<le> 18446744069414584320" using assms(2) by (simp add: hhdm_ok_def)
    moreover have "unat pm < 4294967296" using 2(8) by (simp add: eq is_page_def)
    ultimately have "(unat pm + 18446744073709551616 - unat (hhdm_offset s)) mod 18446744073709551616
        = unat pm + 18446744073709551616 - unat (hhdm_offset s)"
      using assms(12) by (intro mod_less) linarith
    then show ?thesis
      using \<open>unat (hhdm_offset s) \<le> 18446744069414584320\<close> 2(15) by (simp add: VIRT_TO_PHYS_def eq unat_sub64)
  qed
  then have "1048576 \<le> drop_bit 12 (VIRT_TO_PHYS t pm)" using tracked_addr [of "VIRT_TO_PHYS t pm"] by (simp add: not_less [symmetric])
  then have "pmm_free_page (VIRT_TO_PHYS t pm) u = u" by (simp add: pmm_free_page_def Let_def)
  with one two show ?thesis by blast
qed

theorem pmap_destroy_frees_kernel_tables_witness:
  "case pmap_create two_pages_pmap of (pm, t) \<Rightarrow>
     2 \<in> free_set (pmap_destroy pm t) \<and> next_table (pmap_destroy pm t) 0x1000 256 = Some 0x2000"
proof -
  obtain pm t where c: "pmap_create two_pages_pmap = (pm, t)" by fastforce
  obtain b c' where eq: "two_pages_pmap = blank_pmap\<lparr>bitmap := b, free_count := c'\<rparr>" by (rule two_pages_frame)
  have k: "kernel_root two_pages_pmap \<in> used_pages two_pages_pmap" by (simp add: two_pages_pmap)
  have nz: "pm \<noteq> 0" "is_page pm"
  proof (atomize (full), cases rule: pmap_create_spec [OF two_pages_pmap(1,3) k])
    case (1 u)
    then show "pm \<noteq> 0 \<and> is_page pm" by (simp add: two_pages_pmap(2))
  next
    case (2 q pa u)
    then show "pm \<noteq> 0 \<and> is_page pm" using c by simp
  qed
  have pk: "pm \<noteq> pmap_kernel two_pages_pmap" using nz(2) by (auto simp: eq blank_pmap_def is_page_def)
  have nt: "next_table two_pages_pmap (kernel_root two_pages_pmap) (of_nat 256) = Some 0x2000"
    by (simp add: two_pages_pmap(4,7) next_table_def PTE_P_def PTE_ADDR_MASK_def)
  have hh: "unat (hhdm_offset two_pages_pmap) \<ge> 0x200000000" by (simp add: eq blank_pmap_def)
  have pg: "is_page 0x2000" "(0x2000 :: u64) \<noteq> 0" by (rule used_is_page [OF two_pages_pmap(6)]) simp
  from pmap_destroy_frees_kernel_tables [where u = two_pages_pmap, OF two_pages_pmap(1,3) k c nz(1) pk _ _ nt pg hh]
  show ?thesis by (simp add: c two_pages_pmap(4))
qed

end
