(* ===== verification/Vm_Map.thy ===== *)
theory Vm_Map
  imports Pmap
begin

text \<open>
  \<^verbatim>\<open>vm/vm_map.c\<close>: address spaces as sorted, doubly-linked lists of entries.

  Entries and maps live in typed heaps, keyed by the addresses the zones return.  The sentinel
  \<open>map->header\<close> is an entry of the heap at its own address, 24 bytes into the map.  \<open>kernel_map\<close> is
  the address of the static map.  Loops over the list and over the pages of a range may run forever
  on a broken list or at the end of the address space, so they are partial functions; following a
  null link is a fault (\<open>None\<close>).
\<close>

section \<open>State\<close>

record vm_map_entry =
  vme_start :: u64
  vme_end :: u64
  vme_prot :: u32
  vme_max_prot :: u32
  vme_flags :: u32
  vme_prev :: addr
  vme_next :: addr

record vm_map =
  min_offset :: u64
  max_offset :: u64
  map_ref_count :: u32
  nentries :: u32
  vm_pmap :: addr

record vm_state = pmap_state +
  vm_maps :: "addr \<Rightarrow> vm_map"
  vm_entries :: "addr \<Rightarrow> vm_map_entry"
  vm_map_zone :: zone_t
  vm_map_entry_zone :: zone_t
  kernel_map :: addr

definition VME_WIRED :: u32 where "VME_WIRED = push_bit 0 1"
definition KERN_MAP_MIN :: u64 where "KERN_MAP_MIN = 0xffff800000000000"
definition KERN_MAP_MAX :: u64 where "KERN_MAP_MAX = 0xffffffffffffffff"

text \<open>\<open>&map->header\<close>, and \<open>sizeof\<close> of the two structures.\<close>

definition header :: "addr \<Rightarrow> addr" where "header vmap = vmap + 24"
definition sizeof_vm_map_entry :: u64 where "sizeof_vm_map_entry = 48"
definition sizeof_vm_map :: u64 where "sizeof_vm_map = 80"

definition zero_entry :: vm_map_entry where
  "zero_entry = \<lparr>vme_start = 0, vme_end = 0, vme_prot = 0, vme_max_prot = 0, vme_flags = 0,
     vme_prev = 0, vme_next = 0\<rparr>"

definition zero_map :: vm_map where
  "zero_map = \<lparr>min_offset = 0, max_offset = 0, map_ref_count = 0, nentries = 0, vm_pmap = 0\<rparr>"

definition upd_entry :: "addr \<Rightarrow> (vm_map_entry \<Rightarrow> vm_map_entry) \<Rightarrow> 'a vm_state_scheme \<Rightarrow> 'a vm_state_scheme" where
  "upd_entry e f s = s\<lparr>vm_entries := (vm_entries s)(e := f (vm_entries s e))\<rparr>"

definition upd_map :: "addr \<Rightarrow> (vm_map \<Rightarrow> vm_map) \<Rightarrow> 'a vm_state_scheme \<Rightarrow> 'a vm_state_scheme" where
  "upd_map m f s = s\<lparr>vm_maps := (vm_maps s)(m := f (vm_maps s m))\<rparr>"

abbreviation next_of :: "'a vm_state_scheme \<Rightarrow> addr \<Rightarrow> addr" where
  "next_of s e \<equiv> vme_next (vm_entries s e)"

abbreviation prev_of :: "'a vm_state_scheme \<Rightarrow> addr \<Rightarrow> addr" where
  "prev_of s e \<equiv> vme_prev (vm_entries s e)"

section \<open>The list\<close>

definition map_list_init :: "addr \<Rightarrow> 'a vm_state_scheme \<Rightarrow> 'a vm_state_scheme" where
  "map_list_init vmap s =
     upd_entry (header vmap) (\<lambda>h. h\<lparr>vme_next := header vmap, vme_prev := header vmap\<rparr>) s"

definition map_list_insert_after :: "addr \<Rightarrow> addr \<Rightarrow> 'a vm_state_scheme \<Rightarrow> 'a vm_state_scheme" where
  "map_list_insert_after pos ne s =
     (let s = upd_entry ne (\<lambda>e. e\<lparr>vme_prev := pos\<rparr>) s;
          s = upd_entry ne (\<lambda>e. e\<lparr>vme_next := next_of s pos\<rparr>) s;
          s = upd_entry (next_of s pos) (\<lambda>e. e\<lparr>vme_prev := ne\<rparr>) s
      in upd_entry pos (\<lambda>e. e\<lparr>vme_next := ne\<rparr>) s)"

definition map_list_remove :: "addr \<Rightarrow> 'a vm_state_scheme \<Rightarrow> 'a vm_state_scheme" where
  "map_list_remove e s =
     (let s = upd_entry (prev_of s e) (\<lambda>p. p\<lparr>vme_next := next_of s e\<rparr>) s
      in upd_entry (next_of s e) (\<lambda>n. n\<lparr>vme_prev := prev_of s e\<rparr>) s)"

definition prot_to_pte :: "u32 \<Rightarrow> u64" where
  "prot_to_pte prot =
     (let f = 0;
          f = (if prot AND VM_PROT_WRITE \<noteq> 0 then f OR PTE_W else f)
      in if prot AND VM_PROT_EXECUTE = 0 then f OR PTE_NX else f)"

section \<open>Creating and destroying maps\<close>

definition vm_map_init :: "'a vm_state_scheme \<Rightarrow> (kern_return \<times> 'a vm_state_scheme) option" where
  "vm_map_init s = do {
     (z, s) \<leftarrow> zinit ''vm_map_entry'' sizeof_vm_map_entry 0 s;
     let s = s\<lparr>vm_map_entry_zone := z\<rparr>;
     (z, s) \<leftarrow> zinit ''vm_map'' sizeof_vm_map 0 s;
     let s = s\<lparr>vm_map_zone := z\<rparr>;
     let km = kernel_map s;
     let s = upd_map km (\<lambda>_. zero_map) (upd_entry (header km) (\<lambda>_. zero_entry) s);
     let s = upd_map km (\<lambda>m. m\<lparr>min_offset := KERN_MAP_MIN, max_offset := KERN_MAP_MAX, map_ref_count := 1,
               vm_pmap := pmap_kernel s\<rparr>) s;
     let s = map_list_init km s;
     s \<leftarrow> kprintf (''VM: kernel map [0x%llx, 0x%llx]'' @ nl)
       [VInt (min_offset (vm_maps s km)), VInt (max_offset (vm_maps s km))] s;
     Some (KERN_SUCCESS, s)
   }"

definition vm_map_create ::
  "addr \<Rightarrow> u64 \<Rightarrow> u64 \<Rightarrow> 'a vm_state_scheme \<Rightarrow> (addr \<times> 'a vm_state_scheme) option" where
  "vm_map_create pm mn mx s = do {
     (vmap, s) \<leftarrow> zalloc (vm_map_zone s) s;
     if vmap = VM_MAP_NULL then Some (VM_MAP_NULL, s)
     else
       let s = upd_map vmap (\<lambda>_. zero_map\<lparr>min_offset := mn, max_offset := mx, map_ref_count := 1, vm_pmap := pm\<rparr>)
                 (upd_entry (header vmap) (\<lambda>_. zero_entry) s)
       in Some (vmap, map_list_init vmap s)
   }"

text \<open>The loop over the pages of a range: unmap what is mapped and free the page.\<close>

definition unmap_page :: "addr \<Rightarrow> addr \<Rightarrow> 'a vm_state_scheme \<Rightarrow> 'a vm_state_scheme" where
  "unmap_page pm a s =
     (let pa = pmap_query pm a s in
      if pa \<noteq> 0 then (case pmap_unmap pm a s of (_, s) \<Rightarrow> pmm_free_page pa s) else s)"

partial_function (option) unmap_range ::
  "addr \<Rightarrow> addr \<Rightarrow> addr \<Rightarrow> 'a vm_state_scheme \<Rightarrow> 'a vm_state_scheme option" where
  "unmap_range pm a stop s =
     (if a < stop then unmap_range pm (a + PMM_PAGE_SIZE) stop (unmap_page pm a s) else Some s)"

partial_function (option) destroy_entries ::
  "addr \<Rightarrow> addr \<Rightarrow> 'a vm_state_scheme \<Rightarrow> 'a vm_state_scheme option" where
  "destroy_entries vmap e s =
     (if e = header vmap then Some s
      else if e = 0 then None
      else do {
        let nxt = next_of s e;
        s \<leftarrow> unmap_range (vm_pmap (vm_maps s vmap)) (vme_start (vm_entries s e)) (vme_end (vm_entries s e)) s;
        s \<leftarrow> zfree (vm_map_entry_zone s) e s;
        destroy_entries vmap nxt s
      })"

definition vm_map_destroy :: "addr \<Rightarrow> 'a vm_state_scheme \<Rightarrow> 'a vm_state_scheme option" where
  "vm_map_destroy vmap s =
     (if vmap = kernel_map s then Some s
      else
        let s = upd_map vmap (\<lambda>m. m\<lparr>map_ref_count := map_ref_count m - 1\<rparr>) s in
        if map_ref_count (vm_maps s vmap) > 0 then Some s
        else do {
          s \<leftarrow> destroy_entries vmap (next_of s (header vmap)) s;
          let s = pmap_destroy (vm_pmap (vm_maps s vmap)) s;
          zfree (vm_map_zone s) vmap s
        })"

section \<open>Lookup, removal and insertion\<close>

partial_function (option) lookup_loop ::
  "addr \<Rightarrow> addr \<Rightarrow> addr \<Rightarrow> 'a vm_state_scheme \<Rightarrow> addr option" where
  "lookup_loop vmap e addr s =
     (if e = header vmap then Some 0
      else if e = 0 then None
      else if addr \<ge> vme_start (vm_entries s e) \<and> addr < vme_end (vm_entries s e) then Some e
      else lookup_loop vmap (next_of s e) addr s)"

definition vm_map_lookup_entry :: "addr \<Rightarrow> addr \<Rightarrow> 'a vm_state_scheme \<Rightarrow> addr option" where
  "vm_map_lookup_entry vmap addr s = lookup_loop vmap (next_of s (header vmap)) addr s"

partial_function (option) remove_loop ::
  "addr \<Rightarrow> u64 \<Rightarrow> u64 \<Rightarrow> addr \<Rightarrow> 'a vm_state_scheme \<Rightarrow> 'a vm_state_scheme option" where
  "remove_loop vmap start stop e s =
     (if e = header vmap then Some s
      else if e = 0 then None
      else
        let nxt = next_of s e; en = vm_entries s e in
        if vme_start en \<ge> stop \<or> vme_end en \<le> start then remove_loop vmap start stop nxt s
        else do {
          let unmap_start = (if vme_start en > start then vme_start en else start);
          let unmap_end = (if vme_end en < stop then vme_end en else stop);
          s \<leftarrow> unmap_range (vm_pmap (vm_maps s vmap)) unmap_start unmap_end s;
          let s = map_list_remove e s;
          s \<leftarrow> zfree (vm_map_entry_zone s) e s;
          let s = upd_map vmap (\<lambda>m. m\<lparr>nentries := nentries m - 1\<rparr>) s;
          remove_loop vmap start stop nxt s
        })"

definition vm_map_remove ::
  "addr \<Rightarrow> u64 \<Rightarrow> u64 \<Rightarrow> 'a vm_state_scheme \<Rightarrow> (kern_return \<times> 'a vm_state_scheme) option" where
  "vm_map_remove vmap start sz s = do {
     s \<leftarrow> remove_loop vmap start (start + sz) (next_of s (header vmap)) s;
     Some (KERN_SUCCESS, s)
   }"

definition vm_deallocate ::
  "addr \<Rightarrow> u64 \<Rightarrow> u64 \<Rightarrow> 'a vm_state_scheme \<Rightarrow> (kern_return \<times> 'a vm_state_scheme) option" where
  "vm_deallocate vmap start sz s = vm_map_remove vmap start sz s"

text \<open>
  One iteration of the wiring loops: a zeroed page mapped at \<open>a\<close>.  \<open>False\<close> is either failure; the
  page is given back when the mapping fails.
\<close>

definition wire_page :: "addr \<Rightarrow> addr \<Rightarrow> u64 \<Rightarrow> 'a vm_state_scheme \<Rightarrow> bool \<times> 'a vm_state_scheme" where
  "wire_page pm a pte_flags s =
     (case pmm_alloc_page s of (pa, s) \<Rightarrow>
        if pa = PMM_NULL then (False, s)
        else
          let s = s\<lparr>mem := kmemset (PHYS_TO_VIRT s pa) 0 PMM_PAGE_SIZE (mem s)\<rparr> in
          (case pmap_map pm a pa pte_flags s of (r, s) \<Rightarrow>
             if r \<noteq> 0 then (False, pmm_free_page pa s) else (True, s)))"

text \<open>The loop of \<open>vm_map_enter\<close> and that of \<open>vm_map_page_range\<close>; they differ in what they roll back.\<close>

partial_function (option) wire_entry ::
  "addr \<Rightarrow> u64 \<Rightarrow> u64 \<Rightarrow> u64 \<Rightarrow> addr \<Rightarrow> addr \<Rightarrow> 'a vm_state_scheme \<Rightarrow> (kern_return \<times> 'a vm_state_scheme) option" where
  "wire_entry vmap start sz pte_flags a stop s =
     (if a < stop then
        (case wire_page (vm_pmap (vm_maps s vmap)) a pte_flags s of (done, s) \<Rightarrow>
           if \<not> done then do {
             (_, s) \<leftarrow> vm_map_remove vmap start sz s;
             Some (KERN_NO_SPACE, s)
           }
           else wire_entry vmap start sz pte_flags (a + PMM_PAGE_SIZE) stop s)
      else Some (KERN_SUCCESS, s))"

partial_function (option) wire_range ::
  "addr \<Rightarrow> u64 \<Rightarrow> u64 \<Rightarrow> addr \<Rightarrow> addr \<Rightarrow> 'a vm_state_scheme \<Rightarrow> (kern_return \<times> 'a vm_state_scheme) option" where
  "wire_range vmap start pte_flags a stop s =
     (if a < stop then
        (case wire_page (vm_pmap (vm_maps s vmap)) a pte_flags s of (done, s) \<Rightarrow>
           if \<not> done then do {
             (_, s) \<leftarrow> vm_map_remove vmap start (a - start) s;
             Some (KERN_NO_SPACE, s)
           }
           else wire_range vmap start pte_flags (a + PMM_PAGE_SIZE) stop s)
      else Some (KERN_SUCCESS, s))"

text \<open>The scan for an overlapping entry, and the search for the insertion point.\<close>

partial_function (option) overlap_loop ::
  "addr \<Rightarrow> u64 \<Rightarrow> u64 \<Rightarrow> addr \<Rightarrow> 'a vm_state_scheme \<Rightarrow> bool option" where
  "overlap_loop vmap start stop e s =
     (if e = header vmap then Some False
      else if e = 0 then None
      else if start < vme_end (vm_entries s e) \<and> stop > vme_start (vm_entries s e) then Some True
      else overlap_loop vmap start stop (next_of s e) s)"

partial_function (option) find_pos ::
  "addr \<Rightarrow> u64 \<Rightarrow> addr \<Rightarrow> 'a vm_state_scheme \<Rightarrow> addr option" where
  "find_pos vmap start pos s =
     (if pos = 0 then None
      else if next_of s pos \<noteq> header vmap \<and> vme_start (vm_entries s (next_of s pos)) < start
      then find_pos vmap start (next_of s pos) s
      else Some pos)"

text \<open>The checks on the range that open \<open>vm_map_enter\<close> and \<open>vm_map_page_range\<close>.\<close>

definition range_ok :: "addr \<Rightarrow> u64 \<Rightarrow> u64 \<Rightarrow> 'a vm_state_scheme \<Rightarrow> bool" where
  "range_ok vmap start sz s \<longleftrightarrow>
     \<not> (sz = 0 \<or> start < min_offset (vm_maps s vmap)) \<and>
     \<not> (start + sz > max_offset (vm_maps s vmap) \<or> start + sz < start)"

definition vm_map_enter ::
  "addr \<Rightarrow> u64 \<Rightarrow> u64 \<Rightarrow> u32 \<Rightarrow> u32 \<Rightarrow> u32 \<Rightarrow> 'a vm_state_scheme \<Rightarrow>
   (kern_return \<times> 'a vm_state_scheme) option" where
  "vm_map_enter vmap start sz prot max_prot flags s =
     (if \<not> range_ok vmap start sz s then Some (KERN_INVALID_ARGUMENT, s)
      else do {
        let stop = start + sz;
        overlap \<leftarrow> overlap_loop vmap start stop (next_of s (header vmap)) s;
        if overlap then Some (KERN_NO_SPACE, s)
        else do {
          (ne, s) \<leftarrow> zalloc (vm_map_entry_zone s) s;
          if ne = 0 then Some (KERN_NO_SPACE, s)
          else do {
            let s = upd_entry ne (\<lambda>_. zero_entry\<lparr>vme_start := start, vme_end := stop, vme_prot := prot,
                      vme_max_prot := max_prot, vme_flags := flags\<rparr>) s;
            pos \<leftarrow> find_pos vmap start (header vmap) s;
            let s = map_list_insert_after pos ne s;
            let s = upd_map vmap (\<lambda>m. m\<lparr>nentries := nentries m + 1\<rparr>) s;
            if flags AND VME_WIRED \<noteq> 0
            then wire_entry vmap start sz (prot_to_pte prot) start stop s
            else Some (KERN_SUCCESS, s)
          }
        }
      })"

definition vm_map_page_range ::
  "addr \<Rightarrow> u64 \<Rightarrow> u64 \<Rightarrow> u32 \<Rightarrow> 'a vm_state_scheme \<Rightarrow> (kern_return \<times> 'a vm_state_scheme) option" where
  "vm_map_page_range vmap start sz prot s =
     (if \<not> range_ok vmap start sz s then Some (KERN_INVALID_ARGUMENT, s)
      else wire_range vmap start (prot_to_pte prot) start (start + sz) s)"

section \<open>The list of entries\<close>

text \<open>
  \<open>links s xs\<close>: consecutive elements of \<open>xs\<close> are linked both ways.  The entries \<open>es\<close> of a map form the
  ring \<open>header, es, header\<close>.
\<close>

fun links :: "'a vm_state_scheme \<Rightarrow> addr list \<Rightarrow> bool" where
  "links s (x # y # zs) \<longleftrightarrow> next_of s x = y \<and> prev_of s y = x \<and> links s (y # zs)"
| "links s xs \<longleftrightarrow> True"

definition map_list :: "'a vm_state_scheme \<Rightarrow> addr \<Rightarrow> addr list \<Rightarrow> bool" where
  "map_list s vmap es \<longleftrightarrow> links s (header vmap # es @ [header vmap]) \<and>
     distinct (header vmap # es) \<and> 0 \<notin> set (header vmap # es)"

lemma links_append: "links s (xs @ x # ys) \<longleftrightarrow> links s (xs @ [x]) \<and> links s (x # ys)"
proof (induction xs)
  case (Cons a xs)
  then show ?case by (cases xs) auto
qed simp

lemma links_cong:
  "links s xs \<Longrightarrow> (\<And>x. x \<in> set (butlast xs) \<Longrightarrow> next_of t x = next_of s x) \<Longrightarrow>
   (\<And>x. x \<in> set (tl xs) \<Longrightarrow> prev_of t x = prev_of s x) \<Longrightarrow> links t xs"
proof (induction s xs rule: links.induct)
  case (1 s x y zs)
  have "links t (y # zs)"
  proof (rule "1.IH")
    show "links s (y # zs)" using "1.prems"(1) by simp
    show "next_of t v = next_of s v" if "v \<in> set (butlast (y # zs))" for v
      using that "1.prems"(2) [of v] by (auto split: if_splits)
    show "prev_of t v = prev_of s v" if "v \<in> set (tl (y # zs))" for v
      using that "1.prems"(3) [of v] by auto
  qed
  with 1 show ?case by simp
qed auto

lemma insert_after_heap:
  assumes "ne \<noteq> pos" "ne \<noteq> next_of s pos"
  shows "next_of (map_list_insert_after pos ne s) x =
      (if x = pos then ne else if x = ne then next_of s pos else next_of s x)"
    "prev_of (map_list_insert_after pos ne s) x =
      (if x = next_of s pos then ne else if x = ne then pos else prev_of s x)"
  using assms by (auto simp: map_list_insert_after_def upd_entry_def Let_def)

lemma remove_heap:
  assumes "prev_of s e \<noteq> e"
  shows "next_of (map_list_remove e s) x = (if x = prev_of s e then next_of s e else next_of s x)"
    "prev_of (map_list_remove e s) x = (if x = next_of s e then prev_of s e else prev_of s x)"
  using assms by (auto simp: map_list_remove_def upd_entry_def Let_def)

text \<open>Inserting behind a position.\<close>

lemma map_list_insert:
  assumes ml: "map_list s vmap (as @ bs)" and ne: "ne \<notin> set (header vmap # as @ bs)" "ne \<noteq> 0"
    and pos: "pos = last (header vmap # as)"
  shows "map_list (map_list_insert_after pos ne s) vmap (as @ ne # bs)"
proof -
  let ?h = "header vmap" and ?t = "map_list_insert_after pos ne s"
  obtain xs where xs: "?h # as = xs @ [pos]" using pos by (metis append_butlast_last_id list.distinct(1))
  obtain y ys where ys: "bs @ [?h] = y # ys" by (cases "bs @ [?h]") auto
  have d: "distinct (?h # as @ bs)" "0 \<notin> set (?h # as @ bs)" using ml by (simp_all add: map_list_def)
  have "?h # (as @ bs) @ [?h] = (?h # as) @ bs @ [?h]" by simp
  also have "\<dots> = xs @ pos # y # ys" unfolding xs ys by simp
  finally have l: "links s (xs @ pos # y # ys)" using ml unfolding map_list_def by simp
  have dxs: "distinct (xs @ [pos])" "distinct (y # ys)" using d(1) unfolding xs [symmetric] ys [symmetric] by auto
  have sets: "set (xs @ [pos]) = insert ?h (set as)" "set (y # ys) = insert ?h (set bs)"
    unfolding xs [symmetric] ys [symmetric] by auto
  have bl: "butlast (y # ys) = bs" "tl (xs @ [pos]) = as" unfolding xs [symmetric] ys [symmetric] by simp_all
  have nx: "next_of s pos = y" and l1: "links s (xs @ [pos])" and l2: "links s (y # ys)"
    using l links_append [of s xs pos "y # ys"] by auto
  have pm: "pos \<in> insert ?h (set as)" "y \<in> insert ?h (set bs)" using sets by auto
  then have nepos: "ne \<noteq> pos" "ne \<noteq> next_of s pos" using ne(1) nx by auto
  note heap = insert_after_heap [OF nepos, unfolded nx]
  have "links ?t (xs @ [pos])"
  proof (rule links_cong [OF l1])
    fix x assume "x \<in> set (butlast (xs @ [pos]))"
    then have "x \<in> set xs" by simp
    then have "x \<noteq> pos" "x \<noteq> ne" using dxs(1) sets(1) ne(1) by auto
    then show "next_of ?t x = next_of s x" by (simp add: heap)
  next
    fix x assume "x \<in> set (tl (xs @ [pos]))"
    then have "x \<noteq> y" "x \<noteq> ne" using d(1) pm(2) ne(1) unfolding bl by auto
    then show "prev_of ?t x = prev_of s x" by (simp add: heap)
  qed
  moreover have "links ?t (y # ys)"
  proof (rule links_cong [OF l2])
    fix x assume "x \<in> set (butlast (y # ys))"
    then have "x \<noteq> pos" "x \<noteq> ne" using d(1) pm(1) ne(1) unfolding bl by auto
    then show "next_of ?t x = next_of s x" by (simp add: heap)
  next
    fix x assume "x \<in> set (tl (y # ys))"
    then have "x \<noteq> y" "x \<noteq> ne" using dxs(2) sets(2) ne(1) by auto
    then show "prev_of ?t x = prev_of s x" by (simp add: heap)
  qed
  ultimately have "links ?t (xs @ pos # ne # y # ys)"
    using nepos nx by (simp add: links_append [of ?t xs pos "ne # y # ys"] heap)
  then have "links ?t ((?h # as) @ ne # bs @ [?h])" unfolding xs ys by simp
  then show ?thesis using d ne by (auto simp: map_list_def)
qed

text \<open>Removing an entry.\<close>

lemma map_list_remove:
  assumes ml: "map_list s vmap (as @ e # bs)"
  shows "map_list (map_list_remove e s) vmap (as @ bs)"
proof -
  let ?h = "header vmap" and ?t = "map_list_remove e s"
  obtain xs p where xs: "?h # as = xs @ [p]" by (metis append_butlast_last_id list.distinct(1))
  obtain y ys where ys: "bs @ [?h] = y # ys" by (cases "bs @ [?h]") auto
  have d: "distinct (?h # as @ e # bs)" "0 \<notin> set (?h # as @ bs)" using ml by (simp_all add: map_list_def)
  have "?h # (as @ e # bs) @ [?h] = (?h # as) @ e # bs @ [?h]" by simp
  also have "\<dots> = xs @ p # e # y # ys" unfolding xs ys by simp
  finally have l: "links s (xs @ p # e # y # ys)" using ml unfolding map_list_def by simp
  have dxs: "distinct (xs @ [p])" "distinct (y # ys)" using d(1) unfolding xs [symmetric] ys [symmetric] by auto
  have sets: "set (xs @ [p]) = insert ?h (set as)" "set (y # ys) = insert ?h (set bs)"
    unfolding xs [symmetric] ys [symmetric] by auto
  have bl: "butlast (y # ys) = bs" "tl (xs @ [p]) = as" unfolding xs [symmetric] ys [symmetric] by simp_all
  have nb: "next_of s e = y" "prev_of s e = p" and l1: "links s (xs @ [p])" and l2: "links s (y # ys)"
    using l links_append [of s xs p "e # y # ys"] by auto
  have pm: "p \<in> insert ?h (set as)" "y \<in> insert ?h (set bs)" using sets by auto
  then have "prev_of s e \<noteq> e" using d(1) nb(2) by auto
  note heap = remove_heap [OF this, unfolded nb]
  have "links ?t (xs @ [p])"
  proof (rule links_cong [OF l1])
    fix x assume "x \<in> set (butlast (xs @ [p]))"
    then have "x \<noteq> p" using dxs(1) by auto
    then show "next_of ?t x = next_of s x" by (simp add: heap)
  next
    fix x assume "x \<in> set (tl (xs @ [p]))"
    then have "x \<noteq> y" using d(1) pm(2) unfolding bl by auto
    then show "prev_of ?t x = prev_of s x" by (simp add: heap)
  qed
  moreover have "links ?t (y # ys)"
  proof (rule links_cong [OF l2])
    fix x assume "x \<in> set (butlast (y # ys))"
    then have "x \<noteq> p" using d(1) pm(1) unfolding bl by auto
    then show "next_of ?t x = next_of s x" by (simp add: heap)
  next
    fix x assume "x \<in> set (tl (y # ys))"
    then have "x \<noteq> y" using dxs(2) by auto
    then show "prev_of ?t x = prev_of s x" by (simp add: heap)
  qed
  ultimately have "links ?t (xs @ p # y # ys)" by (simp add: links_append [of ?t xs p "y # ys"] heap)
  then have "links ?t ((?h # as) @ bs @ [?h])" unfolding xs ys by simp
  then show ?thesis using d by (simp add: map_list_def)
qed

text \<open>The list operations leave the ranges of the entries alone.\<close>

lemma list_ops_fields [simp]:
  "vme_start (vm_entries (map_list_insert_after pos ne s) x) = vme_start (vm_entries s x)"
  "vme_end (vm_entries (map_list_insert_after pos ne s) x) = vme_end (vm_entries s x)"
  "vme_prot (vm_entries (map_list_insert_after pos ne s) x) = vme_prot (vm_entries s x)"
  "vme_start (vm_entries (map_list_remove e s) x) = vme_start (vm_entries s x)"
  "vme_end (vm_entries (map_list_remove e s) x) = vme_end (vm_entries s x)"
  "vme_prot (vm_entries (map_list_remove e s) x) = vme_prot (vm_entries s x)"
  by (simp_all add: map_list_insert_after_def map_list_remove_def upd_entry_def Let_def)

lemma list_ops_frame:
  "map_list_insert_after pos ne s = s\<lparr>vm_entries := vm_entries (map_list_insert_after pos ne s)\<rparr>"
  "map_list_remove e s = s\<lparr>vm_entries := vm_entries (map_list_remove e s)\<rparr>"
  by (simp_all add: map_list_insert_after_def map_list_remove_def upd_entry_def Let_def)

lemma map_list_cong:
  "map_list s vmap es \<Longrightarrow> (\<And>x. x \<in> set (header vmap # es) \<Longrightarrow>
     next_of t x = next_of s x \<and> prev_of t x = prev_of s x) \<Longrightarrow> map_list t vmap es"
  unfolding map_list_def by (auto intro: links_cong)

section \<open>The loops over the list\<close>

abbreviation covers :: "'a vm_state_scheme \<Rightarrow> addr \<Rightarrow> addr \<Rightarrow> bool" where
  "covers s a e \<equiv> vme_start (vm_entries s e) \<le> a \<and> a < vme_end (vm_entries s e)"

abbreviation overlaps :: "'a vm_state_scheme \<Rightarrow> u64 \<Rightarrow> u64 \<Rightarrow> addr \<Rightarrow> bool" where
  "overlaps s a b e \<equiv> a < vme_end (vm_entries s e) \<and> b > vme_start (vm_entries s e)"

lemma lookup_loop_list:
  "links s (p # es @ [header vmap]) \<Longrightarrow> header vmap \<notin> set es \<Longrightarrow> 0 \<notin> set es \<Longrightarrow>
   lookup_loop vmap (next_of s p) a s = Some (case find (covers s a) es of None \<Rightarrow> 0 | Some e \<Rightarrow> e)"
proof (induction es arbitrary: p)
  case (Cons e es)
  then show ?case by (subst lookup_loop.simps) auto
qed (simp add: lookup_loop.simps)

lemma overlap_loop_list:
  "links s (p # es @ [header vmap]) \<Longrightarrow> header vmap \<notin> set es \<Longrightarrow> 0 \<notin> set es \<Longrightarrow>
   overlap_loop vmap a b (next_of s p) s = Some (\<exists>e \<in> set es. overlaps s a b e)"
proof (induction es arbitrary: p)
  case (Cons e es)
  then show ?case by (subst overlap_loop.simps) auto
qed (simp add: overlap_loop.simps)

text \<open>\<open>find_pos\<close> stops behind the entries that start below \<open>a\<close>.\<close>

lemma find_pos_list:
  "links s (p # es @ [header vmap]) \<Longrightarrow> header vmap \<notin> set es \<Longrightarrow> 0 \<notin> set es \<Longrightarrow> p \<noteq> 0 \<Longrightarrow>
   find_pos vmap a p s = Some (last (p # takeWhile (\<lambda>e. vme_start (vm_entries s e) < a) es))"
proof (induction es arbitrary: p)
  case (Cons e es)
  show ?case
  proof (cases "vme_start (vm_entries s e) < a")
    case True
    have "find_pos vmap a p s = find_pos vmap a e s"
      using Cons.prems True by (subst find_pos.simps) auto
    also have "\<dots> = Some (last (e # takeWhile (\<lambda>e. vme_start (vm_entries s e) < a) es))"
      by (rule Cons.IH) (use Cons.prems in auto)
    finally show ?thesis using True by simp
  next
    case False
    then show ?thesis using Cons.prems by (subst find_pos.simps) auto
  qed
qed (simp add: find_pos.simps)

section \<open>Sorted, disjoint ranges\<close>

fun sorted_entries :: "'a vm_state_scheme \<Rightarrow> addr list \<Rightarrow> bool" where
  "sorted_entries s [] \<longleftrightarrow> True"
| "sorted_entries s (e # es) \<longleftrightarrow> vme_start (vm_entries s e) < vme_end (vm_entries s e) \<and>
     (\<forall>f \<in> set es. vme_end (vm_entries s e) \<le> vme_start (vm_entries s f)) \<and> sorted_entries s es"

lemma sorted_entries_append:
  "sorted_entries s (xs @ ys) \<longleftrightarrow> sorted_entries s xs \<and> sorted_entries s ys \<and>
     (\<forall>x \<in> set xs. \<forall>y \<in> set ys. vme_end (vm_entries s x) \<le> vme_start (vm_entries s y))"
  by (induction xs) auto

lemma sorted_entries_cong:
  "(\<And>e. e \<in> set es \<Longrightarrow> vme_start (vm_entries t e) = vme_start (vm_entries s e) \<and>
      vme_end (vm_entries t e) = vme_end (vm_entries s e)) \<Longrightarrow> sorted_entries t es = sorted_entries s es"
  by (induction es) auto

text \<open>At most one entry covers an address, and two entries never overlap.\<close>

lemma sorted_entries_unique:
  assumes "sorted_entries s es" "distinct es" "e \<in> set es" "f \<in> set es" "covers s a e" "covers s a f"
  shows "e = f"
  using assms
proof (induction es)
  case (Cons x es)
  have no: False if "f \<in> set es" "covers s a x" "covers s a f" for f
  proof -
    have "vme_end (vm_entries s x) \<le> vme_start (vm_entries s f)" using Cons.prems(1) that(1) by simp
    then show False using that(2,3) by (meson leD order_trans)
  qed
  show ?case
  proof (cases "e = x \<or> f = x")
    case True
    then show ?thesis using Cons.prems no by auto
  next
    case False
    then show ?thesis using Cons by simp
  qed
qed simp

text \<open>A range that overlaps no entry fits at the position \<open>find_pos\<close> finds.\<close>

lemma sorted_entries_insert:
  assumes "sorted_entries s es" "\<not> (\<exists>e \<in> set es. overlaps s a b e)" "a < b"
    "vme_start (vm_entries s ne) = a" "vme_end (vm_entries s ne) = b"
  defines "as \<equiv> takeWhile (\<lambda>e. vme_start (vm_entries s e) < a) es"
  defines "bs \<equiv> dropWhile (\<lambda>e. vme_start (vm_entries s e) < a) es"
  shows "sorted_entries s (as @ ne # bs)"
proof -
  have s: "sorted_entries s (as @ bs)" using assms(1) by (simp add: as_def bs_def)
  have before: "vme_end (vm_entries s e) \<le> a" if "e \<in> set as" for e
  proof -
    have "e \<in> set es" "vme_start (vm_entries s e) < a"
      using that set_takeWhileD [of e _ es] by (auto simp: as_def)
    then show ?thesis using assms(2,3) by (meson less_trans not_less)
  qed
  have after: "b \<le> vme_start (vm_entries s e)" if "e \<in> set bs" for e
  proof -
    have "a \<le> vme_start (vm_entries s e)"
    proof (cases bs)
      case (Cons x bs')
      then have "a \<le> vme_start (vm_entries s x)"
        using hd_dropWhile [of "\<lambda>e. vme_start (vm_entries s e) < a" es] by (auto simp: bs_def)
      moreover have "vme_start (vm_entries s x) \<le> vme_start (vm_entries s e)"
        using s Cons that by (auto simp: sorted_entries_append intro: less_imp_le order_trans)
      ultimately show ?thesis by simp
    qed (use that in simp)
    moreover have "e \<in> set es" using that set_dropWhileD by (fastforce simp: bs_def)
    moreover from this have "vme_start (vm_entries s e) < vme_end (vm_entries s e)"
      using assms(1) by (induction es) auto
    ultimately show ?thesis using assms(2) by (meson le_less_trans not_less)
  qed
  show ?thesis using s before after assms(3-5) by (auto simp: sorted_entries_append)
qed

section \<open>The memory of an address space\<close>

text \<open>
  What an address space owns: its page tables, the pages mapped in its user half, and the pages of the
  zones.  \<open>space_inv\<close> says that these are separate pages in use and that no page is mapped twice.
\<close>

definition zone_pages :: "(nat \<Rightarrow> addr set) \<Rightarrow> 'a zones_scheme \<Rightarrow> addr set" where
  "zone_pages P s = (\<Union>i \<in> {..<zone_count s}. P i)"

definition frames :: "u64 \<Rightarrow> 'a machine_scheme \<Rightarrow> u64 set" where
  "frames root s = {e AND PTE_ADDR_MASK | va e. PML4_IDX va \<in> user_half \<and> translate s root va = Some e}"

definition owned :: "(nat \<Rightarrow> addr set) \<Rightarrow> u64 \<Rightarrow> 'a zones_scheme \<Rightarrow> u64 set" where
  "owned P root s = tables s user_half root \<union> frames root s \<union> {pa. PHYS_TO_VIRT s pa \<in> zone_pages P s}"

definition space_inv ::
  "(nat \<Rightarrow> addr set) \<Rightarrow> (nat \<Rightarrow> addr list) \<Rightarrow> u64 \<Rightarrow> addr \<Rightarrow> 'a vm_state_scheme \<Rightarrow> bool" where
  "space_inv P F root pm s \<longleftrightarrow> zones_rep P F s \<and> pmap_inv user_half root pm s \<and>
     owned P root s \<subseteq> used_pages s - {0} \<and>
     tables s user_half root \<inter> {pa. PHYS_TO_VIRT s pa \<in> zone_pages P s} = {} \<and>
     frames root s \<inter> (tables s user_half root \<union> {pa. PHYS_TO_VIRT s pa \<in> zone_pages P s}) = {} \<and>
     (\<forall>va vb e f. PML4_IDX va \<in> user_half \<longrightarrow> PML4_IDX vb \<in> user_half \<longrightarrow> translate s root va = Some e \<longrightarrow>
        translate s root vb = Some f \<longrightarrow> e AND PTE_ADDR_MASK = f AND PTE_ADDR_MASK \<longrightarrow> same_slot va vb)"

lemma frames_cong:
  assumes "\<And>va. PML4_IDX va \<in> user_half \<Longrightarrow> translate t root va = translate s root va"
  shows "frames root t = frames root s"
  unfolding frames_def by (rule Collect_cong) (metis assms)

lemma space_invD:
  assumes "space_inv P F root pm s"
  shows "zones_rep P F s" "pmap_inv user_half root pm s" "owned P root s \<subseteq> used_pages s - {0}"
    "pt_tree s user_half root" "pmm_inv s" "root = pml4_phys (pmaps s pm)" "hhdm_ok s"
    "tables s user_half root \<subseteq> owned P root s" "frames root s \<subseteq> owned P root s"
    "\<And>i. i < zone_count s \<Longrightarrow> P i \<subseteq> direct_pages s"
  using assms by (auto simp: space_inv_def pmap_inv_def pt_tree_hhdm owned_def zones_rep_def)

lemma space_inv_same:
  "space_inv P F root pm s \<Longrightarrow> PML4_IDX va \<in> user_half \<Longrightarrow> PML4_IDX vb \<in> user_half \<Longrightarrow>
   translate s root va = Some e \<Longrightarrow> translate s root vb = Some f \<Longrightarrow>
   e AND PTE_ADDR_MASK = f AND PTE_ADDR_MASK \<Longrightarrow> same_slot va vb"
  unfolding space_inv_def by blast

lemma zones_rep_frame:
  assumes rep: "zones_rep P F s" and t: "t = s\<lparr>mem := m, bitmap := b, free_count := c, tlb := tl'\<rparr>"
    and inv: "pmm_inv t" and P: "\<And>i. i < zone_count s \<Longrightarrow> P i \<subseteq> direct_pages t"
    and m: "\<And>x. page_of x \<in> zone_pages P s \<Longrightarrow> m x = mem s x"
  shows "zones_rep P F (t :: 'a vm_state_scheme)"
proof -
  have "zone_ok t j (P j) (F j)" if j: "j < zone_count s" for j
  proof (rule zone_ok_cong)
    show "zone_ok s j (P j) (F j)" using rep j by (simp add: zones_rep_def)
    show "zone_store t j = zone_store s j" by (simp add: t)
    fix x y assume "y \<in> set (F j)" "x - y < elem_size (zone_store s j)"
    then have "page_of x \<in> P j"
      using slot_bytes_in_page(2) [OF zones_rep_elem [OF rep j] zones_rep_pages(1) [OF rep j]]
        zones_rep_free_subset [OF rep j] by blast
    then have "page_of x \<in> zone_pages P s" using j by (auto simp: zone_pages_def)
    then show "mem t x = mem s x" using m by (simp add: t)
  qed
  then show ?thesis
    using rep inv P by (auto simp: zones_rep_def t hhdm_ok_def)
qed

text \<open>A change that keeps what the space owns in use and does not write to its tables or the zones.\<close>

lemma space_inv_cong:
  assumes sp: "space_inv P F root pm s" and t: "t = s\<lparr>mem := m, bitmap := b, free_count := c\<rparr>"
    and inv: "pmm_inv t" and u: "owned P root s \<subseteq> used_pages t"
    and m: "\<And>x. page_of x \<in> PHYS_TO_VIRT s ` tables s user_half root \<union> zone_pages P s \<Longrightarrow> m x = mem s x"
  shows "space_inv P F root pm t" "tables t user_half root = tables s user_half root"
    "\<And>va. PML4_IDX va \<in> user_half \<Longrightarrow> translate t root va = translate s root va"
    "owned P root t = owned P root s"
proof -
  note d = space_invD [OF sp]
  have h: "hhdm_offset t = hhdm_offset s" by (simp add: t)
  have p: "PHYS_TO_VIRT t = PHYS_TO_VIRT s" by (rule ext) (simp add: PHYS_TO_VIRT_def h)
  have mt: "mem t x = mem s x" if "y \<in> tables s user_half root" "page_of x = PHYS_TO_VIRT s y" for x y
    using m [of x] that by (auto simp: t)
  have ut: "tables s user_half root \<subseteq> used_pages t" using d(8) u by blast
  have pt: "pt_tree t user_half root" and tb: "tables t user_half root = tables s user_half root"
    by (rule pt_tree_cong [OF d(4) h _ ut], erule (1) mt)+
  have tr: "translate t root va = translate s root va" if "PML4_IDX va \<in> user_half" for va
    by (rule translate_cong [OF d(4) h _ that], erule (1) mt)
  have fr: "frames root t = frames root s" by (rule frames_cong) (rule tr)
  have zc: "zone_count t = zone_count s" by (simp add: t)
  have zp: "zone_pages P t = zone_pages P s" by (simp add: zone_pages_def zc)
  show ow: "owned P root t = owned P root s" by (simp add: owned_def tb fr zp p)
  show "tables t user_half root = tables s user_half root"
    "\<And>va. PML4_IDX va \<in> user_half \<Longrightarrow> translate t root va = translate s root va" by (rule tb, rule tr)
  have "zones_rep P F t"
  proof (rule zones_rep_frame [OF d(1) _ inv])
    show "t = s\<lparr>mem := m, bitmap := b, free_count := c, tlb := tlb s\<rparr>" by (simp add: t)
    show "m x = mem s x" if "page_of x \<in> zone_pages P s" for x using m that by blast
    fix i assume i: "i < zone_count s"
    show "P i \<subseteq> direct_pages t"
    proof
      fix pg assume pg: "pg \<in> P i"
      then obtain pa where pa: "pg = PHYS_TO_VIRT s pa" "pa \<noteq> 0" "pa \<in> used_pages s"
        using d(10) [OF i] by (auto simp: direct_pages_def)
      then have "pa \<in> owned P root s" using i pg by (auto simp: owned_def zone_pages_def)
      then have "pa \<in> used_pages t" using u by blast
      then show "pg \<in> direct_pages t" using pa by (auto simp: direct_pages_def p)
    qed
  qed
  moreover have "pmap_inv user_half root pm t" using pt inv d(6) by (simp add: pmap_inv_def t)
  moreover have "owned P root t \<subseteq> used_pages t - {0}" using d(3) u by (auto simp: ow)
  ultimately show "space_inv P F root pm t"
    using sp tr unfolding space_inv_def tb fr zp p by simp
qed

lemma space_inv_alloc:
  assumes sp: "space_inv P F root pm s" and al: "pmm_alloc_page s = (pa, t)" "pa \<noteq> 0"
  shows "space_inv P F root pm t" "tables t user_half root = tables s user_half root"
    "\<And>va. PML4_IDX va \<in> user_half \<Longrightarrow> translate t root va = translate s root va"
    "owned P root t = owned P root s" "pa \<notin> owned P root s" "pa \<notin> used_pages s"
    "used_pages t = insert pa (used_pages s)" "is_page pa"
proof -
  note d = space_invD [OF sp]
  note f = pmm_alloc_page_fresh [OF d(5) al]
  obtain b c where "t = s\<lparr>bitmap := b, free_count := c\<rparr>" by (rule pmm_alloc_page_frame [OF al(1)])
  then have t: "t = s\<lparr>mem := mem s, bitmap := b, free_count := c\<rparr>" by simp
  have u: "owned P root s \<subseteq> used_pages t" using d(3) f by auto
  note co = space_inv_cong [OF sp t _ u]
  show "space_inv P F root pm t" "tables t user_half root = tables s user_half root"
    "\<And>va. PML4_IDX va \<in> user_half \<Longrightarrow> translate t root va = translate s root va"
    "owned P root t = owned P root s" using co f by simp_all
  show "pa \<notin> owned P root s" "pa \<notin> used_pages s" "used_pages t = insert pa (used_pages s)" using d(3) f by auto
  then show "is_page pa" by (intro used_is_page [of pa t]) simp
qed

lemma space_inv_free:
  assumes sp: "space_inv P F root pm s" and pa: "pa \<in> used_pages s" "pa \<noteq> 0" "pa \<notin> owned P root s"
  shows "space_inv P F root pm (pmm_free_page pa s)"
    "\<And>va. PML4_IDX va \<in> user_half \<Longrightarrow> translate (pmm_free_page pa s) root va = translate s root va"
    "owned P root (pmm_free_page pa s) = owned P root s"
    "used_pages (pmm_free_page pa s) = used_pages s - {pa}"
    "tables (pmm_free_page pa s) user_half root = tables s user_half root"
proof -
  note d = space_invD [OF sp]
  note f = pmm_free_page_used [OF d(5) pa(1,2)]
  obtain b c where "pmm_free_page pa s = s\<lparr>bitmap := b, free_count := c\<rparr>" by (rule pmm_free_page_frame)
  then have t: "pmm_free_page pa s = s\<lparr>mem := mem s, bitmap := b, free_count := c\<rparr>" by simp
  have u: "owned P root s \<subseteq> used_pages (pmm_free_page pa s)" using d(3) f pa(3) by auto
  note co = space_inv_cong [OF sp t _ u]
  show "space_inv P F root pm (pmm_free_page pa s)"
    "\<And>va. PML4_IDX va \<in> user_half \<Longrightarrow> translate (pmm_free_page pa s) root va = translate s root va"
    "owned P root (pmm_free_page pa s) = owned P root s"
    "tables (pmm_free_page pa s) user_half root = tables s user_half root" using co f by simp_all
  show "used_pages (pmm_free_page pa s) = used_pages s - {pa}" using f by simp
qed

lemma space_inv_zero:
  assumes sp: "space_inv P F root pm s" and pa: "pa \<in> used_pages s" "pa \<notin> owned P root s"
  defines "t \<equiv> s\<lparr>mem := kmemset (PHYS_TO_VIRT s pa) 0 4096 (mem s)\<rparr>"
  shows "space_inv P F root pm t" "tables t user_half root = tables s user_half root"
    "\<And>va. PML4_IDX va \<in> user_half \<Longrightarrow> translate t root va = translate s root va"
    "owned P root t = owned P root s" "used_pages t = used_pages s"
    "\<And>x. mem t x = (if page_of x = PHYS_TO_VIRT s pa then 0 else mem s x)"
proof -
  note d = space_invD [OF sp]
  have pg: "is_page pa" by (rule used_is_page [OF pa(1)])
  have al: "aligned 4096 (PHYS_TO_VIRT s pa)"
    using d(7) pg by (simp add: PHYS_TO_VIRT_def hhdm_ok_def is_page_def aligned_add)
  show mt: "mem t x = (if page_of x = PHYS_TO_VIRT s pa then 0 else mem s x)" for x
    by (simp add: t_def kmemset_apply page_of_iff [OF al])
  have t: "t = s\<lparr>mem := mem t, bitmap := bitmap s, free_count := free_count s\<rparr>" by (simp add: t_def)
  show ut: "used_pages t = used_pages s" by (simp add: t_def used_pages_def)
  have inv: "pmm_inv t" using d(5) by (simp add: t_def pmm_inv_def count_ok_def free_set_def)
  have u: "owned P root s \<subseteq> used_pages t" using d(3) by (auto simp: ut)
  have m: "mem t x = mem s x" if "page_of x \<in> PHYS_TO_VIRT s ` tables s user_half root \<union> zone_pages P s" for x
    using that pa(2) by (auto simp: mt owned_def)
  show "space_inv P F root pm t" "tables t user_half root = tables s user_half root"
    "\<And>va. PML4_IDX va \<in> user_half \<Longrightarrow> translate t root va = translate s root va"
    "owned P root t = owned P root s" using space_inv_cong [OF sp t inv u m] by simp_all
qed

section \<open>Mapping and unmapping a page of the space\<close>

text \<open>The effect of an operation on the tables, seen from the whole space.\<close>

lemma pt_frame_space:
  assumes sp: "space_inv P F root pm s" and fr: "pt_frame user_half root s t"
  shows "zones_rep P F t" "pmap_inv user_half root pm t" "zone_pages P t = zone_pages P s"
    "PHYS_TO_VIRT t = PHYS_TO_VIRT s" "used_pages s \<subseteq> used_pages t"
    "tables t user_half root \<inter> {pa. PHYS_TO_VIRT s pa \<in> zone_pages P s} = {}"
    "tables t user_half root \<subseteq> tables s user_half root \<union> (used_pages t - used_pages s)"
    "\<And>x. page_of x \<notin> PHYS_TO_VIRT s ` tables t user_half root \<Longrightarrow> mem t x = mem s x"
proof -
  note d = space_invD [OF sp]
  obtain m b c tl where t: "t = s\<lparr>mem := m, bitmap := b, free_count := c, tlb := tl\<rparr>"
    using fr by (auto simp: pt_frame_def)
  have f: "pmm_inv t" "used_pages t - used_pages s = tables t user_half root - tables s user_half root"
    "used_pages s \<subseteq> used_pages t" "\<And>x. page_of x \<notin> PHYS_TO_VIRT s ` tables t user_half root \<Longrightarrow> mem t x = mem s x"
    using fr unfolding pt_frame_def by blast+
  show p: "PHYS_TO_VIRT t = PHYS_TO_VIRT s" by (rule ext) (simp add: PHYS_TO_VIRT_def t)
  show "pmap_inv user_half root pm t" by (rule pmap_inv_frame [OF fr d(2)])
  show "zone_pages P t = zone_pages P s" by (simp add: zone_pages_def t)
  show "used_pages s \<subseteq> used_pages t" by (rule f(3))
  show tn: "tables t user_half root \<subseteq> tables s user_half root \<union> (used_pages t - used_pages s)" using f(2) by blast
  have zu: "pa \<in> used_pages s" if "PHYS_TO_VIRT s pa \<in> zone_pages P s" for pa
    using that d(3) by (auto simp: owned_def)
  show dis: "tables t user_half root \<inter> {pa. PHYS_TO_VIRT s pa \<in> zone_pages P s} = {}"
    using tn zu sp unfolding space_inv_def by blast
  show fm: "mem t x = mem s x" if "page_of x \<notin> PHYS_TO_VIRT s ` tables t user_half root" for x by (rule f(4) [OF that])
  show "zones_rep P F t"
  proof (rule zones_rep_frame [OF d(1) t f(1)])
    show "P i \<subseteq> direct_pages t" if "i < zone_count s" for i
      using d(10) [OF that] f(3) by (auto simp: direct_pages_def p)
    show "m x = mem s x" if "page_of x \<in> zone_pages P s" for x
    proof -
      have "page_of x \<notin> PHYS_TO_VIRT s ` tables t user_half root" using dis that by auto
      from fm [OF this] show ?thesis by (simp add: t)
    qed
  qed
qed

lemma space_inv_map:
  assumes sp: "space_inv P F root pm s" and va: "PML4_IDX va \<in> user_half"
    and pa: "pa \<in> used_pages s" "pa \<noteq> 0" "pa \<notin> owned P root s"
  obtains (oom) t where "pmap_map pm va pa flags s = (-1, t)" "free_set t = {}" "space_inv P F root pm t"
      "pt_frame user_half root s t" "pa \<notin> owned P root t"
      "\<And>vb. PML4_IDX vb \<in> user_half \<Longrightarrow> translate t root vb = translate s root vb"
  | (ok) t where "pmap_map pm va pa flags s = (0, t)" "space_inv P F root pm t" "pt_frame user_half root s t"
      "\<And>vb. PML4_IDX vb \<in> user_half \<Longrightarrow> translate t root vb =
         (if same_slot va vb then Some (make_pte pa flags) else translate s root vb)"
      "pa \<notin> tables t user_half root"
proof -
  note d = space_invD [OF sp]
  have pt: "pa \<notin> tables s user_half root" "pa \<notin> frames root s" "PHYS_TO_VIRT s pa \<notin> zone_pages P s"
    using pa(3) by (auto simp: owned_def)
  have mk: "make_pte pa flags AND PTE_ADDR_MASK = pa"
    using is_page_mask [OF used_is_page [OF pa(1)]] by (simp add: make_pte_addr)
  show thesis
  proof (cases rule: pmap_map_spec [OF d(4,5) va d(6), of pa flags])
    case (1 t)
    note f = pt_frame_space [OF sp 1(2)]
    have fr: "frames root t = frames root s" by (rule frames_cong) (rule 1(4))
    have ft: "frames root t \<inter> tables t user_half root = {}"
      using f(7) sp d(3,9) unfolding fr space_inv_def by blast
    have "pt_tree t user_half root" using 1(2) by (simp add: pt_frame_def)
    then have tu: "tables t user_half root \<subseteq> used_pages t - {0}" by (simp add: pt_tree_def)
    have "owned P root t \<subseteq> used_pages t - {0}"
      using tu d(3) f(5) unfolding owned_def fr f(3,4) by blast
    moreover have "frames root t \<inter> {pa. PHYS_TO_VIRT s pa \<in> zone_pages P s} = {}"
      using sp unfolding fr space_inv_def by blast
    ultimately have "space_inv P F root pm t"
      using f(1,2,6) ft sp 1(4) unfolding space_inv_def f(3,4) by (auto simp: Int_Un_distrib)
    moreover have "pa \<notin> owned P root t" using pt pa(1) f(7) unfolding owned_def fr f(3,4) by blast
    ultimately show thesis using oom 1 by blast
  next
    case (2 t)
    note f = pt_frame_space [OF sp 2(2)]
    have fr: "frames root t \<subseteq> insert pa (frames root s)"
    proof
      fix x assume "x \<in> frames root t"
      then obtain vb e where x: "x = e AND PTE_ADDR_MASK" "PML4_IDX vb \<in> user_half" "translate t root vb = Some e"
        by (auto simp: frames_def)
      show "x \<in> insert pa (frames root s)"
      proof (cases "same_slot va vb")
        case True
        then show ?thesis using 2(3) [OF x(2)] x mk by auto
      next
        case False
        then have "translate s root vb = Some e" using 2(3) [OF x(2)] x(3) by simp
        then show ?thesis using x(1,2) unfolding frames_def by blast
      qed
    qed
    have nt: "pa \<notin> tables t user_half root" using pt(1) pa(1) f(7) by blast
    have ft: "frames root t \<inter> tables t user_half root = {}"
      using f(7) sp d(3,9) fr nt unfolding space_inv_def by blast
    have "pt_tree t user_half root" using 2(2) by (simp add: pt_frame_def)
    then have tu: "tables t user_half root \<subseteq> used_pages t - {0}" by (simp add: pt_tree_def)
    have "frames root t \<subseteq> used_pages t - {0}" using fr pa(1,2) d(3,9) f(5) by blast
    moreover have "{pa. PHYS_TO_VIRT s pa \<in> zone_pages P s} \<subseteq> used_pages t - {0}"
      using d(3) f(5) unfolding owned_def by blast
    ultimately have ow: "owned P root t \<subseteq> used_pages t - {0}" using tu unfolding owned_def f(3,4) by blast
    have fz: "frames root t \<inter> {pa. PHYS_TO_VIRT s pa \<in> zone_pages P s} = {}"
      using sp fr pt(3) unfolding space_inv_def by blast
    have inj: "same_slot vb vc" if v: "PML4_IDX vb \<in> user_half" "PML4_IDX vc \<in> user_half"
      "translate t root vb = Some e" "translate t root vc = Some g" "e AND PTE_ADDR_MASK = g AND PTE_ADDR_MASK"
      for vb vc e g
    proof -
      have np: "x AND PTE_ADDR_MASK \<noteq> pa" if "PML4_IDX y \<in> user_half" "translate s root y = Some x" for x y
        using pt(2) that by (auto simp: frames_def)
      have new: "e = make_pte pa flags" if "same_slot va vb" using 2(3) [OF v(1)] v(3) that by simp
      have new': "g = make_pte pa flags" if "same_slot va vc" using 2(3) [OF v(2)] v(4) that by simp
      have old: "translate s root vb = Some e" if "\<not> same_slot va vb" using 2(3) [OF v(1)] v(3) that by simp
      have old': "translate s root vc = Some g" if "\<not> same_slot va vc" using 2(3) [OF v(2)] v(4) that by simp
      consider "same_slot va vb" "same_slot va vc" | "same_slot va vb" "\<not> same_slot va vc"
        | "\<not> same_slot va vb" "same_slot va vc" | "\<not> same_slot va vb" "\<not> same_slot va vc" by blast
      then show ?thesis
      proof cases
        case 1
        then show ?thesis by (simp add: same_slot_def)
      next
        case 2
        then show ?thesis using new old' np [OF v(2)] v(5) mk by simp
      next
        case 3
        then show ?thesis using new' old np [OF v(1)] v(5) mk by simp
      next
        case 4
        then show ?thesis using space_inv_same [OF sp v(1,2) old old' v(5)] by simp
      qed
    qed
    have "space_inv P F root pm t"
      unfolding space_inv_def f(3,4) using f(1,2,6) ow ft fz inj by (auto simp: Int_Un_distrib)
    then show thesis using ok 2 nt by blast
  qed
qed


lemma space_inv_unmap:
  assumes sp: "space_inv P F root pm s" and va: "PML4_IDX va \<in> user_half"
    and e: "translate s root va = Some e"
  obtains t where "pmap_unmap pm va s = (0, t)" "space_inv P F root pm t" "pt_frame user_half root s t"
    "\<And>vb. PML4_IDX vb \<in> user_half \<Longrightarrow> translate t root vb = (if same_slot va vb then None else translate s root vb)"
    "used_pages t = used_pages s" "tables t user_half root = tables s user_half root"
    "e AND PTE_ADDR_MASK \<notin> owned P root t"
proof -
  note d = space_invD [OF sp]
  show thesis
  proof (cases rule: pmap_unmap_spec [OF d(4,5) va d(6)])
    case 1
    then show thesis using e by simp
  next
    case (2 t)
    note f = pt_frame_space [OF sp 2(3)]
    have sub: "\<exists>g. x = g AND PTE_ADDR_MASK \<and> translate s root vb = Some g \<and> \<not> same_slot va vb"
      if "translate t root vb = Some h" "x = h AND PTE_ADDR_MASK" "PML4_IDX vb \<in> user_half" for x vb h
      using 2(4) [OF that(3)] that by (auto split: if_splits)
    have fr: "frames root t \<subseteq> frames root s"
    proof
      fix x assume "x \<in> frames root t"
      then obtain vb h where "x = h AND PTE_ADDR_MASK" "PML4_IDX vb \<in> user_half" "translate t root vb = Some h"
        by (auto simp: frames_def)
      with sub [of vb h x] show "x \<in> frames root s" unfolding frames_def by blast
    qed
    have gone: "e AND PTE_ADDR_MASK \<notin> frames root t"
    proof
      assume "e AND PTE_ADDR_MASK \<in> frames root t"
      then obtain vb h where v: "e AND PTE_ADDR_MASK = h AND PTE_ADDR_MASK" "PML4_IDX vb \<in> user_half"
        "translate t root vb = Some h" by (auto simp: frames_def)
      from sub [OF v(3,1,2)] v(2) e va sp show False unfolding space_inv_def by blast
    qed
    have "e AND PTE_ADDR_MASK \<in> frames root s" using e va unfolding frames_def by blast
    then have "e AND PTE_ADDR_MASK \<notin> owned P root t"
      using gone sp unfolding owned_def f(3,4) 2(7) space_inv_def by blast
    moreover have "owned P root t \<subseteq> used_pages t - {0}"
      using d(3) fr unfolding owned_def f(3,4) 2(6,7) by blast
    moreover have "same_slot vb vc" if v: "PML4_IDX vb \<in> user_half" "PML4_IDX vc \<in> user_half"
      "translate t root vb = Some h" "translate t root vc = Some g" "h AND PTE_ADDR_MASK = g AND PTE_ADDR_MASK"
      for vb vc h g
    proof -
      have "translate s root vb = Some h" "translate s root vc = Some g"
        using 2(4) [OF v(1)] 2(4) [OF v(2)] v(3,4) by (auto split: if_splits)
      then show ?thesis by (rule space_inv_same [OF sp v(1,2) _ _ v(5)])
    qed
    moreover have "frames root t \<inter> (tables t user_half root \<union> {pa. PHYS_TO_VIRT s pa \<in> zone_pages P s}) = {}"
      using fr sp unfolding 2(7) space_inv_def by blast
    ultimately have "space_inv P F root pm t"
      unfolding space_inv_def f(3,4) using f(1,2,6) by blast
    then show thesis using that 2 \<open>e AND PTE_ADDR_MASK \<notin> owned P root t\<close> by blast
  qed
qed

section \<open>The page loops\<close>

text \<open>The page operations change only these parts of the state.\<close>

definition vm_frame :: "'a vm_state_scheme \<Rightarrow> 'a vm_state_scheme \<Rightarrow> bool" where
  "vm_frame s t \<longleftrightarrow> (\<exists>m b c tl. t = s\<lparr>mem := m, bitmap := b, free_count := c, tlb := tl\<rparr>)"

lemma vm_frame_refl: "vm_frame s s"
proof -
  have "s = s\<lparr>mem := mem s, bitmap := bitmap s, free_count := free_count s, tlb := tlb s\<rparr>" by simp
  then show ?thesis unfolding vm_frame_def by blast
qed

lemma vm_frame_trans: "vm_frame s t \<Longrightarrow> vm_frame t u \<Longrightarrow> vm_frame s u"
  unfolding vm_frame_def by (elim exE) (simp, blast)

lemma vm_frame_fields:
  assumes "vm_frame s t"
  shows "vm_maps t = vm_maps s" "vm_entries t = vm_entries s" "zone_store t = zone_store s"
    "zone_count t = zone_count s" "vm_map_zone t = vm_map_zone s" "vm_map_entry_zone t = vm_map_entry_zone s"
    "kernel_map t = kernel_map s" "pmaps t = pmaps s" "hhdm_offset t = hhdm_offset s"
  using assms by (auto simp: vm_frame_def)

lemma vm_frame_PHYS: "vm_frame s t \<Longrightarrow> PHYS_TO_VIRT t = PHYS_TO_VIRT s"
  by (rule ext) (simp add: PHYS_TO_VIRT_def vm_frame_fields)

lemma vm_frame_pt: "pt_frame I root s t \<Longrightarrow> vm_frame s t"
  by (auto simp: pt_frame_def vm_frame_def)

lemma vm_frame_free: "vm_frame s (pmm_free_page pa s)"
proof -
  obtain b c where "pmm_free_page pa s = s\<lparr>bitmap := b, free_count := c\<rparr>" by (rule pmm_free_page_frame)
  then have "pmm_free_page pa s = s\<lparr>mem := mem s, bitmap := b, free_count := c, tlb := tlb s\<rparr>" by simp
  then show ?thesis unfolding vm_frame_def by blast
qed

lemma vm_frame_alloc: "pmm_alloc_page s = (pa, t) \<Longrightarrow> vm_frame s t"
proof -
  assume "pmm_alloc_page s = (pa, t)"
  then obtain b c where "t = s\<lparr>bitmap := b, free_count := c\<rparr>" by (rule pmm_alloc_page_frame)
  then have "t = s\<lparr>mem := mem s, bitmap := b, free_count := c, tlb := tlb s\<rparr>" by simp
  then show ?thesis unfolding vm_frame_def by blast
qed

lemma vm_frame_mem: "vm_frame s (s\<lparr>mem := m\<rparr>)"
proof -
  have "s\<lparr>mem := m\<rparr> = s\<lparr>mem := m, bitmap := bitmap s, free_count := free_count s, tlb := tlb s\<rparr>" by simp
  then show ?thesis unfolding vm_frame_def by blast
qed

text \<open>
  A fresh zeroed page mapped at \<open>a\<close>; on failure the space is as it was, up to empty tables.
\<close>

lemma wire_page_spec:
  assumes sp: "space_inv P F root pm s" and va: "PML4_IDX a \<in> user_half"
  obtains (fail) t where "wire_page pm a fl s = (False, t)" "space_inv P F root pm t" "vm_frame s t"
      "\<And>vb. PML4_IDX vb \<in> user_half \<Longrightarrow> translate t root vb = translate s root vb"
      "used_pages s \<subseteq> used_pages t" "card (free_set t) \<le> 1"
  | (ok) pa t where "wire_page pm a fl s = (True, t)" "space_inv P F root pm t" "vm_frame s t"
      "pa \<noteq> 0" "pa \<notin> used_pages s" "is_page pa" "used_pages s \<subseteq> used_pages t"
      "\<And>vb. PML4_IDX vb \<in> user_half \<Longrightarrow> translate t root vb =
         (if same_slot a vb then Some (make_pte pa fl) else translate s root vb)"
      "\<And>x. page_of x = PHYS_TO_VIRT s pa \<Longrightarrow> mem t x = 0"
      "\<And>x. page_of x \<in> direct_pages s \<Longrightarrow> page_of x \<notin> PHYS_TO_VIRT s ` tables s user_half root \<Longrightarrow> mem t x = mem s x"
      "tables t user_half root \<inter> used_pages s \<subseteq> tables s user_half root"
proof -
  obtain pa w where al: "pmm_alloc_page s = (pa, w)" by (cases "pmm_alloc_page s")
  note inv = space_invD(5) [OF sp]
  show thesis
  proof (cases "pa = 0")
    case True
    then have "w = s" "free_set s = {}" using pmm_alloc_page_full [OF inv, of w] al by simp_all
    then show thesis using al True sp by (intro fail [of s]) (simp_all add: wire_page_def vm_frame_refl)
  next
    case False
    note a = space_inv_alloc [OF sp al False]
    have uw: "pa \<in> used_pages w" "pa \<notin> owned P root w" using a(4,5,7) by auto
    define z where "z = w\<lparr>mem := kmemset (PHYS_TO_VIRT w pa) 0 4096 (mem w)\<rparr>"
    note zz = space_inv_zero [OF a(1) uw, folded z_def]
    have uz: "pa \<in> used_pages z" "pa \<notin> owned P root z" using uw zz(4,5) by simp_all
    have vz: "vm_frame s z" unfolding z_def by (rule vm_frame_trans [OF vm_frame_alloc [OF al] vm_frame_mem])
    have pz: "PHYS_TO_VIRT z = PHYS_TO_VIRT s" "PHYS_TO_VIRT w = PHYS_TO_VIRT s"
      using vm_frame_PHYS [OF vz] vm_frame_PHYS [OF vm_frame_alloc [OF al]] by simp_all
    obtain b c where w: "w = s\<lparr>bitmap := b, free_count := c\<rparr>" by (rule pmm_alloc_page_frame [OF al])
    have memw: "mem w = mem s" by (simp add: w)
    have run: "wire_page pm a fl s = (case pmap_map pm a pa fl z of (r, u) \<Rightarrow>
        if r \<noteq> 0 then (False, pmm_free_page pa u) else (True, u))"
      using al False by (simp add: wire_page_def z_def)
    have trz: "translate z root vb = translate s root vb" if "PML4_IDX vb \<in> user_half" for vb
      using zz(3) [OF that] a(3) [OF that] by simp
    have tz: "tables z user_half root = tables s user_half root" using zz(2) a(2) by simp
    show thesis
    proof (cases rule: space_inv_map [OF zz(1) va uz(1) False uz(2), of fl])
      case (1 u)
      have pu: "pa \<in> used_pages u" "used_pages z \<subseteq> used_pages u"
        using pt_frame_space(5) [OF zz(1) 1(4)] uz(1) by auto
      note fr = space_inv_free [OF 1(3) pu(1) False 1(5)]
      show thesis
      proof (rule fail [of "pmm_free_page pa u"])
        show "wire_page pm a fl s = (False, pmm_free_page pa u)" using run 1(1) by simp
        show "space_inv P F root pm (pmm_free_page pa u)" by (rule fr(1))
        show "vm_frame s (pmm_free_page pa u)"
          by (rule vm_frame_trans [OF vm_frame_trans [OF vz vm_frame_pt [OF 1(4)]] vm_frame_free])
        show "translate (pmm_free_page pa u) root vb = translate s root vb" if "PML4_IDX vb \<in> user_half" for vb
          using fr(2) [OF that] 1(6) [OF that] trz [OF that] by simp
        show "used_pages s \<subseteq> used_pages (pmm_free_page pa u)" using fr(4) pu(2) zz(5) a(6,7) by auto
        have "free_set (pmm_free_page pa u) \<subseteq> {drop_bit 12 pa}"
          using 1(2) by (auto simp: pmm_free_page_def free_set_def Let_def split: if_splits)
        then show "card (free_set (pmm_free_page pa u)) \<le> 1" using card_mono [of "{drop_bit 12 pa}"] by simp
      qed
    next
      case (2 u)
      note ps = pt_frame_space [OF zz(1) 2(3)]
      show thesis
      proof (rule ok [of u pa])
        show "wire_page pm a fl s = (True, u)" using run 2(1) by simp
        show "vm_frame s u" by (rule vm_frame_trans [OF vz vm_frame_pt [OF 2(3)]])
        show "used_pages s \<subseteq> used_pages u" using ps(5) zz(5) a(7) by auto
        show "translate u root vb = (if same_slot a vb then Some (make_pte pa fl) else translate s root vb)"
          if "PML4_IDX vb \<in> user_half" for vb using 2(4) [OF that] trz [OF that] by simp
        show "mem u x = 0" if "page_of x = PHYS_TO_VIRT s pa" for x
        proof -
          have "page_of x \<notin> PHYS_TO_VIRT z ` tables u user_half root" using 2(5) that by (auto simp: pz)
          from ps(8) [OF this] zz(6) [of x] that show ?thesis by (simp add: pz)
        qed
        show "mem u x = mem s x"
          if "page_of x \<in> direct_pages s" "page_of x \<notin> PHYS_TO_VIRT s ` tables s user_half root" for x
        proof -
          have nw: "page_of x \<noteq> PHYS_TO_VIRT s pa" using that(1) a(6) by (auto simp: direct_pages_def)
          have "page_of x \<notin> PHYS_TO_VIRT z ` tables u user_half root"
          proof
            assume "page_of x \<in> PHYS_TO_VIRT z ` tables u user_half root"
            then obtain y where y: "page_of x = PHYS_TO_VIRT s y" "y \<in> tables u user_half root" by (auto simp: pz)
            then have "y \<in> used_pages s" using that(1) by (auto simp: direct_pages_def)
            moreover have "y \<notin> tables s user_half root" using that(2) y(1) by auto
            ultimately show False using ps(7) y(2) tz zz(5) a(7) by auto
          qed
          from ps(8) [OF this] zz(6) [of x] nw show ?thesis by (simp add: pz memw)
        qed
        show "tables u user_half root \<inter> used_pages s \<subseteq> tables s user_half root"
          using ps(7) tz zz(5) a(7) by auto
      qed (use 2(2) False a(6,8) in simp_all)
    qed
  qed
qed

text \<open>Unmapping gives the page back.\<close>

definition freed_frames :: "u64 \<Rightarrow> addr set \<Rightarrow> 'a machine_scheme \<Rightarrow> u64 set" where
  "freed_frames root X s = {e AND PTE_ADDR_MASK | x e. x \<in> X \<and> translate s root x = Some e}"

lemma frame_offset:
  "drop_bit 12 ((e AND PTE_ADDR_MASK) OR (va AND 4095)) = drop_bit 12 (e AND PTE_ADDR_MASK)"
proof -
  have "va AND 4095 = take_bit 12 va" by (simp add: take_bit_eq_mask mask_eq_exp_minus_1)
  then show ?thesis by (intro bit_word_eqI) (auto simp: bit_drop_bit_eq bit_or_iff bit_take_bit_iff)
qed

lemma pmm_free_page_offset:
  "pmm_free_page ((e AND PTE_ADDR_MASK) OR (va AND 4095)) s = pmm_free_page (e AND PTE_ADDR_MASK) s"
  unfolding pmm_free_page_def PMM_PAGE_SHIFT_def frame_offset ..

lemma unmap_page_spec:
  assumes sp: "space_inv P F root pm s" and va: "PML4_IDX a \<in> user_half"
  shows "space_inv P F root pm (unmap_page pm a s)" "vm_frame s (unmap_page pm a s)"
    "\<And>vb. PML4_IDX vb \<in> user_half \<Longrightarrow> translate (unmap_page pm a s) root vb =
       (if same_slot a vb then None else translate s root vb)"
    "used_pages (unmap_page pm a s) = used_pages s - freed_frames root {a} s"
    "tables (unmap_page pm a s) user_half root = tables s user_half root"
proof -
  note d = space_invD [OF sp]
  have q: "pmap_query pm a s = (case translate s root a of None \<Rightarrow> 0 | Some e \<Rightarrow> (e AND PTE_ADDR_MASK) OR (a AND 4095))"
    by (rule pmap_query_spec [OF d(4) va d(6)])
  have "space_inv P F root pm (unmap_page pm a s) \<and> vm_frame s (unmap_page pm a s) \<and>
    (\<forall>vb. PML4_IDX vb \<in> user_half \<longrightarrow> translate (unmap_page pm a s) root vb =
       (if same_slot a vb then None else translate s root vb)) \<and>
    used_pages (unmap_page pm a s) = used_pages s - freed_frames root {a} s \<and>
    tables (unmap_page pm a s) user_half root = tables s user_half root"
  proof (cases "translate s root a")
    case None
    then have "unmap_page pm a s = s" by (simp add: unmap_page_def q)
    moreover have "translate s root vb = None" if "same_slot a vb" for vb
      by (rule same_slot_none [OF that None])
    ultimately show ?thesis using sp None by (simp add: vm_frame_refl freed_frames_def)
  next
    case (Some e)
    define pa where "pa = e AND PTE_ADDR_MASK"
    have "pa \<in> frames root s" using Some va unfolding frames_def pa_def by blast
    then have pu: "pa \<in> used_pages s" "pa \<noteq> 0" using d(3,9) by auto
    have nz: "pa OR (a AND 4095) \<noteq> 0"
    proof
      assume "pa OR (a AND 4095) = 0"
      then have "pa = 0" by (metis bit.disj_zero_right bit_0_eq or_eq_0_iff)
      with pu(2) show False by simp
    qed
    show ?thesis
    proof (rule space_inv_unmap [OF sp va Some])
      fix t assume t: "pmap_unmap pm a s = (0, t)" "space_inv P F root pm t" "pt_frame user_half root s t"
        "\<And>vb. PML4_IDX vb \<in> user_half \<Longrightarrow> translate t root vb = (if same_slot a vb then None else translate s root vb)"
        "used_pages t = used_pages s" "tables t user_half root = tables s user_half root"
        "e AND PTE_ADDR_MASK \<notin> owned P root t"
      have eq: "unmap_page pm a s = pmm_free_page pa t"
        using nz t(1) by (simp add: unmap_page_def q Some pa_def pmm_free_page_offset)
      have "pa \<in> used_pages t" using pu(1) t(5) by simp
      note f = space_inv_free [OF t(2) this pu(2) t(7) [folded pa_def]]
      show ?thesis
        unfolding eq using f t(4,5,6) vm_frame_trans [OF vm_frame_pt [OF t(3)] vm_frame_free]
        by (simp add: freed_frames_def Some pa_def)
    qed
  qed
  then show "space_inv P F root pm (unmap_page pm a s)" "vm_frame s (unmap_page pm a s)"
    "\<And>vb. PML4_IDX vb \<in> user_half \<Longrightarrow> translate (unmap_page pm a s) root vb =
       (if same_slot a vb then None else translate s root vb)"
    "used_pages (unmap_page pm a s) = used_pages s - freed_frames root {a} s"
    "tables (unmap_page pm a s) user_half root = tables s user_half root" by blast+
qed

text \<open>The addresses the loops visit: from \<open>a\<close> in steps of a page, while below \<open>stop\<close>.\<close>

definition visited :: "addr \<Rightarrow> addr \<Rightarrow> addr set" where
  "visited a stop = {x. \<exists>k. unat x = unat a + 4096 * k \<and> unat x < unat stop}"

lemma visited_empty: "\<not> a < stop \<Longrightarrow> visited a stop = {}"
  by (auto simp: visited_def word_less_nat_alt)

lemma visited_step:
  assumes "a < stop" "unat stop \<le> 2 ^ 47"
  shows "visited a stop = insert a (visited (a + 4096) stop)" "unat (a + 4096) = unat a + 4096"
proof -
  have lt: "unat a < unat stop" using assms(1) by (simp add: word_less_nat_alt)
  with assms(2) show u: "unat (a + 4096) = unat a + 4096" by (subst unat_add_no_wrap) simp_all
  show "visited a stop = insert a (visited (a + 4096) stop)"
  proof (intro set_eqI iffI)
    fix x assume "x \<in> visited a stop"
    then obtain k where k: "unat x = unat a + 4096 * k" "unat x < unat stop" by (auto simp: visited_def)
    show "x \<in> insert a (visited (a + 4096) stop)"
    proof (cases k)
      case 0
      then have "x = a" using k by (simp add: word_unat_eq_iff)
      then show ?thesis by simp
    next
      case (Suc j)
      then have "unat x = unat (a + 4096) + 4096 * j" using k(1) by (simp add: u)
      then show ?thesis using k(2) unfolding visited_def by blast
    qed
  next
    fix x assume "x \<in> insert a (visited (a + 4096) stop)"
    then show "x \<in> visited a stop"
    proof
      assume "x = a"
      then show ?thesis using lt by (auto simp: visited_def intro: exI [of _ 0])
    next
      assume "x \<in> visited (a + 4096) stop"
      then obtain k where k: "unat x = unat (a + 4096) + 4096 * k" "unat x < unat stop" by (auto simp: visited_def)
      then have "unat x = unat a + 4096 * Suc k" by (simp add: u)
      then show ?thesis using k(2) unfolding visited_def by blast
    qed
  qed
qed

lemma visited_user: "unat stop \<le> 2 ^ 47 \<Longrightarrow> x \<in> visited a stop \<Longrightarrow> user_addr x"
  by (auto simp: visited_def user_addr_def)

lemma user_half_idx: "user_addr va \<Longrightarrow> PML4_IDX va \<in> user_half"
  using user_covered [of va] by (simp add: covered_def)

text \<open>The loop ends, unmaps exactly the pages it visits and frees exactly their frames.\<close>

lemma unmap_range_spec:
  assumes "space_inv P F root pm s" "unat stop \<le> 2 ^ 47"
  shows "\<exists>t. unmap_range pm a stop s = Some t \<and> space_inv P F root pm t \<and> vm_frame s t \<and>
    (\<forall>vb. PML4_IDX vb \<in> user_half \<longrightarrow> translate t root vb =
       (if \<exists>x \<in> visited a stop. same_slot x vb then None else translate s root vb)) \<and>
    used_pages t = used_pages s - freed_frames root (visited a stop) s \<and>
    tables t user_half root = tables s user_half root"
  using assms(1)
proof (induction "unat stop - unat a" arbitrary: a s rule: less_induct)
  case less
  show ?case
  proof (cases "a < stop")
    case False
    then show ?thesis
      using less.prems by (simp add: visited_empty unmap_range.simps [of pm a stop] vm_frame_refl freed_frames_def)
  next
    case True
    note st = visited_step [OF True assms(2)]
    have ua: "user_addr a" using st(1) visited_user [OF assms(2), of a a] by simp
    note u = unmap_page_spec [OF less.prems user_half_idx [OF ua]]
    let ?u = "unmap_page pm a s"
    have lt: "unat a < unat stop" using True by (simp add: word_less_nat_alt)
    then have "unat stop - unat (a + 4096) < unat stop - unat a" unfolding st(2) by linarith
    from less.hyps [OF this u(1)] obtain t where t: "unmap_range pm (a + 4096) stop ?u = Some t"
      "space_inv P F root pm t" "vm_frame ?u t"
      "\<And>vb. PML4_IDX vb \<in> user_half \<Longrightarrow> translate t root vb =
         (if \<exists>x \<in> visited (a + 4096) stop. same_slot x vb then None else translate ?u root vb)"
      "used_pages t = used_pages ?u - freed_frames root (visited (a + 4096) stop) ?u"
      "tables t user_half root = tables ?u user_half root" by blast
    have run: "unmap_range pm a stop s = Some t"
      using True t(1) by (subst unmap_range.simps) simp
    have tr: "translate t root vb = (if \<exists>x \<in> visited a stop. same_slot x vb then None else translate s root vb)"
      if "PML4_IDX vb \<in> user_half" for vb
      using t(4) [OF that] u(3) [OF that] by (auto simp: st(1))
    have ff: "freed_frames root {a} s \<union> freed_frames root (visited (a + 4096) stop) ?u
        = freed_frames root (visited a stop) s"
    proof -
      have tu: "translate ?u root x = (if same_slot a x then None else translate s root x)"
        if "x \<in> visited (a + 4096) stop" for x
        by (rule u(3) [OF user_half_idx [OF visited_user [OF assms(2) that]]])
      have "e AND PTE_ADDR_MASK \<in> freed_frames root {a} s \<union> freed_frames root (visited (a + 4096) stop) ?u"
        if x: "x \<in> visited (a + 4096) stop" "translate s root x = Some e" for x e
      proof (cases "same_slot a x")
        case True
        then have "translate s root a = Some e" using same_slot_translate [OF True, of s root] x(2) by simp
        then show ?thesis unfolding freed_frames_def by blast
      next
        case False
        then have "translate ?u root x = Some e" using tu [OF x(1)] x(2) by simp
        then show ?thesis using x(1) unfolding freed_frames_def by blast
      qed
      moreover have "e AND PTE_ADDR_MASK \<in> freed_frames root (visited a stop) s"
        if x: "x \<in> visited (a + 4096) stop" "translate ?u root x = Some e" for x e
      proof -
        have "translate s root x = Some e" using tu [OF x(1)] x(2) by (auto split: if_splits)
        then show ?thesis using x(1) unfolding freed_frames_def st(1) by blast
      qed
      ultimately show ?thesis by (auto simp: freed_frames_def st(1))
    qed
    have "used_pages t = used_pages s - freed_frames root (visited a stop) s"
      unfolding t(5) u(4) ff [symmetric] by blast
    then show ?thesis using run t(2,6) u(5) tr vm_frame_trans [OF u(2) t(3)] by auto
  qed
qed

section \<open>The zones of maps and entries\<close>

lemma PHYS_TO_VIRT_inj [simp]: "PHYS_TO_VIRT s x = PHYS_TO_VIRT s y \<longleftrightarrow> x = y"
  by (simp add: PHYS_TO_VIRT_def)

lemma zones_slot_page:
  assumes "zones_rep P F s" "i < zone_count s" "x \<in> zone_live P F s i" "b - x < elem_size (zone_store s i)"
  shows "page_of b \<in> P i"
  using slot_bytes_in_page(2) [OF zones_rep_elem [OF assms(1,2)] zones_rep_pages(1) [OF assms(1,2)] _ assms(4)] assms(3)
  by (simp add: zone_live_def live_def)

text \<open>Allocating from a zone keeps the space: a page added to the zone was nobody's.\<close>

lemma space_inv_zalloc:
  fixes s :: "'a vm_state_scheme"
  assumes sp: "space_inv P F root pm s" and i: "i < zone_count s"
  obtains (full) "zalloc (Some i) s = Some (0, s)" "free_set s = {} \<or> max_size (zone_store s i) \<noteq> 0"
  | (elem) x t P' F' where "zalloc (Some i) s = Some (x, t)" "x \<noteq> 0" "space_inv P' F' root pm t"
      "x \<notin> zone_live P F s i" "zone_live P' F' t i = insert x (zone_live P F s i)"
      "\<And>j. j \<noteq> i \<Longrightarrow> zone_live P' F' t j = zone_live P F s j"
      "zone_count t = zone_count s" "\<And>j. elem_size (zone_store t j) = elem_size (zone_store s j)"
      "\<And>va. PML4_IDX va \<in> user_half \<Longrightarrow> translate t root va = translate s root va"
      "tables t user_half root = tables s user_half root" "used_pages s \<subseteq> used_pages t"
      "\<exists>m b c zs. t = s\<lparr>mem := m, bitmap := b, free_count := c, zone_store := zs\<rparr>"
proof -
  note d = space_invD [OF sp]
  show thesis
  proof (cases rule: zalloc_spec [OF d(1) i])
    case 1
    have "free_set s = {}" if "pmm_alloc_page s = (0, s)" using pmm_alloc_page_full [OF d(5), of s] that by simp
    with 1(3) show thesis by (intro full [OF 1(1)]) blast
  next
    case (2 x t P' F')
    obtain m b c zs where t: "t = s\<lparr>mem := m, bitmap := b, free_count := c, zone_store := zs\<rparr>" using 2(14) by blast
    have h: "hhdm_offset t = hhdm_offset s" by (simp add: t)
    have p: "PHYS_TO_VIRT t = PHYS_TO_VIRT s" by (rule ext) (simp add: PHYS_TO_VIRT_def h)
    have inv: "pmm_inv t" using 2(2) by (simp add: zones_rep_def)
    have up: "used_pages s \<subseteq> used_pages t"
    proof
      fix pa assume pa: "pa \<in> used_pages s"
      show "pa \<in> used_pages t"
      proof (cases "pa = 0")
        case True
        have "push_bit 12 0 \<in> used_pages t" unfolding used_pages_def
          by (rule CollectI, rule exI [of _ 0]) (use inv in \<open>simp add: pmm_inv_def PMM_MAX_PAGES_def\<close>)
        then show ?thesis using True by simp
      next
        case False
        then have "PHYS_TO_VIRT s pa \<in> direct_pages t" using pa 2(12) by (auto simp: direct_pages_def)
        then show ?thesis by (auto simp: direct_pages_def p)
      qed
    qed
    have xl: "x \<in> zone_live P' F' t i" using 2(5) by simp
    have it: "i < zone_count t" using i 2(7) by simp
    have td: "PHYS_TO_VIRT s y \<in> direct_pages s" if "y \<in> tables s user_half root" for y
      using that d(3,8) by (auto simp: direct_pages_def)
    have zp: "zone_pages P' t \<subseteq> zone_pages P s \<union> (direct_pages t - direct_pages s)"
    proof
      fix pg assume "pg \<in> zone_pages P' t"
      then obtain j where j: "j < zone_count s" "pg \<in> P' j" by (auto simp: zone_pages_def 2(7))
      show "pg \<in> zone_pages P s \<union> (direct_pages t - direct_pages s)"
        using j 2(6) [of j] 2(13) by (cases "j = i") (auto simp: zone_pages_def)
    qed
    have mt: "mem t b = mem s b" if y: "y \<in> tables s user_half root" "page_of b = PHYS_TO_VIRT s y" for b y
    proof (rule 2(10))
      show "page_of b \<in> direct_pages s" using td y by simp
      show "\<not> b - x < elem_size (zone_store s i)"
      proof
        assume "b - x < elem_size (zone_store s i)"
        then have "page_of b \<in> P' i" using zones_slot_page [OF 2(2) it xl] by (simp add: 2(8))
        then have "page_of b \<in> zone_pages P' t" using it by (auto simp: zone_pages_def)
        then have "PHYS_TO_VIRT s y \<in> zone_pages P s" using zp td [OF y(1)] by (auto simp: y(2))
        then show False using sp y(1) unfolding space_inv_def by blast
      qed
    qed
    have ut: "tables s user_half root \<subseteq> used_pages t" using d(3,8) up by blast
    have pt: "pt_tree t user_half root" and tb: "tables t user_half root = tables s user_half root"
      by (rule pt_tree_cong [OF d(4) h _ ut], erule (1) mt)+
    have tr: "translate t root va = translate s root va" if "PML4_IDX va \<in> user_half" for va
      by (rule translate_cong [OF d(4) h _ that], erule (1) mt)
    have fr: "frames root t = frames root s" by (rule frames_cong) (rule tr)
    have ow: "owned P' root t \<subseteq> used_pages t - {0}"
    proof
      fix pa assume "pa \<in> owned P' root t"
      then consider "pa \<in> owned P root s" | "PHYS_TO_VIRT s pa \<in> zone_pages P' t"
        by (auto simp: owned_def tb fr p)
      then show "pa \<in> used_pages t - {0}"
      proof cases
        case 1
        then show ?thesis using d(3) up by blast
      next
        case 2
        then consider "PHYS_TO_VIRT s pa \<in> zone_pages P s" | "PHYS_TO_VIRT s pa \<in> direct_pages t"
          using zp by blast
        then show ?thesis
        proof cases
          case 1
          then have "pa \<in> owned P root s" by (simp add: owned_def)
          then show ?thesis using d(3) up by blast
        next
          case 2
          then show ?thesis by (auto simp: direct_pages_def p)
        qed
      qed
    qed
    have new: "PHYS_TO_VIRT s pa \<in> zone_pages P s" if "PHYS_TO_VIRT s pa \<in> zone_pages P' t" "pa \<in> owned P root s" for pa
    proof -
      have "PHYS_TO_VIRT s pa \<in> direct_pages s" using that(2) d(3) by (auto simp: direct_pages_def)
      then show ?thesis using that(1) zp by blast
    qed
    have "tables s user_half root \<inter> {pa. PHYS_TO_VIRT s pa \<in> zone_pages P' t} = {}"
      "frames root s \<inter> (tables s user_half root \<union> {pa. PHYS_TO_VIRT s pa \<in> zone_pages P' t}) = {}"
      using new sp d(8,9) unfolding space_inv_def by blast+
    moreover have "pmap_inv user_half root pm t" using pt inv d(6) by (simp add: pmap_inv_def t)
    ultimately have "space_inv P' F' root pm t"
      using sp ow 2(2) tr unfolding space_inv_def tb fr p by simp
    then show thesis
      by (rule elem [OF 2(1,3) _ 2(4,5) _ 2(7,8) tr tb up 2(14)])
         (simp_all add: zone_live_def 2(6,8))
  qed
qed

text \<open>So does freeing an element.\<close>

lemma space_inv_zfree:
  fixes s :: "'a vm_state_scheme"
  assumes sp: "space_inv P F root pm s" and i: "i < zone_count s" and x: "x \<in> zone_live P F s i"
  obtains t where "zfree (Some i) x s = Some t" "space_inv P (F(i := x # F i)) root pm t"
    "zone_live P (F(i := x # F i)) t i = zone_live P F s i - {x}"
    "\<And>j. j \<noteq> i \<Longrightarrow> zone_live P (F(i := x # F i)) t j = zone_live P F s j"
    "zone_count t = zone_count s" "\<And>j. elem_size (zone_store t j) = elem_size (zone_store s j)"
    "\<And>va. PML4_IDX va \<in> user_half \<Longrightarrow> translate t root va = translate s root va"
    "tables t user_half root = tables s user_half root" "used_pages t = used_pages s"
    "\<exists>m zs. t = s\<lparr>mem := m, zone_store := zs\<rparr>"
proof -
  note d = space_invD [OF sp]
  show thesis
  proof (rule zfree_spec [OF d(1) i x])
    fix t
    let ?F = "F(i := x # F i)"
    assume z: "zfree (Some i) x s = Some t" "zones_rep P ?F t"
      "zone_live P ?F t i = zone_live P F s i - {x}"
      "zone_count t = zone_count s" "\<And>j. elem_size (zone_store t j) = elem_size (zone_store s j)"
      "\<And>b. \<not> b - x < elem_size (zone_store s i) \<Longrightarrow> mem t b = mem s b"
      "direct_pages t = direct_pages s" "\<exists>m zs. t = s\<lparr>mem := m, zone_store := zs\<rparr>"
    obtain m zs where t: "t = s\<lparr>mem := m, zone_store := zs\<rparr>" using z(8) by blast
    have h: "hhdm_offset t = hhdm_offset s" by (simp add: t)
    have p: "PHYS_TO_VIRT t = PHYS_TO_VIRT s" by (rule ext) (simp add: PHYS_TO_VIRT_def h)
    have inv: "pmm_inv t" using z(2) by (simp add: zones_rep_def)
    have us: "used_pages t = used_pages s" by (simp add: t used_pages_def bitmap_test_def)
    have zp: "zone_pages P t = zone_pages P s" by (simp add: zone_pages_def z(4))
    have mt: "mem t b = mem s b" if y: "y \<in> tables s user_half root" "page_of b = PHYS_TO_VIRT s y" for b y
    proof (rule z(6), rule notI)
      assume "b - x < elem_size (zone_store s i)"
      then have "page_of b \<in> P i" by (rule zones_slot_page [OF d(1) i x])
      then have "PHYS_TO_VIRT s y \<in> zone_pages P s" using i by (auto simp: zone_pages_def y(2))
      then show False using sp y(1) unfolding space_inv_def by blast
    qed
    have ut: "tables s user_half root \<subseteq> used_pages t" using d(3,8) us by blast
    have pt: "pt_tree t user_half root" and tb: "tables t user_half root = tables s user_half root"
      by (rule pt_tree_cong [OF d(4) h _ ut], erule (1) mt)+
    have tr: "translate t root va = translate s root va" if "PML4_IDX va \<in> user_half" for va
      by (rule translate_cong [OF d(4) h _ that], erule (1) mt)
    have fr: "frames root t = frames root s" by (rule frames_cong) (rule tr)
    have "pmap_inv user_half root pm t" using pt inv d(6) by (simp add: pmap_inv_def t)
    moreover have "owned P root t = owned P root s" by (simp add: owned_def tb fr zp p)
    ultimately have "space_inv P ?F root pm t"
      using sp z(2) tr unfolding space_inv_def tb fr zp p us by simp
    then show thesis
      by (rule that [OF z(1) _ z(3) _ z(4,5) tr tb us z(8)]) (simp_all add: zone_live_def z(5))
  qed
qed

section \<open>The invariant of an address space\<close>

text \<open>The tables and the zones do not live in the heaps of maps and entries.\<close>

lemma space_inv_heaps:
  fixes s :: "'a vm_state_scheme"
  shows "space_inv P F root pm (s\<lparr>vm_maps := M, vm_entries := E\<rparr>) = space_inv P F root pm s"
    "translate (s\<lparr>vm_maps := M, vm_entries := E\<rparr>) root va = translate s root va"
    "tables (s\<lparr>vm_maps := M, vm_entries := E\<rparr>) I root = tables s I root"
    "used_pages (s\<lparr>vm_maps := M, vm_entries := E\<rparr>) = used_pages s"
    "zone_live P F (s\<lparr>vm_maps := M, vm_entries := E\<rparr>) i = zone_live P F s i"
proof -
  let ?t = "s\<lparr>vm_maps := M, vm_entries := E\<rparr>"
  have ta: "table_at ?t r p = table_at s r p" for r p
    by (induction p arbitrary: r) (simp_all add: next_table_def read_pte_def pte_addr_def PHYS_TO_VIRT_def Let_def split: option.split)
  show tr: "translate ?t r va = translate s r va" for r va
    by (simp add: translate_def ta next_table_def read_pte_def pte_addr_def PHYS_TO_VIRT_def split: option.split)
  show tb: "tables ?t I r = tables s I r" for I r by (simp add: tables_def ta)
  show us: "used_pages ?t = used_pages s" by (simp add: used_pages_def bitmap_test_def)
  show "zone_live P F ?t i = zone_live P F s i" by (simp add: zone_live_def)
  have p: "PHYS_TO_VIRT ?t = PHYS_TO_VIRT s" by (rule ext) (simp add: PHYS_TO_VIRT_def)
  have inv: "pmm_inv ?t = pmm_inv s"
    by (simp add: pmm_inv_def count_ok_def free_set_def bitmap_test_def)
  have pt: "pt_tree ?t I r = pt_tree s I r" for I r
    by (simp add: pt_tree_def ta tb us hhdm_ok_def)
  have zr: "zones_rep P F ?t = zones_rep P F s"
    by (simp add: zones_rep_def inv hhdm_ok_def zone_ok_def direct_pages_def p us)
  show "space_inv P F root pm ?t = space_inv P F root pm s"
    by (simp add: space_inv_def zr pmap_inv_def pt inv owned_def tb us tr p frames_def zone_pages_def)
qed

text \<open>
  The entries of a map: linked, sorted, disjoint, within the bounds of the map, counted; each a live
  element of the entry zone, the map a live element of the map zone.
\<close>

definition entries_inv ::
  "(nat \<Rightarrow> addr set) \<Rightarrow> (nat \<Rightarrow> addr list) \<Rightarrow> addr list \<Rightarrow> addr \<Rightarrow> 'a vm_state_scheme \<Rightarrow> bool" where
  "entries_inv P F es vmap s \<longleftrightarrow>
     map_list s vmap es \<and> sorted_entries s es \<and> nentries (vm_maps s vmap) = of_nat (length es) \<and>
     unat (max_offset (vm_maps s vmap)) \<le> 2 ^ 47 \<and>
     (\<forall>e \<in> set es. min_offset (vm_maps s vmap) \<le> vme_start (vm_entries s e) \<and>
        vme_end (vm_entries s e) \<le> max_offset (vm_maps s vmap)) \<and>
     (\<exists>i j. vm_map_entry_zone s = Some i \<and> vm_map_zone s = Some j \<and> i \<noteq> j \<and>
        i < zone_count s \<and> j < zone_count s \<and> elem_size (zone_store s i) = sizeof_vm_map_entry \<and>
        elem_size (zone_store s j) = sizeof_vm_map \<and> set es \<subseteq> zone_live P F s i \<and> vmap \<in> zone_live P F s j)"

definition vm_inv ::
  "(nat \<Rightarrow> addr set) \<Rightarrow> (nat \<Rightarrow> addr list) \<Rightarrow> u64 \<Rightarrow> addr list \<Rightarrow> addr \<Rightarrow> 'a vm_state_scheme \<Rightarrow> bool" where
  "vm_inv P F root es vmap s \<longleftrightarrow>
     space_inv P F root (vm_pmap (vm_maps s vmap)) s \<and> entries_inv P F es vmap s"

lemma vm_invD:
  assumes "vm_inv P F root es vmap s"
  shows "space_inv P F root (vm_pmap (vm_maps s vmap)) s" "entries_inv P F es vmap s"
    "map_list s vmap es" "sorted_entries s es" "nentries (vm_maps s vmap) = of_nat (length es)"
    "unat (max_offset (vm_maps s vmap)) \<le> 2 ^ 47"
    "\<And>e. e \<in> set es \<Longrightarrow> min_offset (vm_maps s vmap) \<le> vme_start (vm_entries s e)"
    "\<And>e. e \<in> set es \<Longrightarrow> vme_end (vm_entries s e) \<le> max_offset (vm_maps s vmap)"
    "links s (header vmap # es @ [header vmap])" "header vmap \<notin> set es" "0 \<notin> set es" "header vmap \<noteq> 0" "distinct es"
  using assms by (auto simp: vm_inv_def entries_inv_def map_list_def)

lemma entry_end_user:
  assumes "vm_inv P F root es vmap s" "e \<in> set es"
  shows "unat (vme_end (vm_entries s e)) \<le> 2 ^ 47"
  using vm_invD(6) [OF assms(1)] vm_invD(8) [OF assms] by (simp add: word_le_nat_alt)

text \<open>A change of memory and pages leaves the entries alone.\<close>

lemma entries_inv_frame: "vm_frame s t \<Longrightarrow> entries_inv P F es vmap t = entries_inv P F es vmap s"
proof -
  assume f: "vm_frame s t"
  note v = vm_frame_fields [OF f]
  have "map_list t vmap es = map_list s vmap es"
    using map_list_cong [of s vmap es t] map_list_cong [of t vmap es s] by (auto simp: v)
  moreover have "sorted_entries t es = sorted_entries s es" by (rule sorted_entries_cong) (simp add: v)
  ultimately show ?thesis by (simp add: entries_inv_def zone_live_def v)
qed

lemma vm_inv_frame:
  "vm_inv P F root es vmap s \<Longrightarrow> vm_frame s t \<Longrightarrow> space_inv P F root (vm_pmap (vm_maps s vmap)) t \<Longrightarrow>
   vm_inv P F root es vmap t"
  by (simp add: vm_inv_def entries_inv_frame vm_frame_fields)

text \<open>The header is no entry of any map.\<close>

lemma header_not_live:
  assumes rep: "zones_rep P F s" and ij: "i < zone_count s" "j < zone_count s" "i \<noteq> j"
    and m: "vmap \<in> zone_live P F s j" "elem_size (zone_store s j) = sizeof_vm_map"
  shows "header vmap \<notin> zone_live P F s i"
proof
  assume h: "header vmap \<in> zone_live P F s i"
  have e: "0 < elem_size (zone_store s i)" using zones_rep_elem [OF rep ij(1)] by (auto simp: elem_ok_def word_less_nat_alt)
  have "page_of (header vmap) \<in> P i" by (rule zones_slot_page [OF rep ij(1) h]) (simp add: e)
  moreover have "page_of (header vmap) \<in> P j"
    by (rule zones_slot_page [OF rep ij(2) m(1)]) (simp add: m(2) header_def sizeof_vm_map_def)
  ultimately show False using rep ij unfolding zones_rep_def by blast
qed

section \<open>Removing entries\<close>

definition entry_info :: "'a vm_state_scheme \<Rightarrow> addr \<Rightarrow> u64 \<times> u64 \<times> u32 \<times> u32 \<times> u32" where
  "entry_info s e = (let v = vm_entries s e in (vme_start v, vme_end v, vme_prot v, vme_max_prot v, vme_flags v))"

text \<open>What the operations on the list keep: the contents of the entries, all other maps.\<close>

definition map_frame :: "addr \<Rightarrow> 'a vm_state_scheme \<Rightarrow> 'a vm_state_scheme \<Rightarrow> bool" where
  "map_frame vmap s t \<longleftrightarrow> entry_info t = entry_info s \<and>
     (\<exists>n. vm_maps t = (vm_maps s)(vmap := (vm_maps s vmap)\<lparr>nentries := n\<rparr>)) \<and>
     vm_map_zone t = vm_map_zone s \<and> vm_map_entry_zone t = vm_map_entry_zone s \<and> kernel_map t = kernel_map s \<and>
     pmaps t = pmaps s \<and> hhdm_offset t = hhdm_offset s"

lemma map_frame_refl: "map_frame vmap s s"
  unfolding map_frame_def by (auto intro: exI [of _ "nentries (vm_maps s vmap)"])

lemma map_frame_trans: "map_frame vmap s t \<Longrightarrow> map_frame vmap t u \<Longrightarrow> map_frame vmap s u"
  unfolding map_frame_def by auto

lemma vm_frame_map_frame: "vm_frame s t \<Longrightarrow> map_frame vmap s t"
  unfolding map_frame_def
  by (auto simp: vm_frame_fields entry_info_def fun_eq_iff intro: exI [of _ "nentries (vm_maps s vmap)"])

lemma map_frame_fields:
  assumes "map_frame vmap s t"
  shows "vme_start (vm_entries t e) = vme_start (vm_entries s e)" "vme_end (vm_entries t e) = vme_end (vm_entries s e)"
    "vme_prot (vm_entries t e) = vme_prot (vm_entries s e)" "vm_pmap (vm_maps t vmap) = vm_pmap (vm_maps s vmap)"
    "min_offset (vm_maps t vmap) = min_offset (vm_maps s vmap)" "max_offset (vm_maps t vmap) = max_offset (vm_maps s vmap)"
    "vm_map_zone t = vm_map_zone s" "vm_map_entry_zone t = vm_map_entry_zone s"
    "pmaps t = pmaps s" "hhdm_offset t = hhdm_offset s"
proof -
  have "entry_info t e = entry_info s e" using assms by (simp add: map_frame_def)
  then show "vme_start (vm_entries t e) = vme_start (vm_entries s e)" "vme_end (vm_entries t e) = vme_end (vm_entries s e)"
    "vme_prot (vm_entries t e) = vme_prot (vm_entries s e)" by (simp_all add: entry_info_def Let_def)
qed (use assms in \<open>auto simp: map_frame_def\<close>)

lemma freed_frames_union:
  assumes "\<And>x. x \<in> Y \<Longrightarrow> translate u root x = (if \<exists>y \<in> X. same_slot y x then None else translate s root x)"
  shows "freed_frames root X s \<union> freed_frames root Y u = freed_frames root (X \<union> Y) s"
proof (intro set_eqI iffI)
  fix f assume "f \<in> freed_frames root X s \<union> freed_frames root Y u"
  then consider "f \<in> freed_frames root X s"
    | y e where "y \<in> Y" "translate u root y = Some e" "f = e AND PTE_ADDR_MASK" by (auto simp: freed_frames_def)
  then show "f \<in> freed_frames root (X \<union> Y) s"
  proof cases
    case (2 y e)
    then have "translate s root y = Some e" using assms [OF 2(1)] by (auto split: if_splits)
    then show ?thesis using 2 unfolding freed_frames_def by blast
  qed (auto simp: freed_frames_def)
next
  fix f assume "f \<in> freed_frames root (X \<union> Y) s"
  then obtain x e where x: "x \<in> X \<union> Y" "translate s root x = Some e" "f = e AND PTE_ADDR_MASK"
    by (auto simp: freed_frames_def)
  show "f \<in> freed_frames root X s \<union> freed_frames root Y u"
  proof (cases "\<exists>y \<in> insert x X. y \<in> X \<and> same_slot y x")
    case True
    then obtain y where y: "y \<in> X" "same_slot y x" by blast
    then have "translate s root y = Some e" using same_slot_translate [OF y(2), of s root] x(2) by simp
    then show ?thesis using y(1) x(3) unfolding freed_frames_def by blast
  next
    case False
    then have "x \<notin> X" by (auto simp: same_slot_def)
    then have "x \<in> Y" "translate u root x = Some e" using x False assms [of x] by auto
    then show ?thesis using x(3) unfolding freed_frames_def by blast
  qed
qed

text \<open>Taking one entry off the list and back to its zone.\<close>

lemma remove_entry:
  fixes s :: "'a vm_state_scheme"
  assumes inv: "vm_inv P F root (as @ e # bs) vmap s"
  obtains t F' where "zfree (vm_map_entry_zone s) e (map_list_remove e s) = Some t"
    "vm_inv P F' root (as @ bs) vmap (upd_map vmap (\<lambda>m. m\<lparr>nentries := nentries m - 1\<rparr>) t)"
    "map_frame vmap s (upd_map vmap (\<lambda>m. m\<lparr>nentries := nentries m - 1\<rparr>) t)"
    "\<And>va. PML4_IDX va \<in> user_half \<Longrightarrow>
       translate (upd_map vmap (\<lambda>m. m\<lparr>nentries := nentries m - 1\<rparr>) t) root va = translate s root va"
    "used_pages (upd_map vmap (\<lambda>m. m\<lparr>nentries := nentries m - 1\<rparr>) t) = used_pages s"
    "vm_map_entry_zone (map_list_remove e s) = vm_map_entry_zone s"
proof -
  note d = vm_invD [OF inv]
  let ?r = "map_list_remove e s" and ?pm = "vm_pmap (vm_maps s vmap)"
  have r: "?r = s\<lparr>vm_maps := vm_maps s, vm_entries := vm_entries ?r\<rparr>" using list_ops_frame(2) [of e s] by simp
  have spr: "space_inv P F root ?pm ?r" by (subst r) (simp only: space_inv_heaps d(1))
  obtain i j where ij: "vm_map_entry_zone s = Some i" "vm_map_zone s = Some j" "i \<noteq> j" "i < zone_count s"
    "j < zone_count s" "elem_size (zone_store s i) = sizeof_vm_map_entry" "elem_size (zone_store s j) = sizeof_vm_map"
    "set (as @ e # bs) \<subseteq> zone_live P F s i" "vmap \<in> zone_live P F s j"
    using d(2) unfolding entries_inv_def by blast
  have rf: "zone_count ?r = zone_count s" "vm_maps ?r = vm_maps s" "vm_map_entry_zone ?r = vm_map_entry_zone s"
    "vm_map_zone ?r = vm_map_zone s" "zone_store ?r = zone_store s" "kernel_map ?r = kernel_map s"
    "pmaps ?r = pmaps s" "hhdm_offset ?r = hhdm_offset s"
    by (subst list_ops_frame(2), simp)+
  have zl: "zone_live P F ?r k = zone_live P F s k" for k by (simp add: zone_live_def rf)
  have el: "e \<in> zone_live P F ?r i" using ij(8) by (simp add: zl)
  have ic: "i < zone_count ?r" using ij(4) by (simp add: rf)
  show thesis
  proof (rule space_inv_zfree [OF spr ic el])
    fix t :: "'a vm_state_scheme"
    let ?F = "F(i := e # F i)" and ?u = "upd_map vmap (\<lambda>m. m\<lparr>nentries := nentries m - 1\<rparr>) t"
    assume z: "zfree (Some i) e ?r = Some t" "space_inv P ?F root ?pm t"
      "zone_live P ?F t i = zone_live P F ?r i - {e}"
      "\<And>k. k \<noteq> i \<Longrightarrow> zone_live P ?F t k = zone_live P F ?r k"
      "zone_count t = zone_count ?r" "\<And>k. elem_size (zone_store t k) = elem_size (zone_store ?r k)"
      "\<And>va. PML4_IDX va \<in> user_half \<Longrightarrow> translate t root va = translate ?r root va"
      "used_pages t = used_pages ?r" "\<exists>m zs. t = ?r\<lparr>mem := m, zone_store := zs\<rparr>"
    obtain m zs where t: "t = ?r\<lparr>mem := m, zone_store := zs\<rparr>" using z(9) by blast
    have u: "?u = t\<lparr>vm_maps := vm_maps ?u, vm_entries := vm_entries t\<rparr>" by (simp add: upd_map_def)
    have ue: "vm_entries ?u = vm_entries ?r" by (simp add: upd_map_def t)
    have um: "vm_maps ?u = (vm_maps s)(vmap := (vm_maps s vmap)\<lparr>nentries := nentries (vm_maps s vmap) - 1\<rparr>)"
      by (simp add: upd_map_def t rf)
    have info: "entry_info ?u = entry_info s"
      by (rule ext) (simp add: entry_info_def ue map_list_remove_def upd_entry_def Let_def)
    have ml: "map_list ?u vmap (as @ bs)"
      by (rule map_list_cong [OF map_list_remove [OF d(3)]]) (simp add: ue)
    have so: "sorted_entries ?u (as @ bs)"
    proof -
      have "sorted_entries s (as @ bs)" using d(4) by (auto simp: sorted_entries_append)
      then show ?thesis using sorted_entries_cong [of "as @ bs" ?u s] by (simp add: ue)
    qed
    have spu: "space_inv P ?F root ?pm ?u" by (subst u) (simp only: space_inv_heaps z(2))
    have zlu: "zone_live P ?F ?u k = zone_live P ?F t k" for k by (subst u) (simp only: space_inv_heaps)
    have "set (as @ bs) \<subseteq> zone_live P ?F ?u i" using ij(8) d(13) by (auto simp: zlu z(3) zl)
    moreover have "vmap \<in> zone_live P ?F ?u j" using ij(3,9) by (simp add: zlu z(4) zl)
    moreover have "zone_count ?u = zone_count s" "\<And>k. elem_size (zone_store ?u k) = elem_size (zone_store s k)"
      "vm_map_zone ?u = vm_map_zone s" "vm_map_entry_zone ?u = vm_map_entry_zone s"
      using z(5,6) by (simp_all add: upd_map_def rf t)
    moreover have "\<forall>x \<in> set (as @ bs). min_offset (vm_maps ?u vmap) \<le> vme_start (vm_entries ?u x) \<and>
        vme_end (vm_entries ?u x) \<le> max_offset (vm_maps ?u vmap)"
      using d(7,8) by (auto simp: um ue)
    ultimately have "entries_inv P ?F (as @ bs) vmap ?u"
      using ml so d(5,6) ij(1-7) unfolding entries_inv_def by (auto simp: um)
    then have "vm_inv P ?F root (as @ bs) vmap ?u" using spu by (simp add: vm_inv_def um)
    moreover have "map_frame vmap s ?u"
      unfolding map_frame_def using info um by (auto simp: upd_map_def t rf)
    moreover have "translate ?u root va = translate s root va" if "PML4_IDX va \<in> user_half" for va
    proof -
      have "translate ?u root va = translate t root va" by (subst u) (simp only: space_inv_heaps)
      also have "\<dots> = translate ?r root va" by (rule z(7) [OF that])
      also have "\<dots> = translate s root va" by (subst r) (simp only: space_inv_heaps)
      finally show ?thesis .
    qed
    moreover have "used_pages ?u = used_pages s"
    proof -
      have "used_pages ?u = used_pages t" by (subst u) (simp only: space_inv_heaps)
      also have "\<dots> = used_pages s" unfolding z(8) by (subst r) (simp only: space_inv_heaps)
      finally show ?thesis .
    qed
    ultimately show thesis using that z(1) ij(1) rf(3) by simp
  qed
qed

text \<open>The addresses \<open>remove_loop\<close> unmaps.\<close>

definition removed :: "'a vm_state_scheme \<Rightarrow> u64 \<Rightarrow> u64 \<Rightarrow> addr list \<Rightarrow> addr set" where
  "removed s start stop es =
     (\<Union>e \<in> {e \<in> set es. overlaps s start stop e}.
        visited (max start (vme_start (vm_entries s e))) (min stop (vme_end (vm_entries s e))))"

lemma removed_cong: "map_frame vmap s t \<Longrightarrow> removed t start stop es = removed s start stop es"
  by (simp add: removed_def map_frame_fields)

lemma removed_Cons:
  "removed s start stop (e # es) =
     (if overlaps s start stop e
      then visited (max start (vme_start (vm_entries s e))) (min stop (vme_end (vm_entries s e))) \<union> removed s start stop es
      else removed s start stop es)"
  by (auto simp: removed_def)

lemma next_of_entry:
  assumes "links s (p # es @ [h])"
  shows "next_of s p = hd (es @ [h])"
  using assms by (cases es) auto

definition unmapped :: "u64 \<Rightarrow> addr set \<Rightarrow> 'a vm_state_scheme \<Rightarrow> 'a vm_state_scheme \<Rightarrow> bool" where
  "unmapped root X s t \<longleftrightarrow>
     (\<forall>va. PML4_IDX va \<in> user_half \<longrightarrow>
        translate t root va = (if \<exists>x \<in> X. same_slot x va then None else translate s root va)) \<and>
     used_pages t = used_pages s - freed_frames root X s"

lemma unmapped_refl: "unmapped root {} s s"
  by (simp add: unmapped_def freed_frames_def)

lemma unmapped_cong:
  assumes "unmapped root X s t" "\<And>va. PML4_IDX va \<in> user_half \<Longrightarrow> translate u root va = translate t root va"
    "used_pages u = used_pages t"
  shows "unmapped root X s u"
  using assms by (simp add: unmapped_def)

lemma unmapped_trans:
  assumes "unmapped root X s t" "unmapped root Y t u" "\<And>y. y \<in> Y \<Longrightarrow> user_addr y"
  shows "unmapped root (X \<union> Y) s u"
proof -
  have "freed_frames root X s \<union> freed_frames root Y t = freed_frames root (X \<union> Y) s"
    by (rule freed_frames_union) (use assms(1,3) user_half_idx in \<open>auto simp: unmapped_def\<close>)
  then show ?thesis using assms(1,2) unfolding unmapped_def by auto
qed

lemma removed_user:
  assumes "vm_inv P F root es vmap s" "set bs \<subseteq> set es" "x \<in> removed s start stop bs"
  shows "user_addr x"
proof -
  obtain e where e: "e \<in> set es" "x \<in> visited (max start (vme_start (vm_entries s e))) (min stop (vme_end (vm_entries s e)))"
    using assms(2,3) by (auto simp: removed_def)
  have "unat (min stop (vme_end (vm_entries s e))) \<le> unat (vme_end (vm_entries s e))"
    using word_le_nat_alt min.cobounded2 by blast
  then have "unat (min stop (vme_end (vm_entries s e))) \<le> 2 ^ 47" using entry_end_user [OF assms(1) e(1)] by simp
  then show ?thesis using visited_user e(2) by blast
qed

lemma remove_loop_spec:
  fixes s :: "'a vm_state_scheme"
  assumes "vm_inv P F root (as @ bs) vmap s"
  shows "\<exists>t F'. remove_loop vmap start stop (hd (bs @ [header vmap])) s = Some t \<and>
    vm_inv P F' root (as @ filter (\<lambda>e. \<not> overlaps s start stop e) bs) vmap t \<and> map_frame vmap s t \<and>
    unmapped root (removed s start stop bs) s t"
  using assms
proof (induction bs arbitrary: as s F)
  case Nil
  then show ?case
    by (intro exI [of _ s] exI [of _ F]) (simp add: remove_loop.simps map_frame_refl unmapped_refl removed_def)
next
  case (Cons e bs)
  note d = vm_invD [OF Cons.prems]
  let ?h = "header vmap" and ?en = "vm_entries s e"
  have e: "e \<noteq> ?h" "e \<noteq> 0" using d(10,11) by auto
  have "links s ((?h # as) @ e # bs @ [?h])" using d(9) by simp
  then have nxt: "next_of s e = hd (bs @ [?h])"
    using links_append [of s "?h # as" e "bs @ [?h]"] next_of_entry [of s e bs ?h] by simp
  show ?case
  proof (cases "overlaps s start stop e")
    case False
    have inv: "vm_inv P F root ((as @ [e]) @ bs) vmap s" using Cons.prems by simp
    obtain t F' where t: "remove_loop vmap start stop (hd (bs @ [?h])) s = Some t"
      "vm_inv P F' root ((as @ [e]) @ filter (\<lambda>e. \<not> overlaps s start stop e) bs) vmap t" "map_frame vmap s t"
      "unmapped root (removed s start stop bs) s t"
      using Cons.IH [OF inv] by blast
    have "vme_start ?en \<ge> stop \<or> vme_end ?en \<le> start" using False by (auto simp: not_less)
    then have "remove_loop vmap start stop e s = Some t" using e t(1) nxt by (subst remove_loop.simps) (simp add: Let_def)
    moreover have "removed s start stop (e # bs) = removed s start stop bs"
      unfolding removed_Cons using False by (rule if_not_P)
    ultimately show ?thesis using t(2,3,4) False by (intro exI [of _ t] exI [of _ F']) simp
  next
    case True
    let ?a = "max start (vme_start ?en)" and ?b = "min stop (vme_end ?en)" and ?pm = "vm_pmap (vm_maps s vmap)"
    have ab: "(if vme_start ?en > start then vme_start ?en else start) = ?a"
      "(if vme_end ?en < stop then vme_end ?en else stop) = ?b" by (auto simp: max_def min_def)
    have "unat ?b \<le> unat (vme_end ?en)" using word_le_nat_alt min.cobounded2 by blast
    then have b: "unat ?b \<le> 2 ^ 47" using entry_end_user [OF Cons.prems, of e] by simp
    obtain u where u: "unmap_range ?pm ?a ?b s = Some u" "space_inv P F root ?pm u" "vm_frame s u"
      "unmapped root (visited ?a ?b) s u"
      using unmap_range_spec [OF d(1) b] unfolding unmapped_def by blast
    have iu: "vm_inv P F root (as @ e # bs) vmap u" by (rule vm_inv_frame [OF Cons.prems u(3,2)])
    show ?thesis
    proof (rule remove_entry [OF iu])
      fix v :: "'a vm_state_scheme" and F1
      let ?w = "upd_map vmap (\<lambda>m. m\<lparr>nentries := nentries m - 1\<rparr>) v"
      assume v: "zfree (vm_map_entry_zone u) e (map_list_remove e u) = Some v" "vm_inv P F1 root (as @ bs) vmap ?w"
        "map_frame vmap u ?w" "\<And>va. PML4_IDX va \<in> user_half \<Longrightarrow> translate ?w root va = translate u root va"
        "used_pages ?w = used_pages u" "vm_map_entry_zone (map_list_remove e u) = vm_map_entry_zone u"
      have fw: "map_frame vmap s ?w" by (rule map_frame_trans [OF vm_frame_map_frame [OF u(3)] v(3)])
      note ff = map_frame_fields [OF fw]
      obtain t F' where t: "remove_loop vmap start stop (hd (bs @ [?h])) ?w = Some t"
        "vm_inv P F' root (as @ filter (\<lambda>e. \<not> overlaps ?w start stop e) bs) vmap t" "map_frame vmap ?w t"
        "unmapped root (removed ?w start stop bs) ?w t"
        using Cons.IH [OF v(2)] by blast
      have "(vme_start ?en \<ge> stop \<or> vme_end ?en \<le> start) = False" using True by (auto simp: not_le)
      then have "remove_loop vmap start stop e s = Some t"
        using e u(1) v(1,6) t(1) nxt
        by (subst remove_loop.simps) (simp add: Let_def ab)
      moreover have "unmapped root (removed s start stop (e # bs)) s t"
      proof -
        have uw: "unmapped root (visited ?a ?b) s ?w" by (rule unmapped_cong [OF u(4) v(4,5)])
        have wt: "unmapped root (removed s start stop bs) ?w t" using t(4) removed_cong [OF fw] by simp
        have "unmapped root (visited ?a ?b \<union> removed s start stop bs) s t"
          by (rule unmapped_trans [OF uw wt]) (rule removed_user [OF Cons.prems], auto)
        then show ?thesis unfolding removed_Cons if_P [OF True] .
      qed
      moreover have "map_frame vmap s t" by (rule map_frame_trans [OF fw t(3)])
      ultimately show ?thesis using t(2) True by (intro exI [of _ t] exI [of _ F']) (simp add: ff)
    qed
  qed
qed

lemma vm_map_remove_spec:
  fixes s :: "'a vm_state_scheme"
  assumes "vm_inv P F root es vmap s"
  obtains t F' where "vm_map_remove vmap start sz s = Some (KERN_SUCCESS, t)"
    "vm_inv P F' root (filter (\<lambda>e. \<not> overlaps s start (start + sz) e) es) vmap t" "map_frame vmap s t"
    "unmapped root (removed s start (start + sz) es) s t"
proof -
  have "next_of s (header vmap) = hd (es @ [header vmap])" by (rule next_of_entry [OF vm_invD(9) [OF assms]])
  then show thesis
    using that remove_loop_spec [of P F root "[]" es vmap s start "start + sz"] assms
    unfolding vm_map_remove_def by auto
qed

section \<open>The wiring loops\<close>

text \<open>A run of the loop from \<open>a\<close> to \<open>b\<close> in which every page was wired.\<close>

inductive wired ::
  "addr \<Rightarrow> u64 \<Rightarrow> addr \<Rightarrow> addr \<Rightarrow> 'a vm_state_scheme \<Rightarrow> addr \<Rightarrow> 'a vm_state_scheme \<Rightarrow> bool"
  for pm fl stop where
  wired_here: "wired pm fl stop a s a s"
| wired_next: "a < stop \<Longrightarrow> wire_page pm a fl s = (True, s') \<Longrightarrow> wired pm fl stop (a + PMM_PAGE_SIZE) s' b u \<Longrightarrow>
    wired pm fl stop a s b u"

lemma wired_ends:
  assumes "space_inv P F root pm s" "unat stop \<le> 2 ^ 47"
  shows "\<exists>b u. wired pm fl stop a s b u \<and> (b < stop \<longrightarrow> \<not> fst (wire_page pm b fl u))"
  using assms(1)
proof (induction "unat stop - unat a" arbitrary: a s rule: less_induct)
  case less
  show ?case
  proof (cases "a < stop \<and> fst (wire_page pm a fl s)")
    case False
    then show ?thesis using wired_here by blast
  next
    case True
    then have lt: "a < stop" "fst (wire_page pm a fl s)" by simp_all
    note st = visited_step [OF lt(1) assms(2)]
    have ua: "PML4_IDX a \<in> user_half" using st(1) visited_user [OF assms(2), of a a] user_half_idx by simp
    show ?thesis
    proof (cases rule: wire_page_spec [OF less.prems ua, of fl])
      case (2 pa t)
      have "unat stop - unat (a + 4096) < unat stop - unat a" using lt(1) st(2) by (simp add: word_less_nat_alt)
      from less.hyps [OF this 2(2)] obtain b u where
        "wired pm fl stop (a + PMM_PAGE_SIZE) t b u" "b < stop \<longrightarrow> \<not> fst (wire_page pm b fl u)"
        by (auto simp: PMM_PAGE_SIZE_def)
      then show ?thesis using wired_next [OF lt(1) 2(1)] by blast
    qed (use lt(2) in simp)
  qed
qed

text \<open>The pages of \<open>X\<close> are mapped to fresh, zeroed pages; nothing else is mapped or unmapped.\<close>

definition wired_pages ::
  "u64 \<Rightarrow> u64 \<Rightarrow> addr set \<Rightarrow> 'a vm_state_scheme \<Rightarrow> 'a vm_state_scheme \<Rightarrow> bool" where
  "wired_pages root fl X s u \<longleftrightarrow>
     (\<forall>va. PML4_IDX va \<in> user_half \<longrightarrow>
        (if \<exists>x \<in> X. same_slot x va
         then \<exists>pa. translate u root va = Some (make_pte pa fl) \<and> pa \<noteq> 0 \<and> is_page pa \<and> pa \<notin> used_pages s \<and>
                (\<forall>b. page_of b = PHYS_TO_VIRT s pa \<longrightarrow> mem u b = 0)
         else translate u root va = translate s root va))"

lemma wired_spec:
  assumes "wired pm fl stop a s b u" "space_inv P F root pm s" "unat stop \<le> 2 ^ 47"
  shows "space_inv P F root pm u \<and> vm_frame s u \<and> used_pages s \<subseteq> used_pages u \<and> unat a \<le> unat b \<and>
    wired_pages root fl (visited a (min b stop)) s u \<and>
    (\<forall>x. page_of x \<in> direct_pages s \<longrightarrow> page_of x \<notin> PHYS_TO_VIRT s ` tables s user_half root \<longrightarrow> mem u x = mem s x) \<and>
    tables u user_half root \<inter> used_pages s \<subseteq> tables s user_half root"
  using assms(1,2)
proof induction
  case (wired_here a s)
  have "visited a (min a stop) = {}" by (rule visited_empty) (auto simp: min_def)
  then show ?case using wired_here by (simp add: vm_frame_refl wired_pages_def)
next
  case (wired_next a s s' b u)
  note st = visited_step [OF wired_next.hyps(1) assms(3)]
  have ua: "PML4_IDX a \<in> user_half" using st(1) visited_user [OF assms(3), of a a] user_half_idx by simp
  show ?case
  proof (cases rule: wire_page_spec [OF wired_next.prems ua, of fl])
    case (2 pa t)
    then have t: "t = s'" using wired_next.hyps(2) by simp
    note w = 2 [unfolded t]
    have p: "PHYS_TO_VIRT s' = PHYS_TO_VIRT s" by (rule vm_frame_PHYS [OF w(3)])
    have ih: "space_inv P F root pm u" "vm_frame s' u" "used_pages s' \<subseteq> used_pages u" "unat (a + 4096) \<le> unat b"
      "wired_pages root fl (visited (a + 4096) (min b stop)) s' u"
      "\<And>x. page_of x \<in> direct_pages s' \<Longrightarrow> page_of x \<notin> PHYS_TO_VIRT s' ` tables s' user_half root \<Longrightarrow> mem u x = mem s' x"
      "tables u user_half root \<inter> used_pages s' \<subseteq> tables s' user_half root"
      using wired_next.IH [OF w(2)] by (simp_all add: PMM_PAGE_SIZE_def)
    have lt: "a < min b stop"
      using wired_next.hyps(1) ih(4) st(2) by (simp add: word_less_nat_alt min_def)
    have "unat (min b stop) \<le> 2 ^ 47" using assms(3) by (simp add: min_def word_le_nat_alt)
    note vs = visited_step [OF lt this]
    have dp: "direct_pages s \<subseteq> direct_pages s'" using w(7) by (auto simp: direct_pages_def p)
    have mem_s: "mem u x = mem s x"
      if "page_of x \<in> direct_pages s" "page_of x \<notin> PHYS_TO_VIRT s ` tables s user_half root" for x
    proof -
      have "page_of x \<notin> PHYS_TO_VIRT s' ` tables s' user_half root"
      proof
        assume "page_of x \<in> PHYS_TO_VIRT s' ` tables s' user_half root"
        then obtain y where y: "y \<in> tables s' user_half root" "page_of x = PHYS_TO_VIRT s y" by (auto simp: p)
        then have "y \<in> used_pages s" using that(1) by (auto simp: direct_pages_def)
        then show False using w(11) y that(2) by auto
      qed
      then have "mem u x = mem s' x" using ih(6) dp that(1) by blast
      also have "\<dots> = mem s x" by (rule w(10) [OF that])
      finally show ?thesis .
    qed
    have pu: "translate s' root va = Some (make_pte pa fl)" if "same_slot a va" "PML4_IDX va \<in> user_half" for va
      using w(8) [OF that(2)] that(1) by simp
    have fr: "pa \<in> frames root s'"
    proof -
      have "pa = make_pte pa fl AND PTE_ADDR_MASK" using is_page_mask [OF w(6)] by (simp add: make_pte_addr)
      moreover have "translate s' root a = Some (make_pte pa fl)" using pu [of a] ua by (simp add: same_slot_def)
      ultimately show ?thesis using ua unfolding frames_def by blast
    qed
    have zero: "mem u x = 0" if "page_of x = PHYS_TO_VIRT s pa" for x
    proof -
      have "pa \<in> used_pages s' - {0}" using fr space_invD(3,9) [OF w(2)] by blast
      then have "page_of x \<in> direct_pages s'" by (auto simp: that direct_pages_def p)
      moreover have "page_of x \<notin> PHYS_TO_VIRT s' ` tables s' user_half root"
        using fr w(2) unfolding space_inv_def by (auto simp: that p)
      ultimately show ?thesis using ih(6) w(9) [OF that] by simp
    qed
    have "wired_pages root fl (visited a (min b stop)) s u"
      unfolding wired_pages_def
    proof (intro allI impI)
      fix va assume va: "PML4_IDX va \<in> user_half"
      let ?Q = "\<lambda>r. \<exists>pa. translate u root va = Some (make_pte pa fl) \<and> pa \<noteq> 0 \<and> is_page pa \<and> pa \<notin> used_pages r \<and>
                (\<forall>b. page_of b = PHYS_TO_VIRT r pa \<longrightarrow> mem u b = 0)"
      note iv = ih(5) [unfolded wired_pages_def, rule_format, OF va]
      consider "\<exists>x \<in> visited (a + 4096) (min b stop). same_slot x va"
        | "\<not> (\<exists>x \<in> visited (a + 4096) (min b stop). same_slot x va)" "same_slot a va"
        | "\<not> (\<exists>x \<in> visited (a + 4096) (min b stop). same_slot x va)" "\<not> same_slot a va" by blast
      then show "if \<exists>x \<in> visited a (min b stop). same_slot x va then ?Q s else translate u root va = translate s root va"
      proof cases
        case 1
        then have "?Q s'" using iv by simp
        then have "?Q s" using w(7) unfolding p by blast
        then show ?thesis using 1 by (simp add: vs(1))
      next
        case 2
        then have "translate u root va = Some (make_pte pa fl)" using iv pu [OF 2(2) va] by simp
        then have "?Q s" using w(4,5,6) zero by blast
        then show ?thesis using 2 by (simp add: vs(1))
      next
        case 3
        then show ?thesis using iv w(8) [OF va] by (simp add: vs(1))
      qed
    qed
    moreover have "tables u user_half root \<inter> used_pages s \<subseteq> tables s user_half root"
      using ih(7) w(7,11) by blast
    moreover have "unat a \<le> unat b" using ih(4) st(2) by simp
    ultimately show ?thesis
      using ih(1,3) w(7) vm_frame_trans [OF w(3) ih(2)] mem_s by blast
  qed (use wired_next.hyps(2) in simp)
qed

text \<open>A page takes at most four free pages: itself and three tables.\<close>

lemma wire_page_takes: "wire_page pm a fl s = (r, t) \<Longrightarrow> takes 4 s t"
proof -
  assume w: "wire_page pm a fl s = (r, t)"
  obtain pa v where al: "pmm_alloc_page s = (pa, v)" by (cases "pmm_alloc_page s")
  let ?v = "v\<lparr>mem := kmemset (PHYS_TO_VIRT v pa) 0 PMM_PAGE_SIZE (mem v)\<rparr>"
  obtain e x where m: "pmap_map pm a pa fl ?v = (e, x)" by fastforce
  have v: "takes 1 s ?v" using alloc_takes [OF al] by (simp add: takes_def free_set_def bitmap_test_def)
  have x: "takes 4 s x" using takes_trans [OF v pmap_map_takes [OF m]] by simp
  have "t = v \<or> t = x \<or> t = pmm_free_page pa x"
    using w al m by (auto simp: wire_page_def Let_def split: if_splits)
  then show "takes 4 s t"
    using alloc_takes [OF al] x free_takes [OF x, of pa] by (auto simp: takes_def)
qed

lemma wired_takes:
  assumes "wired pm fl stop a s b u" "unat stop \<le> 2 ^ 47"
  shows "\<exists>k. unat b = unat a + 4096 * k \<and> takes (4 * k) s u"
  using assms(1)
proof induction
  case (wired_here a s)
  show ?case by (rule exI [of _ 0]) (simp add: takes_def)
next
  case (wired_next a s s' b u)
  obtain k where k: "unat b = unat (a + 4096) + 4096 * k" "takes (4 * k) s' u"
    using wired_next.IH by (auto simp: PMM_PAGE_SIZE_def)
  have "takes (4 + 4 * k) s u" by (rule takes_trans [OF wire_page_takes [OF wired_next.hyps(2)] k(2)])
  then show ?case using k(1) visited_step(2) [OF wired_next.hyps(1) assms(2)] by (intro exI [of _ "Suc k"]) simp
qed

text \<open>So the loop stops early only when memory runs out.\<close>

lemma wired_stuck:
  assumes "wired pm fl stop a s b u" "unat stop \<le> 2 ^ 47" "b < stop" "wire_page pm b fl u = (r, v)"
    "card (free_set v) \<le> 1"
  shows "card (free_set s) \<le> 4 * ((unat stop - unat a) div 4096) + 5"
proof -
  obtain k where k: "unat b = unat a + 4096 * k" "takes (4 * k) s u"
    using wired_takes [OF assms(1,2)] by blast
  have "unat b < unat stop" using assms(3) by (simp add: word_less_nat_alt)
  then have "k \<le> (unat stop - unat a) div 4096" using k(1) by linarith
  then show ?thesis using k(2) wire_page_takes [OF assms(4)] assms(5) unfolding takes_def by linarith
qed

text \<open>Both loops go along such a run.\<close>

lemma wire_loops:
  assumes "wired pm fl stop a s b u" "space_inv P F root pm s" "unat stop \<le> 2 ^ 47" "pm = vm_pmap (vm_maps s vmap)"
  shows "wire_entry vmap start sz fl a stop s = wire_entry vmap start sz fl b stop u \<and>
    wire_range vmap start fl a stop s = wire_range vmap start fl b stop u"
  using assms(1,2,4)
proof induction
  case (wired_next a s s' b u)
  have ua: "PML4_IDX a \<in> user_half"
    using visited_step(1) [OF wired_next.hyps(1) assms(3)] visited_user [OF assms(3), of a a] user_half_idx by simp
  have "space_inv P F root pm s' \<and> vm_frame s s'"
    by (cases rule: wire_page_spec [OF wired_next.prems(1) ua, of fl]) (use wired_next.hyps(2) in simp_all)
  then have "space_inv P F root pm s'" "pm = vm_pmap (vm_maps s' vmap)"
    using wired_next.prems(2) vm_frame_fields(1) [of s s'] by simp_all
  note ih = wired_next.IH [OF this]
  note hyps = wired_next.hyps(1,2) [unfolded wired_next.prems(2)]
  have "wire_entry vmap start sz fl a stop s = wire_entry vmap start sz fl b stop u"
    by (subst wire_entry.simps) (simp only: hyps if_True prod.case ih not_True_eq_False if_False)
  moreover have "wire_range vmap start fl a stop s = wire_range vmap start fl b stop u"
    by (subst wire_range.simps) (simp only: hyps if_True prod.case ih not_True_eq_False if_False)
  ultimately show ?case ..
qed simp_all

section \<open>Entering a range\<close>

text \<open>The position of a new range: behind the entries that start below it.\<close>

definition entries_below :: "'a vm_state_scheme \<Rightarrow> u64 \<Rightarrow> addr list \<Rightarrow> addr list" where
  "entries_below s a es = takeWhile (\<lambda>e. vme_start (vm_entries s e) < a) es"

definition entries_above :: "'a vm_state_scheme \<Rightarrow> u64 \<Rightarrow> addr list \<Rightarrow> addr list" where
  "entries_above s a es = dropWhile (\<lambda>e. vme_start (vm_entries s e) < a) es"

lemma entries_below_above: "entries_below s a es @ entries_above s a es = es"
  by (simp add: entries_below_def entries_above_def)

abbreviation new_entry :: "u64 \<Rightarrow> u64 \<Rightarrow> u32 \<Rightarrow> u32 \<Rightarrow> u32 \<Rightarrow> vm_map_entry" where
  "new_entry start stop prot max_prot flags \<equiv> zero_entry\<lparr>vme_start := start, vme_end := stop, vme_prot := prot,
     vme_max_prot := max_prot, vme_flags := flags\<rparr>"

lemma range_ok_bounds:
  assumes "range_ok vmap start sz s"
  shows "start < start + sz" "min_offset (vm_maps s vmap) \<le> start" "start + sz \<le> max_offset (vm_maps s vmap)"
proof -
  have "start \<noteq> start + sz" "start \<le> start + sz" using assms by (auto simp: range_ok_def)
  then show "start < start + sz" by (metis le_neq_trans)
qed (use assms in \<open>auto simp: range_ok_def\<close>)

lemma enter_entry:
  fixes s :: "'a vm_state_scheme"
  assumes inv: "vm_inv P F root es vmap s" and ok: "range_ok vmap start sz s"
    and no: "\<not> (\<exists>e \<in> set es. overlaps s start (start + sz) e)"
  obtains (full) "zalloc (vm_map_entry_zone s) s = Some (0, s)"
      "free_set s = {} \<or> max_size (zone_store s (the (vm_map_entry_zone s))) \<noteq> 0"
  | (entry) ne s1 s2 pos t P' F' where "zalloc (vm_map_entry_zone s) s = Some (ne, s1)" "ne \<noteq> 0" "ne \<notin> set es"
      "s2 = upd_entry ne (\<lambda>_. new_entry start (start + sz) prot max_prot flags) s1"
      "find_pos vmap start (header vmap) s2 = Some pos"
      "t = upd_map vmap (\<lambda>m. m\<lparr>nentries := nentries m + 1\<rparr>) (map_list_insert_after pos ne s2)"
      "vm_inv P' F' root (entries_below s start es @ ne # entries_above s start es) vmap t"
      "entry_info t = (entry_info s)(ne := (start, start + sz, prot, max_prot, flags))"
      "vm_maps t = (vm_maps s)(vmap := (vm_maps s vmap)\<lparr>nentries := nentries (vm_maps s vmap) + 1\<rparr>)"
      "\<And>va. PML4_IDX va \<in> user_half \<Longrightarrow> translate t root va = translate s root va"
      "used_pages s \<subseteq> used_pages t" "hhdm_offset t = hhdm_offset s" "takes 1 s t"
proof -
  note d = vm_invD [OF inv] and rb = range_ok_bounds [OF ok]
  let ?h = "header vmap" and ?pm = "vm_pmap (vm_maps s vmap)"
  obtain i j where ij: "vm_map_entry_zone s = Some i" "vm_map_zone s = Some j" "i \<noteq> j" "i < zone_count s"
    "j < zone_count s" "elem_size (zone_store s i) = sizeof_vm_map_entry" "elem_size (zone_store s j) = sizeof_vm_map"
    "set es \<subseteq> zone_live P F s i" "vmap \<in> zone_live P F s j"
    using d(2) unfolding entries_inv_def by blast
  show thesis
  proof (cases rule: space_inv_zalloc [OF d(1) ij(4)])
    case 1
    then show thesis using full ij(1) by simp
  next
    case (2 ne s1 P' F')
    obtain m b c zs where s1: "s1 = s\<lparr>mem := m, bitmap := b, free_count := c, zone_store := zs\<rparr>" using 2(12) by blast
    define s2 where "s2 = upd_entry ne (\<lambda>_. new_entry start (start + sz) prot max_prot flags) s1"
    have e2: "vm_entries s2 x = (if x = ne then new_entry start (start + sz) prot max_prot flags else vm_entries s x)" for x
      by (simp add: s2_def upd_entry_def s1)
    have rep1: "zones_rep P' F' s1" using 2(3) by (simp add: space_inv_def)
    have ne: "ne \<notin> set es" using 2(4) ij(8) by blast
    have neh: "ne \<noteq> ?h"
    proof
      assume "ne = ?h"
      then have "?h \<in> zone_live P' F' s1 i" using 2(5) by simp
      moreover have "?h \<notin> zone_live P' F' s1 i"
        by (rule header_not_live [OF rep1, of i j]) (use ij 2(6,7,8) in simp_all)
      ultimately show False by blast
    qed
    have ml2: "map_list s2 vmap es"
      by (rule map_list_cong [OF d(3)]) (use ne neh in \<open>auto simp: e2\<close>)
    let ?as = "entries_below s start es" and ?bs = "entries_above s start es"
    have es: "?as @ ?bs = es" by (rule entries_below_above)
    have tw: "takeWhile (\<lambda>e. vme_start (vm_entries s2 e) < start) es = ?as"
      "dropWhile (\<lambda>e. vme_start (vm_entries s2 e) < start) es = ?bs"
      unfolding entries_below_def entries_above_def
      by (intro takeWhile_cong dropWhile_cong, simp_all, metis e2 ne)+
    define pos where "pos = last (?h # ?as)"
    have fp: "find_pos vmap start ?h s2 = Some pos"
      using find_pos_list [of s2 ?h es vmap start] ml2 unfolding map_list_def tw pos_def by auto
    define t where "t = upd_map vmap (\<lambda>m. m\<lparr>nentries := nentries m + 1\<rparr>) (map_list_insert_after pos ne s2)"
    let ?l = "map_list_insert_after pos ne s2"
    have l: "?l = s2\<lparr>vm_entries := vm_entries ?l\<rparr>" by (rule list_ops_frame(1))
    have te: "vm_entries t = vm_entries ?l" by (simp add: t_def upd_map_def)
    have tf: "zone_count t = zone_count s1" "zone_store t = zone_store s1" "vm_map_zone t = vm_map_zone s"
      "vm_map_entry_zone t = vm_map_entry_zone s" "hhdm_offset t = hhdm_offset s" unfolding t_def upd_map_def
      by (simp, subst l, simp add: s2_def upd_entry_def s1)+
    have tm: "vm_maps t = (vm_maps s)(vmap := (vm_maps s vmap)\<lparr>nentries := nentries (vm_maps s vmap) + 1\<rparr>)"
    proof -
      have "vm_maps ?l = vm_maps s" by (subst l) (simp add: s2_def upd_entry_def s1)
      then show ?thesis by (simp add: t_def upd_map_def)
    qed
    have ts: "t = s1\<lparr>vm_maps := vm_maps t, vm_entries := vm_entries t\<rparr>"
      unfolding te unfolding t_def upd_map_def by (subst l) (simp add: s2_def upd_entry_def)
    have spt: "space_inv P' F' root ?pm t" by (subst ts) (simp only: space_inv_heaps 2(3))
    have zl: "zone_live P' F' t k = zone_live P' F' s1 k" for k by (subst ts) (simp only: space_inv_heaps)
    have info: "entry_info t = (entry_info s)(ne := (start, start + sz, prot, max_prot, flags))"
      by (rule ext) (simp add: entry_info_def te map_list_insert_after_def upd_entry_def Let_def e2)
    have se: "vme_start (vm_entries t x) = (if x = ne then start else vme_start (vm_entries s x))"
      "vme_end (vm_entries t x) = (if x = ne then start + sz else vme_end (vm_entries s x))" for x
      by (simp_all add: te e2)
    have ml: "map_list t vmap (?as @ ne # ?bs)"
    proof -
      have "map_list ?l vmap (?as @ ne # ?bs)"
        by (rule map_list_insert [OF _ _ 2(2) pos_def]) (use ml2 ne neh es in auto)
      then show ?thesis by (rule map_list_cong) (simp add: te)
    qed
    have so: "sorted_entries t (?as @ ne # ?bs)"
    proof -
      have "sorted_entries s2 es = sorted_entries s es" by (rule sorted_entries_cong) (use ne in \<open>auto simp: e2\<close>)
      then have "sorted_entries s2 es" using d(4) by simp
      moreover have "\<not> (\<exists>e \<in> set es. overlaps s2 start (start + sz) e)" using no ne by (auto simp: e2)
      ultimately have "sorted_entries s2 (?as @ ne # ?bs)"
        using sorted_entries_insert [of s2 es start "start + sz" ne] rb(1) unfolding tw by (simp add: e2)
      then show ?thesis using sorted_entries_cong [of "?as @ ne # ?bs" t s2] by (simp add: te)
    qed
    have seteq: "set (?as @ ne # ?bs) = insert ne (set es)" using arg_cong [OF es, of set] by auto
    have len: "length (?as @ ne # ?bs) = Suc (length es)" using arg_cong [OF es, of length] by simp
    have b: "\<forall>x \<in> set (?as @ ne # ?bs). min_offset (vm_maps t vmap) \<le> vme_start (vm_entries t x) \<and>
        vme_end (vm_entries t x) \<le> max_offset (vm_maps t vmap)"
      unfolding seteq using d(7,8) rb(2,3) ne by (auto simp: tm se)
    have z: "set (?as @ ne # ?bs) \<subseteq> zone_live P' F' t i" unfolding seteq zl 2(5) using ij(8) by blast
    have v: "vmap \<in> zone_live P' F' t j" using ij(3,9) 2(6) by (simp add: zl)
    have n: "nentries (vm_maps t vmap) = of_nat (length (?as @ ne # ?bs))" unfolding len by (simp add: tm d(5))
    have mx: "unat (max_offset (vm_maps t vmap)) \<le> 2 ^ 47" using d(6) by (simp add: tm)
    have "entries_inv P' F' (?as @ ne # ?bs) vmap t"
      unfolding entries_inv_def
      by (intro conjI exI [of _ i] exI [of _ j] ml so n mx b z v) (use ij 2(7,8) in \<open>simp_all add: tf\<close>)
    then have iv: "vm_inv P' F' root (?as @ ne # ?bs) vmap t" using spt by (simp add: vm_inv_def tm)
    show thesis
    proof (rule entry [OF _ 2(2) ne s2_def fp t_def iv info tm])
      show "zalloc (vm_map_entry_zone s) s = Some (ne, s1)" using 2(1) ij(1) by simp
      show "translate t root va = translate s root va" if "PML4_IDX va \<in> user_half" for va
        using 2(9) [OF that] by (subst ts) (simp only: space_inv_heaps)
      show "used_pages s \<subseteq> used_pages t" using 2(11) by (subst ts) (simp only: space_inv_heaps)
      show "hhdm_offset t = hhdm_offset s" by (rule tf(5))
      have "bitmap t = bitmap s1" by (subst ts) simp
      then show "takes 1 s t"
        using zalloc_takes [OF 2(1)] by (simp add: takes_def free_set_def bitmap_test_def)
    qed
  qed
qed

lemma range_ok_iff:
  "range_ok vmap start sz s \<longleftrightarrow> sz \<noteq> 0 \<and> min_offset (vm_maps s vmap) \<le> start \<and>
     unat start + unat sz \<le> unat (max_offset (vm_maps s vmap))"
proof (cases "unat start + unat sz < 2 ^ 64")
  case True
  then have u: "unat (start + sz) = unat start + unat sz" using unat_add_no_wrap [of start sz] by simp
  then show ?thesis by (auto simp: range_ok_def not_less not_le word_le_nat_alt)
next
  case False
  then have big: "18446744073709551616 \<le> unat start + unat sz" by simp
  note b = unat_lt_64 [of start] unat_lt_64 [of sz] unat_lt_64 [of "max_offset (vm_maps s vmap)"]
  have "\<not> unat start + unat sz \<le> unat (max_offset (vm_maps s vmap))" using big b(3) by linarith
  moreover have "start + sz < start"
  proof -
    have "unat start + unat sz - 18446744073709551616 < 18446744073709551616" using b by linarith
    then have "(unat start + unat sz) mod 18446744073709551616 = unat start + unat sz - 18446744073709551616"
      using big le_mod_geq by simp
    moreover have "unat start + unat sz - 18446744073709551616 < unat start" using big b(2) by linarith
    ultimately show ?thesis by (simp add: word_less_nat_alt unat_word_ariths)
  qed
  ultimately show ?thesis by (auto simp: range_ok_def)
qed

lemma visited_min: "visited a (min b stop) \<subseteq> visited a stop"
  by (auto simp: visited_def min_def word_le_nat_alt)

text \<open>What the loop of \<open>vm_map_enter\<close> does behind the new entry.\<close>

lemma wire_entry_spec:
  fixes s :: "'a vm_state_scheme"
  assumes inv: "vm_inv P F root (as @ ne # bs) vmap s" and ne: "entry_info s ne = (start, start + sz, prot, max_prot, flags)"
    and lt: "start < start + sz" and stop: "unat (start + sz) \<le> 2 ^ 47"
    and no: "\<forall>e \<in> set (as @ bs). \<not> overlaps s start (start + sz) e"
  obtains (ok) t where "wire_entry vmap start sz fl start (start + sz) s = Some (KERN_SUCCESS, t)"
      "vm_inv P F root (as @ ne # bs) vmap t" "map_frame vmap s t" "vm_maps t = vm_maps s" "used_pages s \<subseteq> used_pages t"
      "wired_pages root fl (visited start (start + sz)) s t"
  | (nomem) t F' where "wire_entry vmap start sz fl start (start + sz) s = Some (KERN_NO_SPACE, t)"
      "card (free_set s) \<le> 4 * (unat sz div 4096) + 5"
      "vm_inv P F' root (as @ bs) vmap t" "map_frame vmap s t"
      "\<And>va. PML4_IDX va \<in> user_half \<Longrightarrow> translate t root va =
         (if \<exists>x \<in> visited start (start + sz). same_slot x va then None else translate s root va)"
proof -
  let ?stop = "start + sz"
  note d = vm_invD [OF inv]
  obtain b u where w: "wired (vm_pmap (vm_maps s vmap)) fl ?stop start s b u"
    "b < ?stop \<longrightarrow> \<not> fst (wire_page (vm_pmap (vm_maps s vmap)) b fl u)"
    using wired_ends [OF d(1) stop] by blast
  have ws: "space_inv P F root (vm_pmap (vm_maps s vmap)) u" "vm_frame s u" "used_pages s \<subseteq> used_pages u"
    "unat start \<le> unat b" "wired_pages root fl (visited start (min b ?stop)) s u"
    using wired_spec [OF w(1) d(1) stop] by blast+
  have iu: "vm_inv P F root (as @ ne # bs) vmap u" by (rule vm_inv_frame [OF inv ws(2,1)])
  have pm: "vm_pmap (vm_maps u vmap) = vm_pmap (vm_maps s vmap)" by (simp add: vm_frame_fields [OF ws(2)])
  have run: "wire_entry vmap start sz fl start ?stop s = wire_entry vmap start sz fl b ?stop u"
    using wire_loops [OF w(1) d(1) stop refl] by blast
  show thesis
  proof (cases "b < ?stop")
    case False
    then have "wire_entry vmap start sz fl start ?stop s = Some (KERN_SUCCESS, u)"
      unfolding run by (simp add: wire_entry.simps [of vmap start sz fl b])
    moreover have "wired_pages root fl (visited start ?stop) s u"
      using ws(5) False by (simp add: min_def not_less split: if_splits)
    ultimately show thesis
      by (rule ok [OF _ iu vm_frame_map_frame [OF ws(2)] vm_frame_fields(1) [OF ws(2)] ws(3)])
  next
    case True
    have ub: "user_addr b" using True stop by (simp add: user_addr_def word_less_nat_alt)
    show thesis
    proof (cases rule: wire_page_spec [OF ws(1) user_half_idx [OF ub], of fl])
      case (1 v)
      have iv: "vm_inv P F root (as @ ne # bs) vmap v"
        by (rule vm_inv_frame [OF iu 1(3)]) (simp add: pm 1(2))
      have sv: "vm_frame s v" by (rule vm_frame_trans [OF ws(2) 1(3)])
      note vf = vm_frame_fields [OF sv]
      have "unat ?stop - unat start = unat sz" using unat_sub [of start ?stop] lt by simp
      then have few: "card (free_set s) \<le> 4 * (unat sz div 4096) + 5"
        using wired_stuck [OF w(1) stop True 1(1,6)] by simp
      obtain t F' where t: "vm_map_remove vmap start sz v = Some (KERN_SUCCESS, t)"
        "vm_inv P F' root (filter (\<lambda>e. \<not> overlaps v start ?stop e) (as @ ne # bs)) vmap t" "map_frame vmap v t"
        "unmapped root (removed v start ?stop (as @ ne # bs)) v t"
        by (rule vm_map_remove_spec [OF iv])
      have ni: "vme_start (vm_entries s ne) = start" "vme_end (vm_entries s ne) = ?stop"
        using ne by (simp_all add: entry_info_def Let_def)
      have one: "{e \<in> set (as @ ne # bs). overlaps v start ?stop e} = {ne}"
        using no lt ni unfolding vf by auto
      have "filter (\<lambda>e. \<not> overlaps v start ?stop e) (as @ ne # bs) = as @ bs"
        using no lt ni unfolding vf by (auto simp: filter_id_conv)
      note t2 = t(2) [unfolded this]
      have rm: "removed v start ?stop (as @ ne # bs) = visited start ?stop"
        unfolding removed_def one by (simp add: vf ni)
      have "wire_entry vmap start sz fl start ?stop s = Some (KERN_NO_SPACE, t)"
        unfolding run by (subst wire_entry.simps) (simp add: True pm 1(1) t(1))
      moreover have "translate t root va = (if \<exists>x \<in> visited start ?stop. same_slot x va then None else translate s root va)"
        if va: "PML4_IDX va \<in> user_half" for va
      proof (cases "\<exists>x \<in> visited start ?stop. same_slot x va")
        case True
        then show ?thesis using t(4) va unfolding unmapped_def rm by simp
      next
        case False
        then have "\<not> (\<exists>x \<in> visited start (min b ?stop). same_slot x va)" using visited_min by blast
        then have "translate u root va = translate s root va"
          using ws(5) va unfolding wired_pages_def by simp
        then show ?thesis using t(4) va False 1(4) [OF va] unfolding unmapped_def rm by simp
      qed
      ultimately show thesis
        by (intro nomem [of t F'] t2 map_frame_trans [OF vm_frame_map_frame [OF sv] t(3)]) (simp_all add: few)
    next
      case (2 pa v)
      then show thesis using w(2) True by simp
    qed
  qed
qed

lemma wire_range_spec:
  fixes s :: "'a vm_state_scheme"
  assumes inv: "vm_inv P F root es vmap s" and stop: "unat stop \<le> 2 ^ 47"
    and no: "\<forall>e \<in> set es. \<not> overlaps s start stop e"
  obtains (ok) t where "wire_range vmap start fl start stop s = Some (KERN_SUCCESS, t)"
      "vm_inv P F root es vmap t" "map_frame vmap s t" "wired_pages root fl (visited start stop) s t"
  | (nomem) b t F' where "wire_range vmap start fl start stop s = Some (KERN_NO_SPACE, t)"
      "vm_inv P F' root es vmap t" "map_frame vmap s t" "b < stop"
      "card (free_set s) \<le> 4 * ((unat stop - unat start) div 4096) + 5"
      "\<And>va. PML4_IDX va \<in> user_half \<Longrightarrow> \<exists>x \<in> visited start b. same_slot x va \<Longrightarrow> \<exists>pa. pa \<notin> used_pages s \<and>
         translate t root va = Some (make_pte pa fl)"
      "\<And>va. PML4_IDX va \<in> user_half \<Longrightarrow> \<not> (\<exists>x \<in> visited start b. same_slot x va) \<Longrightarrow>
         translate t root va = translate s root va"
proof -
  note d = vm_invD [OF inv]
  obtain b u where w: "wired (vm_pmap (vm_maps s vmap)) fl stop start s b u"
    "b < stop \<longrightarrow> \<not> fst (wire_page (vm_pmap (vm_maps s vmap)) b fl u)"
    using wired_ends [OF d(1) stop] by blast
  have ws: "space_inv P F root (vm_pmap (vm_maps s vmap)) u" "vm_frame s u" "used_pages s \<subseteq> used_pages u"
    "unat start \<le> unat b" "wired_pages root fl (visited start (min b stop)) s u"
    using wired_spec [OF w(1) d(1) stop] by blast+
  have iu: "vm_inv P F root es vmap u" by (rule vm_inv_frame [OF inv ws(2,1)])
  have pm: "vm_pmap (vm_maps u vmap) = vm_pmap (vm_maps s vmap)" by (simp add: vm_frame_fields [OF ws(2)])
  have run: "wire_range vmap start fl start stop s = wire_range vmap start fl b stop u"
    using wire_loops [OF w(1) d(1) stop refl] by blast
  show thesis
  proof (cases "b < stop")
    case False
    then have "wire_range vmap start fl start stop s = Some (KERN_SUCCESS, u)"
      unfolding run by (simp add: wire_range.simps [of vmap start fl b])
    moreover have "wired_pages root fl (visited start stop) s u"
      using ws(5) False by (simp add: min_def not_less split: if_splits)
    ultimately show thesis by (rule ok [OF _ iu vm_frame_map_frame [OF ws(2)]])
  next
    case True
    have ub: "user_addr b" using True stop by (simp add: user_addr_def word_less_nat_alt)
    show thesis
    proof (cases rule: wire_page_spec [OF ws(1) user_half_idx [OF ub], of fl])
      case (1 v)
      have iv: "vm_inv P F root es vmap v" by (rule vm_inv_frame [OF iu 1(3)]) (simp add: pm 1(2))
      have sv: "vm_frame s v" by (rule vm_frame_trans [OF ws(2) 1(3)])
      note vf = vm_frame_fields [OF sv]
      have sb: "start + (b - start) = b" by simp
      obtain t F' where t: "vm_map_remove vmap start (b - start) v = Some (KERN_SUCCESS, t)"
        "vm_inv P F' root (filter (\<lambda>e. \<not> overlaps v start b e) es) vmap t" "map_frame vmap v t"
        "unmapped root (removed v start b es) v t"
        by (rule vm_map_remove_spec [OF iv, of start "b - start", unfolded sb])
      have nb: "\<not> overlaps v start b e" if "e \<in> set es" for e
        using no that True unfolding vf by (meson less_trans)
      then have "filter (\<lambda>e. \<not> overlaps v start b e) es = es" by (simp add: filter_id_conv)
      note t2 = t(2) [unfolded this]
      have rm: "removed v start b es = {}" using nb unfolding removed_def by blast
      have tr: "translate t root va = translate u root va" if "PML4_IDX va \<in> user_half" for va
        using t(4) 1(4) that unfolding unmapped_def rm by simp
      have "wire_range vmap start fl start stop s = Some (KERN_NO_SPACE, t)"
        unfolding run by (subst wire_range.simps) (simp add: True pm 1(1) t(1))
      moreover have "min b stop = b" using True by (auto simp: min_def)
      ultimately show thesis
        using ws(5) tr unfolding wired_pages_def
        by (intro nomem [of t F' b] t2 map_frame_trans [OF vm_frame_map_frame [OF sv] t(3)] True
            wired_stuck [OF w(1) stop True 1(1,6)]) (auto; metis)+
    next
      case (2 pa v)
      then show thesis using w(2) True by simp
    qed
  qed
qed

lemma vm_map_enter_spec:
  fixes s :: "'a vm_state_scheme"
  assumes inv: "vm_inv P F root es vmap s" and ro: "range_ok vmap start sz s"
    and no: "\<not> (\<exists>e \<in> set es. overlaps s start (start + sz) e)"
  obtains (full) "vm_map_enter vmap start sz prot max_prot flags s = Some (KERN_NO_SPACE, s)"
      "free_set s = {} \<or> max_size (zone_store s (the (vm_map_entry_zone s))) \<noteq> 0"
  | (nomem) t P' F' where "vm_map_enter vmap start sz prot max_prot flags s = Some (KERN_NO_SPACE, t)"
      "flags AND VME_WIRED \<noteq> 0" "card (free_set s) \<le> 4 * (unat sz div 4096) + 6"
      "vm_inv P' F' root es vmap t" "\<forall>e \<in> set es. entry_info t e = entry_info s e"
      "\<forall>m. m \<noteq> vmap \<longrightarrow> vm_maps t m = vm_maps s m"
      "\<And>va. PML4_IDX va \<in> user_half \<Longrightarrow> translate t root va =
         (if \<exists>x \<in> visited start (start + sz). same_slot x va then None else translate s root va)"
  | (ok) t P' F' ne where "vm_map_enter vmap start sz prot max_prot flags s = Some (KERN_SUCCESS, t)"
      "ne \<notin> set es" "vm_inv P' F' root (entries_below s start es @ ne # entries_above s start es) vmap t"
      "entry_info t = (entry_info s)(ne := (start, start + sz, prot, max_prot, flags))"
      "\<forall>m. m \<noteq> vmap \<longrightarrow> vm_maps t m = vm_maps s m"
      "if flags AND VME_WIRED \<noteq> 0 then wired_pages root (prot_to_pte prot) (visited start (start + sz)) s t
       else \<forall>va. PML4_IDX va \<in> user_half \<longrightarrow> translate t root va = translate s root va"
proof -
  note d = vm_invD [OF inv] and rb = range_ok_bounds [OF ro]
  let ?stop = "start + sz" and ?as = "entries_below s start es" and ?bs = "entries_above s start es"
  have ov: "overlap_loop vmap start ?stop (next_of s (header vmap)) s = Some False"
    using overlap_loop_list [OF d(9,10,11)] no by simp
  show thesis
  proof (cases rule: enter_entry [OF inv ro no, where prot = prot and max_prot = max_prot and flags = flags])
    case 1
    have "vm_map_enter vmap start sz prot max_prot flags s = Some (KERN_NO_SPACE, s)"
      using ro by (simp add: vm_map_enter_def Let_def ov 1(1))
    then show thesis using 1(2) by (rule full)
  next
    case (2 ne s1 s2 pos t P' F')
    have run: "vm_map_enter vmap start sz prot max_prot flags s =
        (if flags AND VME_WIRED \<noteq> 0 then wire_entry vmap start sz (prot_to_pte prot) start ?stop t
         else Some (KERN_SUCCESS, t))"
      using ro 2(2,5) by (simp add: vm_map_enter_def Let_def ov 2(1) 2(4) [symmetric] 2(6) [symmetric])
    have om: "\<forall>m. m \<noteq> vmap \<longrightarrow> vm_maps t m = vm_maps s m" using 2(9) by simp
    show thesis
    proof (cases "flags AND VME_WIRED = 0")
      case True
      show thesis
        by (rule ok [OF _ 2(3,7,8) om]) (use True 2(10) in \<open>simp_all add: run\<close>)
    next
      case False
      have info: "entry_info t ne = (start, ?stop, prot, max_prot, flags)" by (simp add: 2(8))
      have tn: "vme_start (vm_entries t e) = vme_start (vm_entries s e)" "vme_end (vm_entries t e) = vme_end (vm_entries s e)"
        if "e \<noteq> ne" for e
        using fun_cong [OF 2(8), of e] that by (simp_all add: entry_info_def Let_def)
      have st: "set (?as @ ?bs) = set es" by (simp only: entries_below_above)
      have nt: "\<forall>e \<in> set (?as @ ?bs). \<not> overlaps t start ?stop e"
        unfolding st using no tn 2(3) by metis
      have stop: "unat ?stop \<le> 2 ^ 47" using rb(3) d(6) by (simp add: word_le_nat_alt)
      have p: "PHYS_TO_VIRT t = PHYS_TO_VIRT s" by (rule ext) (simp add: PHYS_TO_VIRT_def 2(12))
      show thesis
      proof (cases rule: wire_entry_spec [OF 2(7) info rb(1) stop nt, of "prot_to_pte prot"])
        case (1 u)
        have "wired_pages root (prot_to_pte prot) (visited start ?stop) s u"
          using 1(6) 2(10,11) unfolding wired_pages_def p by (smt (verit, del_insts) subsetD)
        moreover have "entry_info u = entry_info t" using 1(3) by (simp add: map_frame_def)
        ultimately show thesis
          by (intro ok [of u ne P' F']) (use 1(1,2,4) False run 2(3,8) om in simp_all)
      next
        case (2 u F1)
        have es: "?as @ ?bs = es" by (rule entries_below_above)
        have "card (free_set s) \<le> 4 * (unat sz div 4096) + 6"
          using 2(2) \<open>takes 1 s t\<close> by (simp add: takes_def)
        moreover have "entry_info u = entry_info t" "\<forall>m. m \<noteq> vmap \<longrightarrow> vm_maps u m = vm_maps t m"
          using 2(4) by (auto simp: map_frame_def)
        moreover have "\<forall>e \<in> set es. entry_info t e = entry_info s e"
          using \<open>ne \<notin> set es\<close> \<open>entry_info t = _\<close> by auto
        ultimately show thesis
          using 2(1,3,5) False run om es \<open>\<And>va. PML4_IDX va \<in> user_half \<Longrightarrow> translate t root va = translate s root va\<close>
          by (intro nomem [of u P' F1]) simp_all
      qed
    qed
  qed
qed

section \<open>A new map\<close>

definition zones_ready :: "'a vm_state_scheme \<Rightarrow> bool" where
  "zones_ready s \<longleftrightarrow> (\<exists>i j. vm_map_entry_zone s = Some i \<and> vm_map_zone s = Some j \<and> i \<noteq> j \<and>
     i < zone_count s \<and> j < zone_count s \<and> elem_size (zone_store s i) = sizeof_vm_map_entry \<and>
     elem_size (zone_store s j) = sizeof_vm_map)"

lemma vm_map_create_spec:
  fixes s :: "'a vm_state_scheme"
  assumes sp: "space_inv P F root pm s" and zr: "zones_ready s" and mx: "unat mx \<le> 2 ^ 47"
  obtains (full) "vm_map_create pm mn mx s = Some (0, s)"
      "free_set s = {} \<or> max_size (zone_store s (the (vm_map_zone s))) \<noteq> 0"
  | (ok) vmap t P' F' where "vm_map_create pm mn mx s = Some (vmap, t)" "vmap \<noteq> 0" "vm_inv P' F' root [] vmap t"
      "min_offset (vm_maps t vmap) = mn" "max_offset (vm_maps t vmap) = mx" "vm_pmap (vm_maps t vmap) = pm"
      "\<And>va. PML4_IDX va \<in> user_half \<Longrightarrow> translate t root va = translate s root va" "takes 1 s t"
      "vm_map_entry_zone t = vm_map_entry_zone s" "\<And>j. max_size (zone_store s j) = 0 \<Longrightarrow> max_size (zone_store t j) = 0"
proof -
  note d = space_invD [OF sp]
  obtain i j where ij: "vm_map_entry_zone s = Some i" "vm_map_zone s = Some j" "i \<noteq> j" "i < zone_count s"
    "j < zone_count s" "elem_size (zone_store s i) = sizeof_vm_map_entry" "elem_size (zone_store s j) = sizeof_vm_map"
    using zr unfolding zones_ready_def by blast
  show thesis
  proof (cases rule: space_inv_zalloc [OF sp ij(5)])
    case 1
    have "vm_map_create pm mn mx s = Some (0, s)" using ij(2) 1(1) by (simp add: vm_map_create_def VM_MAP_NULL_def)
    then show thesis using 1(2) ij(2) by (intro full) simp_all
  next
    case (2 vmap s1 P' F')
    define t where "t = map_list_init vmap (upd_map vmap (\<lambda>_. zero_map\<lparr>min_offset := mn, max_offset := mx,
         map_ref_count := 1, vm_pmap := pm\<rparr>) (upd_entry (header vmap) (\<lambda>_. zero_entry) s1))"
    have run: "vm_map_create pm mn mx s = Some (vmap, t)"
      using ij(2) 2(1,2) by (simp add: vm_map_create_def VM_MAP_NULL_def t_def)
    obtain m b c zs where s1: "s1 = s\<lparr>mem := m, bitmap := b, free_count := c, zone_store := zs\<rparr>" using 2(12) by blast
    have ts: "t = s1\<lparr>vm_maps := vm_maps t, vm_entries := vm_entries t\<rparr>"
      by (simp add: t_def map_list_init_def upd_map_def upd_entry_def)
    have tf: "vm_map_zone t = Some j" "vm_map_entry_zone t = Some i" "zone_count t = zone_count s"
      "zone_store t = zone_store s1" "bitmap t = bitmap s1"
      by (subst ts, simp add: s1 ij)+
    have vm: "vm_maps t vmap = zero_map\<lparr>min_offset := mn, max_offset := mx, map_ref_count := 1, vm_pmap := pm\<rparr>"
      by (simp add: t_def map_list_init_def upd_map_def upd_entry_def)
    have zl: "zone_live P' F' t k = zone_live P' F' s1 k" for k by (subst ts) (simp only: space_inv_heaps)
    have rep1: "zones_rep P' F' s1" using 2(3) by (simp add: space_inv_def)
    have h0: "header vmap \<noteq> 0"
    proof
      assume h: "header vmap = 0"
      have j1: "j < zone_count s1" using ij(5) 2(7) by simp
      have "vmap \<in> zone_live P' F' s1 j" using 2(5) by simp
      then have "page_of (header vmap) \<in> P' j"
        by (rule zones_slot_page [OF rep1 j1]) (simp add: 2(8) ij(7) header_def sizeof_vm_map_def)
      then show False using zones_rep_pages(2) [OF rep1 j1] by (auto simp: h page_of_def)
    qed
    have ml: "map_list t vmap []"
      using h0 by (simp add: map_list_def t_def map_list_init_def upd_map_def upd_entry_def)
    have "entries_inv P' F' [] vmap t"
      unfolding entries_inv_def using ml mx ij 2(5,8) zl
      by (intro conjI exI [of _ i] exI [of _ j]) (simp_all add: vm tf zero_map_def)
    moreover have "space_inv P' F' root pm t" by (subst ts) (simp only: space_inv_heaps 2(3))
    ultimately have inv: "vm_inv P' F' root [] vmap t" by (simp add: vm_inv_def vm)
    have zc: "zalloc (vm_map_zone s) s = Some (vmap, s1)" using 2(1) ij(2) by simp
    show thesis
    proof (rule ok [OF run 2(2) inv])
      show "min_offset (vm_maps t vmap) = mn" "max_offset (vm_maps t vmap) = mx" "vm_pmap (vm_maps t vmap) = pm"
        by (simp_all add: vm)
      show "translate t root va = translate s root va" if "PML4_IDX va \<in> user_half" for va
        using 2(9) [OF that] by (subst ts) (simp only: space_inv_heaps)
      show "takes 1 s t" using zalloc_takes [OF zc] tf(5) by (simp add: takes_def free_set_def bitmap_test_def)
      show "vm_map_entry_zone t = vm_map_entry_zone s" by (simp add: tf ij)
      show "max_size (zone_store t k) = 0" if "max_size (zone_store s k) = 0" for k
        using zalloc_max_size [OF zc, of k] that by (simp add: tf)
    qed
  qed
qed

section \<open>Properties\<close>

text \<open>
  The state the witnesses use: an empty page table at 0x1000, both zones, and sixteen free pages.
\<close>

definition blank_vm :: vm_state where
  "blank_vm = \<lparr>mem = (\<lambda>_. 0), hhdm_offset = 0xffff800000000000, console = [], port_outs = [],
     port_ins = (\<lambda>_. 0),
     bitmap = (\<lambda>i. if i = 0 then 0x0000ffff else - 1), bitmap_base = 0, total_pages = 0, free_count = 48,
     zone_store = (\<lambda>i. blank_zone\<lparr>elem_size := if i = 0 then 48 else 80\<rparr>), zone_count = 2,
     pmaps = (\<lambda>_. \<lparr>pml4_phys = 0x1000, pm_ref_count = 1\<rparr>), pmap_kernel = 0xffffffff80000000, cr3 = 0x1000,
     tlb = (\<lambda>_. None),
     vm_maps = (\<lambda>_. zero_map), vm_entries = (\<lambda>_. zero_entry), vm_map_zone = Some 1, vm_map_entry_zone = Some 0,
     kernel_map = 0xffffffff80010000\<rparr>"

lemma bitmap_test_blank: "bitmap_test blank_vm p \<longleftrightarrow> \<not> (16 \<le> p \<and> p < 64)"
proof -
  have u: "unat (p div 64) = unat p div 64" "unat (p mod 64) = unat p mod 64" by (simp_all add: unat_div unat_mod)
  have m: "(0xffff :: u64) = mask 16" by (simp add: mask_eq_exp_minus_1)
  have w: "p div 64 = 0 \<longleftrightarrow> unat p < 64" by (simp add: word_unat_eq_iff u div_eq_0_iff)
  have le: "(16 \<le> p \<and> p < 64) = (16 \<le> unat p \<and> unat p < 64)" by (simp add: word_le_nat_alt word_less_nat_alt)
  have b: "unat p mod 64 < 64" by simp
  show ?thesis
    unfolding le bitmap_test_bit
    by (cases "unat p < 64") (auto simp: blank_vm_def WORD_IDX_def BIT_IDX_def BITS_PER_WORD_def w u m bit_mask_iff)
qed

lemma free_set_blank: "free_set blank_vm = {p. 16 \<le> p \<and> p < 64}" "card (free_set blank_vm) = 48"
proof -
  show f: "free_set blank_vm = {p. 16 \<le> p \<and> p < 64}"
    by (auto simp: free_set_def bitmap_test_blank PMM_MAX_PAGES_def word_less_nat_alt)
  have "unat ` free_set blank_vm = {16..<64}"
  proof (intro set_eqI iffI)
    fix n assume "n \<in> {16..<64::nat}"
    then have "n = unat (of_nat n :: u64)" "of_nat n \<in> free_set blank_vm"
      by (simp_all add: f word_le_nat_alt word_less_nat_alt unat_of_nat64)
    then show "n \<in> unat ` free_set blank_vm" by blast
  qed (auto simp: f word_le_nat_alt word_less_nat_alt)
  moreover have "inj_on unat (free_set blank_vm)" by (auto intro: inj_onI word64_eqI)
  ultimately show "card (free_set blank_vm) = 48"
    using card_image [of unat "free_set blank_vm"] by simp
qed

lemma blank_vm_space: "space_inv (\<lambda>_. {}) (\<lambda>_. []) 0x1000 0xffffffff80000000 blank_vm"
  "\<And>va. PML4_IDX va \<in> user_half \<Longrightarrow> translate blank_vm 0x1000 va = None" "zones_ready blank_vm"
proof -
  let ?s = blank_vm
  have h: "hhdm_ok ?s" by (simp add: hhdm_ok_def blank_vm_def aligned_def)
  have inv: "pmm_inv ?s"
    using free_set_blank(2) bitmap_test_blank [of 0] by (simp add: pmm_inv_def count_ok_def word_le_nat_alt) (simp add: blank_vm_def)
  have u: "0x1000 \<in> used_pages ?s"
    using page_in_used_pages [of 1 ?s] bitmap_test_blank [of 1] by (simp add: word_le_nat_alt)
  have z: "load64 (\<lambda>_. 0) q = 0" for q by (rule bit_word_eqI) (simp add: load64_def bit_load_bytes)
  have "read_pte ?s 0x1000 (of_nat j) = 0" for j by (simp add: read_pte_def blank_vm_def z)
  note e = empty_user_half [OF h used_is_page [OF u] _ u this, simplified]
  show tr: "translate ?s 0x1000 va = None" if "PML4_IDX va \<in> user_half" for va using e(2) that by simp
  have "zones_rep (\<lambda>_. {}) (\<lambda>_. []) ?s"
    using inv h by (simp add: zones_rep_def ZONE_MAX_def)
      (simp add: blank_vm_def zone_ok_def blank_zone_def elem_ok_def aligned_def live_def zone_slots_def)
  moreover have "pmap_inv user_half 0x1000 0xffffffff80000000 ?s"
    using e(1) inv by (simp add: pmap_inv_def) (simp add: blank_vm_def)
  moreover have "frames 0x1000 ?s = {}" using tr by (auto simp: frames_def)
  moreover have "zone_pages (\<lambda>_. {}) ?s = {}" by (simp add: zone_pages_def)
  ultimately show "space_inv (\<lambda>_. {}) (\<lambda>_. []) 0x1000 0xffffffff80000000 ?s"
    using u tr by (simp add: space_inv_def owned_def e(3))
  show "zones_ready ?s"
    by (simp add: zones_ready_def) (simp add: blank_vm_def blank_zone_def sizeof_vm_map_entry_def sizeof_vm_map_def)
qed

text \<open>A map of user addresses in that state, and that map with two wired pages at 0x400000.\<close>

definition one_map :: "addr \<times> vm_state" where
  "one_map = the (vm_map_create 0xffffffff80000000 0x1000 0x7ffffffff000 blank_vm)"

definition entry_with :: "u32 \<Rightarrow> vm_state" where
  "entry_with prot = snd (the (vm_map_enter (fst one_map) 0x400000 0x2000 prot VM_PROT_ALL VME_WIRED (snd one_map)))"

abbreviation one_entry :: vm_state where
  "one_entry \<equiv> entry_with VM_PROT_DEFAULT"

lemma one_map_ok:
  obtains P F where "vm_inv P F 0x1000 [] (fst one_map) (snd one_map)" "card (free_set (snd one_map)) \<ge> 47"
    "min_offset (vm_maps (snd one_map) (fst one_map)) = 0x1000"
    "max_offset (vm_maps (snd one_map) (fst one_map)) = 0x7ffffffff000"
    "\<And>va. PML4_IDX va \<in> user_half \<Longrightarrow> translate (snd one_map) 0x1000 va = None"
    "vm_map_entry_zone (snd one_map) = Some 0" "max_size (zone_store (snd one_map) 0) = 0"
proof (cases rule: vm_map_create_spec [OF blank_vm_space(1,3), of "0x7ffffffff000" "0x1000"])
  case 2
  have "max_size (zone_store blank_vm i) = 0" for i by (simp add: blank_vm_def blank_zone_def)
  then show ?thesis using 2(2) free_set_blank(2) by auto
next
  case (3 vmap t P' F')
  then have o: "one_map = (vmap, t)" by (simp add: one_map_def)
  show ?thesis
  proof (rule that [of P' F'])
    show "card (free_set (snd one_map)) \<ge> 47" using 3(8) free_set_blank(2) by (simp add: o takes_def)
    show "max_size (zone_store (snd one_map) 0) = 0" using 3(10) [of 0] by (simp add: o blank_vm_def blank_zone_def)
    show "vm_map_entry_zone (snd one_map) = Some 0" using 3(9) by (simp add: o blank_vm_def)
  qed (use 3 blank_vm_space(2) in \<open>simp_all add: o\<close>)
qed simp


lemma visited_0x400000: "0x400000 \<in> visited 0x400000 0x402000" "0x401000 \<in> visited 0x400000 0x402000"
proof -
  show "0x400000 \<in> visited 0x400000 0x402000" unfolding visited_def by (rule CollectI, rule exI [of _ 0]) simp
  show "0x401000 \<in> visited 0x400000 0x402000" unfolding visited_def by (rule CollectI, rule exI [of _ 1]) simp
qed

lemma wired_mapped:
  assumes "wired_pages root fl X s t" "x \<in> X" "user_addr x"
  shows "\<exists>pa. translate t root x = Some (make_pte pa fl)"
proof -
  have "\<exists>y \<in> X. same_slot y x" using assms(2) by (auto simp: same_slot_def)
  then show ?thesis using assms(1) user_half_idx [OF assms(3)] unfolding wired_pages_def by (metis (lifting))
qed

lemma entry_with_ok:
  obtains P F ne where "vm_inv P F 0x1000 [ne] (fst one_map) (entry_with prot)"
    "entry_info (entry_with prot) ne = (0x400000, 0x402000, prot, VM_PROT_ALL, VME_WIRED)"
    "\<exists>pa. translate (entry_with prot) 0x1000 0x401000 = Some (make_pte pa (prot_to_pte prot))"
proof (rule one_map_ok)
  fix P F
  let ?m = "fst one_map" and ?s = "snd one_map"
  assume o: "vm_inv P F 0x1000 [] ?m ?s" "card (free_set ?s) \<ge> 47" "min_offset (vm_maps ?s ?m) = 0x1000"
    "max_offset (vm_maps ?s ?m) = 0x7ffffffff000" "vm_map_entry_zone ?s = Some 0" "max_size (zone_store ?s 0) = 0"
  have ro: "range_ok ?m 0x400000 0x2000 ?s" by (simp add: range_ok_iff o(3,4) word_le_nat_alt)
  have w: "VME_WIRED AND VME_WIRED \<noteq> 0" by (simp add: VME_WIRED_def)
  show thesis
  proof (cases rule: vm_map_enter_spec [OF o(1) ro, where prot = prot and max_prot = VM_PROT_ALL
        and flags = VME_WIRED])
    case 2
    then have "free_set ?s = {}" using o(5,6) by simp
    then show thesis using o(2) by simp
  next
    case (3 t P' F')
    then show thesis using o(2) by simp
  next
    case (4 t P' F' ne)
    have t: "entry_with prot = t" using 4(1) by (simp add: entry_with_def)
    have "0x401000 \<in> visited 0x400000 (0x400000 + 0x2000)" using visited_0x400000 by simp
    then have "\<exists>pa. translate t 0x1000 0x401000 = Some (make_pte pa (prot_to_pte prot))"
      using wired_mapped [of "0x1000" _ _ ?s t "0x401000"] 4(6) w by (auto simp: user_addr_def)
    then show thesis
      using 4(3) 4(4) by (intro that [of P' F' ne]) (simp_all add: t entries_below_def entries_above_def)
  qed simp
qed

lemma one_entry_ok:
  obtains P F ne where "vm_inv P F 0x1000 [ne] (fst one_map) one_entry"
    "entry_info one_entry ne = (0x400000, 0x402000, VM_PROT_DEFAULT, VM_PROT_ALL, VME_WIRED)"
    "\<exists>e. translate one_entry 0x1000 0x401000 = Some e"
  by (rule entry_with_ok [of VM_PROT_DEFAULT]) blast

text \<open>
  Lookup returns the one entry whose range contains the address, and null exactly when no entry
  contains it; it always returns.
\<close>

lemma vm_map_lookup_correct:
  assumes "vm_inv P F root es vmap s"
  shows "\<exists>e. vm_map_lookup_entry vmap addr s = Some e \<and>
    (e = 0 \<longleftrightarrow> (\<forall>f \<in> set es. \<not> covers s addr f)) \<and>
    (e \<noteq> 0 \<longrightarrow> e \<in> set es \<and> covers s addr e \<and> (\<forall>f \<in> set es. covers s addr f \<longrightarrow> f = e))"
proof -
  note d = vm_invD [OF assms]
  have look: "vm_map_lookup_entry vmap addr s = Some (case find (covers s addr) es of None \<Rightarrow> 0 | Some e \<Rightarrow> e)"
    unfolding vm_map_lookup_entry_def by (rule lookup_loop_list [OF d(9,10,11)])
  show ?thesis
  proof (cases "find (covers s addr) es")
    case None
    then have "vm_map_lookup_entry vmap addr s = Some 0" using look by simp
    then show ?thesis using None by (auto simp: find_None_iff)
  next
    case (Some e)
    then have l: "vm_map_lookup_entry vmap addr s = Some e" using look by simp
    have e: "e \<in> set es" "covers s addr e" using Some by (auto simp: find_Some_iff)
    moreover have "f = e" if "f \<in> set es" "covers s addr f" for f
      by (rule sorted_entries_unique [OF d(4,13) that(1) e(1) that(2) e(2)])
    moreover have "e \<noteq> 0" using e(1) d(11) by blast
    ultimately show ?thesis using l by blast
  qed
qed

lemma vm_map_lookup_correct_witness:
  "\<exists>e. vm_map_lookup_entry (fst one_map) 0x401234 one_entry = Some e \<and> e \<noteq> 0 \<and>
     vme_start (vm_entries one_entry e) = 0x400000"
proof (rule one_entry_ok)
  fix P F ne
  assume o: "vm_inv P F 0x1000 [ne] (fst one_map) one_entry"
    "entry_info one_entry ne = (0x400000, 0x402000, VM_PROT_DEFAULT, VM_PROT_ALL, VME_WIRED)"
  show ?thesis using vm_map_lookup_correct [OF o(1), of "0x401234"] o(2) by (auto simp: entry_info_def Let_def word_le_nat_alt word_less_nat_alt)
qed

text \<open>
  C4: Entering a range.  A range that is empty, wraps or leaves the map is refused, an occupied one gets
  no space, both without a change.  Otherwise either the new entry stands at its place in the sorted
  list, the other entries and maps are as before, and if the range is wired exactly its pages are mapped,
  to fresh zeroed pages; or, only when memory or the zone is short, the entries are those of before.
\<close>

theorem vm_map_enter_correct:
  fixes s :: "'a vm_state_scheme"
  assumes inv: "vm_inv P F root es vmap s"
  shows "\<exists>r t P' F'. vm_map_enter vmap start sz prot max_prot flags s = Some (r, t) \<and>
    (if \<not> (sz \<noteq> 0 \<and> min_offset (vm_maps s vmap) \<le> start \<and>
           unat start + unat sz \<le> unat (max_offset (vm_maps s vmap)))
     then r = KERN_INVALID_ARGUMENT \<and> t = s
     else if \<exists>e \<in> set es. overlaps s start (start + sz) e then r = KERN_NO_SPACE \<and> t = s
     else (\<forall>m. m \<noteq> vmap \<longrightarrow> vm_maps t m = vm_maps s m) \<and>
       (r = KERN_SUCCESS \<and>
          (\<exists>ne. ne \<notin> set es \<and>
             vm_inv P' F' root (entries_below s start es @ ne # entries_above s start es) vmap t \<and>
             entry_info t = (entry_info s)(ne := (start, start + sz, prot, max_prot, flags))) \<and>
          (if flags AND VME_WIRED \<noteq> 0
           then wired_pages root (prot_to_pte prot) (visited start (start + sz)) s t
           else \<forall>va. user_addr va \<longrightarrow> translate t root va = translate s root va) \<or>
        r = KERN_NO_SPACE \<and>
          (card (free_set s) \<le> 4 * (unat sz div 4096) + 6 \<or>
             max_size (zone_store s (the (vm_map_entry_zone s))) \<noteq> 0) \<and>
          vm_inv P' F' root es vmap t \<and> (\<forall>e \<in> set es. entry_info t e = entry_info s e) \<and>
          (\<forall>va. user_addr va \<longrightarrow> translate t root va = translate s root va \<or>
             (\<exists>x \<in> visited start (start + sz). same_slot x va) \<and> translate t root va = None)))"
proof -
  let ?fits = "sz \<noteq> 0 \<and> min_offset (vm_maps s vmap) \<le> start \<and> unat start + unat sz \<le> unat (max_offset (vm_maps s vmap))"
  let ?over = "\<exists>e \<in> set es. overlaps s start (start + sz) e"
  note fits = range_ok_iff [of vmap start sz s]
  consider "\<not> ?fits" | "?fits" "?over" | "?fits" "\<not> ?over" by blast
  then show ?thesis
  proof cases
    case 1
    then have "vm_map_enter vmap start sz prot max_prot flags s = Some (KERN_INVALID_ARGUMENT, s)"
      using fits by (simp add: vm_map_enter_def)
    then show ?thesis using 1 by (intro exI conjI) (assumption, simp)
  next
    case 2
    note d = vm_invD [OF inv]
    have "vm_map_enter vmap start sz prot max_prot flags s = Some (KERN_NO_SPACE, s)"
      using overlap_loop_list [OF d(9,10,11), of start "start + sz"] 2 fits by (simp add: vm_map_enter_def Let_def)
    then show ?thesis using 2 by (intro exI conjI) (assumption, simp)
  next
    case 3
    then have ro: "range_ok vmap start sz s" using fits by blast
    show ?thesis
    proof (cases rule: vm_map_enter_spec [OF inv ro 3(2), where prot = prot and max_prot = max_prot and flags = flags])
      case full: 1
      then show ?thesis using 3 inv by (intro exI [of _ KERN_NO_SPACE] exI [of _ s] exI [of _ P] exI [of _ F]) auto
    next
      case nomem: (2 t P' F')
      have "translate t root va = translate s root va \<or>
          (\<exists>x \<in> visited start (start + sz). same_slot x va) \<and> translate t root va = None" if "user_addr va" for va
        using nomem(7) [OF user_half_idx [OF that]] by auto
      then show ?thesis using nomem 3
        by (intro exI [of _ KERN_NO_SPACE] exI [of _ t] exI [of _ P'] exI [of _ F']) auto
    next
      case ok: (3 t P' F' ne)
      have "\<exists>ne. ne \<notin> set es \<and> vm_inv P' F' root (entries_below s start es @ ne # entries_above s start es) vmap t \<and>
          entry_info t = (entry_info s)(ne := (start, start + sz, prot, max_prot, flags))"
        using ok(2,3,4) by blast
      moreover have "if flags AND VME_WIRED \<noteq> 0 then wired_pages root (prot_to_pte prot) (visited start (start + sz)) s t
          else \<forall>va. user_addr va \<longrightarrow> translate t root va = translate s root va"
        using ok(6) user_half_idx by (auto split: if_splits)
      ultimately show ?thesis using ok(1,5) 3
        by (intro exI [of _ KERN_SUCCESS] exI [of _ t] exI [of _ P'] exI [of _ F']) simp
    qed
  qed
qed

theorem vm_map_enter_correct_witness:
  "\<exists>r t. vm_map_enter (fst one_map) 0x400000 0x2000 VM_PROT_DEFAULT VM_PROT_ALL VME_WIRED (snd one_map) = Some (r, t) \<and>
     r = KERN_SUCCESS \<and> (\<exists>e. translate t 0x1000 0x401000 = Some e)"
proof (rule one_map_ok)
  fix P F
  let ?m = "fst one_map" and ?s = "snd one_map"
  assume o: "vm_inv P F 0x1000 [] ?m ?s" "card (free_set ?s) \<ge> 47" "min_offset (vm_maps ?s ?m) = 0x1000"
    "max_offset (vm_maps ?s ?m) = 0x7ffffffff000" "vm_map_entry_zone ?s = Some 0" "max_size (zone_store ?s 0) = 0"
  have w: "VME_WIRED AND VME_WIRED \<noteq> 0" by (simp add: VME_WIRED_def)
  obtain r t where rt: "vm_map_enter ?m 0x400000 0x2000 VM_PROT_DEFAULT VM_PROT_ALL VME_WIRED ?s = Some (r, t)"
    "r = KERN_SUCCESS" "wired_pages 0x1000 (prot_to_pte VM_PROT_DEFAULT) (visited 0x400000 (0x400000 + 0x2000)) ?s t"
    using vm_map_enter_correct [OF o(1), of "0x400000" "0x2000" VM_PROT_DEFAULT VM_PROT_ALL VME_WIRED] o(2-6) w
    by (auto simp: word_le_nat_alt)
  have "0x401000 \<in> visited 0x400000 (0x400000 + 0x2000)" using visited_0x400000 by simp
  then have "\<exists>e. translate t 0x1000 0x401000 = Some e"
    using wired_mapped [OF rt(3), of "0x401000"] by (auto simp: user_addr_def)
  then show ?thesis using rt by blast
qed

text \<open>
  C5: Removing a range always succeeds.  It removes exactly the entries that overlap the range, keeps the
  others and their order, unmaps exactly the pages of the removed entries inside the range, and gives
  exactly their frames back.
\<close>

theorem vm_map_remove_correct:
  assumes "vm_inv P F root es vmap s"
  shows "\<exists>t F'. vm_map_remove vmap start sz s = Some (KERN_SUCCESS, t) \<and>
    vm_inv P F' root (filter (\<lambda>e. \<not> overlaps s start (start + sz) e) es) vmap t \<and>
    entry_info t = entry_info s \<and> (\<forall>m. m \<noteq> vmap \<longrightarrow> vm_maps t m = vm_maps s m) \<and>
    (\<forall>va. user_addr va \<longrightarrow> translate t root va =
       (if \<exists>x \<in> removed s start (start + sz) es. same_slot x va then None else translate s root va)) \<and>
    used_pages t = used_pages s - freed_frames root (removed s start (start + sz) es) s"
proof (rule vm_map_remove_spec [OF assms, of start sz])
  fix t F'
  assume t: "vm_map_remove vmap start sz s = Some (KERN_SUCCESS, t)"
    "vm_inv P F' root (filter (\<lambda>e. \<not> overlaps s start (start + sz) e) es) vmap t" "map_frame vmap s t"
    "unmapped root (removed s start (start + sz) es) s t"
  have "entry_info t = entry_info s \<and> (\<forall>m. m \<noteq> vmap \<longrightarrow> vm_maps t m = vm_maps s m)"
    using t(3) by (auto simp: map_frame_def)
  moreover have "translate t root va =
       (if \<exists>x \<in> removed s start (start + sz) es. same_slot x va then None else translate s root va)" if "user_addr va" for va
    using t(4) user_half_idx [OF that] unfolding unmapped_def by blast
  ultimately show ?thesis using t(1,2,4) unfolding unmapped_def by blast
qed

theorem vm_map_remove_correct_witness:
  "\<exists>t. vm_map_remove (fst one_map) 0x400000 0x2000 one_entry = Some (KERN_SUCCESS, t) \<and>
     vm_map_lookup_entry (fst one_map) 0x401000 t = Some 0 \<and> translate t 0x1000 0x401000 = None"
proof (rule one_entry_ok)
  fix P F ne
  assume o: "vm_inv P F 0x1000 [ne] (fst one_map) one_entry"
    "entry_info one_entry ne = (0x400000, 0x402000, VM_PROT_DEFAULT, VM_PROT_ALL, VME_WIRED)"
  have ne: "vme_start (vm_entries one_entry ne) = 0x400000" "vme_end (vm_entries one_entry ne) = 0x402000"
    using o(2) by (simp_all add: entry_info_def Let_def)
  have one: "{e \<in> set [ne]. overlaps one_entry 0x400000 (0x400000 + 0x2000) e} = {ne}"
    by (auto simp: ne word_less_nat_alt)
  have rm: "removed one_entry 0x400000 (0x400000 + 0x2000) [ne] = visited 0x400000 0x402000"
    unfolding removed_def one by (simp add: ne)
  have fl: "filter (\<lambda>e. \<not> overlaps one_entry 0x400000 (0x400000 + 0x2000) e) [ne] = []" by (simp add: ne)
  obtain t F' where t: "vm_map_remove (fst one_map) 0x400000 0x2000 one_entry = Some (KERN_SUCCESS, t)"
    "vm_inv P F' 0x1000 [] (fst one_map) t"
    "\<And>va. user_addr va \<Longrightarrow> translate t 0x1000 va =
       (if \<exists>x \<in> visited 0x400000 0x402000. same_slot x va then None else translate one_entry 0x1000 va)"
    using vm_map_remove_correct [OF o(1), of "0x400000" "0x2000", unfolded fl rm] by blast
  note d = vm_invD [OF t(2)]
  have "vm_map_lookup_entry (fst one_map) 0x401000 t = Some 0"
    unfolding vm_map_lookup_entry_def using lookup_loop_list [OF d(9,10,11)] by simp
  moreover have "\<exists>x \<in> visited 0x400000 0x402000. same_slot x 0x401000"
    using visited_0x400000(2) by (auto simp: same_slot_def)
  then have "translate t 0x1000 0x401000 = None" using t(3) [of "0x401000"] by (simp add: user_addr_def)
  ultimately show ?thesis using t(1) by blast
qed

text \<open>
  Removing part of an entry removes the whole entry but unmaps only the part: a page of the entry
  outside the range stays mapped, its frame stays in use, and no entry covers it any more.
\<close>

lemma vm_map_remove_partial_leaves_mapping:
  assumes inv: "vm_inv P F root es vmap s" and e: "e \<in> set es" "overlaps s start (start + sz) e"
    and va: "covers s va e" "user_addr va" "translate s root va = Some pte"
    and out: "\<forall>x \<in> removed s start (start + sz) es. \<not> same_slot x va"
  shows "\<exists>t. vm_map_remove vmap start sz s = Some (KERN_SUCCESS, t) \<and> translate t root va = Some pte \<and>
    vm_map_lookup_entry vmap va t = Some 0"
proof (rule vm_map_remove_spec [OF inv, of start sz])
  fix t F'
  assume t: "vm_map_remove vmap start sz s = Some (KERN_SUCCESS, t)"
    "vm_inv P F' root (filter (\<lambda>e. \<not> overlaps s start (start + sz) e) es) vmap t" "map_frame vmap s t"
    "unmapped root (removed s start (start + sz) es) s t"
  note d = vm_invD [OF inv] and dt = vm_invD [OF t(2)]
  have "translate t root va = Some pte"
    using t(4) out va user_half_idx [OF va(2)] unfolding unmapped_def by auto
  moreover have "find (covers t va) (filter (\<lambda>e. \<not> overlaps s start (start + sz) e) es) = None"
    unfolding find_None_iff
  proof
    assume "\<exists>f. f \<in> set (filter (\<lambda>e. \<not> overlaps s start (start + sz) e) es) \<and> covers t va f"
    then obtain f where f: "f \<in> set (filter (\<lambda>e. \<not> overlaps s start (start + sz) e) es)" "covers t va f" by blast
    have "f \<in> set es" using f(1) by simp
    moreover have "covers s va f" using f(2) by (simp add: map_frame_fields [OF t(3)])
    ultimately have "f = e" using sorted_entries_unique [OF d(4,13) _ e(1) _ va(1)] by blast
    then show False using f(1) e(2) by simp
  qed
  then have "vm_map_lookup_entry vmap va t = Some 0"
    unfolding vm_map_lookup_entry_def using lookup_loop_list [OF dt(9,10,11), of va] by simp
  ultimately show ?thesis using t(1) by blast
qed

lemma vm_map_remove_partial_leaves_mapping_witness:
  "\<exists>t. vm_map_remove (fst one_map) 0x400000 0x1000 one_entry = Some (KERN_SUCCESS, t) \<and>
     (\<exists>pte. translate t 0x1000 0x401000 = Some pte) \<and> vm_map_lookup_entry (fst one_map) 0x401000 t = Some 0"
proof (rule one_entry_ok)
  fix P F ne
  assume o: "vm_inv P F 0x1000 [ne] (fst one_map) one_entry"
    "entry_info one_entry ne = (0x400000, 0x402000, VM_PROT_DEFAULT, VM_PROT_ALL, VME_WIRED)"
    "\<exists>e. translate one_entry 0x1000 0x401000 = Some e"
  obtain pte where pte: "translate one_entry 0x1000 0x401000 = Some pte" using o(3) by blast
  have ne: "vme_start (vm_entries one_entry ne) = 0x400000" "vme_end (vm_entries one_entry ne) = 0x402000"
    using o(2) by (simp_all add: entry_info_def Let_def)
  have one: "{e \<in> set [ne]. overlaps one_entry 0x400000 (0x400000 + 0x1000) e} = {ne}"
    by (auto simp: ne word_less_nat_alt)
  have rm: "removed one_entry 0x400000 (0x400000 + 0x1000) [ne] = visited 0x400000 0x401000"
    unfolding removed_def one by (simp add: ne word_le_nat_alt min_def)
  have "\<not> same_slot x 0x401000" if "x \<in> visited 0x400000 0x401000" for x
  proof -
    obtain k where "unat x = unat (0x400000 :: u64) + 4096 * k" "unat x < unat (0x401000 :: u64)"
      using \<open>x \<in> visited 0x400000 0x401000\<close> unfolding visited_def by blast
    then have k: "unat x = 0x400000 + 4096 * k" "unat x < 0x401000" by simp_all
    then have "x = 0x400000" by (intro word64_eqI) simp
    then show ?thesis by (simp add: same_slot_def PT_IDX_def)
  qed
  then have "\<forall>x \<in> removed one_entry 0x400000 (0x400000 + 0x1000) [ne]. \<not> same_slot x 0x401000" unfolding rm by blast
  from vm_map_remove_partial_leaves_mapping [OF o(1) _ _ _ _ pte this, of ne] pte show ?thesis
    by (auto simp: ne user_addr_def word_le_nat_alt word_less_nat_alt)
qed

text \<open>
  \<open>vm_map_page_range\<close> maps a range without making entries.  On success every page of the range is
  mapped to a fresh zeroed page.  When memory runs out, which needs more than four free pages per page of
  the range, it reports no space; where no entry overlaps the range its roll-back finds nothing to remove, so
  the pages mapped so far stay mapped and in use.
\<close>

lemma vm_map_page_range_correct:
  fixes s :: "'a vm_state_scheme"
  assumes inv: "vm_inv P F root es vmap s"
    and no: "\<forall>e \<in> set es. \<not> overlaps s start (start + sz) e"
    and fits: "sz \<noteq> 0" "min_offset (vm_maps s vmap) \<le> start"
      "unat start + unat sz \<le> unat (max_offset (vm_maps s vmap))"
  shows "\<exists>r t F'. vm_map_page_range vmap start sz prot s = Some (r, t) \<and> vm_inv P F' root es vmap t \<and>
    entry_info t = entry_info s \<and>
    (r = KERN_SUCCESS \<and> wired_pages root (prot_to_pte prot) (visited start (start + sz)) s t \<or>
     r = KERN_NO_SPACE \<and> card (free_set s) \<le> 4 * (unat sz div 4096) + 5 \<and>
       (\<exists>b < start + sz. \<forall>va. user_addr va \<longrightarrow>
          (if \<exists>x \<in> visited start b. same_slot x va
           then \<exists>pa. pa \<notin> used_pages s \<and> translate t root va = Some (make_pte pa (prot_to_pte prot))
           else translate t root va = translate s root va)))"
proof -
  have ro: "range_ok vmap start sz s" using fits by (simp add: range_ok_iff)
  note rb = range_ok_bounds [OF ro]
  have stop: "unat (start + sz) \<le> 2 ^ 47" using rb(3) vm_invD(6) [OF inv] by (simp add: word_le_nat_alt)
  have run: "vm_map_page_range vmap start sz prot s = wire_range vmap start (prot_to_pte prot) start (start + sz) s"
    using ro by (simp add: vm_map_page_range_def)
  have "unat (start + sz) - unat start = unat sz" using unat_sub [of start "start + sz"] rb(1) by simp
  note sz = this
  show ?thesis
  proof (cases rule: wire_range_spec [OF inv stop no, where fl = "prot_to_pte prot"])
    case (1 t)
    then show ?thesis by (intro exI [of _ KERN_SUCCESS] exI [of _ t] exI [of _ F]) (simp add: run map_frame_def)
  next
    case (2 b t F')
    have "\<forall>va. user_addr va \<longrightarrow> (if \<exists>x \<in> visited start b. same_slot x va
           then \<exists>pa. pa \<notin> used_pages s \<and> translate t root va = Some (make_pte pa (prot_to_pte prot))
           else translate t root va = translate s root va)"
      using 2(6,7) user_half_idx by simp
    moreover have "entry_info t = entry_info s" using 2(3) by (simp add: map_frame_def)
    ultimately show ?thesis using 2(1,2,4,5) unfolding run sz by blast
  qed
qed

lemma vm_map_page_range_correct_witness:
  "\<exists>r t. vm_map_page_range (fst one_map) 0x400000 0x2000 VM_PROT_DEFAULT (snd one_map) = Some (r, t) \<and>
     r = KERN_SUCCESS \<and> (\<exists>e. translate t 0x1000 0x401000 = Some e)"
proof (rule one_map_ok)
  fix P F
  let ?m = "fst one_map" and ?s = "snd one_map"
  assume o: "vm_inv P F 0x1000 [] ?m ?s" "card (free_set ?s) \<ge> 47" "min_offset (vm_maps ?s ?m) = 0x1000"
    "max_offset (vm_maps ?s ?m) = 0x7ffffffff000"
  obtain r t where rt: "vm_map_page_range ?m 0x400000 0x2000 VM_PROT_DEFAULT ?s = Some (r, t)"
    "r = KERN_SUCCESS" "wired_pages 0x1000 (prot_to_pte VM_PROT_DEFAULT) (visited 0x400000 (0x400000 + 0x2000)) ?s t"
    using vm_map_page_range_correct [OF o(1), of "0x400000" "0x2000" VM_PROT_DEFAULT] o(2-4)
    by (auto simp: word_le_nat_alt)
  have "0x401000 \<in> visited 0x400000 (0x400000 + 0x2000)" using visited_0x400000 by simp
  then have "\<exists>e. translate t 0x1000 0x401000 = Some e"
    using wired_mapped [OF rt(3), of "0x401000"] by (auto simp: user_addr_def)
  then show ?thesis using rt by blast
qed

end
