(* ===== verification/Vm_Fault.thy ===== *)
theory Vm_Fault
  imports Vm_Map
begin

text \<open>\<^verbatim>\<open>vm/vm_fault.c\<close>: resolution of page faults.\<close>

datatype vm_fault_return =
    VM_FAULT_SUCCESS
  | VM_FAULT_BAD_ADDRESS
  | VM_FAULT_PROTECTION
  | VM_FAULT_OOM

definition VM_FAULT_READ :: int where "VM_FAULT_READ = 0"
definition VM_FAULT_WRITE :: int where "VM_FAULT_WRITE = 1"
definition VM_FAULT_EXECUTE :: int where "VM_FAULT_EXECUTE = 2"

text \<open>The file has its own copy of the static function \<open>prot_to_pte\<close>.\<close>

definition fault_prot_to_pte :: "u32 \<Rightarrow> u64" where
  "fault_prot_to_pte prot =
     (let f = 0;
          f = (if prot AND VM_PROT_WRITE \<noteq> 0 then f OR PTE_W else f)
      in if prot AND VM_PROT_EXECUTE = 0 then f OR PTE_NX else f)"

definition vm_fault ::
  "addr \<Rightarrow> addr \<Rightarrow> int \<Rightarrow> 'a vm_state_scheme \<Rightarrow> (vm_fault_return \<times> 'a vm_state_scheme) option" where
  "vm_fault vmap addr fault_type s =
     (let page_addr = addr AND NOT (PMM_PAGE_SIZE - 1) in
      if pmap_query (vm_pmap (vm_maps s vmap)) page_addr s \<noteq> 0 then Some (VM_FAULT_SUCCESS, s)
      else do {
        entry \<leftarrow> vm_map_lookup_entry vmap addr s;
        if entry = 0 then Some (VM_FAULT_BAD_ADDRESS, s)
        else if fault_type = VM_FAULT_WRITE \<and> vme_prot (vm_entries s entry) AND VM_PROT_WRITE = 0
        then Some (VM_FAULT_PROTECTION, s)
        else if fault_type = VM_FAULT_EXECUTE \<and> vme_prot (vm_entries s entry) AND VM_PROT_EXECUTE = 0
        then Some (VM_FAULT_PROTECTION, s)
        else
          (case pmm_alloc_page s of (paddr, s) \<Rightarrow>
             if paddr = PMM_NULL then Some (VM_FAULT_OOM, s)
             else
               let s = s\<lparr>mem := kmemset (PHYS_TO_VIRT s paddr) 0 PMM_PAGE_SIZE (mem s)\<rparr> in
               (case pmap_map (vm_pmap (vm_maps s vmap)) page_addr paddr
                       (fault_prot_to_pte (vme_prot (vm_entries s entry))) s of (r, s) \<Rightarrow>
                  if r \<noteq> 0 then Some (VM_FAULT_OOM, pmm_free_page paddr s)
                  else Some (VM_FAULT_SUCCESS, s)))
      })"

section \<open>The pages of a fault\<close>

lemma page_of_and: "addr AND NOT (PMM_PAGE_SIZE - 1) = page_of addr"
  by (simp add: page_of_def PMM_PAGE_SIZE_def)

lemma page_of_page_of [simp]: "page_of (page_of a) = page_of a"
  by (rule bit_word_eqI) (simp add: bit_page_of)

lemma user_page: "user_addr a \<Longrightarrow> user_addr (page_of a)"
  by (simp add: user_addr_def unat_page_of)

lemma fault_page:
  assumes "user_addr a"
  shows "same_slot (page_of a) b = same_slot a b" "translate s root (page_of a) = translate s root a"
proof -
  have "same_slot (page_of a) a" using same_slot_user [OF user_page [OF assms] assms] by simp
  then show "same_slot (page_of a) b = same_slot a b" by (auto simp: same_slot_def)
  show "translate s root (page_of a) = translate s root a" by (rule same_slot_translate) fact
qed


text \<open>Behind its checks a fault wires the page, like the loops of the map.\<close>

lemma fault_wires:
  "(case pmm_alloc_page s of (paddr, s) \<Rightarrow>
      if paddr = PMM_NULL then Some (VM_FAULT_OOM, s)
      else
        let s = s\<lparr>mem := kmemset (PHYS_TO_VIRT s paddr) 0 PMM_PAGE_SIZE (mem s)\<rparr> in
        (case pmap_map (vm_pmap (vm_maps s vmap)) page paddr (fault_prot_to_pte (vme_prot (vm_entries s e))) s of (r, s) \<Rightarrow>
           if r \<noteq> 0 then Some (VM_FAULT_OOM, pmm_free_page paddr s) else Some (VM_FAULT_SUCCESS, s))) =
   (case wire_page (vm_pmap (vm_maps s vmap)) page (fault_prot_to_pte (vme_prot (vm_entries s e))) s of
      (done, t) \<Rightarrow> Some (if done then VM_FAULT_SUCCESS else VM_FAULT_OOM, t))"
proof -
  obtain pa v where al: "pmm_alloc_page s = (pa, v)" by (cases "pmm_alloc_page s")
  obtain b c where v: "v = s\<lparr>bitmap := b, free_count := c\<rparr>" by (rule pmm_alloc_page_frame [OF al])
  have "vm_maps v = vm_maps s" "vm_entries v = vm_entries s" by (simp_all add: v)
  then show ?thesis by (simp add: wire_page_def al Let_def split: prod.split)
qed

lemma vm_fault_unfold:
  "vm_fault vmap addr ft s =
     (if pmap_query (vm_pmap (vm_maps s vmap)) (page_of addr) s \<noteq> 0 then Some (VM_FAULT_SUCCESS, s)
      else do {
        e \<leftarrow> vm_map_lookup_entry vmap addr s;
        if e = 0 then Some (VM_FAULT_BAD_ADDRESS, s)
        else if ft = VM_FAULT_WRITE \<and> vme_prot (vm_entries s e) AND VM_PROT_WRITE = 0 then Some (VM_FAULT_PROTECTION, s)
        else if ft = VM_FAULT_EXECUTE \<and> vme_prot (vm_entries s e) AND VM_PROT_EXECUTE = 0
        then Some (VM_FAULT_PROTECTION, s)
        else (case wire_page (vm_pmap (vm_maps s vmap)) (page_of addr) (fault_prot_to_pte (vme_prot (vm_entries s e))) s of
            (done, t) \<Rightarrow> Some (if done then VM_FAULT_SUCCESS else VM_FAULT_OOM, t))
      })"
  unfolding fault_wires [symmetric] unfolding vm_fault_def page_of_and Let_def ..

lemma vm_fault_cases:
  fixes s :: "'a vm_state_scheme"
  assumes inv: "vm_inv P F root es vmap s" and ua: "user_addr addr"
  obtains (mapped) "translate s root addr \<noteq> None" "vm_fault vmap addr ft s = Some (VM_FAULT_SUCCESS, s)"
  | (bad) "translate s root addr = None" "find (covers s addr) es = None"
      "vm_fault vmap addr ft s = Some (VM_FAULT_BAD_ADDRESS, s)"
  | (prot) e where "translate s root addr = None" "find (covers s addr) es = Some e"
      "ft = VM_FAULT_WRITE \<and> vme_prot (vm_entries s e) AND VM_PROT_WRITE = 0 \<or>
       ft = VM_FAULT_EXECUTE \<and> vme_prot (vm_entries s e) AND VM_PROT_EXECUTE = 0"
      "vm_fault vmap addr ft s = Some (VM_FAULT_PROTECTION, s)"
  | (wire) e where "translate s root addr = None" "find (covers s addr) es = Some e"
      "\<not> (ft = VM_FAULT_WRITE \<and> vme_prot (vm_entries s e) AND VM_PROT_WRITE = 0 \<or>
          ft = VM_FAULT_EXECUTE \<and> vme_prot (vm_entries s e) AND VM_PROT_EXECUTE = 0)"
      "vm_fault vmap addr ft s =
         (case wire_page (vm_pmap (vm_maps s vmap)) (page_of addr) (fault_prot_to_pte (vme_prot (vm_entries s e))) s of
            (done, t) \<Rightarrow> Some (if done then VM_FAULT_SUCCESS else VM_FAULT_OOM, t))"
proof -
  note d = vm_invD [OF inv]
  note sp = space_invD [OF d(1)]
  have pi: "PML4_IDX (page_of addr) \<in> user_half" by (rule user_half_idx [OF user_page [OF ua]])
  have q: "pmap_query (vm_pmap (vm_maps s vmap)) (page_of addr) s =
      (case translate s root addr of None \<Rightarrow> 0 | Some e \<Rightarrow> (e AND PTE_ADDR_MASK) OR (page_of addr AND 4095))"
    using pmap_query_spec [OF sp(4) pi sp(6)] by (simp add: fault_page(2) [OF ua])
  have nz: "(e AND PTE_ADDR_MASK) OR (page_of addr AND 4095) \<noteq> 0" if "translate s root addr = Some e" for e
  proof -
    have "e AND PTE_ADDR_MASK \<in> frames root s" using that user_half_idx [OF ua] unfolding frames_def by blast
    then have "e AND PTE_ADDR_MASK \<noteq> 0" using sp(3,9) by blast
    then show ?thesis by (metis or_eq_0_iff)
  qed
  have look: "vm_map_lookup_entry vmap addr s = Some (case find (covers s addr) es of None \<Rightarrow> 0 | Some e \<Rightarrow> e)"
    unfolding vm_map_lookup_entry_def by (rule lookup_loop_list [OF d(9,10,11)])
  show thesis
  proof (cases "translate s root addr")
    case (Some e)
    then have "vm_fault vmap addr ft s = Some (VM_FAULT_SUCCESS, s)"
      using nz [OF Some] by (simp add: vm_fault_unfold q)
    then show thesis using Some by (intro mapped) simp_all
  next
    case None
    then have q0: "pmap_query (vm_pmap (vm_maps s vmap)) (page_of addr) s = 0" by (simp add: q)
    show thesis
    proof (cases "find (covers s addr) es")
      case none: None
      then have "vm_fault vmap addr ft s = Some (VM_FAULT_BAD_ADDRESS, s)" by (simp add: vm_fault_unfold q0 look)
      then show thesis by (rule bad [OF None none])
    next
      case (Some e)
      then have "e \<in> set es" by (auto simp: find_Some_iff)
      then have e0: "e \<noteq> 0" using d(11) by blast
      have run: "vm_fault vmap addr ft s =
        (if ft = VM_FAULT_WRITE \<and> vme_prot (vm_entries s e) AND VM_PROT_WRITE = 0 then Some (VM_FAULT_PROTECTION, s)
         else if ft = VM_FAULT_EXECUTE \<and> vme_prot (vm_entries s e) AND VM_PROT_EXECUTE = 0
         then Some (VM_FAULT_PROTECTION, s)
         else (case wire_page (vm_pmap (vm_maps s vmap)) (page_of addr) (fault_prot_to_pte (vme_prot (vm_entries s e))) s of
            (done, t) \<Rightarrow> Some (if done then VM_FAULT_SUCCESS else VM_FAULT_OOM, t)))"
        by (simp add: vm_fault_unfold q0 look Some e0)
      show thesis
        by (cases "ft = VM_FAULT_WRITE \<and> vme_prot (vm_entries s e) AND VM_PROT_WRITE = 0 \<or>
            ft = VM_FAULT_EXECUTE \<and> vme_prot (vm_entries s e) AND VM_PROT_EXECUTE = 0")
          (use run in \<open>auto intro: prot [OF None Some] wire [OF None Some]\<close>)
    qed
  qed
qed

section \<open>Properties\<close>



text \<open>
  A fault on an address that is mapped is always reported as resolved, whatever the access: a write
  to a page mapped without the writable bit returns SUCCESS and changes nothing, so it faults again.
\<close>

lemma vm_fault_ignores_protection:
  assumes "vm_inv P F root es vmap s" "user_addr addr" "translate s root addr = Some pte" "pte AND PTE_W = 0"
  shows "vm_fault vmap addr VM_FAULT_WRITE s = Some (VM_FAULT_SUCCESS, s)"
  by (cases rule: vm_fault_cases [OF assms(1,2), where ft = VM_FAULT_WRITE]) (use assms(3) in auto)

lemma vm_fault_ignores_protection_witness:
  "vm_fault (fst one_map) 0x401000 VM_FAULT_WRITE (entry_with VM_PROT_READ) =
     Some (VM_FAULT_SUCCESS, entry_with VM_PROT_READ)"
proof (rule entry_with_ok [of VM_PROT_READ])
  fix P F ne
  assume o: "vm_inv P F 0x1000 [ne] (fst one_map) (entry_with VM_PROT_READ)"
    "\<exists>pa. translate (entry_with VM_PROT_READ) 0x1000 0x401000 = Some (make_pte pa (prot_to_pte VM_PROT_READ))"
  obtain pa where pa: "translate (entry_with VM_PROT_READ) 0x1000 0x401000 = Some (make_pte pa (prot_to_pte VM_PROT_READ))"
    using o(2) by blast
  have "make_pte pa (prot_to_pte VM_PROT_READ) AND PTE_W = 0"
    by (rule bit_word_eqI) (auto simp: make_pte_def prot_to_pte_def bit_simps bit_flags bit_PTE_ADDR_MASK)
  from vm_fault_ignores_protection [OF o(1) _ pa this] show ?thesis by (simp add: user_addr_def)
qed

end
