(* ===== verification/Cpu.thy ===== *)
theory Cpu
  imports Vm_Fault
begin

text \<open>
  \<^verbatim>\<open>hal/x86_64/cpu.c\<close>, \<^verbatim>\<open>msr.h\<close> and the interrupt flag of \<^verbatim>\<open>io.h\<close>: the data of each processor.
  \<open>cpu_data_ptr\<close> points into \<open>cpu_data_store\<close> or is null: an index or \<open>None\<close>.
\<close>

record cpu_data =
  cd_current_thread :: addr
  cd_idle_thread :: addr
  cd_cpu_id :: u32
  cd_cpu_number :: u32
  cd_stack_top :: u64
  cd_tss_rsp0 :: u64
  cd_active :: int
  cd_ticks :: u64

record cpu_state = vm_state +
  cpu_data_store :: "nat \<Rightarrow> cpu_data"
  cpu_data_base :: addr
  next_cpu_number :: u32
  cpu_data_ptr :: "nat option"
  msr :: "u32 \<Rightarrow> u64"
  interrupts :: bool
  halted :: bool

definition MAX_CPUS :: nat where "MAX_CPUS = 8"
definition MSR_EFER :: u32 where "MSR_EFER = 0xC0000080"
definition MSR_STAR :: u32 where "MSR_STAR = 0xC0000081"
definition MSR_LSTAR :: u32 where "MSR_LSTAR = 0xC0000082"
definition MSR_FMASK :: u32 where "MSR_FMASK = 0xC0000084"
definition MSR_FS_BASE :: u32 where "MSR_FS_BASE = 0xC0000100"
definition MSR_GS_BASE :: u32 where "MSR_GS_BASE = 0xC0000101"
definition MSR_KERNEL_GS_BASE :: u32 where "MSR_KERNEL_GS_BASE = 0xC0000102"

section \<open>Registers\<close>

text \<open>\<open>rdmsr\<close> and \<open>wrmsr\<close> move the value in two 32-bit halves.\<close>

definition read_msr :: "u32 \<Rightarrow> 'a cpu_state_scheme \<Rightarrow> u64" where
  "read_msr r s =
     (let lo = ucast (msr s r) :: u32; hi = ucast (drop_bit 32 (msr s r)) :: u32
      in push_bit 32 (ucast hi) OR ucast lo)"

definition write_msr :: "u32 \<Rightarrow> u64 \<Rightarrow> 'a cpu_state_scheme \<Rightarrow> 'a cpu_state_scheme" where
  "write_msr r v s =
     (let lo = ucast (v AND 0xFFFFFFFF) :: u32; hi = ucast (drop_bit 32 v) :: u32
      in s\<lparr>msr := (msr s)(r := push_bit 32 (ucast hi) OR ucast lo)\<rparr>)"

lemma halves: "push_bit 32 (ucast (ucast (drop_bit 32 v) :: u32)) OR ucast (ucast v :: u32) = (v :: u64)"
  by (rule bit_word_eqI) (auto simp: bit_simps)

lemma read_msr [simp]: "read_msr r s = msr s r"
  by (simp add: read_msr_def Let_def halves)

lemma write_msr: "write_msr r v s = s\<lparr>msr := (msr s)(r := v)\<rparr>"
proof -
  have "(ucast (v AND 0xFFFFFFFF) :: u32) = ucast v"
  proof -
    have low: "(0xFFFFFFFF :: u64) = mask 32" by (simp add: mask_eq_exp_minus_1)
    have "(ucast (v AND mask 32) :: u32) = ucast v" by (rule bit_word_eqI) (auto simp: bit_simps)
    then show ?thesis unfolding low .
  qed
  then show ?thesis by (simp add: write_msr_def Let_def halves)
qed

definition cpu_disable_interrupts :: "'a cpu_state_scheme \<Rightarrow> 'a cpu_state_scheme" where
  "cpu_disable_interrupts s = s\<lparr>interrupts := False\<rparr>"

definition cpu_enable_interrupts :: "'a cpu_state_scheme \<Rightarrow> 'a cpu_state_scheme" where
  "cpu_enable_interrupts s = s\<lparr>interrupts := True\<rparr>"

text \<open>\<open>cli; hlt\<close>: the processor stops with interrupts off.\<close>

definition cpu_halt :: "'a cpu_state_scheme \<Rightarrow> 'a cpu_state_scheme" where
  "cpu_halt s = s\<lparr>interrupts := False, halted := True\<rparr>"

definition write_fs_base :: "u64 \<Rightarrow> 'a cpu_state_scheme \<Rightarrow> 'a cpu_state_scheme" where
  "write_fs_base base s = write_msr MSR_FS_BASE base s"

section \<open>The data of a processor\<close>

definition sizeof_cpu_data :: u64 where "sizeof_cpu_data = 56"

definition blank_cpu :: cpu_data where
  "blank_cpu = \<lparr>cd_current_thread = THREAD_NULL, cd_idle_thread = THREAD_NULL, cd_cpu_id = 0, cd_cpu_number = 0,
     cd_stack_top = 0, cd_tss_rsp0 = 0, cd_active = 0, cd_ticks = 0\<rparr>"

definition cpu_init :: "'a cpu_state_scheme \<Rightarrow> 'a cpu_state_scheme" where
  "cpu_init s = fold (\<lambda>i s. s\<lparr>cpu_data_store := (cpu_data_store s)(i := blank_cpu)\<rparr>) [0..<MAX_CPUS] s"

text \<open>A processor beyond the array would be written out of bounds.\<close>

definition cpu_init_self :: "u32 \<Rightarrow> 'a cpu_state_scheme \<Rightarrow> 'a cpu_state_scheme option" where
  "cpu_init_self cid s =
     (let cpu_num = next_cpu_number s;
          s = s\<lparr>next_cpu_number := cpu_num + 1\<rparr>;
          i = unat cpu_num
      in if i \<ge> MAX_CPUS then None
         else
           let s = s\<lparr>cpu_data_store := (cpu_data_store s)(i := (cpu_data_store s i)
                     \<lparr>cd_cpu_id := cid, cd_cpu_number := cpu_num, cd_active := 1\<rparr>)\<rparr>;
               s = s\<lparr>cpu_data_ptr := Some i\<rparr>
           in Some (write_fs_base (cpu_data_base s + sizeof_cpu_data * of_nat i) s))"

definition cpu_get :: "'a cpu_state_scheme \<Rightarrow> nat option" where
  "cpu_get s = cpu_data_ptr s"

definition cpu_number :: "'a cpu_state_scheme \<Rightarrow> u32" where
  "cpu_number s = (case cpu_get s of Some i \<Rightarrow> cd_cpu_number (cpu_data_store s i) | None \<Rightarrow> 0)"

definition cpu_current_thread :: "'a cpu_state_scheme \<Rightarrow> addr" where
  "cpu_current_thread s = (case cpu_get s of Some i \<Rightarrow> cd_current_thread (cpu_data_store s i) | None \<Rightarrow> THREAD_NULL)"

definition cpu_set_current_thread :: "addr \<Rightarrow> 'a cpu_state_scheme \<Rightarrow> 'a cpu_state_scheme" where
  "cpu_set_current_thread t s =
     (case cpu_get s of
        Some i \<Rightarrow> s\<lparr>cpu_data_store := (cpu_data_store s)(i := (cpu_data_store s i)\<lparr>cd_current_thread := t\<rparr>)\<rparr>
      | None \<Rightarrow> s)"

definition cpu_idle_thread :: "'a cpu_state_scheme \<Rightarrow> addr" where
  "cpu_idle_thread s = (case cpu_get s of Some i \<Rightarrow> cd_idle_thread (cpu_data_store s i) | None \<Rightarrow> THREAD_NULL)"

definition cpu_set_idle_thread :: "addr \<Rightarrow> 'a cpu_state_scheme \<Rightarrow> 'a cpu_state_scheme" where
  "cpu_set_idle_thread t s =
     (case cpu_get s of
        Some i \<Rightarrow> s\<lparr>cpu_data_store := (cpu_data_store s)(i := (cpu_data_store s i)\<lparr>cd_idle_thread := t\<rparr>)\<rparr>
      | None \<Rightarrow> s)"

definition cpu_is_boot_cpu :: "'a cpu_state_scheme \<Rightarrow> bool" where
  "cpu_is_boot_cpu s = (case cpu_get s of Some i \<Rightarrow> cd_cpu_number (cpu_data_store s i) = 0 | None \<Rightarrow> False)"

lemma cpu_current_set [simp]:
  "cpu_data_ptr s = Some i \<Longrightarrow> cpu_current_thread (cpu_set_current_thread t s) = t"
  "cpu_idle_thread (cpu_set_current_thread t s) = cpu_idle_thread s"
  "cpu_current_thread (cpu_set_idle_thread t s) = cpu_current_thread s"
  "cpu_data_ptr (cpu_set_current_thread t s) = cpu_data_ptr s"
  "cpu_data_ptr (cpu_set_idle_thread t s) = cpu_data_ptr s"
  by (simp_all add: cpu_current_thread_def cpu_set_current_thread_def cpu_idle_thread_def cpu_set_idle_thread_def
      cpu_get_def split: option.split)

end
