(* ===== verification/Gdt.thy ===== *)
theory Gdt
  imports Cpu
begin

text \<open>
  \<^verbatim>\<open>hal/x86_64/gdt.c\<close>: the segment descriptors, the task state segment, and the effect of loading them.
  Loading a selector into FS or GS also loads its base from the descriptor, which is 0 here.
\<close>

record gdt_entry =
  limit_lo :: u16
  base_lo :: u16
  base_mid :: u8
  access :: u8
  granularity :: u8
  base_hi :: u8

record tss =
  reserved0 :: u32
  tss_rsp0 :: u64
  tss_rsp1 :: u64
  tss_rsp2 :: u64
  reserved1 :: u64
  ist :: "nat \<Rightarrow> u64"
  reserved2 :: u64
  reserved3 :: u16
  iomap_base :: u16

record gdtr =
  gdtr_limit :: u16
  gdtr_base :: u64

record gdt_state = cpu_state +
  gdt :: "nat \<Rightarrow> gdt_entry"
  gdt_addr :: addr
  kernel_tss :: tss
  kernel_tss_addr :: addr
  loaded_gdtr :: gdtr
  reg_cs :: u16
  reg_ds :: u16
  reg_es :: u16
  reg_fs :: u16
  reg_gs :: u16
  reg_ss :: u16
  reg_tr :: u16

definition GDT_KERNEL_CODE :: u16 where "GDT_KERNEL_CODE = 0x08"
definition GDT_KERNEL_DATA :: u16 where "GDT_KERNEL_DATA = 0x10"
definition GDT_TSS :: u16 where "GDT_TSS = 0x18"
definition sizeof_gdt :: u64 where "sizeof_gdt = 40"
definition sizeof_tss :: u64 where "sizeof_tss = 104"

definition gdt_set :: "nat \<Rightarrow> u32 \<Rightarrow> u32 \<Rightarrow> u8 \<Rightarrow> u8 \<Rightarrow> 'a gdt_state_scheme \<Rightarrow> 'a gdt_state_scheme" where
  "gdt_set i base limit acc gran s =
     s\<lparr>gdt := (gdt s)(i := \<lparr>limit_lo = ucast (limit AND 0xffff), base_lo = ucast (base AND 0xffff),
        base_mid = ucast (drop_bit 16 base AND 0xff), access = acc,
        granularity = ucast (drop_bit 16 limit AND 0x0f) OR (gran AND 0xf0),
        base_hi = ucast (drop_bit 24 base AND 0xff)\<rparr>)\<rparr>"

text \<open>The upper half of the descriptor: the two 32-bit words stored over entry \<open>i + 1\<close>.\<close>

definition gdt_words :: "u32 \<Rightarrow> u32 \<Rightarrow> gdt_entry" where
  "gdt_words w0 w1 = \<lparr>limit_lo = ucast w0, base_lo = ucast (drop_bit 16 w0), base_mid = ucast w1,
     access = ucast (drop_bit 8 w1), granularity = ucast (drop_bit 16 w1), base_hi = ucast (drop_bit 24 w1)\<rparr>"

definition gdt_set_tss :: "nat \<Rightarrow> u64 \<Rightarrow> u32 \<Rightarrow> 'a gdt_state_scheme \<Rightarrow> 'a gdt_state_scheme" where
  "gdt_set_tss i base limit s =
     s\<lparr>gdt := (gdt s)(i := \<lparr>limit_lo = ucast (limit AND 0xffff), base_lo = ucast (base AND 0xffff),
        base_mid = ucast (drop_bit 16 base AND 0xff), access = 0x89,
        granularity = ucast (drop_bit 16 limit AND 0x0f), base_hi = ucast (drop_bit 24 base AND 0xff)\<rparr>,
        i + 1 := gdt_words (ucast (drop_bit 32 base)) 0)\<rparr>"

definition gdt_init :: "'a gdt_state_scheme \<Rightarrow> 'a gdt_state_scheme" where
  "gdt_init s =
     (let s = gdt_set 0 0 0 0x00 0x00 s;
          s = gdt_set 1 0 0xfffff 0x9a 0xa0 s;
          s = gdt_set 2 0 0xfffff 0x92 0xa0 s;
          s = s\<lparr>loaded_gdtr := \<lparr>gdtr_limit = ucast (sizeof_gdt - 1), gdtr_base = gdt_addr s\<rparr>\<rparr>
      in s\<lparr>reg_cs := GDT_KERNEL_CODE, reg_ds := GDT_KERNEL_DATA, reg_es := GDT_KERNEL_DATA,
           reg_fs := GDT_KERNEL_DATA, reg_gs := GDT_KERNEL_DATA, reg_ss := GDT_KERNEL_DATA,
           msr := (msr s)(MSR_FS_BASE := 0, MSR_GS_BASE := 0)\<rparr>)"

definition zero_tss :: tss where
  "zero_tss = \<lparr>reserved0 = 0, tss_rsp0 = 0, tss_rsp1 = 0, tss_rsp2 = 0, reserved1 = 0, ist = (\<lambda>_. 0), reserved2 = 0,
     reserved3 = 0, iomap_base = 0\<rparr>"

definition gdt_load_tss :: "'a gdt_state_scheme \<Rightarrow> 'a gdt_state_scheme" where
  "gdt_load_tss s =
     (let s = s\<lparr>kernel_tss := zero_tss\<lparr>iomap_base := ucast sizeof_tss\<rparr>\<rparr>;
          s = gdt_set_tss 3 (kernel_tss_addr s) (ucast (sizeof_tss - 1)) s
      in s\<lparr>reg_tr := GDT_TSS\<rparr>)"

definition gdt_set_rsp0 :: "u64 \<Rightarrow> 'a gdt_state_scheme \<Rightarrow> 'a gdt_state_scheme" where
  "gdt_set_rsp0 v s = s\<lparr>kernel_tss := (kernel_tss s)\<lparr>tss_rsp0 := v\<rparr>\<rparr>"

text \<open>\<^verbatim>\<open>hal.c\<close>\<close>

definition machine_set_rsp0 :: "u64 \<Rightarrow> 'a gdt_state_scheme \<Rightarrow> 'a gdt_state_scheme" where
  "machine_set_rsp0 v s = gdt_set_rsp0 v s"

section \<open>What the processor reads back\<close>

definition entry_base :: "gdt_entry \<Rightarrow> u32" where
  "entry_base e = ucast (base_lo e) OR push_bit 16 (ucast (base_mid e)) OR push_bit 24 (ucast (base_hi e))"

definition entry_limit :: "gdt_entry \<Rightarrow> u32" where
  "entry_limit e = ucast (limit_lo e) OR push_bit 16 (ucast (granularity e AND 0x0f))"

text \<open>A 64-bit system descriptor takes two entries; the second starts with bits 32 to 63 of the base.\<close>

definition system_base :: "gdt_entry \<Rightarrow> gdt_entry \<Rightarrow> u64" where
  "system_base e h = ucast (entry_base e) OR push_bit 32 (ucast (limit_lo h) OR push_bit 16 (ucast (base_lo h)))"

lemma low_masks: "(0xff :: 'a::len word) = mask 8" "(0xffff :: 'a word) = mask 16" "(0x0f :: 'a word) = mask 4"
  by (simp_all add: mask_eq_exp_minus_1)

lemma entry_base_split:
  "entry_base \<lparr>limit_lo = l, base_lo = ucast (base AND 0xffff), base_mid = ucast (drop_bit 16 base AND 0xff),
     access = a, granularity = g, base_hi = ucast (drop_bit 24 base AND 0xff)\<rparr> = (ucast (base :: u64) :: u32)"
proof (rule bit_word_eqI)
  fix n assume n: "n < LENGTH(32)"
  consider "n < 16" | "16 \<le> n" "n < 24" | "16 \<le> n" "24 \<le> n" by linarith
  then show "bit (entry_base \<lparr>limit_lo = l, base_lo = ucast (base AND 0xffff),
     base_mid = ucast (drop_bit 16 base AND 0xff), access = a, granularity = g,
     base_hi = ucast (drop_bit 24 base AND 0xff)\<rparr>) n = bit (ucast base :: u32) n"
    using n by cases (simp_all add: entry_base_def low_masks bit_simps less_diff_conv2)
qed

lemma system_base_split:
  "system_base \<lparr>limit_lo = l, base_lo = ucast (base AND 0xffff), base_mid = ucast (drop_bit 16 base AND 0xff),
     access = a, granularity = g, base_hi = ucast (drop_bit 24 base AND 0xff)\<rparr> (gdt_words (ucast (drop_bit 32 base)) w)
   = base"
proof (rule bit_word_eqI)
  fix n assume n: "n < LENGTH(64)"
  consider "n < 32" | "32 \<le> n" "n < 48" | "32 \<le> n" "48 \<le> n" by linarith
  then show "bit (system_base \<lparr>limit_lo = l, base_lo = ucast (base AND 0xffff),
     base_mid = ucast (drop_bit 16 base AND 0xff), access = a, granularity = g,
     base_hi = ucast (drop_bit 24 base AND 0xff)\<rparr> (gdt_words (ucast (drop_bit 32 base)) w)) n = bit base n"
    using n by cases (simp_all add: system_base_def entry_base_split gdt_words_def bit_simps less_diff_conv2)
qed

section \<open>Properties\<close>

text \<open>
  The TSS descriptor round-trips: whatever the 64-bit address and 20-bit limit, the processor reads
  exactly them back from the two entries, and finds a present available 64-bit TSS.
\<close>

lemma gdt_set_tss_roundtrip:
  assumes "unat limit < 2 ^ 20"
  shows "system_base (gdt (gdt_set_tss i base limit s) i) (gdt (gdt_set_tss i base limit s) (i + 1)) = base \<and>
    entry_limit (gdt (gdt_set_tss i base limit s) i) = limit \<and> access (gdt (gdt_set_tss i base limit s) i) = 0x89"
proof -
  have "entry_limit (gdt (gdt_set_tss i base limit s) i) = take_bit 20 limit"
  proof (rule bit_word_eqI)
    fix n assume "n < LENGTH(32)"
    show "bit (entry_limit (gdt (gdt_set_tss i base limit s) i)) n = bit (take_bit 20 limit) n"
      by (cases "n < 16"; cases "n < 20") (auto simp: entry_limit_def gdt_set_tss_def low_masks bit_simps)
  qed
  moreover have "take_bit 20 limit = limit"
    using assms by (simp add: word_unat_eq_iff unsigned_take_bit_eq take_bit_nat_eq_self_iff)
  ultimately have "entry_limit (gdt (gdt_set_tss i base limit s) i) = limit" by simp
  moreover have "system_base (gdt (gdt_set_tss i base limit s) i) (gdt (gdt_set_tss i base limit s) (i + 1)) = base"
    by (simp add: gdt_set_tss_def system_base_split)
  ultimately show ?thesis by (simp add: gdt_set_tss_def)
qed

lemma gdt_set_tss_roundtrip_witness:
  "\<exists>s :: gdt_state. system_base (gdt (gdt_set_tss 3 0xFFFFFFFF80123450 103 s) 3) (gdt (gdt_set_tss 3 0xFFFFFFFF80123450 103 s) 4)
     = 0xFFFFFFFF80123450"
  using gdt_set_tss_roundtrip [of "103" 3 "0xFFFFFFFF80123450" "undefined :: gdt_state"] by auto

end
