(* ===== verification/Io.thy ===== *)
theory Io
  imports Memory
begin

text \<open>
  \<^verbatim>\<open>hal/x86_64/io.h\<close>: port input and output.  A write is appended to the log of the machine, a read
  takes the next value of the stream, so a device is whatever the stream says.
\<close>

definition port_write :: "u16 \<Rightarrow> u32 \<Rightarrow> 'a machine_scheme \<Rightarrow> 'a machine_scheme" where
  "port_write port v s = s\<lparr>port_outs := port_outs s @ [(port, v)]\<rparr>"

definition port_read :: "'a machine_scheme \<Rightarrow> u32 \<times> 'a machine_scheme" where
  "port_read s = (port_ins s 0, s\<lparr>port_ins := (\<lambda>n. port_ins s (Suc n))\<rparr>)"

definition cpu_outb :: "u16 \<Rightarrow> u8 \<Rightarrow> 'a machine_scheme \<Rightarrow> 'a machine_scheme" where
  "cpu_outb port v s = port_write port (ucast v) s"

definition cpu_outw :: "u16 \<Rightarrow> u16 \<Rightarrow> 'a machine_scheme \<Rightarrow> 'a machine_scheme" where
  "cpu_outw port v s = port_write port (ucast v) s"

definition cpu_outl :: "u16 \<Rightarrow> u32 \<Rightarrow> 'a machine_scheme \<Rightarrow> 'a machine_scheme" where
  "cpu_outl port v s = port_write port v s"

definition cpu_inb :: "u16 \<Rightarrow> 'a machine_scheme \<Rightarrow> u8 \<times> 'a machine_scheme" where
  "cpu_inb port s = (case port_read s of (v, s) \<Rightarrow> (ucast v, s))"

definition cpu_inw :: "u16 \<Rightarrow> 'a machine_scheme \<Rightarrow> u16 \<times> 'a machine_scheme" where
  "cpu_inw port s = (case port_read s of (v, s) \<Rightarrow> (ucast v, s))"

definition cpu_inl :: "u16 \<Rightarrow> 'a machine_scheme \<Rightarrow> u32 \<times> 'a machine_scheme" where
  "cpu_inl port s = port_read s"

definition cpu_pause :: "'a machine_scheme \<Rightarrow> 'a machine_scheme" where
  "cpu_pause s = s"

definition cpu_io_wait :: "'a machine_scheme \<Rightarrow> 'a machine_scheme" where
  "cpu_io_wait s = s"

end
