(* ===== verification/Pit.thy ===== *)
theory Pit
  imports Gdt Io
begin

text \<open>
  \<^verbatim>\<open>hal/x86_64/pit.c\<close> and \<^verbatim>\<open>kern/clock.c\<close>: the timer and the clock read from it.  A division by zero is
  \<open>None\<close>.
\<close>

record pit_state = gdt_state +
  pit_freq :: u32
  pit_ticks :: u64

definition PIT_FREQUENCY :: u32 where "PIT_FREQUENCY = 1193182"
definition PIT_CHANNEL0 :: u16 where "PIT_CHANNEL0 = 0x40"
definition PIT_CONTROL :: u16 where "PIT_CONTROL = 0x43"
definition CLOCK_HZ :: u32 where "CLOCK_HZ = 100"

definition pit_init :: "u32 \<Rightarrow> 'a pit_state_scheme \<Rightarrow> 'a pit_state_scheme option" where
  "pit_init frequency s =
     (if frequency = 0 then None
      else
        let divisor = PIT_FREQUENCY div frequency;
            low = ucast (divisor AND 0xFF) :: u8;
            high = ucast (drop_bit 8 divisor AND 0xFF) :: u8;
            s = cpu_outb PIT_CONTROL 0x36 s;
            s = cpu_outb PIT_CHANNEL0 low s;
            s = cpu_outb PIT_CHANNEL0 high s
        in Some (s\<lparr>pit_freq := frequency, pit_ticks := 0\<rparr>))"

definition pit_set_frequency :: "u32 \<Rightarrow> 'a pit_state_scheme \<Rightarrow> 'a pit_state_scheme option" where
  "pit_set_frequency frequency s = pit_init frequency s"

definition pit_get_frequency :: "'a pit_state_scheme \<Rightarrow> u32" where
  "pit_get_frequency s = pit_freq s"

definition pit_get_ticks :: "'a pit_state_scheme \<Rightarrow> u64" where
  "pit_get_ticks s = pit_ticks s"

definition pit_get_uptime_ms :: "'a pit_state_scheme \<Rightarrow> u64" where
  "pit_get_uptime_ms s = (if pit_freq s = 0 then 0 else (pit_ticks s * 1000) div ucast (pit_freq s))"

definition pit_increment_tick :: "'a pit_state_scheme \<Rightarrow> 'a pit_state_scheme" where
  "pit_increment_tick s = s\<lparr>pit_ticks := pit_ticks s + 1\<rparr>"

definition clock_init :: "'a pit_state_scheme \<Rightarrow> 'a pit_state_scheme option" where
  "clock_init s = pit_init CLOCK_HZ s"

definition clock_get_ticks :: "'a pit_state_scheme \<Rightarrow> u64" where
  "clock_get_ticks s = pit_get_ticks s"

definition clock_get_uptime_ms :: "'a pit_state_scheme \<Rightarrow> u64" where
  "clock_get_uptime_ms s = pit_get_uptime_ms s"

text \<open>
  The waiting loop, with the timer interrupts that arrive during its pauses: \<open>arr k\<close> ticks are counted
  in pause \<open>k\<close>.  It may not end.
\<close>

partial_function (option) clock_delay_loop ::
  "(nat \<Rightarrow> nat) \<Rightarrow> nat \<Rightarrow> u64 \<Rightarrow> u64 \<Rightarrow> 'a pit_state_scheme \<Rightarrow> 'a pit_state_scheme option" where
  "clock_delay_loop arr k start ms s =
     (if clock_get_uptime_ms s - start < ms
      then clock_delay_loop arr (Suc k) start ms ((pit_increment_tick ^^ arr k) s)
      else Some s)"

definition clock_delay_ms :: "(nat \<Rightarrow> nat) \<Rightarrow> u64 \<Rightarrow> 'a pit_state_scheme \<Rightarrow> 'a pit_state_scheme option" where
  "clock_delay_ms arr ms s = clock_delay_loop arr 0 (clock_get_uptime_ms s) ms s"

section \<open>Time\<close>

lemma increments: "(pit_increment_tick ^^ n) s = s\<lparr>pit_ticks := pit_ticks s + of_nat n\<rparr>"
  by (induction n) (simp_all add: pit_increment_tick_def algebra_simps)

lemma unat_ucast32 [simp]: "unat (ucast (x :: u32) :: u64) = unat x"
proof -
  have "unat x < 2 ^ 64" using unsigned_less [of x] by (rule less_trans) simp
  then show ?thesis by (simp add: unsigned_ucast_eq take_bit_nat_eq_self_iff)
qed

text \<open>Up to the overflow of \<open>ticks * 1000\<close>, the uptime is exact.\<close>

lemma uptime_exact:
  assumes "pit_freq s \<noteq> 0" "unat (pit_ticks s) * 1000 < 2 ^ 64"
  shows "unat (clock_get_uptime_ms s) = unat (pit_ticks s) * 1000 div unat (pit_freq s)"
proof -
  have "unat (pit_ticks s * 1000) = unat (pit_ticks s) * 1000"
    using assms(2) by (simp add: unat_word_ariths take_bit_nat_eq_self_iff)
  then show ?thesis
    using assms(1) by (simp add: clock_get_uptime_ms_def pit_get_uptime_ms_def unat_div unat_ucast32)
qed

section \<open>Waiting\<close>

text \<open>The ticks of the first \<open>j\<close> pauses, and the state after them.\<close>

definition arrived :: "(nat \<Rightarrow> nat) \<Rightarrow> nat \<Rightarrow> nat" where
  "arrived arr j = sum arr {..<j}"

definition later :: "nat \<Rightarrow> 'a pit_state_scheme \<Rightarrow> 'a pit_state_scheme" where
  "later n s = s\<lparr>pit_ticks := pit_ticks s + of_nat n\<rparr>"

lemma delay_returns:
  assumes "\<not> clock_get_uptime_ms (later (arrived arr j) s) - start < ms"
  obtains i where "clock_delay_loop arr 0 start ms s = Some (later (arrived arr i) s)" "i \<le> j"
    "\<not> clock_get_uptime_ms (later (arrived arr i) s) - start < ms"
proof -
  let ?go = "\<lambda>i. clock_get_uptime_ms (later (arrived arr i) s) - start < ms"
  have "\<exists>i. clock_delay_loop arr k start ms (later (arrived arr k) s) = Some (later (arrived arr i) s) \<and>
      i \<le> j \<and> \<not> ?go i" if "k + n = j" for k n
    using that
  proof (induction n arbitrary: k)
    case 0
    then show ?case
      using assms by (intro exI [of _ j]) (subst clock_delay_loop.simps, simp)
  next
    case (Suc n)
    show ?case
    proof (cases "?go k")
      case False
      then show ?thesis
        using Suc.prems by (intro exI [of _ k]) (subst clock_delay_loop.simps, simp)
    next
      case True
      have "(pit_increment_tick ^^ arr k) (later (arrived arr k) s) = later (arrived arr (Suc k)) s"
        by (simp add: increments later_def arrived_def add.assoc)
      then show ?thesis
        using Suc.IH [of "Suc k"] Suc.prems True by (subst clock_delay_loop.simps) simp
    qed
  qed
  from this [of 0 j] show thesis using that by (auto simp: arrived_def later_def)
qed

lemma arrived_mono: "i \<le> j \<Longrightarrow> arrived arr i \<le> arrived arr j"
  unfolding arrived_def by (rule sum_mono2) auto

lemma arrived_reaches:
  assumes "\<And>k. arr k \<le> 1" "\<And>n. \<exists>k \<ge> n. arr k = 1"
  shows "\<exists>j. arrived arr j = n"
proof (induction n)
  case 0
  show ?case by (rule exI [of _ 0]) (simp add: arrived_def)
next
  case (Suc n)
  then obtain j where j: "arrived arr j = n" by blast
  define k where "k = (LEAST k. j \<le> k \<and> arr k = 1)"
  have k: "j \<le> k \<and> arr k = 1" unfolding k_def by (rule LeastI_ex) (use assms(2) in blast)
  have "arr i = 0" if "j \<le> i" "i < k" for i
    using not_less_Least [of i "\<lambda>k. j \<le> k \<and> arr k = 1"] assms(1) [of i] that unfolding k_def
    by (cases "arr i") auto
  then have "sum arr {j..<k} = 0" by simp
  moreover have "arrived arr k = arrived arr j + sum arr {j..<k}"
    using k unfolding arrived_def lessThan_atLeast0 by (subst sum.atLeastLessThan_concat) auto
  ultimately have "arrived arr (Suc k) = Suc n" using j k by (simp add: arrived_def)
  then show ?case by blast
qed

section \<open>Properties\<close>

text \<open>
  C32: Once the timer runs and as long as its interrupts keep arriving, \<open>clock_delay_ms\<close> returns; it has waited
  at least the time asked for, and no more ticks than that time takes.
\<close>

theorem clock_delay_ms_returns:
  assumes "pit_freq s \<noteq> 0" "\<And>k. arr k \<le> 1" "\<And>n. \<exists>k \<ge> n. arr k = 1"
    and "unat (pit_ticks s) * 1000 + unat ms * unat (pit_freq s) + 1000 < 2 ^ 64"
  shows "\<exists>n. clock_delay_ms arr ms s = Some (later n s) \<and>
    unat (clock_get_uptime_ms (later n s)) \<ge> unat (clock_get_uptime_ms s) + unat ms \<and>
    n * 1000 < unat ms * unat (pit_freq s) + 1000"
proof -
  define f t0 D where "f = unat (pit_freq s)" and "t0 = unat (pit_ticks s)"
    and "D = (unat ms * f + 999) div 1000"
  have f: "0 < f" using assms(1) by (simp add: f_def unat_gt_0)
  have D: "unat ms * f \<le> D * 1000" "D * 1000 \<le> unat ms * f + 999" unfolding D_def by linarith+
  have up: "unat (clock_get_uptime_ms (later n s)) = (t0 + n) * 1000 div f" if "n \<le> D" for n
  proof -
    have "(t0 + n) * 1000 \<le> t0 * 1000 + D * 1000" using that by simp
    also have "\<dots> \<le> t0 * 1000 + unat ms * f + 1000" using D(2) by linarith
    also have "\<dots> < 2 ^ 64" using assms(4) by (simp add: f_def t0_def)
    finally have "(t0 + n) * 1000 < 2 ^ 64" .
    moreover from this have "unat (pit_ticks s + of_nat n) = t0 + n"
      unfolding t0_def by (subst unat_add_no_wrap) (simp_all add: unat_of_nat64)
    ultimately show ?thesis using uptime_exact [of "later n s"] assms(1) by (simp add: later_def f_def)
  qed
  have up0: "unat (clock_get_uptime_ms s) = t0 * 1000 div f" using up [of 0] by (simp add: later_def)
  have ge: "unat (clock_get_uptime_ms s) \<le> unat (clock_get_uptime_ms (later n s))" if "n \<le> D" for n
    unfolding up [OF that] up0 by (rule div_le_mono) simp
  have diff: "unat (clock_get_uptime_ms (later n s) - clock_get_uptime_ms s) =
      unat (clock_get_uptime_ms (later n s)) - unat (clock_get_uptime_ms s)" if "n \<le> D" for n
    using ge [OF that] by (simp add: unat_sub word_le_nat_alt)
  have "t0 * 1000 div f + unat ms \<le> (t0 + D) * 1000 div f"
  proof -
    have "t0 * 1000 div f + unat ms = (t0 * 1000 + unat ms * f) div f" using f by simp
    also have "\<dots> \<le> (t0 + D) * 1000 div f" using D(1) by (intro div_le_mono) (simp add: distrib_right)
    finally show ?thesis .
  qed
  then have "\<not> clock_get_uptime_ms (later D s) - clock_get_uptime_ms s < ms"
    unfolding word_less_nat_alt diff [OF order_refl] unfolding up [OF order_refl] up0 by linarith
  moreover obtain j where j: "arrived arr j = D" using arrived_reaches [of arr D] assms(2,3) by blast
  ultimately obtain i where i: "clock_delay_loop arr 0 (clock_get_uptime_ms s) ms s = Some (later (arrived arr i) s)"
      "i \<le> j" "\<not> clock_get_uptime_ms (later (arrived arr i) s) - clock_get_uptime_ms s < ms"
    using delay_returns [of arr j s "clock_get_uptime_ms s" ms] by auto
  have n: "arrived arr i \<le> D" using arrived_mono [OF i(2), of arr] j by simp
  have "unat (clock_get_uptime_ms (later (arrived arr i) s)) \<ge> unat (clock_get_uptime_ms s) + unat ms"
    using i(3) ge [OF n] unfolding word_less_nat_alt diff [OF n] by linarith
  moreover have "arrived arr i * 1000 < unat ms * unat (pit_freq s) + 1000"
    using n D(2) unfolding f_def by linarith
  ultimately show ?thesis using i(1) by (auto simp: clock_delay_ms_def)
qed

theorem clock_delay_ms_returns_witness:
  "\<exists>(s :: pit_state) n. clock_delay_ms (\<lambda>k. k mod 2) 50 s = Some (later n s) \<and> n \<le> 5"
proof -
  define s where "s = (undefined :: pit_state)\<lparr>pit_freq := 100, pit_ticks := 7\<rparr>"
  have "\<exists>k \<ge> n. k mod 2 = (1 :: nat)" for n :: nat by (rule exI [of _ "2 * n + 1"]) simp
  moreover have "k mod 2 \<le> (1 :: nat)" for k :: nat using mod_less_divisor [of 2 k] by linarith
  ultimately have "\<exists>n. clock_delay_ms (\<lambda>k. k mod 2) 50 s = Some (later n s) \<and> n * 1000 < 50 * 100 + 1000"
    using clock_delay_ms_returns [of s "\<lambda>k. k mod 2" "50"] by (auto simp: s_def)
  then obtain n where "clock_delay_ms (\<lambda>k. k mod 2) 50 s = Some (later n s)" "n \<le> 5" by auto
  then show ?thesis by blast
qed

end
