(* ===== verification/Fifo.thy ===== *)
theory Fifo
  imports Prelude
begin

text \<open>
  The contract of a first-in first-out queue, which the run queue of \<^verbatim>\<open>kern/sched.c\<close> and the message
  queue of \<^verbatim>\<open>kern/ipc_port.c\<close> share.  \<open>repr s xs\<close>: the state \<open>s\<close> holds the queue \<open>xs\<close>.  \<open>fits e xs\<close>: the
  client may put \<open>e\<close> behind \<open>xs\<close>.
\<close>

locale fifo =
  fixes repr :: "'s \<Rightarrow> 'e list \<Rightarrow> bool"
    and fits :: "'e \<Rightarrow> 'e list \<Rightarrow> bool"
    and enq :: "'e \<Rightarrow> 's \<Rightarrow> 's"
    and deq :: "'s \<Rightarrow> 'e \<times> 's"
  assumes enq_law: "repr s xs \<Longrightarrow> fits e xs \<Longrightarrow> repr (enq e s) (xs @ [e])"
    and deq_law: "repr s (x # xs) \<Longrightarrow> fst (deq s) = x \<and> repr (snd (deq s)) xs"
begin

fun all_fit :: "'e list \<Rightarrow> 'e list \<Rightarrow> bool" where
  "all_fit [] xs \<longleftrightarrow> True"
| "all_fit (e # es) xs \<longleftrightarrow> fits e xs \<and> all_fit es (xs @ [e])"

fun deq_many :: "nat \<Rightarrow> 's \<Rightarrow> 'e list \<times> 's" where
  "deq_many 0 s = ([], s)"
| "deq_many (Suc n) s = (let (x, s) = deq s; (xs, s) = deq_many n s in (x # xs, s))"

lemma enq_many: "repr s xs \<Longrightarrow> all_fit es xs \<Longrightarrow> repr (fold enq es s) (xs @ es)"
proof (induction es arbitrary: s xs)
  case (Cons e es)
  then have "repr (enq e s) (xs @ [e])" by (simp add: enq_law)
  with Cons show ?case using Cons.IH [of "enq e s" "xs @ [e]"] by simp
qed simp

lemma deq_many: "repr s (xs @ ys) \<Longrightarrow> fst (deq_many (length xs) s) = xs \<and> repr (snd (deq_many (length xs) s)) ys"
proof (induction xs arbitrary: s)
  case (Cons x xs)
  then have "fst (deq s) = x" "repr (snd (deq s)) (xs @ ys)" using deq_law [of s x "xs @ ys"] by simp_all
  then show ?case using Cons.IH [of "snd (deq s)"] by (simp add: case_prod_beta)
qed simp

text \<open>What goes in comes out in the same order, after what was there.\<close>

lemma fifo_order:
  assumes "repr s xs" "all_fit es xs"
  shows "fst (deq_many (length xs + length es) (fold enq es s)) = xs @ es"
  using deq_many [of "fold enq es s" "xs @ es" "[]"] enq_many [OF assms] by simp

text \<open>Rotation: the head goes to the back.\<close>

definition rotate_one :: "'s \<Rightarrow> 's" where
  "rotate_one s = (case deq s of (x, s) \<Rightarrow> enq x s)"

lemma rotate_one: "repr s (x # xs) \<Longrightarrow> fits x xs \<Longrightarrow> repr (rotate_one s) (xs @ [x])"
  using deq_law [of s x xs] enq_law [of "snd (deq s)" xs x] by (simp add: rotate_one_def case_prod_beta)

end

end
