(* ===== verification/Sched.thy ===== *)
theory Sched
  imports Pit Fifo
begin

text \<open>
  \<^verbatim>\<open>kern/sched.h\<close>, \<^verbatim>\<open>kern/thread.h\<close>, \<^verbatim>\<open>kern/task.[ch]\<close> and the run queue of \<^verbatim>\<open>kern/sched.c\<close>.

  Threads and tasks live in typed heaps keyed by their addresses.  The run queue is a doubly-linked
  list through \<open>sched.next\<close> and \<open>sched.prev\<close>; the relation \<open>run_queue\<close> says which list of threads it
  holds.  The part of \<^verbatim>\<open>sched.c\<close> that switches threads is in \<open>Sched_Run\<close>.
\<close>

section \<open>State\<close>

datatype thread_state =
    THREAD_STATE_RUNNABLE
  | THREAD_STATE_RUNNING
  | THREAD_STATE_BLOCKED
  | THREAD_STATE_TERMINATED

record sched_runqueue =
  rq_head :: addr
  rq_tail :: addr
  rq_count :: u32

record thread_sched =
  ts_state :: thread_state
  ts_next :: addr
  ts_prev :: addr
  run_time :: u64

record thread =
  thread_id :: u32
  thread_ref_count :: u32
  thread_task :: addr
  task_next :: addr
  saved_rsp :: u64
  ith_self :: addr
  kernel_stack_phys :: u64
  kernel_stack_top :: u64
  sched :: thread_sched

record task =
  task_id :: u32
  task_ref_count :: u32
  task_map :: addr
  task_threads :: addr
  itk_self :: addr
  thread_count :: u32
  itk_space :: addr

text \<open>
  The registers a context switch saves, the stack pointer, the argument register and the instruction
  pointer.  \<open>trampoline_addr\<close> is the address of \<open>thread_trampoline\<close>, \<open>switch_return\<close> the one \<open>thread_switch\<close>
  continues at after its call; both are fixed by the linker.
\<close>

record registers =
  rsp :: u64
  rbp :: u64
  rbx :: u64
  r12 :: u64
  r13 :: u64
  r14 :: u64
  r15 :: u64
  rdi :: u64
  rip :: u64

record sched_state = pit_state +
  threads :: "addr \<Rightarrow> thread"
  runqueue :: sched_runqueue
  tasks :: "addr \<Rightarrow> task"
  thread_zone :: zone_t
  next_thread_id :: u32
  regs :: registers
  trampoline_addr :: u64
  switch_return :: u64

definition upd_sched :: "addr \<Rightarrow> (thread_sched \<Rightarrow> thread_sched) \<Rightarrow> 'a sched_state_scheme \<Rightarrow> 'a sched_state_scheme" where
  "upd_sched t f s = s\<lparr>threads := (threads s)(t := (threads s t)\<lparr>sched := f (sched (threads s t))\<rparr>)\<rparr>"

section \<open>Tasks\<close>

definition kernel_task_init :: task where
  "kernel_task_init = \<lparr>task_id = 0, task_ref_count = 1, task_map = VM_MAP_NULL, task_threads = THREAD_NULL,
     itk_self = IPC_PORT_NULL, thread_count = 0, itk_space = IPC_SPACE_NULL\<rparr>"

definition task_create :: "addr \<Rightarrow> bool \<Rightarrow> 'a sched_state_scheme \<Rightarrow> kern_return \<times> 'a sched_state_scheme" where
  "task_create parent inherit_memory s = (KERN_NOT_SUPPORTED, s)"

definition task_destroy :: "addr \<Rightarrow> 'a sched_state_scheme \<Rightarrow> kern_return \<times> 'a sched_state_scheme" where
  "task_destroy task s = (KERN_NOT_SUPPORTED, s)"

section \<open>The run queue\<close>

definition sched_init :: "'a sched_state_scheme \<Rightarrow> 'a sched_state_scheme" where
  "sched_init s = s\<lparr>runqueue := \<lparr>rq_head = THREAD_NULL, rq_tail = THREAD_NULL, rq_count = 0\<rparr>\<rparr>"

definition sched_enqueue :: "addr \<Rightarrow> 'a sched_state_scheme \<Rightarrow> kern_return \<times> 'a sched_state_scheme" where
  "sched_enqueue thread s =
     (if thread = THREAD_NULL then (KERN_INVALID_ARGUMENT, s)
      else
        let s = upd_sched thread (\<lambda>x. x\<lparr>ts_next := THREAD_NULL\<rparr>) s;
            s = upd_sched thread (\<lambda>x. x\<lparr>ts_prev := rq_tail (runqueue s)\<rparr>) s;
            s = (if rq_tail (runqueue s) \<noteq> THREAD_NULL
                 then upd_sched (rq_tail (runqueue s)) (\<lambda>x. x\<lparr>ts_next := thread\<rparr>) s
                 else s\<lparr>runqueue := (runqueue s)\<lparr>rq_head := thread\<rparr>\<rparr>);
            s = s\<lparr>runqueue := (runqueue s)\<lparr>rq_tail := thread\<rparr>\<rparr>;
            s = s\<lparr>runqueue := (runqueue s)\<lparr>rq_count := rq_count (runqueue s) + 1\<rparr>\<rparr>
        in (KERN_SUCCESS, s))"

definition sched_dequeue :: "addr \<Rightarrow> 'a sched_state_scheme \<Rightarrow> kern_return \<times> 'a sched_state_scheme" where
  "sched_dequeue thread s =
     (if thread = THREAD_NULL then (KERN_INVALID_ARGUMENT, s)
      else
        let nx = (\<lambda>s. ts_next (sched (threads s thread)));
            pv = (\<lambda>s. ts_prev (sched (threads s thread)));
            s = (if pv s \<noteq> THREAD_NULL then upd_sched (pv s) (\<lambda>x. x\<lparr>ts_next := nx s\<rparr>) s
                 else s\<lparr>runqueue := (runqueue s)\<lparr>rq_head := nx s\<rparr>\<rparr>);
            s = (if nx s \<noteq> THREAD_NULL then upd_sched (nx s) (\<lambda>x. x\<lparr>ts_prev := pv s\<rparr>) s
                 else s\<lparr>runqueue := (runqueue s)\<lparr>rq_tail := pv s\<rparr>\<rparr>);
            s = upd_sched thread (\<lambda>x. x\<lparr>ts_next := THREAD_NULL\<rparr>) s;
            s = upd_sched thread (\<lambda>x. x\<lparr>ts_prev := THREAD_NULL\<rparr>) s;
            s = s\<lparr>runqueue := (runqueue s)\<lparr>rq_count := rq_count (runqueue s) - 1\<rparr>\<rparr>
        in (KERN_SUCCESS, s))"

definition sched_choose :: "'a sched_state_scheme \<Rightarrow> addr" where
  "sched_choose s =
     (if rq_head (runqueue s) \<noteq> THREAD_NULL then rq_head (runqueue s)
      else
        let idle = cpu_idle_thread s
        in if idle \<noteq> THREAD_NULL then idle else THREAD_NULL)"

definition sched_set_state :: "addr \<Rightarrow> thread_state \<Rightarrow> 'a sched_state_scheme \<Rightarrow> 'a sched_state_scheme" where
  "sched_set_state thread st s =
     (if thread = THREAD_NULL then s else upd_sched thread (\<lambda>x. x\<lparr>ts_state := st\<rparr>) s)"

definition sched_get_state :: "addr \<Rightarrow> 'a sched_state_scheme \<Rightarrow> thread_state" where
  "sched_get_state thread s =
     (if thread = THREAD_NULL then THREAD_STATE_TERMINATED else ts_state (sched (threads s thread)))"

definition sched_current :: "'a sched_state_scheme \<Rightarrow> addr" where
  "sched_current s = cpu_current_thread s"

definition sched_block :: "addr \<Rightarrow> 'a sched_state_scheme \<Rightarrow> 'a sched_state_scheme" where
  "sched_block thread s =
     (if thread = THREAD_NULL then s
      else
        let s = sched_set_state thread THREAD_STATE_BLOCKED s
        in snd (sched_dequeue thread s))"

definition sched_unblock :: "addr \<Rightarrow> 'a sched_state_scheme \<Rightarrow> 'a sched_state_scheme" where
  "sched_unblock thread s =
     (if thread = THREAD_NULL then s
      else
        let s = sched_set_state thread THREAD_STATE_RUNNABLE s
        in snd (sched_enqueue thread s))"

section \<open>The list a run queue holds\<close>

text \<open>\<open>seg h p xs n\<close>: the threads \<open>xs\<close> are linked in order, \<open>p\<close> before the first and \<open>n\<close> after the last.\<close>

fun seg :: "(addr \<Rightarrow> thread) \<Rightarrow> addr \<Rightarrow> addr list \<Rightarrow> addr \<Rightarrow> bool" where
  "seg h p [] n \<longleftrightarrow> True"
| "seg h p (x # xs) n \<longleftrightarrow>
     ts_prev (sched (h x)) = p \<and> ts_next (sched (h x)) = hd (xs @ [n]) \<and> seg h x xs n"

definition run_queue :: "'a sched_state_scheme \<Rightarrow> addr list \<Rightarrow> bool" where
  "run_queue s xs \<longleftrightarrow> distinct xs \<and> 0 \<notin> set xs \<and> seg (threads s) 0 xs 0 \<and>
     runqueue s = \<lparr>rq_head = hd (xs @ [0]), rq_tail = last (0 # xs), rq_count = of_nat (length xs)\<rparr>"

lemma seg_append: "seg h p (xs @ ys) n \<longleftrightarrow> seg h p xs (hd (ys @ [n])) \<and> seg h (last (p # xs)) ys n"
proof (induction xs arbitrary: p)
  case (Cons x xs)
  then show ?case by (cases xs) auto
qed simp

text \<open>Only the links of its own threads matter to a segment.\<close>

definition same_links :: "(addr \<Rightarrow> thread) \<Rightarrow> (addr \<Rightarrow> thread) \<Rightarrow> addr \<Rightarrow> bool" where
  "same_links h h' x \<longleftrightarrow> ts_next (sched (h' x)) = ts_next (sched (h x)) \<and> ts_prev (sched (h' x)) = ts_prev (sched (h x))"

lemma seg_cong: "seg h p xs n \<Longrightarrow> (\<And>x. x \<in> set xs \<Longrightarrow> same_links h h' x) \<Longrightarrow> seg h' p xs n"
proof (induction xs arbitrary: p)
  case (Cons x xs)
  then show ?case by (auto simp: same_links_def)
qed simp

lemma seg_new_next:
  assumes "seg h p (xs @ [x]) n" "x \<notin> set xs" "\<And>y. y \<in> set xs \<Longrightarrow> same_links h h' y"
    "ts_next (sched (h' x)) = m" "ts_prev (sched (h' x)) = ts_prev (sched (h x))"
  shows "seg h' p (xs @ [x]) m"
  using assms seg_cong [of h p xs x h'] by (auto simp: seg_append)

lemma seg_new_prev:
  assumes "seg h p (x # xs) n" "x \<notin> set xs" "\<And>y. y \<in> set xs \<Longrightarrow> same_links h h' y"
    "ts_prev (sched (h' x)) = q" "ts_next (sched (h' x)) = ts_next (sched (h x))"
  shows "seg h' q (x # xs) n"
  using assms seg_cong [of h x xs n h'] by auto

lemma run_queue_null [simp]: "run_queue s xs \<Longrightarrow> 0 \<notin> set xs"
  by (simp add: run_queue_def)

lemma run_queue_cong:
  assumes "run_queue s xs" "runqueue t = runqueue s" "\<And>x. x \<in> set xs \<Longrightarrow> same_links (threads s) (threads t) x"
  shows "run_queue t xs"
  using assms seg_cong [of "threads s" 0 xs 0 "threads t"] by (auto simp: run_queue_def)

lemma run_queue_init: "run_queue (sched_init s) []"
  by (simp add: run_queue_def sched_init_def)

lemma last_in: "xs \<noteq> [] \<Longrightarrow> last xs \<in> set xs" by simp

text \<open>Enqueuing a thread that is not in the queue puts it last.\<close>

lemma run_queue_enqueue:
  assumes q: "run_queue s xs" and t: "t \<noteq> 0" "t \<notin> set xs"
  shows "fst (sched_enqueue t s) = KERN_SUCCESS \<and> run_queue (snd (sched_enqueue t s)) (xs @ [t])"
proof (cases xs rule: rev_cases)
  case Nil
  then show ?thesis using assms by (simp add: sched_enqueue_def run_queue_def Let_def upd_sched_def)
next
  case (snoc ys y)
  let ?u = "snd (sched_enqueue t s)"
  have y: "y \<noteq> 0" "t \<noteq> y" "distinct (ys @ [y])" and sg: "seg (threads s) 0 (ys @ [y]) 0"
    and rq: "runqueue s = \<lparr>rq_head = hd (xs @ [0]), rq_tail = y, rq_count = of_nat (length xs)\<rparr>"
    using q t snoc by (auto simp: run_queue_def)
  have "seg (threads ?u) 0 (ys @ [y]) t"
    by (rule seg_new_next [OF sg])
      (use y t snoc rq in \<open>auto simp: sched_enqueue_def Let_def upd_sched_def same_links_def\<close>)
  moreover have "seg (threads ?u) y [t] 0"
    using y t rq by (simp add: sched_enqueue_def Let_def upd_sched_def)
  ultimately have "seg (threads ?u) 0 ((ys @ [y]) @ [t]) 0" by (subst seg_append) simp
  moreover have "runqueue ?u = \<lparr>rq_head = hd (xs @ [0]), rq_tail = t, rq_count = of_nat (length xs) + 1\<rparr>"
    using y t rq by (simp add: sched_enqueue_def Let_def upd_sched_def)
  moreover have "fst (sched_enqueue t s) = KERN_SUCCESS" using t by (simp add: sched_enqueue_def Let_def)
  ultimately show ?thesis using q t y snoc by (cases ys) (auto simp: run_queue_def add.commute)
qed

text \<open>Dequeuing a thread of the queue removes it, wherever it stands.\<close>

lemma dequeue_links:
  fixes s :: "'a sched_state_scheme"
  assumes t: "t \<noteq> 0"
  defines "h \<equiv> threads s" and "u \<equiv> snd (sched_dequeue t s)"
  defines "p \<equiv> ts_prev (sched (h t))" and "n \<equiv> ts_next (sched (h t))"
  assumes pn: "p \<noteq> t" "n \<noteq> t" "p \<noteq> n \<or> p = 0"
  shows "p \<noteq> 0 \<Longrightarrow> ts_next (sched (threads u p)) = n" "p \<noteq> 0 \<Longrightarrow> ts_prev (sched (threads u p)) = ts_prev (sched (h p))"
    "n \<noteq> 0 \<Longrightarrow> ts_prev (sched (threads u n)) = p" "n \<noteq> 0 \<Longrightarrow> ts_next (sched (threads u n)) = ts_next (sched (h n))"
    "x \<noteq> t \<Longrightarrow> x \<noteq> p \<Longrightarrow> x \<noteq> n \<Longrightarrow> same_links h (threads u) x"
    "runqueue u = \<lparr>rq_head = (if p = 0 then n else rq_head (runqueue s)),
       rq_tail = (if n = 0 then p else rq_tail (runqueue s)), rq_count = rq_count (runqueue s) - 1\<rparr>"
  using assms by (auto simp: sched_dequeue_def Let_def upd_sched_def same_links_def)

lemma run_queue_dequeue:
  assumes q: "run_queue s (as @ t # bs)"
  shows "fst (sched_dequeue t s) = KERN_SUCCESS \<and> run_queue (snd (sched_dequeue t s)) (as @ bs)"
proof -
  let ?u = "snd (sched_dequeue t s)" and ?h = "threads s"
  have d: "distinct (as @ t # bs)" "0 \<notin> set (as @ t # bs)"
    and rq: "runqueue s = \<lparr>rq_head = hd (as @ t # bs @ [0]), rq_tail = last (t # bs), rq_count = of_nat (Suc (length as + length bs))\<rparr>"
    and sg: "seg ?h 0 (as @ t # bs) 0"
    using q by (auto simp: run_queue_def)
  have t: "t \<noteq> 0" using d by auto
  have p: "ts_prev (sched (?h t)) = last (0 # as)" and n: "ts_next (sched (?h t)) = hd (bs @ [0])"
    and sa: "seg ?h 0 as t" and sb: "seg ?h t bs 0"
    using sg by (auto simp: seg_append)
  have pin: "last (0 # as) \<noteq> t" "hd (bs @ [0]) \<noteq> t" "last (0 # as) \<noteq> hd (bs @ [0]) \<or> last (0 # as) = 0"
    using d by (cases as rule: rev_cases; cases bs; auto)+
  note L = dequeue_links [OF t, of s, unfolded p n, OF pin]
  have "seg (threads ?u) 0 as (hd (bs @ [0]))"
  proof (cases as rule: rev_cases)
    case (snoc as' a)
    have a: "last (0 # as) = a" "a \<noteq> 0" "a \<notin> set as'" using snoc d by auto
    have ns: "hd (bs @ [0]) \<notin> set as'" "t \<notin> set as'" using d snoc by (cases bs; auto)+
    have same: "same_links ?h (threads ?u) y" if "y \<in> set as'" for y
    proof (rule L(5))
      show "y \<noteq> t" using that ns(2) by blast
      show "y \<noteq> last (0 # as)" unfolding a(1) using that a(3) by blast
      show "y \<noteq> hd (bs @ [0])" using that ns(1) by blast
    qed
    have "seg (threads ?u) 0 (as' @ [a]) (hd (bs @ [0]))"
      by (rule seg_new_next [OF sa [unfolded snoc] a(3) same L(1,2) [unfolded a(1), OF a(2)]])
    then show ?thesis using snoc by simp
  qed simp
  moreover have "seg (threads ?u) (last (0 # as)) bs 0"
  proof (cases bs)
    case (Cons b bs')
    have b: "hd (bs @ [0]) = b" "b \<noteq> 0" "b \<notin> set bs'" using Cons d by auto
    have ns: "last (0 # as) \<notin> set bs'" "t \<notin> set bs'" using d Cons by (cases as rule: rev_cases; auto)+
    have same: "same_links ?h (threads ?u) y" if "y \<in> set bs'" for y
    proof (rule L(5))
      show "y \<noteq> t" using that ns(2) by blast
      show "y \<noteq> last (0 # as)" using that ns(1) by blast
      show "y \<noteq> hd (bs @ [0])" unfolding b(1) using that b(3) by blast
    qed
    have "seg (threads ?u) (last (0 # as)) (b # bs') 0"
      by (rule seg_new_prev [OF sb [unfolded Cons] b(3) same L(3,4) [unfolded b(1), OF b(2)]])
    then show ?thesis using Cons by simp
  qed simp
  ultimately have "seg (threads ?u) 0 (as @ bs) 0" by (simp add: seg_append)
  moreover have "as \<noteq> [] \<Longrightarrow> last as \<noteq> 0" using d(2) last_in [of as] by force
  then have "runqueue ?u = \<lparr>rq_head = hd ((as @ bs) @ [0]), rq_tail = last (0 # as @ bs), rq_count = of_nat (length (as @ bs))\<rparr>"
    unfolding L(6) rq using d by (cases as; cases bs) (auto simp: last_append)
  moreover have "fst (sched_dequeue t s) = KERN_SUCCESS" using t by (simp add: sched_dequeue_def Let_def)
  ultimately show ?thesis using d by (simp add: run_queue_def)
qed

text \<open>A thread that is in no queue has null links; dequeuing it forgets the whole queue.\<close>

lemma dequeue_unqueued:
  assumes "t \<noteq> 0" "ts_next (sched (threads s t)) = 0" "ts_prev (sched (threads s t)) = 0"
  shows "rq_head (runqueue (snd (sched_dequeue t s))) = 0 \<and> rq_tail (runqueue (snd (sched_dequeue t s))) = 0 \<and>
    rq_count (runqueue (snd (sched_dequeue t s))) = rq_count (runqueue s) - 1"
  using assms by (simp add: sched_dequeue_def Let_def upd_sched_def)

lemma run_queue_choose: "run_queue s (x # xs) \<Longrightarrow> sched_choose s = x"
  by (auto simp: run_queue_def sched_choose_def)

lemma run_queue_choose_idle: "run_queue s [] \<Longrightarrow> sched_choose s = cpu_idle_thread s"
  by (auto simp: run_queue_def sched_choose_def Let_def)

lemma run_queue_set_state: "run_queue s xs \<Longrightarrow> run_queue (sched_set_state t st s) xs"
  by (erule run_queue_cong) (auto simp: sched_set_state_def upd_sched_def same_links_def)

text \<open>A run-queue state with its queue as an interpretation of the FIFO contract.\<close>

definition rq_take :: "'a sched_state_scheme \<Rightarrow> addr \<times> 'a sched_state_scheme" where
  "rq_take s = (let t = sched_choose s in (t, snd (sched_dequeue t s)))"

definition rq_put :: "addr \<Rightarrow> 'a sched_state_scheme \<Rightarrow> 'a sched_state_scheme" where
  "rq_put t s = snd (sched_enqueue t s)"

interpretation rq: fifo "run_queue :: 'a sched_state_scheme \<Rightarrow> _" "\<lambda>t xs. t \<noteq> 0 \<and> t \<notin> set xs" rq_put rq_take
proof
  show "run_queue (rq_put e s) (xs @ [e])" if "run_queue s xs" "e \<noteq> 0 \<and> e \<notin> set xs"
    for s :: "'a sched_state_scheme" and e xs
    using that run_queue_enqueue [of s xs e] by (simp add: rq_put_def)
  show "fst (rq_take s) = x \<and> run_queue (snd (rq_take s)) xs" if "run_queue s (x # xs)"
    for s :: "'a sched_state_scheme" and x xs
    using run_queue_dequeue [of s "[]" x xs] that by (simp add: rq_take_def Let_def run_queue_choose)
qed

lemma sched_frame [simp]:
  "cpu_data_ptr (snd (sched_enqueue t s)) = cpu_data_ptr s" "cpu_data_ptr (snd (sched_dequeue t s)) = cpu_data_ptr s"
  "cpu_data_ptr (sched_set_state t st s) = cpu_data_ptr s"
  "cpu_current_thread (snd (sched_enqueue t s)) = cpu_current_thread s"
  "cpu_current_thread (snd (sched_dequeue t s)) = cpu_current_thread s"
  "cpu_current_thread (sched_set_state t st s) = cpu_current_thread s"
  "cpu_idle_thread (snd (sched_enqueue t s)) = cpu_idle_thread s"
  "cpu_idle_thread (snd (sched_dequeue t s)) = cpu_idle_thread s"
  "cpu_idle_thread (sched_set_state t st s) = cpu_idle_thread s"
  by (simp_all add: sched_enqueue_def sched_dequeue_def sched_set_state_def Let_def upd_sched_def
      cpu_current_thread_def cpu_idle_thread_def cpu_get_def cong: option.case_cong)

section \<open>Properties\<close>

text \<open>
  Blocking takes a queued thread out of the run queue, wherever it stands, and unblocking puts it back at
  the end, with the states to match; every other thread keeps its turn.
\<close>

lemma sched_block_unblock:
  assumes "run_queue s (as @ t # bs)"
  shows "run_queue (sched_block t s) (as @ bs) \<and> sched_get_state t (sched_block t s) = THREAD_STATE_BLOCKED \<and>
    run_queue (sched_unblock t (sched_block t s)) (as @ bs @ [t]) \<and>
    sched_get_state t (sched_unblock t (sched_block t s)) = THREAD_STATE_RUNNABLE"
proof -
  have t: "t \<noteq> 0" "t \<notin> set (as @ bs)" using assms by (auto simp: run_queue_def)
  have b: "run_queue (sched_block t s) (as @ bs)"
    using run_queue_dequeue [OF run_queue_set_state [OF assms]] t by (simp add: sched_block_def Let_def)
  moreover have "run_queue (sched_unblock t (sched_block t s)) ((as @ bs) @ [t])"
    using run_queue_enqueue [OF run_queue_set_state [OF b] t] t by (simp add: sched_unblock_def Let_def)
  moreover have "sched_get_state t (sched_block t s) = THREAD_STATE_BLOCKED"
    using t by (simp add: sched_block_def sched_get_state_def sched_set_state_def sched_dequeue_def upd_sched_def Let_def)
  moreover have "sched_get_state t (sched_unblock t u) = THREAD_STATE_RUNNABLE" for u :: "'a sched_state_scheme"
    using t by (simp add: sched_unblock_def sched_get_state_def sched_set_state_def sched_enqueue_def upd_sched_def Let_def)
  ultimately show ?thesis by simp
qed

text \<open>The state the witnesses use: the threads 1, 2 and 3 enqueued in this order.\<close>

definition three_queued :: sched_state where
  "three_queued = fold rq_put [1, 2, 3] (sched_init undefined)"

lemma three_queued: "run_queue three_queued [1, 2, 3]"
proof -
  have "rq.all_fit [1, 2, 3] ([] :: addr list)" by simp
  then show ?thesis
    using rq.enq_many [of "sched_init (undefined :: sched_state)" "[]" "[1, 2, 3]"] run_queue_init [of "undefined :: sched_state"]
    by (simp add: three_queued_def)
qed

lemma sched_block_unblock_witness:
  "run_queue (sched_unblock 2 (sched_block 2 three_queued)) [1, 3, 2]"
  using sched_block_unblock [of three_queued "[1]" 2 "[3]"] three_queued by simp

text \<open>
  Blocking a thread that is blocked already forgets the run queue: whatever threads wait in it, the scheduler
  finds only the idle thread, and the count no longer matches.
\<close>

lemma sched_block_twice_drops_queue:
  assumes "run_queue s (as @ t # bs)"
  shows "sched_choose (sched_block t (sched_block t s)) = cpu_idle_thread s \<and>
    rq_head (runqueue (sched_block t (sched_block t s))) = 0 \<and>
    rq_count (runqueue (sched_block t (sched_block t s))) = of_nat (length (as @ bs)) - 1"
proof -
  have t: "t \<noteq> 0" using assms by (auto simp: run_queue_def)
  let ?u = "sched_block t s"
  have q: "run_queue ?u (as @ bs)" using sched_block_unblock [OF assms] by simp
  have "ts_next (sched (threads ?u t)) = 0" "ts_prev (sched (threads ?u t)) = 0"
    using t by (simp_all add: sched_block_def sched_dequeue_def upd_sched_def Let_def)
  then have "ts_next (sched (threads (sched_set_state t THREAD_STATE_BLOCKED ?u) t)) = 0"
    "ts_prev (sched (threads (sched_set_state t THREAD_STATE_BLOCKED ?u) t)) = 0"
    "runqueue (sched_set_state t THREAD_STATE_BLOCKED ?u) = runqueue ?u"
    using t by (simp_all add: sched_set_state_def upd_sched_def)
  note d = dequeue_unqueued [OF t this(1,2)] this(3)
  have b: "sched_block t ?u = snd (sched_dequeue t (sched_set_state t THREAD_STATE_BLOCKED ?u))"
    using t by (simp add: sched_block_def Let_def)
  have c: "rq_count (runqueue ?u) = of_nat (length (as @ bs))" using q by (simp add: run_queue_def)
  have i: "cpu_idle_thread (sched_block t ?u) = cpu_idle_thread s"
    using t by (simp add: sched_block_def Let_def)
  show ?thesis using d c i unfolding b by (simp add: sched_choose_def Let_def)
qed

lemma sched_block_twice_drops_queue_witness:
  "rq_head (runqueue (sched_block 2 (sched_block 2 three_queued))) = 0 \<and> run_queue three_queued [1, 2, 3]"
  using sched_block_twice_drops_queue [of three_queued "[1]" 2 "[3]"] three_queued by simp

end
