(* ===== verification/Thread.thy ===== *)
theory Thread
  imports Sched
begin

text \<open>
  \<^verbatim>\<open>hal/x86_64/thread_switch.S\<close> and \<^verbatim>\<open>kern/thread.c\<close>: context switches, and threads from creation to
  destruction.  The stacks are in \<open>mem\<close>; the frames of the C callers above \<open>thread_switch\<close> are not
  modelled, so a thread that is switched out is a saved stack pointer with seven words above it.
\<close>

section \<open>The context switch\<close>

definition push64 :: "u64 \<Rightarrow> 'a sched_state_scheme \<Rightarrow> 'a sched_state_scheme" where
  "push64 v s = (let sp = rsp (regs s) - 8 in s\<lparr>mem := store64 (mem s) sp v, regs := (regs s)\<lparr>rsp := sp\<rparr>\<rparr>)"

definition pop64 :: "'a sched_state_scheme \<Rightarrow> u64 \<times> 'a sched_state_scheme" where
  "pop64 s = (let sp = rsp (regs s) in (load64 (mem s) sp, s\<lparr>regs := (regs s)\<lparr>rsp := sp + 8\<rparr>\<rparr>))"

definition machine_switch_context :: "addr \<Rightarrow> u64 \<Rightarrow> 'a sched_state_scheme \<Rightarrow> 'a sched_state_scheme" where
  "machine_switch_context old_thread new_rsp s =
     (let s = push64 (rbp (regs s)) s;
          s = push64 (rbx (regs s)) s;
          s = push64 (r12 (regs s)) s;
          s = push64 (r13 (regs s)) s;
          s = push64 (r14 (regs s)) s;
          s = push64 (r15 (regs s)) s;
          s = s\<lparr>threads := (threads s)(old_thread := (threads s old_thread)\<lparr>saved_rsp := rsp (regs s)\<rparr>)\<rparr>;
          s = s\<lparr>regs := (regs s)\<lparr>rsp := new_rsp\<rparr>\<rparr>;
          (v, s) = pop64 s; s = s\<lparr>regs := (regs s)\<lparr>r15 := v\<rparr>\<rparr>;
          (v, s) = pop64 s; s = s\<lparr>regs := (regs s)\<lparr>r14 := v\<rparr>\<rparr>;
          (v, s) = pop64 s; s = s\<lparr>regs := (regs s)\<lparr>r13 := v\<rparr>\<rparr>;
          (v, s) = pop64 s; s = s\<lparr>regs := (regs s)\<lparr>r12 := v\<rparr>\<rparr>;
          (v, s) = pop64 s; s = s\<lparr>regs := (regs s)\<lparr>rbx := v\<rparr>\<rparr>;
          (v, s) = pop64 s; s = s\<lparr>regs := (regs s)\<lparr>rbp := v\<rparr>\<rparr>;
          (v, s) = pop64 s
      in s\<lparr>regs := (regs s)\<lparr>rip := v\<rparr>\<rparr>)"

text \<open>The trampoline up to the call of the entry function, and what it does when that returns.\<close>

definition thread_trampoline :: "u64 \<Rightarrow> 'a sched_state_scheme \<Rightarrow> 'a sched_state_scheme" where
  "thread_trampoline ret s =
     (let s = cpu_enable_interrupts s;
          s = s\<lparr>regs := (regs s)\<lparr>rdi := r14 (regs s)\<rparr>\<rparr>;
          s = push64 ret s
      in s\<lparr>regs := (regs s)\<lparr>rip := r15 (regs s)\<rparr>\<rparr>)"

definition thread_trampoline_spin :: "'a sched_state_scheme \<Rightarrow> 'a sched_state_scheme" where
  "thread_trampoline_spin s = cpu_halt s"

definition machine_halt :: "'a sched_state_scheme \<Rightarrow> 'a sched_state_scheme" where
  "machine_halt s = cpu_halt s"

text \<open>The call of \<open>machine_switch_context\<close> pushes its return address.\<close>

definition thread_switch :: "addr \<Rightarrow> addr \<Rightarrow> 'a sched_state_scheme \<Rightarrow> 'a sched_state_scheme option" where
  "thread_switch old_thread new_thread s =
     (if new_thread = THREAD_NULL then None
      else
        let s = machine_set_rsp0 (kernel_stack_top (threads s new_thread)) s
        in if old_thread = THREAD_NULL then None
           else
             let new_rsp = saved_rsp (threads s new_thread);
                 s = push64 (switch_return s) s
             in Some (machine_switch_context old_thread new_rsp s))"

section \<open>Threads\<close>

definition KSTACK_SIZE :: u64 where "KSTACK_SIZE = PMM_PAGE_SIZE"
definition sizeof_thread :: u64 where "sizeof_thread = 88"

definition get_thread_zone :: "'a sched_state_scheme \<Rightarrow> (zone_t \<times> 'a sched_state_scheme) option" where
  "get_thread_zone s =
     (if thread_zone s = ZONE_NULL then do {
        (z, s) \<leftarrow> zinit ''thread'' sizeof_thread 0 s;
        let s = s\<lparr>thread_zone := z\<rparr>;
        Some (thread_zone s, s)
      }
      else Some (thread_zone s, s))"

text \<open>\<open>*--sp = v\<close>\<close>

definition store_down :: "u64 \<Rightarrow> u64 \<times> 'a sched_state_scheme \<Rightarrow> u64 \<times> 'a sched_state_scheme" where
  "store_down v ss = (case ss of (sp, s) \<Rightarrow> (let sp = sp - 8 in (sp, s\<lparr>mem := store64 (mem s) sp v\<rparr>)))"

text \<open>The part of \<open>thread_create\<close> that fills in the thread, its first stack frame and the list of its task.\<close>

definition thread_setup ::
  "addr \<Rightarrow> u64 \<Rightarrow> u64 \<Rightarrow> addr \<Rightarrow> u64 \<Rightarrow> 'a sched_state_scheme \<Rightarrow> 'a sched_state_scheme" where
  "thread_setup task entry arg t stack_phys s =
     (let tid = next_thread_id s;
          s = s\<lparr>next_thread_id := next_thread_id s + 1\<rparr>;
          s = s\<lparr>threads := (threads s)(t := (threads s t)\<lparr>thread_id := tid, thread_ref_count := 1,
                thread_task := task, task_next := THREAD_NULL, ith_self := IPC_PORT_NULL,
                kernel_stack_phys := stack_phys, kernel_stack_top := PHYS_TO_VIRT s stack_phys + KSTACK_SIZE,
                sched := \<lparr>ts_state = THREAD_STATE_RUNNABLE, ts_next = THREAD_NULL, ts_prev = THREAD_NULL,
                  run_time = 0\<rparr>\<rparr>)\<rparr>;
          sp = kernel_stack_top (threads s t);
          (sp, s) = fold store_down [0, trampoline_addr s, 0, 0, 0, 0, arg, entry] (sp, s);
          s = s\<lparr>threads := (threads s)(t := (threads s t)\<lparr>saved_rsp := sp\<rparr>)\<rparr>
      in if task \<noteq> TASK_NULL then
           let s = s\<lparr>threads := (threads s)(t := (threads s t)\<lparr>task_next := task_threads (tasks s task)\<rparr>)\<rparr>
           in s\<lparr>tasks := (tasks s)(task := (tasks s task)\<lparr>task_threads := t,
                  thread_count := thread_count (tasks s task) + 1\<rparr>)\<rparr>
         else s)"

text \<open>
  \<open>thread_create\<close> returns the code, the thread it writes to \<open>*thread_out\<close> (null here where it does not
  write) and the new state.
\<close>

definition thread_create ::
  "addr \<Rightarrow> u64 \<Rightarrow> u64 \<Rightarrow> 'a sched_state_scheme \<Rightarrow> (kern_return \<times> addr \<times> 'a sched_state_scheme) option" where
  "thread_create task entry arg s = do {
     (z, s) \<leftarrow> get_thread_zone s;
     if z = ZONE_NULL then Some (KERN_NO_SPACE, THREAD_NULL, s)
     else do {
       (t, s) \<leftarrow> zalloc z s;
       if t = THREAD_NULL then Some (KERN_NO_SPACE, THREAD_NULL, s)
       else
         case pmm_alloc_page s of (stack_phys, s) \<Rightarrow>
         if stack_phys = PMM_NULL then do {
           s \<leftarrow> zfree z t s;
           Some (KERN_NO_SPACE, THREAD_NULL, s)
         }
         else
           let s = thread_setup task entry arg t stack_phys s;
               s = snd (sched_enqueue t s)
           in Some (KERN_SUCCESS, t, s)
     }
   }"

definition thread_destroy :: "addr \<Rightarrow> 'a sched_state_scheme \<Rightarrow> (kern_return \<times> 'a sched_state_scheme) option" where
  "thread_destroy t s =
     (if t = THREAD_NULL then Some (KERN_INVALID_ARGUMENT, s)
      else
        let s = s\<lparr>threads := (threads s)(t := (threads s t)\<lparr>thread_ref_count := thread_ref_count (threads s t) - 1\<rparr>)\<rparr>
        in if thread_ref_count (threads s t) > 0 then Some (KERN_SUCCESS, s)
        else
          let s = snd (sched_dequeue t s);
              s = (if kernel_stack_phys (threads s t) \<noteq> 0
                   then pmm_free_page (kernel_stack_phys (threads s t)) s else s)
          in do {
            (z, s) \<leftarrow> get_thread_zone s;
            s \<leftarrow> zfree z t s;
            Some (KERN_SUCCESS, s)
          })"

section \<open>Words on a stack\<close>

text \<open>\<open>words sp n\<close>: the addresses of the \<open>n\<close> words below \<open>sp\<close>.\<close>

definition word_below :: "u64 \<Rightarrow> nat \<Rightarrow> u64" where
  "word_below sp k = sp - 8 * of_nat (Suc k)"

fun push_mem :: "u64 list \<Rightarrow> u64 \<Rightarrow> memory \<Rightarrow> memory" where
  "push_mem [] sp m = m"
| "push_mem (v # vs) sp m = push_mem vs (sp - 8) (store64 m (sp - 8) v)"

lemma word_below_aligned: "aligned 8 sp \<Longrightarrow> k < 1000 \<Longrightarrow> aligned 8 (word_below sp k)"
  unfolding word_below_def using aligned_of_nat_mult [of 8 "Suc k"] by (intro aligned_sub) simp_all

lemma word_below_inj:
  assumes "word_below sp i = word_below sp j" "i < 1000" "j < 1000"
  shows "i = j"
proof -
  have "(of_nat (8 * Suc i) :: u64) = of_nat (8 * Suc j)" using assms(1) by (simp add: word_below_def)
  moreover have "unat (of_nat (8 * Suc i) :: u64) = 8 * Suc i" "unat (of_nat (8 * Suc j) :: u64) = 8 * Suc j"
    using assms(2,3) by (intro unat_of_nat64, simp)+
  ultimately have "8 * Suc i = 8 * Suc j" by metis
  then show ?thesis by simp
qed

lemma push_mem_other:
  assumes "aligned 8 a" "aligned 8 sp" "\<And>k. k < length vs \<Longrightarrow> a \<noteq> word_below sp k"
  shows "load64 (push_mem vs sp m) a = load64 m a"
  using assms
proof (induction vs arbitrary: sp m)
  case (Cons v vs)
  have sp: "aligned 8 (sp - 8)" using word_below_aligned [OF Cons.prems(2), of 0] by (simp add: word_below_def)
  have "a \<noteq> word_below (sp - 8) k" if "k < length vs" for k
    using Cons.prems(3) [of "Suc k"] that by (simp add: word_below_def algebra_simps)
  moreover have "a \<noteq> sp - 8" using Cons.prems(3) [of 0] by (simp add: word_below_def)
  ultimately show ?case using Cons.IH [OF Cons.prems(1) sp] Cons.prems(1) sp by (simp add: mem_simps)
qed simp

lemma push_mem_nth:
  assumes "aligned 8 sp" "k < length vs" "length vs < 1000"
  shows "load64 (push_mem vs sp m) (word_below sp k) = vs ! k"
  using assms
proof (induction vs arbitrary: sp m k)
  case (Cons v vs)
  have sp: "aligned 8 (sp - 8)" using word_below_aligned [OF Cons.prems(1), of 0] by (simp add: word_below_def)
  have step: "word_below (sp - 8) j = word_below sp (Suc j)" for j by (simp add: word_below_def algebra_simps)
  show ?case
  proof (cases k)
    case 0
    have "word_below sp 0 \<noteq> word_below (sp - 8) j" if "j < length vs" for j
      using word_below_inj [of sp 0 "Suc j"] that Cons.prems(3) unfolding step by auto
    then have "load64 (push_mem vs (sp - 8) (store64 m (sp - 8) v)) (word_below sp 0) =
        load64 (store64 m (sp - 8) v) (word_below sp 0)"
      by (intro push_mem_other word_below_aligned Cons.prems(1) sp) simp_all
    then show ?thesis by (simp add: 0 word_below_def mem_simps)
  next
    case (Suc j)
    then show ?thesis using Cons.IH [OF sp, of j] Cons.prems step by simp
  qed
qed simp

section \<open>What a switch does\<close>

text \<open>The registers a switch finds at a saved stack pointer.\<close>

definition saved_regs :: "memory \<Rightarrow> u64 \<Rightarrow> registers \<Rightarrow> registers" where
  "saved_regs m sp r = r\<lparr>r15 := load64 m sp, r14 := load64 m (sp + 8), r13 := load64 m (sp + 16),
     r12 := load64 m (sp + 24), rbx := load64 m (sp + 32), rbp := load64 m (sp + 40), rip := load64 m (sp + 48),
     rsp := sp + 56\<rparr>"

text \<open>What it leaves on the stack of the old thread, first word first.\<close>

definition frame :: "u64 \<Rightarrow> registers \<Rightarrow> u64 list" where
  "frame ret r = [ret, rbp r, rbx r, r12 r, r13 r, r14 r, r15 r]"

lemma thread_switch_eq:
  fixes s :: "'a sched_state_scheme"
  assumes "old \<noteq> 0" "new \<noteq> 0"
  defines "m \<equiv> push_mem (frame (switch_return s) (regs s)) (rsp (regs s)) (mem s)"
  shows "thread_switch old new s = Some (s\<lparr>mem := m,
     kernel_tss := (kernel_tss s)\<lparr>tss_rsp0 := kernel_stack_top (threads s new)\<rparr>,
     threads := (threads s)(old := (threads s old)\<lparr>saved_rsp := rsp (regs s) - 56\<rparr>),
     regs := saved_regs m (saved_rsp (threads s new)) (regs s)\<rparr>)"
  using assms
  by (simp add: thread_switch_def machine_switch_context_def push64_def pop64_def Let_def frame_def saved_regs_def
      machine_set_rsp0_def gdt_set_rsp0_def algebra_simps)

lemma below_minus_56:
  "sp - 56 = word_below sp 6" "word_below sp 6 + 8 = word_below sp 5" "word_below sp 6 + 16 = word_below sp 4"
  "word_below sp 6 + 24 = word_below sp 3" "word_below sp 6 + 32 = word_below sp 2" "word_below sp 6 + 40 = word_below sp 1"
  "word_below sp 6 + 48 = word_below sp 0" "word_below sp 6 + 56 = sp"
  by (simp_all add: word_below_def)

lemma frame_length [simp]: "length (frame ret r) = 7"
  by (simp add: frame_def)

text \<open>Popping an untouched frame gives the pushed registers back.\<close>

lemma saved_regs_frame:
  assumes "\<And>k. k < 7 \<Longrightarrow> load64 m (word_below (rsp r) k) = frame ret r ! k"
  shows "saved_regs m (rsp r - 56) r' = r\<lparr>rip := ret, rdi := rdi r'\<rparr>"
  using assms [of 0] assms [of 1] assms [of 2] assms [of 3] assms [of 4] assms [of 5] assms [of 6]
  by (simp add: saved_regs_def below_minus_56 [of "rsp r"] frame_def del: One_nat_def)

text \<open>
  Two frames that share no word: a push below one stack pointer leaves the words below the other.
\<close>

definition apart :: "nat \<Rightarrow> u64 \<Rightarrow> u64 \<Rightarrow> bool" where
  "apart n a b \<longleftrightarrow> (\<forall>i < n. \<forall>k < n. word_below a i \<noteq> word_below b k)"

lemma push_frame_apart:
  assumes "aligned 8 a" "aligned 8 b" "apart n a b" "length vs \<le> n" "k < n" "n < 1000"
  shows "load64 (push_mem vs a m) (word_below b k) = load64 m (word_below b k)"
proof (rule push_mem_other)
  show "word_below b k \<noteq> word_below a i" if "i < length vs" for i
    using assms(3-5) that unfolding apart_def by (metis order_less_le_trans)
qed (use assms in \<open>auto intro: word_below_aligned\<close>)

lemma thread_switch_back:
  assumes sw: "thread_switch old new s = Some t"
    and kept: "saved_rsp (threads u old) = saved_rsp (threads t old)"
      "\<And>k. k < 7 \<Longrightarrow> load64 (mem u) (word_below (rsp (regs s)) k) = load64 (mem t) (word_below (rsp (regs s)) k)"
    and al: "aligned 8 (rsp (regs s))" "aligned 8 (rsp (regs u))" "apart 7 (rsp (regs u)) (rsp (regs s))"
    and cur: "cur \<noteq> 0"
  shows "\<exists>v. thread_switch cur old u = Some v \<and> regs v = (regs s)\<lparr>rip := switch_return s, rdi := rdi (regs u)\<rparr>"
proof -
  let ?sp = "rsp (regs s)" and ?f = "frame (switch_return s) (regs s)"
  have nz: "old \<noteq> 0" "new \<noteq> 0" using sw by (auto simp: thread_switch_def Let_def split: if_splits)
  have t: "saved_rsp (threads t old) = ?sp - 56" "mem t = push_mem ?f ?sp (mem s)"
    using sw thread_switch_eq [OF nz, of s] by (simp_all, auto)
  have "load64 (push_mem (frame (switch_return u) (regs u)) (rsp (regs u)) (mem u)) (word_below ?sp k) = ?f ! k"
    if k: "k < 7" for k
  proof -
    have "load64 (push_mem (frame (switch_return u) (regs u)) (rsp (regs u)) (mem u)) (word_below ?sp k) =
        load64 (mem u) (word_below ?sp k)"
      using al k by (intro push_frame_apart [of _ _ 7]) simp_all
    also have "\<dots> = ?f ! k" using push_mem_nth [OF al(1), of k ?f "mem s"] k by (simp add: kept(2) t(2))
    finally show ?thesis .
  qed
  then show ?thesis
    using thread_switch_eq [OF cur nz(1), of u] saved_regs_frame [of _ "regs s" "switch_return s"]
    by (auto simp: kept(1) t(1))
qed

section \<open>Creating a thread\<close>

definition new_frame :: "u64 \<Rightarrow> u64 \<Rightarrow> u64 \<Rightarrow> u64 list" where
  "new_frame tramp entry arg = [0, tramp, 0, 0, 0, 0, arg, entry]"

lemma fold_store_down:
  "fold store_down vs (sp, s) = (sp - 8 * of_nat (length vs), s\<lparr>mem := push_mem vs sp (mem s)\<rparr>)"
  by (induction vs arbitrary: sp s) (simp_all add: store_down_def Let_def algebra_simps)

lemma thread_create_success:
  assumes "thread_zone s = Some i" "zalloc (Some i) s = Some (t, s1)" "t \<noteq> 0" "pmm_alloc_page s1 = (pa, s2)" "pa \<noteq> 0"
  shows "thread_create task entry arg s =
    Some (KERN_SUCCESS, t, snd (sched_enqueue t (thread_setup task entry arg t pa s2)))"
  using assms by (simp add: thread_create_def get_thread_zone_def Let_def)

lemma thread_setup_thread:
  fixes s :: "'a sched_state_scheme" and pa :: u64
  defines "tp \<equiv> PHYS_TO_VIRT s pa + KSTACK_SIZE"
  shows "threads (thread_setup task entry arg t pa s) = (threads s)(t :=
      \<lparr>thread_id = next_thread_id s, thread_ref_count = 1, thread_task = task,
       task_next = (if task = 0 then 0 else task_threads (tasks s task)), saved_rsp = tp - 64, ith_self = 0,
       kernel_stack_phys = pa, kernel_stack_top = tp,
       sched = \<lparr>ts_state = THREAD_STATE_RUNNABLE, ts_next = 0, ts_prev = 0, run_time = 0\<rparr>\<rparr>)"
    "mem (thread_setup task entry arg t pa s) = push_mem (new_frame (trampoline_addr s) entry arg) tp (mem s)"
  unfolding thread_setup_def fold_store_down by (cases "threads s t"; simp add: Let_def new_frame_def tp_def PHYS_TO_VIRT_def del: push_mem.simps)+

lemma thread_setup_frame [simp]:
  "bitmap (thread_setup task entry arg t pa s) = bitmap s" "free_count (thread_setup task entry arg t pa s) = free_count s"
  "hhdm_offset (thread_setup task entry arg t pa s) = hhdm_offset s"
  "zone_store (thread_setup task entry arg t pa s) = zone_store s"
  "zone_count (thread_setup task entry arg t pa s) = zone_count s"
  "runqueue (thread_setup task entry arg t pa s) = runqueue s"
  "thread_zone (thread_setup task entry arg t pa s) = thread_zone s"
  "trampoline_addr (thread_setup task entry arg t pa s) = trampoline_addr s"
  "regs (thread_setup task entry arg t pa s) = regs s"
  "cpu_data_ptr (thread_setup task entry arg t pa s) = cpu_data_ptr s"
  unfolding thread_setup_def fold_store_down by (simp_all add: Let_def del: push_mem.simps)

lemma enqueue_frame [simp]:
  "bitmap (snd (sched_enqueue t s)) = bitmap s" "free_count (snd (sched_enqueue t s)) = free_count s"
  "hhdm_offset (snd (sched_enqueue t s)) = hhdm_offset s" "mem (snd (sched_enqueue t s)) = mem s"
  "zone_store (snd (sched_enqueue t s)) = zone_store s" "zone_count (snd (sched_enqueue t s)) = zone_count s"
  "thread_zone (snd (sched_enqueue t s)) = thread_zone s"
  "trampoline_addr (snd (sched_enqueue t s)) = trampoline_addr s" "regs (snd (sched_enqueue t s)) = regs s"
  by (simp_all add: sched_enqueue_def Let_def upd_sched_def)

lemma enqueue_thread [simp]:
  "kernel_stack_top (threads (snd (sched_enqueue t s)) x) = kernel_stack_top (threads s x)"
  "kernel_stack_phys (threads (snd (sched_enqueue t s)) x) = kernel_stack_phys (threads s x)"
  "saved_rsp (threads (snd (sched_enqueue t s)) x) = saved_rsp (threads s x)"
  "thread_task (threads (snd (sched_enqueue t s)) x) = thread_task (threads s x)"
  "thread_ref_count (threads (snd (sched_enqueue t s)) x) = thread_ref_count (threads s x)"
  "thread_id (threads (snd (sched_enqueue t s)) x) = thread_id (threads s x)"
  by (simp_all add: sched_enqueue_def Let_def upd_sched_def)

lemma zones_rep_fresh_page:
  assumes rep: "zones_rep P F s" and t: "zone_store t = zone_store s" "zone_count t = zone_count s"
      "hhdm_offset t = hhdm_offset s" "pmm_inv t" "direct_pages s \<subseteq> direct_pages t"
    and m: "\<And>b. page_of b \<in> direct_pages s \<Longrightarrow> mem t b = mem s b"
  shows "zones_rep P F t"
proof -
  have "zone_ok t j (P j) (F j)" if j: "j < zone_count s" for j
  proof (rule zone_ok_cong)
    show "zone_ok s j (P j) (F j)" using rep j by (simp add: zones_rep_def)
    show "zone_store t j = zone_store s j" by (simp add: t)
    fix x y assume "y \<in> set (F j)" "x - y < elem_size (zone_store s j)"
    then have "page_of x \<in> P j"
      using slot_bytes_in_page(2) [OF zones_rep_elem [OF rep j] zones_rep_pages(1) [OF rep j]]
        zones_rep_free_subset [OF rep j] by blast
    then show "mem t x = mem s x" using m rep j by (auto simp: zones_rep_def)
  qed
  then show ?thesis using rep t by (auto simp: zones_rep_def hhdm_ok_def)
qed

text \<open>The new frame lies in the page of the stack.\<close>

lemma unat_numeral8: "unat (8 :: u64) = 8" by simp

lemma push_mem_byte: "length vs < 1000 \<Longrightarrow> 8 * length vs \<le> unat (sp - 1 - b) \<Longrightarrow> push_mem vs sp m b = m b"
proof (induction vs arbitrary: sp m)
  case (Cons v vs)
  have "sp - 1 - b \<ge> 8" using Cons.prems by (simp add: word_le_nat_alt)
  moreover have "sp - 8 - 1 - b = sp - 1 - b - 8" by simp
  ultimately have u: "unat (sp - 8 - 1 - b) = unat (sp - 1 - b) - 8"
    using unat_sub [of 8 "sp - 1 - b"] by (simp only: unat_numeral8)
  have far: "8 \<le> unat (b - (sp - 8))"
  proof (rule ccontr)
    assume "\<not> 8 \<le> unat (b - (sp - 8))"
    then have l: "unat (b - (sp - 8)) \<le> 7" by simp
    have "sp - 1 - b = 7 - (b - (sp - 8))" by simp
    moreover have "unat (7 - (b - (sp - 8))) = 7 - unat (b - (sp - 8))"
      using l by (subst unat_sub) (simp_all add: word_le_nat_alt)
    ultimately have "unat (sp - 1 - b) \<le> 7" by (metis diff_le_self)
    then show False using Cons.prems(2) by simp
  qed
  have "push_mem vs (sp - 8) (store64 m (sp - 8) v) b = store64 m (sp - 8) v b"
    using Cons.prems u by (intro Cons.IH) simp_all
  then show ?case using far by (simp add: store64_other_byte)
qed simp

lemma new_frame_page:
  assumes "aligned 4096 pg" "page_of b \<noteq> pg"
  shows "push_mem (new_frame tr entry arg) (pg + 4096) m b = m b"
proof (rule push_mem_byte)
  have "\<not> b - pg < 4096" using page_of_iff [OF assms(1), of b] assms(2) by simp
  then have "4096 \<le> unat (b - pg)" by (simp add: word_less_nat_alt)
  have "\<not> unat (pg + 4096 - 1 - b) < 4096"
  proof
    assume l: "unat (pg + 4096 - 1 - b) < 4096"
    have "b - pg = 4095 - (pg + 4096 - 1 - b)" by simp
    moreover have "unat (4095 - (pg + 4096 - 1 - b)) = 4095 - unat (pg + 4096 - 1 - b)"
      using l by (subst unat_sub) (simp_all add: word_le_nat_alt)
    ultimately have "unat (b - pg) < 4096" by simp
    with \<open>4096 \<le> unat (b - pg)\<close> show False by simp
  qed
  then show "8 * length (new_frame tr entry arg) \<le> unat (pg + 4096 - 1 - b)" by (simp add: new_frame_def)
qed (simp add: new_frame_def)

text \<open>
  What \<open>thread_create\<close> does: a fresh thread with a fresh stack page, last in the run queue; or no space,
  with the run queue and the threads as before.
\<close>

lemma zones_rep_same:
  assumes "zones_rep P F s" "mem t = mem s" "bitmap t = bitmap s" "free_count t = free_count s"
    "hhdm_offset t = hhdm_offset s" "zone_count t = zone_count s" "zone_store t = zone_store s"
  shows "zones_rep P F t"
  using assms
  by (simp add: zones_rep_def pmm_inv_def count_ok_def free_set_def bitmap_test_def hhdm_ok_def zone_ok_def
      direct_pages_def used_pages_def PHYS_TO_VIRT_def)

lemma same_pages:
  assumes "bitmap t = bitmap s" "free_count t = free_count s" "hhdm_offset t = hhdm_offset s"
  shows "pmm_inv t = pmm_inv s" "direct_pages t = direct_pages s"
  using assms
  by (simp_all add: pmm_inv_def count_ok_def free_set_def bitmap_test_def direct_pages_def used_pages_def PHYS_TO_VIRT_def)

lemma page_top_aligned: "aligned 4096 p \<Longrightarrow> aligned 8 (p + 4096)"
proof (rule aligned_add)
  assume p: "aligned 4096 p"
  have "unat p mod 8 = unat p mod 4096 mod 8" by (simp add: mod_mod_cancel)
  then show "aligned 8 p" using p by (simp add: aligned_def)
qed (simp_all add: aligned_def)

lemma thread_create_cases:
  assumes rep: "zones_rep P F s" and z: "thread_zone s = Some i" "i < zone_count s"
    and q: "run_queue s xs" "set xs \<subseteq> zone_live P F s i"
  obtains (no_space) u F' P' where "thread_create task entry arg s = Some (KERN_NO_SPACE, THREAD_NULL, u)"
      "zones_rep P' F' u" "zone_live P' F' u i = zone_live P F s i" "run_queue u xs"
      "card (free_set s) \<le> 1 \<or> max_size (zone_store s i) \<noteq> 0"
  | (created) t u pa P' F' where "thread_create task entry arg s = Some (KERN_SUCCESS, t, u)"
      "zones_rep P' F' u" "t \<noteq> 0" "t \<notin> zone_live P F s i" "zone_live P' F' u i = insert t (zone_live P F s i)"
      "run_queue u (xs @ [t])" "kernel_stack_phys (threads u t) = pa" "thread_task (threads u t) = task"
      "kernel_stack_top (threads u t) = PHYS_TO_VIRT s pa + KSTACK_SIZE"
      "saved_rsp (threads u t) = kernel_stack_top (threads u t) - 64"
      "aligned 4096 (PHYS_TO_VIRT s pa)" "PHYS_TO_VIRT s pa \<in> direct_pages u - direct_pages s"
      "unat pa < 4294967296" "regs u = regs s" "trampoline_addr u = trampoline_addr s" "cpu_data_ptr u = cpu_data_ptr s"
      "\<And>k. k < 8 \<Longrightarrow> load64 (mem u) (word_below (kernel_stack_top (threads u t)) k)
         = new_frame (trampoline_addr s) entry arg ! k"
      "pa \<noteq> 0" "pa \<in> used_pages u" "\<And>j. j < zone_count u \<Longrightarrow> PHYS_TO_VIRT s pa \<notin> P' j" "hhdm_offset u = hhdm_offset s"
      "zone_count u = zone_count s" "thread_zone u = thread_zone s" "thread_ref_count (threads u t) = 1"
proof (cases rule: zalloc_spec [OF rep z(2)])
  case 1
  have "thread_create task entry arg s = Some (KERN_NO_SPACE, THREAD_NULL, s)"
    using z 1(1) by (simp add: thread_create_def get_thread_zone_def Let_def)
  moreover have "card (free_set s) \<le> 1 \<or> max_size (zone_store s i) \<noteq> 0"
    using 1(3) pmm_alloc_page_full [of s s] rep by (auto simp: zones_rep_def)
  ultimately show thesis using rep q by (intro no_space) simp_all
next
  case (2 t s1 P1 F1)
  obtain m b c zs where s1: "s1 = s\<lparr>mem := m, bitmap := b, free_count := c, zone_store := zs\<rparr>" using 2(14) by blast
  have q1: "run_queue s1 xs" using q(1) by (simp add: run_queue_def s1)
  have live: "zone_live P1 F1 s1 i = insert t (zone_live P F s i)" by (rule 2(5))
  have i1: "i < zone_count s1" using z 2(7) by simp
  obtain pa s2 where al: "pmm_alloc_page s1 = (pa, s2)" by fastforce
  show thesis
  proof (cases "pa = 0")
    case True
    have s21: "s2 = s1" "free_set s1 = {}"
      using pmm_alloc_page_full [of s1 s2] al True 2(2) by (simp_all add: zones_rep_def)
    then have few: "card (free_set s) \<le> 1" using zalloc_takes [OF 2(1)] by (simp add: takes_def)
    show thesis
    proof (rule zfree_spec [OF 2(2) i1, of t])
      show "t \<in> zone_live P1 F1 s1 i" using live by simp
      fix u assume u: "zfree (Some i) t s1 = Some u" "zones_rep P1 (F1(i := t # F1 i)) u"
        "zone_live P1 (F1(i := t # F1 i)) u i = zone_live P1 F1 s1 i - {t}"
        "\<exists>m zs. u = s1\<lparr>mem := m, zone_store := zs\<rparr>"
      have "run_queue u xs" using q1 u(4) by (auto simp: run_queue_def)
      moreover have "zone_live P1 (F1(i := t # F1 i)) u i = zone_live P F s i" using u(3) live 2(4) by auto
      moreover have "thread_create task entry arg s = Some (KERN_NO_SPACE, THREAD_NULL, u)"
        using z 2(1,3) al True s21(1) u(1) by (simp add: thread_create_def get_thread_zone_def Let_def)
      ultimately show thesis by (intro no_space [of u P1 "F1(i := t # F1 i)"] u(2) disjI1 few)
    qed
  next
    case False
    define u where "u = snd (sched_enqueue t (thread_setup task entry arg t pa s2))"
    obtain b' c' where s2: "s2 = s1\<lparr>bitmap := b', free_count := c'\<rparr>" by (rule pmm_alloc_page_frame [OF al])
    have hh: "PHYS_TO_VIRT s2 pa = PHYS_TO_VIRT s pa" "PHYS_TO_VIRT s1 pa = PHYS_TO_VIRT s pa"
      by (simp_all add: PHYS_TO_VIRT_def s2 s1)
    note f = fresh_direct_page [OF 2(2) al False, unfolded hh]
    have new: "PHYS_TO_VIRT s pa \<notin> direct_pages s1"
      using pmm_alloc_page_fresh [OF _ al False] 2(2) by (auto simp: zones_rep_def direct_pages_def hh(2) [symmetric])
    have eq: "thread_create task entry arg s = Some (KERN_SUCCESS, t, u)"
      unfolding u_def by (rule thread_create_success [OF z(1) 2(1,3) al False])
    have us: "pmm_inv u = pmm_inv s2" "direct_pages u = direct_pages s2"
      by (intro same_pages; simp add: u_def)+
    have m: "mem u = push_mem (new_frame (trampoline_addr s) entry arg) (PHYS_TO_VIRT s pa + 4096) (mem s1)"
      by (simp add: u_def thread_setup_thread s2 s1 KSTACK_SIZE_def PHYS_TO_VIRT_def)
    have rep': "zones_rep P1 F1 u"
    proof (rule zones_rep_fresh_page [OF 2(2)])
      show "mem u b = mem s1 b" if "page_of b \<in> direct_pages s1" for b
        unfolding m by (rule new_frame_page [OF f(1)]) (use that new in auto)
      show "pmm_inv u" "direct_pages s1 \<subseteq> direct_pages u" using f(4,5) us by auto
    qed (simp_all add: u_def s2)
    have "t \<notin> set xs" using 2(4) q(2) by blast
    have setup_q: "run_queue (thread_setup task entry arg t pa s2) xs"
      by (rule run_queue_cong [OF q1]) (use \<open>t \<notin> set xs\<close> in \<open>auto simp: s2 thread_setup_thread same_links_def\<close>)
    have q': "run_queue u (xs @ [t])"
      using run_queue_enqueue [OF setup_q 2(3) \<open>t \<notin> set xs\<close>] by (simp add: u_def)
    have top: "kernel_stack_top (threads u t) = PHYS_TO_VIRT s pa + KSTACK_SIZE"
      by (simp add: u_def thread_setup_thread hh)
    note al8 = page_top_aligned [OF f(1)]
    show thesis
    proof (rule created [OF eq rep' 2(3,4)])
      show "zone_live P1 F1 u i = insert t (zone_live P F s i)" using live by (simp add: zone_live_def u_def s2)
      show "load64 (mem u) (word_below (kernel_stack_top (threads u t)) k) = new_frame (trampoline_addr s) entry arg ! k"
        if "k < 8" for k
        unfolding m top KSTACK_SIZE_def PMM_PAGE_SIZE_def
        by (rule push_mem_nth [OF al8]) (use that in \<open>simp_all add: new_frame_def\<close>)
      show "PHYS_TO_VIRT s pa \<in> direct_pages u - direct_pages s" using f(5) us new 2(12) by auto
      show "unat pa < 4294967296"
        using pmm_alloc_page_fresh [OF _ al False] 2(2) used_page_bounds [of pa s2] by (simp add: zones_rep_def)
      show "regs u = regs s" "trampoline_addr u = trampoline_addr s" "cpu_data_ptr u = cpu_data_ptr s" by (simp_all add: u_def s2 s1)
      have "pa \<in> used_pages s2" using pmm_alloc_page_fresh [OF _ al False] 2(2) by (auto simp: zones_rep_def)
      then show "pa \<in> used_pages u" by (simp add: u_def used_pages_def bitmap_test_def)
      show "PHYS_TO_VIRT s pa \<notin> P1 j" if "j < zone_count u" for j
        using new that 2(2) by (auto simp: zones_rep_def u_def s2)
      show "pa \<noteq> 0" by (rule False)
      show "zone_count u = zone_count s" using 2(7) by (simp add: u_def s2)
      show "hhdm_offset u = hhdm_offset s" "thread_zone u = thread_zone s" by (simp_all add: u_def s2 s1)
    qed (use q' top f(1) in \<open>simp_all add: u_def thread_setup_thread hh\<close>)
  qed
qed

section \<open>Properties\<close>

text \<open>
  The state the witnesses use: zones of the given element sizes, the first of them for threads, an empty
  run queue, one processor and 48 free pages.
\<close>

definition quiet :: "u64 list \<Rightarrow> 'a sched_state_scheme \<Rightarrow> 'a sched_state_scheme" where
  "quiet sizes s = s\<lparr>mem := (\<lambda>_. 0), hhdm_offset := 0xffff800000000000, bitmap := bitmap blank_vm, free_count := 48,
     zone_store := (\<lambda>i. blank_zone\<lparr>elem_size := sizes ! i\<rparr>), zone_count := length sizes, thread_zone := Some 0,
     runqueue := \<lparr>rq_head = 0, rq_tail = 0, rq_count = 0\<rparr>, cpu_data_ptr := Some 0,
     cpu_data_store := (\<lambda>_. blank_cpu), trampoline_addr := 0xffffffff80001000, switch_return := 0xffffffff80002000,
     regs := \<lparr>rsp = 0xffffffff90000000, rbp = 1, rbx = 2, r12 = 3, r13 = 4, r14 = 5, r15 = 6, rdi = 7, rip = 0\<rparr>\<rparr>"

lemma quiet:
  assumes "\<forall>e \<in> set sizes. elem_ok e" "length sizes \<le> 32"
  shows "zones_rep (\<lambda>_. {}) (\<lambda>_. []) (quiet sizes s)" "card (free_set (quiet sizes s)) = 48" "run_queue (quiet sizes s) []"
proof -
  have b: "bitmap_test (quiet sizes s) = bitmap_test blank_vm" by (rule ext) (simp add: bitmap_test_def quiet_def)
  have f: "free_set (quiet sizes s) = free_set blank_vm" unfolding free_set_def b ..
  show c: "card (free_set (quiet sizes s)) = 48" unfolding f by (rule free_set_blank(2))
  have "pmm_inv (quiet sizes s)"
    using c bitmap_test_blank [of 0] unfolding pmm_inv_def count_ok_def b
    by (simp add: word_le_nat_alt) (simp add: quiet_def)
  moreover have "hhdm_ok (quiet sizes s)" by (simp add: hhdm_ok_def quiet_def aligned_def)
  moreover have "zone_ok (quiet sizes s) i {} []" if "i < length sizes" for i
    using assms(1) nth_mem [OF that] by (simp add: quiet_def zone_ok_def blank_zone_def live_def zone_slots_def)
  ultimately show "zones_rep (\<lambda>_. {}) (\<lambda>_. []) (quiet sizes s)"
    using assms(2) by (simp add: zones_rep_def) (simp add: quiet_def)
  show "run_queue (quiet sizes s) []" by (simp add: run_queue_def quiet_def)
qed

lemma elem_ok_88: "elem_ok 88"
  by (simp add: elem_ok_def aligned_def)



text \<open>
  C16: The first switch to a new thread, from whatever thread and however much later, lands in the trampoline with
  the stack one guard word below its top, and the trampoline enters the entry function with the argument in
  \<open>rdi\<close> and interrupts on, provided nothing wrote to the eight words of its frame and the frame of the old thread
  does not overlap them.
\<close>

theorem thread_first_run:
  assumes rep: "zones_rep P F s" "thread_zone s = Some i" "i < zone_count s" "run_queue s xs" "set xs \<subseteq> zone_live P F s i"
    and cr: "thread_create task entry arg s = Some (KERN_SUCCESS, t, u)"
    and kept: "saved_rsp (threads v t) = saved_rsp (threads u t)"
      "\<forall>k < 8. load64 (mem v) (word_below (kernel_stack_top (threads u t)) k) =
         load64 (mem u) (word_below (kernel_stack_top (threads u t)) k)"
    and old: "old \<noteq> 0" "aligned 8 (rsp (regs v))" "apart 8 (rsp (regs v)) (kernel_stack_top (threads u t))"
  shows "\<exists>w. thread_switch old t v = Some w \<and> rip (regs w) = trampoline_addr s \<and>
    rsp (regs w) = kernel_stack_top (threads u t) - 8 \<and> rip (regs (thread_trampoline ret w)) = entry \<and>
    rdi (regs (thread_trampoline ret w)) = arg \<and> interrupts (thread_trampoline ret w)"
proof (cases rule: thread_create_cases [OF rep, of task entry arg])
  case 1
  then show ?thesis using cr by simp
next
  case (2 t' u' pa P' F')
  let ?tp = "kernel_stack_top (threads u t)"
  have t: "t' = t" "u' = u" using 2(1) cr by simp_all
  have al: "aligned 8 ?tp" using page_top_aligned [OF 2(11)] 2(9) by (simp add: t KSTACK_SIZE_def)
  define m where "m = push_mem (frame (switch_return v) (regs v)) (rsp (regs v)) (mem v)"
  have w: "load64 m (word_below ?tp k) = new_frame (trampoline_addr s) entry arg ! k" if "k < 8" for k
    unfolding m_def using push_frame_apart [OF old(2) al old(3), of "frame (switch_return v) (regs v)" k] that kept(2) 2(17)
    by (simp add: t)
  have sp: "saved_rsp (threads v t) = word_below ?tp 7" using kept(1) 2(10) by (simp add: t word_below_def)
  have step: "word_below ?tp 7 + 8 = word_below ?tp 6" "word_below ?tp 7 + 48 = word_below ?tp 1"
    "word_below ?tp 7 + 56 = ?tp - 8" by (simp_all add: word_below_def)
  have r: "saved_regs m (saved_rsp (threads v t)) (regs v) = (saved_regs m (word_below ?tp 7) (regs v))" by (simp add: sp)
  have f: "rip (saved_regs m (word_below ?tp 7) (regs v)) = trampoline_addr s"
    "rsp (saved_regs m (word_below ?tp 7) (regs v)) = ?tp - 8"
    "r15 (saved_regs m (word_below ?tp 7) (regs v)) = entry" "r14 (saved_regs m (word_below ?tp 7) (regs v)) = arg"
    using w [of 1] w [of 6] w [of 7] by (simp_all add: saved_regs_def step new_frame_def)
  have nz: "t \<noteq> 0" using 2(3) t by simp
  show ?thesis
    unfolding thread_switch_eq [OF old(1) nz] m_def [symmetric] r
    by (simp add: f thread_trampoline_def Let_def push64_def cpu_enable_interrupts_def)
qed

lemma unat_word_below: "8 * Suc k \<le> unat a \<Longrightarrow> k < 1000 \<Longrightarrow> unat (word_below a k) = unat a - 8 * Suc k"
proof -
  assume k: "8 * Suc k \<le> unat a" "k < 1000"
  have n: "unat (8 * of_nat (Suc k) :: u64) = 8 * Suc k" using k(2) unat_of_nat64 [of "8 * Suc k"] by simp
  have "8 * of_nat (Suc k) \<le> a" unfolding word_le_nat_alt n by (rule k(1))
  then show ?thesis unfolding word_below_def by (simp only: unat_sub n)
qed

lemma apart_far: "n < 1000 \<Longrightarrow> 8000 \<le> unat b \<Longrightarrow> unat b + 8000 \<le> unat a \<Longrightarrow> apart n a b"
  unfolding apart_def
proof (intro allI impI notI)
  fix i k assume h: "n < 1000" "8000 \<le> unat b" "unat b + 8000 \<le> unat a" "i < n" "k < n" "word_below a i = word_below b k"
  then have "unat a - 8 * Suc i = unat b - 8 * Suc k"
    using unat_word_below [of i a] unat_word_below [of k b] by simp
  with h show False by simp
qed

theorem thread_first_run_witness:
  "\<exists>t u w. thread_create 0 0x400000 42 (quiet [88] (undefined :: sched_state)) = Some (KERN_SUCCESS, t, u) \<and>
     thread_switch 1 t u = Some w \<and> rip (regs (thread_trampoline 0 w)) = 0x400000 \<and> rdi (regs (thread_trampoline 0 w)) = 42"
proof -
  let ?s = "quiet [88] (undefined :: sched_state)"
  have q: "zones_rep (\<lambda>_. {}) (\<lambda>_. []) ?s" "card (free_set ?s) = 48" "run_queue ?s []"
    using quiet [of "[88]" "undefined :: sched_state"] elem_ok_88 by simp_all
  have z: "thread_zone ?s = Some 0" "0 < zone_count ?s" "max_size (zone_store ?s 0) = 0"
    by (simp_all add: quiet_def blank_zone_def)
  show ?thesis
  proof (cases rule: thread_create_cases [OF q(1) z(1,2) q(3), of 0 "0x400000" 42])
    case (3 t u pa P' F')
    let ?tp = "kernel_stack_top (threads u t)"
    have hh: "hhdm_offset ?s = 0xffff800000000000" by (simp add: quiet_def)
    have "unat (pa + 0xffff800000000000) = unat pa + 18446603336221196288" using 3(13) by (subst unat_add_no_wrap) simp_all
    then have "unat ?tp = unat pa + 18446603336221200384"
      using 3(13) unfolding 3(9) KSTACK_SIZE_def PHYS_TO_VIRT_def hh PMM_PAGE_SIZE_def by (subst unat_add_no_wrap) simp_all
    moreover have r: "rsp (regs u) = 0xffffffff90000000" using 3(14) by (simp add: quiet_def)
    ultimately have "apart 8 (rsp (regs u)) ?tp" using 3(13) by (intro apart_far) simp_all
    moreover have "aligned 8 (rsp (regs u))" by (simp add: r aligned_def)
    ultimately show ?thesis
      using thread_first_run [OF q(1) z(1,2) q(3) _ 3(1), of u 1 0] 3(1) by auto
  qed (use q(2) z(3) in simp_all)
qed

text \<open>
  C14: A thread that is switched out comes back exactly where it was: whatever the threads in between did, if they
  left its frame and its saved stack pointer alone and are not running on its frame, the switch back restores its
  callee-saved registers and its stack pointer and returns to \<open>thread_switch\<close>.
\<close>

theorem thread_switch_roundtrip:
  assumes "thread_switch old new s = Some t"
    and "saved_rsp (threads u old) = saved_rsp (threads t old)"
      "\<forall>k < 7. load64 (mem u) (word_below (rsp (regs s)) k) = load64 (mem t) (word_below (rsp (regs s)) k)"
    and "aligned 8 (rsp (regs s))" "aligned 8 (rsp (regs u))" "apart 7 (rsp (regs u)) (rsp (regs s))" "cur \<noteq> 0"
  shows "\<exists>v. thread_switch cur old u = Some v \<and> regs v = (regs s)\<lparr>rip := switch_return s, rdi := rdi (regs u)\<rparr>"
  by (rule thread_switch_back [OF assms(1,2) _ assms(4-7)]) (use assms(3) in blast)

theorem thread_switch_roundtrip_witness:
  "\<exists>(s :: sched_state) t v. thread_switch 1 2 s = Some t \<and> rbp (regs t) = 0 \<and> thread_switch 2 1 t = Some v \<and>
     rbp (regs v) = 1 \<and> r15 (regs v) = 6 \<and> rsp (regs v) = 0xffffffff90000000"
proof -
  define s where "s = (quiet [] (undefined :: sched_state))\<lparr>threads := (\<lambda>_. (threads undefined 0)\<lparr>saved_rsp := 0xffffffffa0000000\<rparr>)\<rparr>"
  have r: "regs s = \<lparr>rsp = 0xffffffff90000000, rbp = 1, rbx = 2, r12 = 3, r13 = 4, r14 = 5, r15 = 6, rdi = 7, rip = 0\<rparr>"
    by (simp add: s_def quiet_def)
  have sw: "thread_switch 1 2 s \<noteq> None" by (simp add: thread_switch_eq)
  then obtain t where t: "thread_switch 1 2 s = Some t" by auto
  have rt: "rsp (regs t) = 0xffffffffa0000038" "rbp (regs t) = load64 (push_mem (frame (switch_return s) (regs s)) (rsp (regs s)) (mem s)) 0xffffffffa0000028"
    using t by (auto simp: thread_switch_eq saved_regs_def s_def)
  have "load64 (push_mem (frame (switch_return s) (regs s)) (rsp (regs s)) (mem s)) 0xffffffffa0000028 = load64 (mem s) 0xffffffffa0000028"
  proof (rule push_mem_other)
    show "0xffffffffa0000028 \<noteq> word_below (rsp (regs s)) k" if "k < length (frame (switch_return s) (regs s))" for k
      using unat_word_below [of k "rsp (regs s)"] that by (auto simp: r)
  qed (simp_all add: aligned_def r)
  also have "\<dots> = 0" by (rule bit_word_eqI) (simp add: s_def quiet_def load64_def bit_load_bytes)
  finally have "rbp (regs t) = 0" by (simp add: rt)
  moreover have "apart 7 (rsp (regs t)) (rsp (regs s))" by (rule apart_far) (simp_all add: rt r)
  then have "\<exists>v. thread_switch 2 1 t = Some v \<and> regs v = (regs s)\<lparr>rip := switch_return s, rdi := rdi (regs t)\<rparr>"
    by (intro thread_switch_roundtrip [OF t]) (simp_all add: r rt aligned_def)
  then obtain v where "thread_switch 2 1 t = Some v" "rbp (regs v) = 1 \<and> r15 (regs v) = 6 \<and> rsp (regs v) = 0xffffffff90000000"
    by (auto simp: r)
  ultimately show ?thesis using t by blast
qed

end
