(* ===== verification/Sched_Run.thy ===== *)
theory Sched_Run
  imports Thread
begin

text \<open>
  The part of \<^verbatim>\<open>kern/sched.c\<close> that switches threads.  Control does not return to the C caller of
  \<open>sched_run\<close> before its thread runs again, so the state after \<open>sched_run\<close> is the one in which the
  next thread continues.
\<close>

definition sched_run :: "'a sched_state_scheme \<Rightarrow> 'a sched_state_scheme option" where
  "sched_run s =
     (let nxt = sched_choose s;
          current = cpu_current_thread s
      in if nxt = THREAD_NULL \<or> nxt = current then Some s
         else
           let s = (if current \<noteq> THREAD_NULL then
                      if ts_state (sched (threads s current)) = THREAD_STATE_RUNNING
                      then sched_set_state current THREAD_STATE_RUNNABLE s else s
                    else s);
               s = sched_set_state nxt THREAD_STATE_RUNNING s;
               s = (if ts_prev (sched (threads s nxt)) \<noteq> THREAD_NULL \<or> ts_next (sched (threads s nxt)) \<noteq> THREAD_NULL \<or>
                       rq_head (runqueue s) = nxt
                    then snd (sched_enqueue nxt (snd (sched_dequeue nxt s))) else s);
               s = cpu_set_current_thread nxt s
           in thread_switch current nxt s)"

definition thread_yield :: "'a sched_state_scheme \<Rightarrow> 'a sched_state_scheme option" where
  "thread_yield s =
     (let nxt = sched_choose s;
          current = cpu_current_thread s
      in if nxt \<noteq> THREAD_NULL \<and> nxt \<noteq> current then sched_run s else Some s)"

text \<open>One round of the endless loop of \<open>sched_idle\<close>.\<close>

definition sched_idle_round :: "'a sched_state_scheme \<Rightarrow> 'a sched_state_scheme option" where
  "sched_idle_round s =
     (let nxt = sched_choose s;
          current = cpu_current_thread s
      in if nxt \<noteq> THREAD_NULL \<and> nxt \<noteq> current then sched_run s else Some (cpu_halt s))"

text \<open>\<open>idle_thread_entry\<close> is the address of the function of that name, whose body is \<open>sched_idle\<close>.\<close>

definition sched_create_idle ::
  "u64 \<Rightarrow> 'a sched_state_scheme \<Rightarrow> (kern_return \<times> 'a sched_state_scheme) option" where
  "sched_create_idle idle_thread_entry s = do {
     (kr, idle, s) \<leftarrow> thread_create TASK_NULL idle_thread_entry THREAD_NULL s;
     if kr \<noteq> KERN_SUCCESS then Some (kr, s)
     else
       let s = cpu_set_idle_thread idle s;
           s = cpu_set_current_thread idle s;
           s = sched_set_state idle THREAD_STATE_RUNNING s
       in Some (KERN_SUCCESS, s)
   }"

section \<open>One run\<close>

lemma cpu_set_current_frame [simp]:
  "threads (cpu_set_current_thread t s) = threads s" "runqueue (cpu_set_current_thread t s) = runqueue s"
  "cpu_data_ptr (cpu_set_current_thread t s) = cpu_data_ptr s"
  by (simp_all add: cpu_set_current_thread_def split: option.split)

lemma thread_switch_frame:
  assumes "thread_switch old new s = Some t"
  shows "runqueue t = runqueue s" "same_links (threads s) (threads t) x" "ts_state (sched (threads t x)) = ts_state (sched (threads s x))"
    "cpu_data_ptr t = cpu_data_ptr s" "cpu_current_thread t = cpu_current_thread s" "cpu_idle_thread t = cpu_idle_thread s"
proof -
  have nz: "old \<noteq> 0" "new \<noteq> 0" using assms by (auto simp: thread_switch_def Let_def split: if_splits)
  show "runqueue t = runqueue s" "same_links (threads s) (threads t) x" "ts_state (sched (threads t x)) = ts_state (sched (threads s x))"
    "cpu_data_ptr t = cpu_data_ptr s" "cpu_current_thread t = cpu_current_thread s" "cpu_idle_thread t = cpu_idle_thread s"
    using assms unfolding thread_switch_eq [OF nz]
    by (auto simp: same_links_def cpu_current_thread_def cpu_idle_thread_def cpu_get_def cong: option.case_cong)
qed

lemma sched_run_noop:
  "sched_choose s = 0 \<or> sched_choose s = cpu_current_thread s \<Longrightarrow> sched_run s = Some s"
  by (auto simp: sched_run_def Let_def)

lemma thread_yield_eq: "thread_yield s = sched_run s"
  by (simp add: thread_yield_def Let_def sched_run_noop)

text \<open>With threads waiting, the first becomes the current one and goes to the back of the queue.\<close>

lemma sched_run_rotates:
  assumes q: "run_queue s (x # xs)" and c: "cpu_current_thread s \<noteq> 0" "cpu_current_thread s = x \<Longrightarrow> xs = []"
    and cpu: "cpu_data_ptr s = Some i"
  obtains t where "sched_run s = Some t" "run_queue t (xs @ [x])" "cpu_current_thread t = x" "cpu_data_ptr t = Some i"
    "cpu_current_thread s = x \<and> t = s \<or> thread_switch (cpu_current_thread s) x
      (cpu_set_current_thread x (rq.rotate_one (sched_set_state x THREAD_STATE_RUNNING
        (if ts_state (sched (threads s (cpu_current_thread s))) = THREAD_STATE_RUNNING
         then sched_set_state (cpu_current_thread s) THREAD_STATE_RUNNABLE s else s)))) = Some t"
proof (cases "cpu_current_thread s = x")
  case True
  then have "sched_run s = Some s" using run_queue_choose [OF q] by (intro sched_run_noop) simp
  then show ?thesis using True c(2) q cpu by (intro that) auto
next
  case False
  let ?c = "cpu_current_thread s"
  let ?s1 = "if ts_state (sched (threads s ?c)) = THREAD_STATE_RUNNING then sched_set_state ?c THREAD_STATE_RUNNABLE s else s"
  let ?s2 = "sched_set_state x THREAD_STATE_RUNNING ?s1"
  have x: "x \<noteq> 0" "x \<notin> set xs" using q by (auto simp: run_queue_def)
  have q2: "run_queue ?s2 (x # xs)" using q by (auto intro!: run_queue_set_state)
  have h: "rq_head (runqueue ?s2) = x" using q2 by (simp add: run_queue_def)
  have rot: "snd (sched_enqueue x (snd (sched_dequeue x ?s2))) = rq.rotate_one ?s2"
    using run_queue_choose [OF q2] by (simp add: rq.rotate_one_def rq_take_def rq_put_def Let_def)
  have eq: "sched_run s = thread_switch ?c x (cpu_set_current_thread x (rq.rotate_one ?s2))"
    using False x c(1) run_queue_choose [OF q] h unfolding sched_run_def Let_def by (simp add: rot)
  have "thread_switch ?c x (cpu_set_current_thread x (rq.rotate_one ?s2)) \<noteq> None"
    using c(1) x by (simp add: thread_switch_eq)
  then obtain t where t: "thread_switch ?c x (cpu_set_current_thread x (rq.rotate_one ?s2)) = Some t" by auto
  have qr: "run_queue (rq.rotate_one ?s2) (xs @ [x])" by (rule rq.rotate_one [OF q2]) (use x in simp)
  have "cpu_data_ptr (rq.rotate_one ?s2) = Some i"
    using cpu by (simp add: rot [symmetric])
  then have "cpu_current_thread t = x" "cpu_data_ptr t = Some i"
    using thread_switch_frame(4,5) [OF t] by simp_all
  moreover have "run_queue t (xs @ [x])"
    by (rule run_queue_cong [OF qr]) (use thread_switch_frame(1,2) [OF t] in simp_all)
  ultimately show ?thesis using that eq t by simp
qed

text \<open>\<open>n\<close> calls of \<open>sched_run\<close>, each by the thread the one before switched to.\<close>

fun sched_runs :: "nat \<Rightarrow> 'a sched_state_scheme \<Rightarrow> 'a sched_state_scheme option" where
  "sched_runs 0 s = Some s"
| "sched_runs (Suc n) s = do { s \<leftarrow> sched_run s; sched_runs n s }"

lemma sched_runs_rotate:
  assumes "run_queue s xs" "xs \<noteq> []" "cpu_current_thread s \<noteq> 0"
    "cpu_current_thread s \<notin> set xs \<or> cpu_current_thread s = last xs" "cpu_data_ptr s = Some i"
  shows "\<exists>t. sched_runs (Suc n) s = Some t \<and> run_queue t (rotate (Suc n) xs) \<and>
    cpu_current_thread t = xs ! (n mod length xs)"
  using assms
proof (induction n arbitrary: s xs)
  case 0
  then obtain x ys where xs: "xs = x # ys" by (cases xs) auto
  have e: "cpu_current_thread s = x \<Longrightarrow> ys = []" using 0 xs by (cases ys rule: rev_cases) (auto simp: run_queue_def)
  show ?case
    by (rule sched_run_rotates [OF 0(1) [unfolded xs] 0(3) e 0(5)]) (simp_all add: xs)
next
  case (Suc n)
  then obtain x ys where xs: "xs = x # ys" by (cases xs) auto
  have e: "cpu_current_thread s = x \<Longrightarrow> ys = []" using Suc xs by (cases ys rule: rev_cases) (auto simp: run_queue_def)
  show ?case
  proof (rule sched_run_rotates [OF Suc.prems(1) [unfolded xs] Suc.prems(3) e Suc.prems(5)])
    fix t assume t: "sched_run s = Some t" "run_queue t (ys @ [x])" "cpu_current_thread t = x" "cpu_data_ptr t = Some i"
    have x0: "x \<noteq> 0" using t(2) by (auto simp: run_queue_def)
    obtain u where u: "sched_runs (Suc n) t = Some u" "run_queue u (rotate (Suc n) (ys @ [x]))"
      "cpu_current_thread u = (ys @ [x]) ! (n mod length (ys @ [x]))"
      using Suc.IH [OF t(2)] x0 t(3,4) by auto
    have "(ys @ [x]) ! (n mod length xs) = xs ! (Suc n mod length xs)"
    proof -
      have "rotate1 xs ! (n mod length xs) = xs ! (Suc (n mod length xs) mod length xs)"
        using nth_rotate1 [of "n mod length xs" xs] by (simp add: xs)
      then show ?thesis by (simp add: xs mod_Suc_eq)
    qed
    then have "cpu_current_thread u = xs ! (Suc n mod length xs)" using u(3) by (simp add: xs)
    moreover have "run_queue u (rotate (Suc (Suc n)) xs)" using u(2) by (simp add: xs rotate_def funpow_swap1)
    moreover have "sched_runs (Suc (Suc n)) s = Some u" using t(1) u(1) by simp
    ultimately show ?case by blast
  qed simp_all
qed

section \<open>Properties\<close>



text \<open>Creating the idle thread on an empty run queue.\<close>

lemma sched_create_idle_spec:
  assumes "zones_rep P F s" "thread_zone s = Some j" "j < zone_count s" "run_queue s []"
    "card (free_set s) \<ge> 2" "max_size (zone_store s j) = 0" "cpu_data_ptr s = Some i"
  obtains idle u where "sched_create_idle entry s = Some (KERN_SUCCESS, u)" "run_queue u [idle]" "idle \<noteq> 0"
    "cpu_current_thread u = idle" "cpu_idle_thread u = idle" "sched_get_state idle u = THREAD_STATE_RUNNING"
proof (cases rule: thread_create_cases [OF assms(1-4), of TASK_NULL entry 0])
  case 2
  then show ?thesis using assms(5,6) by simp
next
  case (3 t u pa P' F')
  let ?u = "sched_set_state t THREAD_STATE_RUNNING (cpu_set_current_thread t (cpu_set_idle_thread t u))"
  have c: "sched_create_idle entry s = Some (KERN_SUCCESS, ?u)"
    using 3(1) by (simp add: sched_create_idle_def Let_def)
  have cpu: "cpu_data_ptr u = Some i" using 3(16) assms(7) by simp
  have q: "run_queue ?u [t]"
    using 3(6) by (intro run_queue_set_state) (auto simp: run_queue_def cpu_set_idle_thread_def split: option.split)
  have "cpu_idle_thread (cpu_set_idle_thread t u) = t"
    using cpu by (simp add: cpu_idle_thread_def cpu_set_idle_thread_def cpu_get_def)
  then have cur: "cpu_current_thread ?u = t" "cpu_idle_thread ?u = t" using cpu by simp_all
  have "sched_get_state t ?u = THREAD_STATE_RUNNING"
    using 3(3) by (simp add: sched_get_state_def sched_set_state_def upd_sched_def)
  then show ?thesis using that c q 3(3) cur by blast
qed simp

lemma sched_idle_alone:
  "run_queue u [cpu_current_thread u] \<Longrightarrow> sched_idle_round u = Some (cpu_halt u)"
  by (frule run_queue_choose) (simp add: sched_idle_round_def Let_def)

text \<open>
  The end of the boot.  With two free pages, creating the idle thread on an empty run queue succeeds, leaves
  that thread current, running and itself in the run queue, and the first round of its loop halts the processor
  with interrupts off: nothing but a non-maskable interrupt would run anything again.
\<close>

lemma sched_create_idle_halts:
  assumes "zones_rep P F s" "thread_zone s = Some j" "j < zone_count s" "run_queue s []"
    "card (free_set s) \<ge> 2" "max_size (zone_store s j) = 0" "cpu_data_ptr s = Some i"
  shows "\<exists>idle u w. sched_create_idle entry s = Some (KERN_SUCCESS, u) \<and> run_queue u [idle] \<and>
    cpu_current_thread u = idle \<and> cpu_idle_thread u = idle \<and> sched_get_state idle u = THREAD_STATE_RUNNING \<and>
    sched_idle_round u = Some w \<and> halted w \<and> \<not> interrupts w"
proof (rule sched_create_idle_spec [OF assms, of entry])
  fix idle u
  assume u: "sched_create_idle entry s = Some (KERN_SUCCESS, u)" "run_queue u [idle]" "cpu_current_thread u = idle"
    "cpu_idle_thread u = idle" "sched_get_state idle u = THREAD_STATE_RUNNING"
  then have "sched_idle_round u = Some (cpu_halt u)" by (intro sched_idle_alone) simp
  then show ?thesis using u by (auto simp: cpu_halt_def)
qed

lemma sched_create_idle_halts_witness:
  "\<exists>u w. sched_create_idle 0x400000 (quiet [88] (undefined :: sched_state)) = Some (KERN_SUCCESS, u) \<and>
     sched_idle_round u = Some w \<and> halted w \<and> \<not> interrupts w"
proof -
  let ?s = "quiet [88] (undefined :: sched_state)"
  have q: "zones_rep (\<lambda>_. {}) (\<lambda>_. []) ?s" "card (free_set ?s) = 48" "run_queue ?s []"
    using quiet [of "[88]" "undefined :: sched_state"] elem_ok_88 by simp_all
  have z: "thread_zone ?s = Some 0" "0 < zone_count ?s" "max_size (zone_store ?s 0) = 0" "cpu_data_ptr ?s = Some 0"
    by (simp_all add: quiet_def blank_zone_def)
  show ?thesis
    using sched_create_idle_halts [OF q(1) z(1,2) q(3) _ z(3,4), of "0x400000"] q(2) by auto
qed

text \<open>
  C37: The idle thread starves the others.  When it is alone in the run queue and current, as the boot leaves it, every
  thread that is queued later stays behind it: \<open>sched_run\<close> finds the idle thread at the head of the queue and
  switches nowhere, however often it is called, and the idle loop halts with threads ready to run.
\<close>

theorem idle_starves_new_threads:
  assumes "run_queue s [cpu_current_thread s]" "distinct ts" "0 \<notin> set ts" "cpu_current_thread s \<notin> set ts"
  shows "let u = fold rq_put ts s in run_queue u (cpu_current_thread s # ts) \<and> sched_runs n u = Some u \<and>
    sched_idle_round u = Some (cpu_halt u)"
proof -
  let ?u = "fold rq_put ts s"
  have "rq.all_fit ts xs" if "distinct ts" "0 \<notin> set ts" "set ts \<inter> set xs = {}" for ts xs
    using that by (induction ts arbitrary: xs) auto
  then have "rq.all_fit ts [cpu_current_thread s]" using assms(2-4) by simp
  then have q: "run_queue ?u (cpu_current_thread s # ts)" using rq.enq_many [OF assms(1)] by simp
  have c: "cpu_current_thread (fold rq_put xs t) = cpu_current_thread t" for xs and t :: "'a sched_state_scheme"
    by (induction xs arbitrary: t) (simp_all add: rq_put_def)
  have ch: "sched_choose ?u = cpu_current_thread ?u" using run_queue_choose [OF q] by (simp add: c)
  then have "sched_runs n ?u = Some ?u" by (induction n) (simp_all add: sched_run_noop)
  then show ?thesis using q ch by (simp add: Let_def sched_idle_round_def)
qed

theorem idle_starves_new_threads_witness:
  "\<exists>s :: sched_state. run_queue s [cpu_current_thread s] \<and> sched_runs 7 (fold rq_put [2, 3] s) = Some (fold rq_put [2, 3] s)"
proof -
  let ?s = "cpu_set_current_thread 1 (rq_put 1 (sched_init (undefined :: sched_state)\<lparr>cpu_data_ptr := Some 0\<rparr>))"
  have i: "run_queue (sched_init (undefined :: sched_state)\<lparr>cpu_data_ptr := Some 0\<rparr>) []" by (simp add: run_queue_def sched_init_def)
  have "run_queue (rq_put 1 (sched_init (undefined :: sched_state)\<lparr>cpu_data_ptr := Some 0\<rparr>)) [1]"
    using run_queue_enqueue [OF i, of 1] by (simp add: rq_put_def)
  then have "run_queue ?s [1]" by (rule run_queue_cong) (simp_all add: same_links_def)
  moreover have c: "cpu_current_thread ?s = 1" by (simp add: rq_put_def)
  ultimately have "run_queue ?s [cpu_current_thread ?s]" by simp
  moreover have "sched_runs 7 (fold rq_put [2, 3] ?s) = Some (fold rq_put [2, 3] ?s)"
    using idle_starves_new_threads [of ?s "[2, 3]" 7] calculation c by (simp add: Let_def)
  ultimately show ?thesis by blast
qed

end
