(* ===== verification/Ipc_Kmsg.thy ===== *)
theory Ipc_Kmsg
  imports Sched_Run
begin

text \<open>
  The structures of \<^verbatim>\<open>kern/ipc_port.h\<close>, \<^verbatim>\<open>kern/ipc_space.h\<close>, \<^verbatim>\<open>kern/ipc_kmsg.h\<close> and \<^verbatim>\<open>kern/ipc_msg.h\<close>, and
  \<^verbatim>\<open>kern/ipc_kmsg.c\<close>: messages inside the kernel.

  Ports, spaces and the four bookkeeping fields of a kernel message are in typed heaps.  The header and
  the data of a message are bytes of memory, since they are copied from and to the caller's buffer:
  the header at offset 32 of a kernel message, the data at offset 80.
\<close>

section \<open>State\<close>

datatype ipc_port_type =
    IPC_PORT_TYPE_NONE
  | IPC_PORT_TYPE_SEND
  | IPC_PORT_TYPE_RECEIVE
  | IPC_PORT_TYPE_DEAD

definition IPC_PORT_QUEUE_MAX :: u32 where [simp]: "IPC_PORT_QUEUE_MAX = 32"
definition IPC_SPACE_MAX_PORTS :: u32 where [simp]: "IPC_SPACE_MAX_PORTS = 1024"

text \<open>The arrays are functions of the index; \<open>port_ok\<close> and \<open>space_ok\<close> say that the code stays inside them.\<close>

record ipc_port =
  ip_name :: u64
  ip_type :: ipc_port_type
  ip_ref_count :: u32
  ip_mscount :: u32
  ip_srights :: u32
  ip_kobject :: addr
  ip_waiting_thread :: addr
  ip_messages :: "nat \<Rightarrow> addr"
  ip_msg_count :: u32
  ip_msg_first :: u32
  ip_msg_last :: u32

record ipc_entry =
  ie_port :: addr
  ie_name :: u64
  ie_rights :: u32

record ipc_space =
  is_port_count :: u32
  is_entries :: "nat \<Rightarrow> ipc_entry"

record ipc_kmsg =
  ikm_next :: addr
  ikm_port :: addr
  ikm_size :: u64
  ikm_header_size :: u64

record ipc_state = sched_state +
  ports :: "addr \<Rightarrow> ipc_port"
  ipc_port_zone :: zone_t
  spaces :: "addr \<Rightarrow> ipc_space"
  ipc_space_zone :: zone_t
  kmsgs :: "addr \<Rightarrow> ipc_kmsg"
  kmsg_zone :: zone_t

definition KMSG_ZONE_SIZE :: u64 where "KMSG_ZONE_SIZE = 512"
definition IPC_KMSG_NULL :: addr where [simp]: "IPC_KMSG_NULL = 0"
definition sizeof_ipc_kmsg :: u64 where "sizeof_ipc_kmsg = 80"
definition sizeof_mach_msg_header :: u64 where "sizeof_mach_msg_header = 48"

text \<open>\<open>&kmsg->ikm_header\<close>, \<open>kmsg->ikm_data\<close>, and the two ports of a message header.\<close>

definition ikm_header :: "addr \<Rightarrow> addr" where "ikm_header kmsg = kmsg + 32"
definition ikm_data :: "addr \<Rightarrow> addr" where "ikm_data kmsg = kmsg + 80"

definition msgh_remote_port :: "memory \<Rightarrow> addr \<Rightarrow> u64" where "msgh_remote_port m msg = load64 m (msg + 16)"
definition msgh_local_port :: "memory \<Rightarrow> addr \<Rightarrow> u64" where "msgh_local_port m msg = load64 m (msg + 24)"

definition upd_port :: "addr \<Rightarrow> (ipc_port \<Rightarrow> ipc_port) \<Rightarrow> 'a ipc_state_scheme \<Rightarrow> 'a ipc_state_scheme" where
  "upd_port p f s = s\<lparr>ports := (ports s)(p := f (ports s p))\<rparr>"

definition upd_kmsg :: "addr \<Rightarrow> (ipc_kmsg \<Rightarrow> ipc_kmsg) \<Rightarrow> 'a ipc_state_scheme \<Rightarrow> 'a ipc_state_scheme" where
  "upd_kmsg k f s = s\<lparr>kmsgs := (kmsgs s)(k := f (kmsgs s k))\<rparr>"

section \<open>Operations\<close>

definition get_kmsg_zone :: "'a ipc_state_scheme \<Rightarrow> (zone_t \<times> 'a ipc_state_scheme) option" where
  "get_kmsg_zone s =
     (if kmsg_zone s = ZONE_NULL then do {
        (z, s) \<leftarrow> zinit ''kmsg'' (sizeof_ipc_kmsg + KMSG_ZONE_SIZE) 0 s;
        let s = s\<lparr>kmsg_zone := z\<rparr>;
        Some (kmsg_zone s, s)
      }
      else Some (kmsg_zone s, s))"

definition ipc_kmsg_alloc :: "u64 \<Rightarrow> 'a ipc_state_scheme \<Rightarrow> (addr \<times> 'a ipc_state_scheme) option" where
  "ipc_kmsg_alloc sz s = do {
     (z, s) \<leftarrow> get_kmsg_zone s;
     if z = ZONE_NULL then Some (IPC_KMSG_NULL, s)
     else if sz > KMSG_ZONE_SIZE then Some (IPC_KMSG_NULL, s)
     else do {
       (kmsg, s) \<leftarrow> zalloc z s;
       if kmsg = 0 then Some (IPC_KMSG_NULL, s)
       else Some (kmsg, upd_kmsg kmsg (\<lambda>_. \<lparr>ikm_next = IPC_KMSG_NULL, ikm_port = IPC_PORT_NULL, ikm_size = sz,
                          ikm_header_size = sizeof_mach_msg_header\<rparr>) s)
     }
   }"

definition ipc_kmsg_free :: "addr \<Rightarrow> 'a ipc_state_scheme \<Rightarrow> 'a ipc_state_scheme option" where
  "ipc_kmsg_free kmsg s =
     (if kmsg = IPC_KMSG_NULL then Some s
      else do {
        (z, s) \<leftarrow> get_kmsg_zone s;
        zfree z kmsg s
      })"

definition ipc_kmsg_copyin ::
  "addr \<Rightarrow> addr \<Rightarrow> u64 \<Rightarrow> 'a ipc_state_scheme \<Rightarrow> kern_return \<times> 'a ipc_state_scheme" where
  "ipc_kmsg_copyin kmsg user_msg sz s =
     (if kmsg = IPC_KMSG_NULL \<or> user_msg = 0 then (KERN_INVALID_ARGUMENT, s)
      else if sz < sizeof_mach_msg_header then (KERN_INVALID_ARGUMENT, s)
      else
        let s = s\<lparr>mem := kmemcpy (ikm_header kmsg) user_msg sizeof_mach_msg_header (mem s)\<rparr>;
            s = upd_kmsg kmsg (\<lambda>k. k\<lparr>ikm_header_size := sizeof_mach_msg_header\<rparr>) s;
            data_size = sz - sizeof_mach_msg_header;
            s = (if data_size > 0
                 then s\<lparr>mem := kmemcpy (ikm_data kmsg) (user_msg + sizeof_mach_msg_header) data_size (mem s)\<rparr> else s)
        in (KERN_SUCCESS, s))"

text \<open>\<open>*size\<close> is passed in and returned; \<open>None\<close> is a null \<open>size\<close>.\<close>

definition ipc_kmsg_copyout ::
  "addr \<Rightarrow> addr \<Rightarrow> u64 option \<Rightarrow> 'a ipc_state_scheme \<Rightarrow> kern_return \<times> u64 option \<times> 'a ipc_state_scheme" where
  "ipc_kmsg_copyout kmsg user_msg sz s =
     (case sz of
        None \<Rightarrow> (KERN_INVALID_ARGUMENT, sz, s)
      | Some n \<Rightarrow>
          if kmsg = IPC_KMSG_NULL \<or> user_msg = 0 then (KERN_INVALID_ARGUMENT, sz, s)
          else if ikm_size (kmsgs s kmsg) > n then (KERN_NO_SPACE, sz, s)
          else
            let s = s\<lparr>mem := kmemcpy user_msg (ikm_header kmsg) sizeof_mach_msg_header (mem s)\<rparr>;
                data_size = ikm_size (kmsgs s kmsg) - sizeof_mach_msg_header;
                s = (if data_size > 0
                     then s\<lparr>mem := kmemcpy (user_msg + sizeof_mach_msg_header) (ikm_data kmsg) data_size (mem s)\<rparr> else s)
            in (KERN_SUCCESS, Some (ikm_size (kmsgs s kmsg)), s))"

section \<open>Copying in and out\<close>

text \<open>Byte \<open>i\<close> of a message is byte \<open>i\<close> of the header or byte \<open>i - 48\<close> of the data: one run of bytes.\<close>

definition msg_byte :: "memory \<Rightarrow> addr \<Rightarrow> u64 \<Rightarrow> u8" where
  "msg_byte m kmsg i = m (kmsg + 32 + i)"

definition msg_apart :: "addr \<Rightarrow> addr \<Rightarrow> u64 \<Rightarrow> bool" where
  "msg_apart kmsg user n \<longleftrightarrow> (\<forall>i < n. \<forall>j < n. kmsg + 32 + i \<noteq> user + j)"

lemma unat_48_add: "48 + unat (x :: u64) < 18446744073709551616 \<Longrightarrow> unat (48 + x) = 48 + unat x"
  using unat_add_no_wrap [of 48 x] by simp

text \<open>Copying a header and then the data is one copy of \<open>n\<close> bytes.\<close>

lemma copy_two:
  assumes ap: "\<forall>i < n. \<forall>j < n. (d :: u64) + i \<noteq> u + j" and n: "48 \<le> n"
  shows "(if 0 < n - 48 then kmemcpy (d + 48) (u + 48) (n - 48) (kmemcpy d u 48 m) else kmemcpy d u 48 m) b =
    (if b - d < n then m (u + (b - d)) else m b)"
proof -
  have un: "unat (n - 48) = unat n - 48" using n by (subst unat_sub) simp_all
  have shift: "48 + i < n" if "i < n - 48" for i
  proof -
    have "unat i < unat n - 48" using that un by (simp add: word_less_nat_alt)
    then have "unat (48 + i) = 48 + unat i"
      using unat_lt_64 [of n] by (intro unat_48_add) linarith
    then show ?thesis using \<open>unat i < unat n - 48\<close> by (simp add: word_less_nat_alt)
  qed
  have lt: "i < n" if "i < 48" for i using that n by (rule less_le_trans)
  have h: "kmemcpy d u 48 m b = (if b - d < 48 then m (u + (b - d)) else m b)" for b
    by (rule kmemcpy_apply) (use ap lt in blast)
  have d: "kmemcpy (d + 48) (u + 48) (n - 48) k b =
      (if b - (d + 48) < n - 48 then k (u + 48 + (b - (d + 48))) else k b)" for k
  proof (rule kmemcpy_apply)
    fix i j assume "i < n - 48" "j < n - 48"
    then have "d + (48 + i) \<noteq> u + (48 + j)" using ap shift by blast
    then show "d + 48 + i \<noteq> u + 48 + j" by (simp only: add.assoc not_False_eq_True)
  qed
  have shifted: "u + 48 + (b - (d + 48)) = u + (b - d)" by simp
  have src: "kmemcpy d u 48 m (u + (b - d)) = m (u + (b - d))" if "b - d < n"
  proof -
    have "\<not> u + (b - d) - d < 48"
    proof
      assume l: "u + (b - d) - d < 48"
      have "d + (u + (b - d) - d) = u + (b - d)" by simp
      then show False using ap lt [OF l] that by blast
    qed
    then show ?thesis by (simp add: h)
  qed
  have split: "b - d < n \<longleftrightarrow> b - d < 48 \<or> b - (d + 48) < n - 48"
  proof (cases "b - d < 48")
    case True
    then show ?thesis using lt by blast
  next
    case False
    then have "unat (b - d) \<ge> 48" by (simp add: word_less_nat_alt)
    then have "48 \<le> b - d" by (simp add: word_le_nat_alt)
    then have "unat (b - d - 48) = unat (b - d) - unat (48 :: u64)" by (rule unat_sub)
    moreover have "b - (d + 48) = b - d - 48" by simp
    moreover have "unat (48 :: u64) = 48" by simp
    ultimately have "unat (b - (d + 48)) = unat (b - d) - 48" by (simp only:)
    then show ?thesis using False un \<open>unat (b - d) \<ge> 48\<close> n unfolding word_less_nat_alt word_le_nat_alt by auto
  qed
  have excl: "\<not> b - (d + 48) < n - 48" if "b - d < 48"
  proof
    assume l: "b - (d + 48) < n - 48"
    have u1: "unat (b - d) < 48" using that by (simp add: word_less_nat_alt)
    have "b - d = 48 + (b - (d + 48))" by simp
    moreover have "unat (48 + (b - (d + 48))) = 48 + unat (b - (d + 48))"
      using l un unat_lt_64 [of n] unfolding word_less_nat_alt by (intro unat_48_add) linarith
    ultimately show False using u1 by simp
  qed
  show ?thesis
  proof (cases "0 < n - 48")
    case True
    then show ?thesis unfolding if_P [OF True] d shifted using split src excl h by auto
  next
    case False
    then have "n - 48 = 0" by (simp add: word_gt_0)
    then have "n = 48" by simp
    then show ?thesis by (simp add: h)
  qed
qed

end
