(* ===== verification/Ipc_Port.thy ===== *)
theory Ipc_Port
  imports Ipc_Kmsg
begin

text \<open>
  \<^verbatim>\<open>kern/ipc_port.c\<close>: ports, whose messages wait in a ring buffer of 32 slots.  \<open>port_queue\<close> says which
  list of messages a port holds, and the buffer is an instance of the FIFO contract.
\<close>

section \<open>Operations\<close>

definition sizeof_ipc_port :: u64 where "sizeof_ipc_port = 312"

definition zero_port :: ipc_port where
  "zero_port = \<lparr>ip_name = 0, ip_type = IPC_PORT_TYPE_NONE, ip_ref_count = 0, ip_mscount = 0, ip_srights = 0,
     ip_kobject = 0, ip_waiting_thread = 0, ip_messages = (\<lambda>_. 0), ip_msg_count = 0, ip_msg_first = 0, ip_msg_last = 0\<rparr>"

definition get_ipc_port_zone :: "'a ipc_state_scheme \<Rightarrow> (zone_t \<times> 'a ipc_state_scheme) option" where
  "get_ipc_port_zone s =
     (if ipc_port_zone s = ZONE_NULL then do {
        (z, s) \<leftarrow> zinit ''ipc_port'' sizeof_ipc_port 0 s;
        let s = s\<lparr>ipc_port_zone := z\<rparr>;
        Some (ipc_port_zone s, s)
      }
      else Some (ipc_port_zone s, s))"

text \<open>The third component is what \<open>ipc_port_alloc\<close> writes to \<open>*port_out\<close>, null where it does not write.\<close>

definition ipc_port_alloc :: "'a ipc_state_scheme \<Rightarrow> (kern_return \<times> addr \<times> 'a ipc_state_scheme) option" where
  "ipc_port_alloc s = do {
     (z, s) \<leftarrow> get_ipc_port_zone s;
     if z = ZONE_NULL then Some (KERN_NO_SPACE, IPC_PORT_NULL, s)
     else do {
       (port, s) \<leftarrow> zalloc z s;
       if port = 0 then Some (KERN_NO_SPACE, IPC_PORT_NULL, s)
       else
         let s = s\<lparr>mem := kmemset port 0 sizeof_ipc_port (mem s)\<rparr>;
             s = upd_port port (\<lambda>_. zero_port) s;
             s = upd_port port (\<lambda>p. p\<lparr>ip_type := IPC_PORT_TYPE_RECEIVE\<rparr>) s;
             s = upd_port port (\<lambda>p. p\<lparr>ip_ref_count := 1\<rparr>) s
         in Some (KERN_SUCCESS, port, s)
     }
   }"

definition ipc_port_enqueue :: "addr \<Rightarrow> addr \<Rightarrow> 'a ipc_state_scheme \<Rightarrow> kern_return \<times> 'a ipc_state_scheme" where
  "ipc_port_enqueue port kmsg s =
     (if port = IPC_PORT_NULL \<or> kmsg = IPC_KMSG_NULL then (KERN_INVALID_ARGUMENT, s)
      else if ip_msg_count (ports s port) \<ge> IPC_PORT_QUEUE_MAX then (KERN_NO_SPACE, s)
      else
        let s = upd_port port (\<lambda>p. p\<lparr>ip_messages := (ip_messages p)(unat (ip_msg_last p) := kmsg)\<rparr>) s;
            s = upd_port port (\<lambda>p. p\<lparr>ip_msg_last := (ip_msg_last p + 1) mod IPC_PORT_QUEUE_MAX\<rparr>) s;
            s = upd_port port (\<lambda>p. p\<lparr>ip_msg_count := ip_msg_count p + 1\<rparr>) s;
            s = (if ip_waiting_thread (ports s port) \<noteq> 0 then
                   let waiter = ip_waiting_thread (ports s port);
                       s = upd_port port (\<lambda>p. p\<lparr>ip_waiting_thread := 0\<rparr>) s
                   in sched_unblock waiter s
                 else s)
        in (KERN_SUCCESS, s))"

definition ipc_port_dequeue :: "addr \<Rightarrow> 'a ipc_state_scheme \<Rightarrow> addr \<times> 'a ipc_state_scheme" where
  "ipc_port_dequeue port s =
     (if port = IPC_PORT_NULL \<or> ip_msg_count (ports s port) = 0 then (IPC_KMSG_NULL, s)
      else
        let kmsg = ip_messages (ports s port) (unat (ip_msg_first (ports s port)));
            s = upd_port port (\<lambda>p. p\<lparr>ip_messages := (ip_messages p)(unat (ip_msg_first p) := IPC_KMSG_NULL)\<rparr>) s;
            s = upd_port port (\<lambda>p. p\<lparr>ip_msg_first := (ip_msg_first p + 1) mod IPC_PORT_QUEUE_MAX\<rparr>) s;
            s = upd_port port (\<lambda>p. p\<lparr>ip_msg_count := ip_msg_count p - 1\<rparr>) s
        in (kmsg, s))"

text \<open>The loop of \<open>ipc_port_release\<close> that frees the waiting messages.\<close>

partial_function (option) drain_port :: "addr \<Rightarrow> 'a ipc_state_scheme \<Rightarrow> 'a ipc_state_scheme option" where
  "drain_port port s =
     (if ip_msg_count (ports s port) > 0 then
        case ipc_port_dequeue port s of (kmsg, s) \<Rightarrow> do {
          s \<leftarrow> (if kmsg \<noteq> IPC_KMSG_NULL then ipc_kmsg_free kmsg s else Some s);
          drain_port port s
        }
      else Some s)"

definition ipc_port_release :: "addr \<Rightarrow> 'a ipc_state_scheme \<Rightarrow> 'a ipc_state_scheme option" where
  "ipc_port_release port s =
     (if port = IPC_PORT_NULL then Some s
      else
        let s = upd_port port (\<lambda>p. p\<lparr>ip_ref_count := ip_ref_count p - 1\<rparr>) s
        in if ip_ref_count (ports s port) > 0 then Some s
        else do {
          s \<leftarrow> drain_port port s;
          (z, s) \<leftarrow> get_ipc_port_zone s;
          zfree z port s
        })"

section \<open>The ring buffer holds a list\<close>

definition ring :: "ipc_port \<Rightarrow> addr list \<Rightarrow> bool" where
  "ring p xs \<longleftrightarrow> length xs \<le> 32 \<and> unat (ip_msg_first p) < 32 \<and> unat (ip_msg_count p) = length xs \<and>
     unat (ip_msg_last p) = (unat (ip_msg_first p) + length xs) mod 32 \<and>
     (\<forall>i < length xs. ip_messages p ((unat (ip_msg_first p) + i) mod 32) = xs ! i)"

definition port_queue :: "addr \<Rightarrow> 'a ipc_state_scheme \<Rightarrow> addr list \<Rightarrow> bool" where
  "port_queue port s xs \<longleftrightarrow> port \<noteq> 0 \<and> ring (ports s port) xs"

lemma unat_next: "unat (x :: u32) < 32 \<Longrightarrow> unat ((x + 1) mod 32) = (unat x + 1) mod 32"
proof -
  assume x: "unat x < 32"
  have "unat (x + 1) = unat x + 1" using x by (simp add: unat_word_ariths)
  then show ?thesis by (simp add: unat_mod)
qed

lemma unblock_ports [simp]: "ports (sched_unblock t s) = ports s"
  by (simp add: sched_unblock_def sched_enqueue_def sched_set_state_def upd_sched_def Let_def)

text \<open>What the two operations do to the port itself.\<close>

definition put_msg :: "addr \<Rightarrow> ipc_port \<Rightarrow> ipc_port" where
  "put_msg kmsg p = p\<lparr>ip_messages := (ip_messages p)(unat (ip_msg_last p) := kmsg),
     ip_msg_last := (ip_msg_last p + 1) mod 32, ip_msg_count := ip_msg_count p + 1, ip_waiting_thread := 0\<rparr>"

definition take_msg :: "ipc_port \<Rightarrow> ipc_port" where
  "take_msg p = p\<lparr>ip_messages := (ip_messages p)(unat (ip_msg_first p) := 0),
     ip_msg_first := (ip_msg_first p + 1) mod 32, ip_msg_count := ip_msg_count p - 1\<rparr>"

lemma slot_inj32: "((f :: nat) + i) mod 32 = (f + n) mod 32 \<Longrightarrow> i \<le> n \<Longrightarrow> n < i + 32 \<Longrightarrow> i = n"
proof -
  assume e: "(f + i) mod 32 = (f + n) mod 32" and i: "i \<le> n" "n < i + 32"
  have "32 dvd (f + n) - (f + i)" using e i(1) by (subst mod_eq_dvd_iff_nat [symmetric]) simp_all
  then have "32 dvd n - i" by simp
  then have "n - i = 0" using i(2) dvd_imp_le [of 32 "n - i"] by linarith
  then show "i = n" using i(1) by simp
qed

lemma ring_put: "ring p xs \<Longrightarrow> length xs < 32 \<Longrightarrow> ring (put_msg kmsg p) (xs @ [kmsg])"
proof -
  assume r: "ring p xs" and l: "length xs < 32"
  let ?f = "unat (ip_msg_first p)"
  have last: "unat (ip_msg_last p) = (?f + length xs) mod 32" and f: "?f < 32" using r by (simp_all add: ring_def)
  have ne: "(?f + i) mod 32 \<noteq> (?f + length xs) mod 32" if "i < length xs" for i
    using slot_inj32 [of ?f i "length xs"] that l by auto
  have "unat (ip_msg_count p + 1) = length xs + 1" using r l by (simp add: ring_def unat_word_ariths)
  moreover have "unat ((ip_msg_last p + 1) mod 32) = (?f + length xs + 1) mod 32"
    using last by (subst unat_next) (simp_all add: mod_Suc_eq)
  ultimately show ?thesis
    using r l ne f by (auto simp: ring_def put_msg_def last nth_append less_Suc_eq)
qed

lemma ring_take:
  assumes r: "ring p (x # xs)"
  shows "ip_messages p (unat (ip_msg_first p)) = x" "ring (take_msg p) xs"
proof -
  let ?f = "unat (ip_msg_first p)"
  have f: "?f < 32" and l: "length xs < 32" and c: "unat (ip_msg_count p) = Suc (length xs)" using r by (simp_all add: ring_def)
  have nth: "ip_messages p ((?f + i) mod 32) = (x # xs) ! i" if "i < Suc (length xs)" for i
    using r that by (simp add: ring_def)
  show "ip_messages p ?f = x" using nth [of 0] f by simp
  have c': "unat (ip_msg_count p - 1) = length xs"
    using c unat_minus_one [of "ip_msg_count p"] by (cases "ip_msg_count p = 0") simp_all
  have f': "unat ((ip_msg_first p + 1) mod 32) = (?f + 1) mod 32" by (rule unat_next [OF f])
  have ne: "(?f + Suc i) mod 32 \<noteq> ?f" if "i < length xs" for i
    using slot_inj32 [of ?f 0 "Suc i"] that l f by auto
  have "ip_messages (take_msg p) (((?f + 1) mod 32 + i) mod 32) = xs ! i" if "i < length xs" for i
    using nth [of "Suc i"] ne [OF that] that by (simp add: take_msg_def mod_add_left_eq)
  then show "ring (take_msg p) xs"
    using r l c' by (simp add: ring_def take_msg_def f' mod_add_left_eq)
qed

lemma enqueue_port:
  assumes "port_queue port s xs" "kmsg \<noteq> 0" "length xs < 32"
  shows "fst (ipc_port_enqueue port kmsg s) = KERN_SUCCESS"
    "ports (snd (ipc_port_enqueue port kmsg s)) = (ports s)(port := put_msg kmsg (ports s port))"
proof -
  have "\<not> ip_msg_count (ports s port) \<ge> 32" using assms by (simp add: port_queue_def ring_def word_le_nat_alt)
  then show "fst (ipc_port_enqueue port kmsg s) = KERN_SUCCESS"
    "ports (snd (ipc_port_enqueue port kmsg s)) = (ports s)(port := put_msg kmsg (ports s port))"
    using assms by (auto simp: ipc_port_enqueue_def Let_def upd_port_def put_msg_def port_queue_def)
qed

text \<open>
  The queue of one port as an instance of the FIFO contract: a message that fits is not null and finds
  fewer than 32 before it.
\<close>

definition pq_put :: "addr \<Rightarrow> addr \<Rightarrow> 'a ipc_state_scheme \<Rightarrow> 'a ipc_state_scheme" where
  "pq_put port kmsg s = snd (ipc_port_enqueue port kmsg s)"

lemma port_queue_enqueue:
  assumes "port_queue port s xs" "kmsg \<noteq> 0" "length xs < 32"
  shows "port_queue port (snd (ipc_port_enqueue port kmsg s)) (xs @ [kmsg])"
  using assms ring_put [of "ports s port" xs kmsg] enqueue_port(2) [OF assms] by (simp add: port_queue_def)

lemma port_queue_dequeue:
  assumes "port_queue port s (x # xs)"
  shows "fst (ipc_port_dequeue port s) = x" "port_queue port (snd (ipc_port_dequeue port s)) xs"
    "ports (snd (ipc_port_dequeue port s)) = (ports s)(port := take_msg (ports s port))"
proof -
  have p: "port \<noteq> 0" "ring (ports s port) (x # xs)" using assms by (simp_all add: port_queue_def)
  have "unat (ip_msg_count (ports s port)) \<noteq> 0" using p(2) by (simp add: ring_def)
  then have "ip_msg_count (ports s port) \<noteq> 0" by auto
  then show eq: "ports (snd (ipc_port_dequeue port s)) = (ports s)(port := take_msg (ports s port))"
    and "fst (ipc_port_dequeue port s) = x"
    using p(1) ring_take(1) [OF p(2)] by (simp_all add: ipc_port_dequeue_def Let_def upd_port_def take_msg_def)
  show "port_queue port (snd (ipc_port_dequeue port s)) xs"
    using ring_take(2) [OF p(2)] p(1) by (simp add: port_queue_def eq)
qed

interpretation pq: fifo "port_queue port :: 'a ipc_state_scheme \<Rightarrow> _" "\<lambda>kmsg xs. kmsg \<noteq> 0 \<and> length xs < 32"
  "pq_put port" "ipc_port_dequeue port" for port
proof
  show "port_queue port (pq_put port e s) (xs @ [e])" if "port_queue port s xs" "e \<noteq> 0 \<and> length xs < 32"
    for s :: "'a ipc_state_scheme" and e xs
    using that port_queue_enqueue [of port s xs e] by (simp add: pq_put_def)
  show "fst (ipc_port_dequeue port s) = x \<and> port_queue port (snd (ipc_port_dequeue port s)) xs"
    if "port_queue port s (x # xs)" for s :: "'a ipc_state_scheme" and x xs
    using port_queue_dequeue [OF that] by simp
qed

section \<open>Releasing a port\<close>

lemma dequeue_frame:
  "\<exists>ps. snd (ipc_port_dequeue port s) = s\<lparr>ports := ps\<rparr>"
  by (cases "port = 0 \<or> ip_msg_count (ports s port) = 0")
    (auto simp: ipc_port_dequeue_def Let_def upd_port_def intro: exI [of _ "ports s"])

lemma drain_port_step:
  assumes "port_queue port s (x # xs)" "x \<noteq> 0" "kmsg_zone s = Some k"
    "zfree (Some k) x (snd (ipc_port_dequeue port s)) = Some t"
  shows "drain_port port s = drain_port port t"
proof -
  have "unat (ip_msg_count (ports s port)) \<noteq> 0" using assms(1) by (simp add: port_queue_def ring_def)
  then have "ip_msg_count (ports s port) > 0" by (simp add: word_gt_0) auto
  moreover obtain ps where "snd (ipc_port_dequeue port s) = s\<lparr>ports := ps\<rparr>" using dequeue_frame by blast
  moreover have "fst (ipc_port_dequeue port s) = x" by (rule port_queue_dequeue(1) [OF assms(1)])
  ultimately show ?thesis
    using assms(2-4) by (subst drain_port.simps)
      (simp add: case_prod_beta ipc_kmsg_free_def get_kmsg_zone_def)
qed

lemma drain_port_empty: "port_queue port s [] \<Longrightarrow> drain_port port s = Some s"
proof -
  assume "port_queue port s []"
  then have "ip_msg_count (ports s port) = 0" by (simp add: port_queue_def ring_def unat_eq_0)
  then show ?thesis by (subst drain_port.simps) simp
qed

text \<open>The loop ends and gives the memory of every waiting message back.\<close>

lemma drain_port_spec:
  assumes "zones_rep P F s" "kmsg_zone s = Some k" "k < zone_count s" "port_queue port s xs" "distinct xs" "0 \<notin> set xs"
    "set xs \<subseteq> zone_live P F s k"
  shows "\<exists>t F'. drain_port port s = Some t \<and> zones_rep P F' t \<and> port_queue port t [] \<and>
    zone_live P F' t k = zone_live P F s k - set xs \<and> (\<forall>j. j \<noteq> k \<longrightarrow> zone_live P F' t j = zone_live P F s j) \<and>
    zone_count t = zone_count s \<and> kmsg_zone t = kmsg_zone s \<and> ipc_port_zone t = ipc_port_zone s \<and>
    (\<forall>q. q \<noteq> port \<longrightarrow> ports t q = ports s q)"
  using assms
proof (induction xs arbitrary: s F)
  case Nil
  then show ?case using drain_port_empty [OF Nil(4)] by auto
next
  case (Cons x xs)
  let ?s = "snd (ipc_port_dequeue port s)"
  obtain ps where ps: "?s = s\<lparr>ports := ps\<rparr>" using dequeue_frame by blast
  note q = port_queue_dequeue [OF Cons.prems(4)]
  have rep: "zones_rep P F ?s" by (rule zones_rep_same [OF Cons.prems(1)]) (simp_all add: ps)
  have lv: "zone_live P F ?s j = zone_live P F s j" for j by (simp add: ps zone_live_def)
  have k: "k < zone_count ?s" using Cons.prems(3) by (simp add: ps)
  have x: "x \<in> zone_live P F ?s k" using Cons.prems(7) by (simp add: lv)
  show ?case
  proof (rule zfree_spec [OF rep k x])
    let ?F = "F(k := x # F k)"
    fix t assume t: "zfree (Some k) x ?s = Some t" "zones_rep P ?F t" "zone_live P ?F t k = zone_live P F ?s k - {x}"
      "zone_count t = zone_count ?s" "\<And>j. elem_size (zone_store t j) = elem_size (zone_store ?s j)"
      "\<exists>m zs. t = ?s\<lparr>mem := m, zone_store := zs\<rparr>"
    obtain m zs where tt: "t = ?s\<lparr>mem := m, zone_store := zs\<rparr>" using t(6) by blast
    have other: "zone_live P ?F t j = zone_live P F s j" if "j \<noteq> k" for j
      using that t(5) by (simp add: zone_live_def ps)
    have d: "drain_port port s = drain_port port t"
      by (rule drain_port_step [OF Cons.prems(4) _ Cons.prems(2) t(1)]) (use Cons.prems(6) in auto)
    have "port_queue port t xs" using q(2) by (simp add: port_queue_def tt)
    moreover have "kmsg_zone t = Some k" "k < zone_count t" using Cons.prems(2,3) by (simp_all add: tt ps)
    moreover have "set xs \<subseteq> zone_live P ?F t k" using Cons.prems(5,7) by (auto simp: t(3) lv)
    ultimately have "\<exists>u F'. drain_port port t = Some u \<and> zones_rep P F' u \<and> port_queue port u [] \<and>
      zone_live P F' u k = zone_live P ?F t k - set xs \<and> (\<forall>j. j \<noteq> k \<longrightarrow> zone_live P F' u j = zone_live P ?F t j) \<and>
      zone_count u = zone_count t \<and> kmsg_zone u = kmsg_zone t \<and> ipc_port_zone u = ipc_port_zone t \<and>
      (\<forall>q. q \<noteq> port \<longrightarrow> ports u q = ports t q)"
      using Cons.prems(5,6) by (intro Cons.IH [OF t(2)]) (simp_all del: fun_upd_apply)
    then obtain u F' where u: "drain_port port t = Some u" "zones_rep P F' u" "port_queue port u []"
      "zone_live P F' u k = zone_live P ?F t k - set xs" "\<forall>j. j \<noteq> k \<longrightarrow> zone_live P F' u j = zone_live P ?F t j"
      "zone_count u = zone_count t" "kmsg_zone u = kmsg_zone t" "ipc_port_zone u = ipc_port_zone t"
      "\<forall>q. q \<noteq> port \<longrightarrow> ports u q = ports t q"
      by blast
    have same: "ports t q = ports s q" if "q \<noteq> port" for q
      using that q(3) by (simp add: tt)
    show ?case
      using u d other same t(3) by (intro exI [of _ u] exI [of _ F']) (auto simp: lv [unfolded ps] tt ps)
  qed
qed

lemma enqueue_correct:
  assumes "port_queue port s xs" "kmsg \<noteq> 0"
  shows "if length xs < 32
      then fst (ipc_port_enqueue port kmsg s) = KERN_SUCCESS \<and> port_queue port (snd (ipc_port_enqueue port kmsg s)) (xs @ [kmsg])
      else ipc_port_enqueue port kmsg s = (KERN_NO_SPACE, s)"
    "q \<noteq> port \<Longrightarrow> ports (snd (ipc_port_enqueue port kmsg s)) q = ports s q"
proof -
  have full: "ipc_port_enqueue port kmsg s = (KERN_NO_SPACE, s)" if "\<not> length xs < 32"
  proof -
    have "ip_msg_count (ports s port) \<ge> 32" using assms(1) that by (simp add: port_queue_def ring_def word_le_nat_alt)
    then show ?thesis using assms by (simp add: ipc_port_enqueue_def port_queue_def)
  qed
  then show "if length xs < 32
      then fst (ipc_port_enqueue port kmsg s) = KERN_SUCCESS \<and> port_queue port (snd (ipc_port_enqueue port kmsg s)) (xs @ [kmsg])
      else ipc_port_enqueue port kmsg s = (KERN_NO_SPACE, s)"
    using enqueue_port(1) [OF assms] port_queue_enqueue [OF assms] by presburger
  show "ports (snd (ipc_port_enqueue port kmsg s)) q = ports s q" if "q \<noteq> port"
    using enqueue_port(2) [OF assms] full that by (cases "length xs < 32") simp_all
qed

lemma dequeue_correct:
  assumes "port_queue port s xs"
  shows "case xs of [] \<Rightarrow> ipc_port_dequeue port s = (IPC_KMSG_NULL, s)
     | x # ys \<Rightarrow> fst (ipc_port_dequeue port s) = x \<and> port_queue port (snd (ipc_port_dequeue port s)) ys"
    "q \<noteq> port \<Longrightarrow> ports (snd (ipc_port_dequeue port s)) q = ports s q"
proof (atomize (full), cases xs)
  case Nil
  then have "ip_msg_count (ports s port) = 0" using assms(1) by (simp add: port_queue_def ring_def unat_eq_0)
  then show "(case xs of [] \<Rightarrow> ipc_port_dequeue port s = (IPC_KMSG_NULL, s)
     | x # ys \<Rightarrow> fst (ipc_port_dequeue port s) = x \<and> port_queue port (snd (ipc_port_dequeue port s)) ys) \<and>
    (q \<noteq> port \<longrightarrow> ports (snd (ipc_port_dequeue port s)) q = ports s q)"
    by (simp add: Nil ipc_port_dequeue_def)
next
  case (Cons x ys)
  then show "(case xs of [] \<Rightarrow> ipc_port_dequeue port s = (IPC_KMSG_NULL, s)
     | x # ys \<Rightarrow> fst (ipc_port_dequeue port s) = x \<and> port_queue port (snd (ipc_port_dequeue port s)) ys) \<and>
    (q \<noteq> port \<longrightarrow> ports (snd (ipc_port_dequeue port s)) q = ports s q)"
    using port_queue_dequeue [of port s x ys] assms(1) by simp
qed

section \<open>Properties\<close>

text \<open>
  C17: The ring buffer refines a queue of at most 32 messages: \<open>ipc_port_enqueue\<close> appends while there is room and
  otherwise reports no space with nothing changed; \<open>ipc_port_dequeue\<close> takes the oldest message, or returns null
  from an empty queue with nothing changed; no other port changes.
\<close>

theorem ipc_port_queue_correct:
  assumes "port_queue port s xs" "kmsg \<noteq> 0"
  shows "(if length xs < 32
      then fst (ipc_port_enqueue port kmsg s) = KERN_SUCCESS \<and> port_queue port (snd (ipc_port_enqueue port kmsg s)) (xs @ [kmsg])
      else ipc_port_enqueue port kmsg s = (KERN_NO_SPACE, s)) \<and>
    (case xs of [] \<Rightarrow> ipc_port_dequeue port s = (IPC_KMSG_NULL, s)
     | x # ys \<Rightarrow> fst (ipc_port_dequeue port s) = x \<and> port_queue port (snd (ipc_port_dequeue port s)) ys) \<and>
    (\<forall>q. q \<noteq> port \<longrightarrow> ports (snd (ipc_port_enqueue port kmsg s)) q = ports s q \<and>
       ports (snd (ipc_port_dequeue port s)) q = ports s q)"
  using enqueue_correct [OF assms] dequeue_correct [OF assms(1)] by blast

lemma fresh_port_queue: "port \<noteq> 0 \<Longrightarrow> port_queue port (upd_port port (\<lambda>_. zero_port) s) []"
  by (simp add: port_queue_def ring_def upd_port_def zero_port_def)

theorem ipc_port_queue_correct_witness:
  "port_queue 0x10 (snd (ipc_port_enqueue 0x10 0x99 (upd_port 0x10 (\<lambda>_. zero_port) (undefined :: ipc_state)))) [0x99]"
  using ipc_port_queue_correct [OF fresh_port_queue [of "0x10" "undefined :: ipc_state"], of "0x99"] by simp

text \<open>
  A message wakes the thread that waits for it: enqueuing makes the waiting thread runnable and puts it last
  in the run queue, and the port forgets it.
\<close>

lemma ipc_port_enqueue_wakes:
  assumes "port_queue port s xs" "kmsg \<noteq> 0" "length xs < 32" "ip_waiting_thread (ports s port) = w" "w \<noteq> 0"
    "run_queue s ts" "w \<notin> set ts"
  shows "run_queue (snd (ipc_port_enqueue port kmsg s)) (ts @ [w]) \<and>
    sched_get_state w (snd (ipc_port_enqueue port kmsg s)) = THREAD_STATE_RUNNABLE \<and>
    ip_waiting_thread (ports (snd (ipc_port_enqueue port kmsg s)) port) = 0"
proof -
  let ?u = "s\<lparr>ports := (ports s)(port := put_msg kmsg (ports s port))\<rparr>"
  have nf: "\<not> ip_msg_count (ports s port) \<ge> 32" using assms(1,3) by (simp add: port_queue_def ring_def word_le_nat_alt)
  have p: "port \<noteq> 0" using assms(1) by (simp add: port_queue_def)
  have eq: "snd (ipc_port_enqueue port kmsg s) = sched_unblock w ?u"
    using assms(2,4,5) nf p by (simp add: ipc_port_enqueue_def Let_def upd_port_def put_msg_def)
  have "run_queue ?u ts" using assms(6) by (simp add: run_queue_def)
  then have "run_queue (sched_unblock w ?u) (ts @ [w])"
    using run_queue_enqueue [OF run_queue_set_state [of ?u ts w THREAD_STATE_RUNNABLE] assms(5,7)] assms(5)
    by (simp add: sched_unblock_def Let_def)
  moreover have "sched_get_state w (sched_unblock w ?u) = THREAD_STATE_RUNNABLE"
    using assms(5) by (simp add: sched_unblock_def sched_get_state_def sched_set_state_def sched_enqueue_def upd_sched_def Let_def)
  moreover have "ip_waiting_thread (ports (sched_unblock w ?u) port) = 0" by (simp add: put_msg_def)
  ultimately show ?thesis unfolding eq by simp
qed

lemma ipc_port_enqueue_wakes_witness:
  "run_queue (snd (ipc_port_enqueue 0x10 0x99
     (upd_port 0x10 (\<lambda>_. zero_port\<lparr>ip_waiting_thread := 7\<rparr>) (sched_init (undefined :: ipc_state))))) [7]"
proof -
  let ?s = "upd_port 0x10 (\<lambda>_. zero_port\<lparr>ip_waiting_thread := 7\<rparr>) (sched_init (undefined :: ipc_state))"
  have "port_queue 0x10 ?s []" by (simp add: port_queue_def ring_def upd_port_def zero_port_def)
  moreover have "ip_waiting_thread (ports ?s 0x10) = 7" by (simp add: upd_port_def)
  moreover have "run_queue ?s []" by (simp add: run_queue_def sched_init_def upd_port_def)
  ultimately show ?thesis using ipc_port_enqueue_wakes [of "0x10" ?s "[]" "0x99" 7 "[]"] by simp
qed

text \<open>
  Dropping the last reference to a port returns: the loop over the waiting messages ends, every one of them
  and the port itself go back to their zones, and nothing else does.
\<close>

lemma ipc_port_release_last:
  assumes "zones_rep P F s" "kmsg_zone s = Some k" "ipc_port_zone s = Some j" "k < zone_count s" "j < zone_count s" "k \<noteq> j"
    "port_queue port s xs" "distinct xs" "0 \<notin> set xs" "set xs \<subseteq> zone_live P F s k" "port \<in> zone_live P F s j"
    "ip_ref_count (ports s port) = 1"
  shows "\<exists>t F'. ipc_port_release port s = Some t \<and> zones_rep P F' t \<and>
    zone_live P F' t k = zone_live P F s k - set xs \<and> zone_live P F' t j = zone_live P F s j - {port} \<and>
    (\<forall>i. i \<noteq> k \<longrightarrow> i \<noteq> j \<longrightarrow> zone_live P F' t i = zone_live P F s i)"
proof -
  let ?s = "upd_port port (\<lambda>p. p\<lparr>ip_ref_count := ip_ref_count p - 1\<rparr>) s"
  have port: "port \<noteq> 0" using assms(7) by (simp add: port_queue_def)
  have rep: "zones_rep P F ?s" by (rule zones_rep_same [OF assms(1)]) (simp_all add: upd_port_def)
  have lv: "zone_live P F ?s i = zone_live P F s i" for i by (simp add: zone_live_def upd_port_def)
  have "port_queue port ?s xs" using assms(7) by (simp add: port_queue_def ring_def upd_port_def)
  moreover have "kmsg_zone ?s = Some k" "k < zone_count ?s" using assms(2,4) by (simp_all add: upd_port_def)
  ultimately obtain t F' where t: "drain_port port ?s = Some t" "zones_rep P F' t"
    "zone_live P F' t k = zone_live P F s k - set xs" "\<forall>i. i \<noteq> k \<longrightarrow> zone_live P F' t i = zone_live P F s i"
    "zone_count t = zone_count s" "ipc_port_zone t = Some j"
    using drain_port_spec [OF rep, of k port xs] assms(3,8,9,10) by (auto simp: lv) (auto simp: upd_port_def)
  have r: "ipc_port_release port s = zfree (Some j) port t"
    using port assms(12) t(1,6) by (simp add: ipc_port_release_def Let_def get_ipc_port_zone_def) (simp add: upd_port_def)
  have p: "port \<in> zone_live P F' t j" using t(4) assms(6,11) by auto
  have jz: "j < zone_count t" using assms(5) t(5) by simp
  show ?thesis
  proof (rule zfree_spec [OF t(2) jz p])
    fix u assume u: "zfree (Some j) port t = Some u" "zones_rep P (F'(j := port # F' j)) u"
      "zone_live P (F'(j := port # F' j)) u j = zone_live P F' t j - {port}"
      "\<And>i. elem_size (zone_store u i) = elem_size (zone_store t i)"
    have o: "zone_live P (F'(j := port # F' j)) u i = zone_live P F' t i" if "i \<noteq> j" for i
      using that u(4) by (simp add: zone_live_def)
    show ?thesis
      using r u(1-3) o t(3,4) assms(6) by (intro exI [of _ u] exI [of _ "F'(j := port # F' j)"]) auto
  qed
qed

end
