(* ===== verification/Ipc_Space.thy ===== *)
theory Ipc_Space
  imports Ipc_Port
begin

text \<open>
  \<^verbatim>\<open>kern/ipc_space.c\<close>: the port names of a task.  \<open>names\<close> is the finite map a space stands for.  The out
  pointers are modelled by the flag \<open>null_out\<close> (the pointer is null) and a returned value, 0 where the
  code does not write.
\<close>

section \<open>Operations\<close>

definition sizeof_ipc_space :: u64 where "sizeof_ipc_space = 24584"

definition zero_space :: ipc_space where
  "zero_space = \<lparr>is_port_count = 0, is_entries = (\<lambda>_. \<lparr>ie_port = 0, ie_name = 0, ie_rights = 0\<rparr>)\<rparr>"

definition upd_space :: "addr \<Rightarrow> (ipc_space \<Rightarrow> ipc_space) \<Rightarrow> 'a ipc_state_scheme \<Rightarrow> 'a ipc_state_scheme" where
  "upd_space p f s = s\<lparr>spaces := (spaces s)(p := f (spaces s p))\<rparr>"

definition upd_ipc_entry :: "addr \<Rightarrow> nat \<Rightarrow> (ipc_entry \<Rightarrow> ipc_entry) \<Rightarrow> 'a ipc_state_scheme \<Rightarrow> 'a ipc_state_scheme" where
  "upd_ipc_entry p i f s = upd_space p (\<lambda>sp. sp\<lparr>is_entries := (is_entries sp)(i := f (is_entries sp i))\<rparr>) s"

definition get_ipc_space_zone :: "'a ipc_state_scheme \<Rightarrow> (zone_t \<times> 'a ipc_state_scheme) option" where
  "get_ipc_space_zone s =
     (if ipc_space_zone s = ZONE_NULL then do {
        (z, s) \<leftarrow> zinit ''ipc_space'' sizeof_ipc_space 0 s;
        let s = s\<lparr>ipc_space_zone := z\<rparr>;
        Some (ipc_space_zone s, s)
      }
      else Some (ipc_space_zone s, s))"

definition ipc_space_create :: "'a ipc_state_scheme \<Rightarrow> (kern_return \<times> addr \<times> 'a ipc_state_scheme) option" where
  "ipc_space_create s = do {
     (z, s) \<leftarrow> get_ipc_space_zone s;
     if z = ZONE_NULL then Some (KERN_NO_SPACE, IPC_SPACE_NULL, s)
     else do {
       (space, s) \<leftarrow> zalloc z s;
       if space = 0 then Some (KERN_NO_SPACE, IPC_SPACE_NULL, s)
       else
         let s = s\<lparr>mem := kmemset space 0 sizeof_ipc_space (mem s)\<rparr>;
             s = upd_space space (\<lambda>_. zero_space) s
         in Some (KERN_SUCCESS, space, s)
     }
   }"

partial_function (option) release_ports :: "addr \<Rightarrow> u32 \<Rightarrow> 'a ipc_state_scheme \<Rightarrow> 'a ipc_state_scheme option" where
  "release_ports space i s =
     (if i < is_port_count (spaces s space) then do {
        s \<leftarrow> (if ie_port (is_entries (spaces s space) (unat i)) \<noteq> IPC_PORT_NULL
             then ipc_port_release (ie_port (is_entries (spaces s space) (unat i))) s else Some s);
        release_ports space (i + 1) s
      }
      else Some s)"

definition ipc_space_destroy :: "addr \<Rightarrow> 'a ipc_state_scheme \<Rightarrow> 'a ipc_state_scheme option" where
  "ipc_space_destroy space s =
     (if space = 0 then Some s
      else do {
        s \<leftarrow> release_ports space 0 s;
        (z, s) \<leftarrow> get_ipc_space_zone s;
        zfree z space s
      })"

definition ipc_space_insert ::
  "addr \<Rightarrow> addr \<Rightarrow> bool \<Rightarrow> 'a ipc_state_scheme \<Rightarrow> kern_return \<times> u64 \<times> 'a ipc_state_scheme" where
  "ipc_space_insert space port null_out s =
     (if space = 0 \<or> port = IPC_PORT_NULL \<or> null_out then (KERN_INVALID_ARGUMENT, 0, s)
      else if is_port_count (spaces s space) \<ge> IPC_SPACE_MAX_PORTS then (KERN_NO_SPACE, 0, s)
      else
        let name = ucast (is_port_count (spaces s space) + 1);
            i = unat (is_port_count (spaces s space));
            s = upd_ipc_entry space i (\<lambda>e. e\<lparr>ie_port := port\<rparr>) s;
            s = upd_ipc_entry space i (\<lambda>e. e\<lparr>ie_name := name\<rparr>) s;
            s = upd_ipc_entry space i (\<lambda>e. e\<lparr>ie_rights := 1\<rparr>) s;
            s = upd_space space (\<lambda>sp. sp\<lparr>is_port_count := is_port_count sp + 1\<rparr>) s
        in (KERN_SUCCESS, name, s))"

definition ipc_space_lookup :: "addr \<Rightarrow> u64 \<Rightarrow> bool \<Rightarrow> 'a ipc_state_scheme \<Rightarrow> kern_return \<times> addr" where
  "ipc_space_lookup space name null_out s =
     (if space = 0 \<or> null_out then (KERN_INVALID_ARGUMENT, 0)
      else if name = MACH_PORT_NULL \<or> name > ucast (is_port_count (spaces s space)) then (KERN_INVALID_ARGUMENT, 0)
      else
        let entry = is_entries (spaces s space) (unat (name - 1))
        in if ie_port entry = IPC_PORT_NULL then (KERN_INVALID_ARGUMENT, 0)
           else (KERN_SUCCESS, ie_port entry))"

definition ipc_space_remove ::
  "addr \<Rightarrow> u64 \<Rightarrow> 'a ipc_state_scheme \<Rightarrow> (kern_return \<times> 'a ipc_state_scheme) option" where
  "ipc_space_remove space name s =
     (if space = 0 then Some (KERN_INVALID_ARGUMENT, s)
      else if name = MACH_PORT_NULL \<or> name > ucast (is_port_count (spaces s space)) then Some (KERN_INVALID_ARGUMENT, s)
      else
        let i = unat (name - 1); entry = is_entries (spaces s space) i
        in if ie_port entry \<noteq> IPC_PORT_NULL then do {
             s \<leftarrow> ipc_port_release (ie_port entry) s;
             let s = upd_ipc_entry space i (\<lambda>e. e\<lparr>ie_port := IPC_PORT_NULL\<rparr>) s;
             let s = upd_ipc_entry space i (\<lambda>e. e\<lparr>ie_rights := 0\<rparr>) s;
             Some (KERN_SUCCESS, s)
           }
           else Some (KERN_SUCCESS, s))"

section \<open>The map of names\<close>

definition space_ok :: "ipc_space \<Rightarrow> bool" where
  "space_ok sp \<longleftrightarrow> unat (is_port_count sp) \<le> 1024"

definition names :: "ipc_space \<Rightarrow> u64 \<rightharpoonup> addr" where
  "names sp name =
     (if name \<noteq> 0 \<and> unat name \<le> unat (is_port_count sp) \<and> ie_port (is_entries sp (unat name - 1)) \<noteq> 0
      then Some (ie_port (is_entries sp (unat name - 1))) else None)"

lemma above_count: "ucast (c :: u32) < (name :: u64) \<longleftrightarrow> unat c < unat name"
  by (simp add: word_less_nat_alt)

lemma unat_pred: "name \<noteq> 0 \<Longrightarrow> unat (name - 1 :: u64) = unat name - 1"
  by (rule unat_minus_one)

lemma lookup_names:
  assumes "space \<noteq> 0"
  shows "ipc_space_lookup space name False s =
    (case names (spaces s space) name of Some p \<Rightarrow> (KERN_SUCCESS, p) | None \<Rightarrow> (KERN_INVALID_ARGUMENT, 0))"
  using assms by (auto simp: ipc_space_lookup_def names_def above_count unat_pred Let_def)

lemma insert_names:
  assumes sp: "space \<noteq> 0" "port \<noteq> 0" and ok: "space_ok (spaces s space)" and room: "unat (is_port_count (spaces s space)) < 1024"
  obtains name t where "ipc_space_insert space port False s = (KERN_SUCCESS, name, t)"
    "names (spaces s space) name = None" "name \<noteq> 0" "names (spaces t space) = (names (spaces s space))(name \<mapsto> port)"
    "space_ok (spaces t space)" "\<And>q. q \<noteq> space \<Longrightarrow> spaces t q = spaces s q" "ports t = ports s"
    "unat (is_port_count (spaces t space)) = Suc (unat (is_port_count (spaces s space)))"
proof -
  let ?c = "is_port_count (spaces s space)"
  have lt: "\<not> ?c \<ge> 1024" using room by (simp add: word_le_nat_alt)
  have c1: "unat (?c + 1) = Suc (unat ?c)" using room by (simp add: unat_word_ariths)
  have n: "unat (ucast (?c + 1) :: u64) = Suc (unat ?c)" by (simp add: c1)
  then have n0: "(ucast (?c + 1) :: u64) \<noteq> 0" by (metis nat.distinct(1) unat_0)
  let ?t = "snd (snd (ipc_space_insert space port False s))"
  have eq: "ipc_space_insert space port False s = (KERN_SUCCESS, ucast (?c + 1), ?t)"
    using sp lt by (simp add: ipc_space_insert_def Let_def)
  have t: "spaces ?t = (spaces s)(space := (spaces s space)\<lparr>
      is_entries := (is_entries (spaces s space))(unat ?c := \<lparr>ie_port = port, ie_name = ucast (?c + 1), ie_rights = 1\<rparr>),
      is_port_count := ?c + 1\<rparr>)"
    using sp lt by (cases "is_entries (spaces s space) (unat ?c)")
      (simp add: ipc_space_insert_def Let_def upd_ipc_entry_def upd_space_def)
  have is_new: "name = ucast (?c + 1) \<longleftrightarrow> unat name = Suc (unat ?c)" for name :: u64
    using n by (metis word64_eqI)
  have "names (spaces ?t space) = (names (spaces s space))(ucast (?c + 1) \<mapsto> port)"
  proof (rule ext)
    fix name :: u64
    show "names (spaces ?t space) name = ((names (spaces s space))(ucast (?c + 1) \<mapsto> port)) name"
    proof (cases "name = ucast (?c + 1)")
      case True
      then show ?thesis using sp n n0 c1 by (simp add: t names_def)
    next
      case False
      then have "unat name \<noteq> Suc (unat ?c)" using is_new by blast
      moreover have "unat name - 1 \<noteq> unat ?c" if "name \<noteq> 0" "unat name \<le> unat ?c"
        using that by (simp add: unat_gt_0 [symmetric] del: unat_gt_0)
      ultimately show ?thesis using False c1 by (auto simp: t names_def le_Suc_eq)
    qed
  qed
  moreover have "names (spaces s space) (ucast (?c + 1)) = None" using n by (simp add: names_def)
  moreover have "ports ?t = ports s" using sp lt by (simp add: ipc_space_insert_def Let_def upd_ipc_entry_def upd_space_def)
  ultimately show ?thesis using eq n0 c1 room by (intro that [of "ucast (?c + 1)" ?t]) (simp_all add: t space_ok_def)
qed

lemma insert_full:
  "space \<noteq> 0 \<Longrightarrow> port \<noteq> 0 \<Longrightarrow> unat (is_port_count (spaces s space)) \<ge> 1024 \<Longrightarrow>
   ipc_space_insert space port False s = (KERN_NO_SPACE, 0, s)"
  by (simp add: ipc_space_insert_def word_le_nat_alt)

text \<open>Removing a name whose port other references keep alive.\<close>

lemma remove_names:
  assumes sp: "space \<noteq> 0" and n: "names (spaces s space) name = Some p" and r: "ip_ref_count (ports s p) > 1"
  obtains t where "ipc_space_remove space name s = Some (KERN_SUCCESS, t)"
    "names (spaces t space) = (names (spaces s space))(name := None)" "\<And>q. q \<noteq> space \<Longrightarrow> spaces t q = spaces s q"
    "ip_ref_count (ports t p) = ip_ref_count (ports s p) - 1" "\<And>q. q \<noteq> p \<Longrightarrow> ports t q = ports s q"
proof -
  let ?i = "unat name - 1" and ?sp = "spaces s space"
  have nm: "name \<noteq> 0" "unat name \<le> unat (is_port_count ?sp)" "ie_port (is_entries ?sp ?i) = p" "p \<noteq> 0"
    using n by (auto simp: names_def split: if_splits)
  have "ip_ref_count (ports s p) - 1 > 0"
  proof -
    have "ip_ref_count (ports s p) \<noteq> 0" using r by auto
    then show ?thesis using r unat_minus_one [of "ip_ref_count (ports s p)"] by (simp add: word_less_nat_alt)
  qed
  then have rel: "ipc_port_release p s = Some (upd_port p (\<lambda>q. q\<lparr>ip_ref_count := ip_ref_count q - 1\<rparr>) s)"
    using nm(4) by (simp add: ipc_port_release_def Let_def) (simp add: upd_port_def)
  define t where "t = upd_ipc_entry space ?i (\<lambda>e. e\<lparr>ie_rights := 0\<rparr>) (upd_ipc_entry space ?i (\<lambda>e. e\<lparr>ie_port := IPC_PORT_NULL\<rparr>)
     (upd_port p (\<lambda>q. q\<lparr>ip_ref_count := ip_ref_count q - 1\<rparr>) s))"
  have eq: "ipc_space_remove space name s = Some (KERN_SUCCESS, t)"
    using sp nm rel by (simp add: ipc_space_remove_def above_count unat_pred Let_def t_def)
  have "names (spaces t space) = (names ?sp)(name := None)"
  proof (rule ext)
    fix m :: u64
    have "m = name \<longleftrightarrow> unat m = unat name" by (auto intro: word64_eqI)
    then have "unat m - 1 \<noteq> ?i" if "m \<noteq> 0" "m \<noteq> name"
      using that nm(1) by (metis Suc_diff_1 diff_Suc_1 unat_gt_0)
    then show "names (spaces t space) m = ((names ?sp)(name := None)) m"
      by (auto simp: names_def t_def upd_ipc_entry_def upd_space_def upd_port_def)
  qed
  then show ?thesis
    by (intro that [OF eq]) (simp_all add: t_def upd_ipc_entry_def upd_space_def upd_port_def)
qed

section \<open>Properties\<close>



text \<open>
  C35: No port space can be created while a page is free: the zone of spaces has elements larger than a page, so the
  first allocation takes a page, finds no element in it and dereferences the null free list.
\<close>

theorem ipc_space_create_faults:
  assumes "ipc_space_zone s = None" "zone_count s < 32" "fst (pmm_alloc_page s) \<noteq> 0"
  shows "ipc_space_create s = None"
proof -
  define z where "z = \<lparr>zname = ''ipc_space'', elem_size = round_elem sizeof_ipc_space, max_size = 0, cur_size = 0,
      free_list = 0, count_free = 0, count_alloc = 0\<rparr>"
  define t where "t = s\<lparr>zone_count := zone_count s + 1, zone_store := (zone_store s)(zone_count s := z)\<rparr>"
  have zi: "zinit ''ipc_space'' sizeof_ipc_space 0 s = Some (Some (zone_count s), t)"
    using assms(2) by (simp add: zinit_def Let_def upd_zone_def t_def z_def)
  let ?u = "t\<lparr>ipc_space_zone := Some (zone_count s)\<rparr>"
  have al: "fst (pmm_alloc_page ?u) \<noteq> 0"
  proof (cases s rule: pmm_alloc_page_cases)
    case none
    then show ?thesis using assms(3) by simp
  next
    case (page p)
    then have p0: "p \<noteq> 0" using assms(3) by auto
    have b: "bitmap_test ?u = bitmap_test s" by (rule ext) (simp add: bitmap_test_def t_def)
    show ?thesis
    proof (cases ?u rule: pmm_alloc_page_cases)
      case none
      then show ?thesis using page(2,3) by (simp add: b)
    next
      case (page q)
      have "q \<noteq> 0" using page(3) \<open>\<And>q. q < 1048576 \<Longrightarrow> \<not> bitmap_test s q \<Longrightarrow> p \<le> q\<close> [of 0] p0
        by (auto simp: b)
      then show ?thesis using page(1,2) by (simp add: page_addr_eq_0)
    qed
  qed
  have "zalloc (Some (zone_count s)) ?u = None"
    by (rule zalloc_oversized)
      (use al in \<open>simp_all add: t_def z_def round_elem_def sizeof_ipc_space_def\<close>)
  then show ?thesis using assms(1) zi by (simp add: ipc_space_create_def get_ipc_space_zone_def)
qed

theorem ipc_space_create_faults_witness:
  "ipc_space_create ((quiet [] (undefined :: ipc_state))\<lparr>ipc_space_zone := None\<rparr>) = None"
proof -
  let ?s = "(quiet [] (undefined :: ipc_state))\<lparr>ipc_space_zone := None\<rparr>"
  have z: "zones_rep (\<lambda>_. {}) (\<lambda>_. []) (quiet [] (undefined :: ipc_state))" "card (free_set (quiet [] (undefined :: ipc_state))) = 48"
    using quiet [of "[]" "undefined :: ipc_state"] by simp_all
  have "free_set ?s = free_set (quiet [] (undefined :: ipc_state))" by (simp add: free_set_def bitmap_test_def)
  then have c: "card (free_set ?s) = 48" using z(2) by simp
  have inv: "pmm_inv ?s"
    using z(1) same_pages(1) [of ?s "quiet [] (undefined :: ipc_state)"] by (simp add: zones_rep_def)
  have "fst (pmm_alloc_page ?s) \<noteq> 0"
  proof
    assume "fst (pmm_alloc_page ?s) = 0"
    then obtain t where "pmm_alloc_page ?s = (0, t)" by (cases "pmm_alloc_page ?s") simp
    then have "free_set ?s = {}" using pmm_alloc_page_full [OF inv] by blast
    then show False using c by simp
  qed
  then show ?thesis by (intro ipc_space_create_faults) (simp_all add: quiet_def)
qed

end
