(* ===== verification/Ipc_Msg.thy ===== *)
theory Ipc_Msg
  imports Ipc_Space
begin

text \<open>
  \<^verbatim>\<open>kern/ipc_msg.c\<close>: sending and receiving.  A receive on an empty port blocks the thread and runs the
  scheduler; if that switches to another thread, the rest of the call happens in a later state, when the
  thread is switched back: the result is then \<open>Blocked\<close>, and \<open>receive_rest\<close> is what remains to be done.
\<close>

datatype 's msg_result =
    Done kern_return "u64 option" 's
  | Blocked addr 's

section \<open>Operations\<close>

definition mach_msg_send :: "addr \<Rightarrow> u64 \<Rightarrow> 'a ipc_state_scheme \<Rightarrow> (kern_return \<times> 'a ipc_state_scheme) option" where
  "mach_msg_send msg sz s =
     (if msg = 0 \<or> sz < sizeof_mach_msg_header then Some (KERN_INVALID_ARGUMENT, s)
      else
        let remote_port = msgh_remote_port (mem s) msg
        in if remote_port = MACH_PORT_NULL then Some (KERN_INVALID_ARGUMENT, s)
        else if sched_current s = THREAD_NULL then None
        else
          let current_task = thread_task (threads s (sched_current s))
          in if current_task = TASK_NULL \<or> itk_space (tasks s current_task) = IPC_SPACE_NULL
             then Some (KERN_INVALID_ARGUMENT, s)
          else
            case ipc_space_lookup (itk_space (tasks s current_task)) remote_port False s of (kr, port) \<Rightarrow>
            if kr \<noteq> KERN_SUCCESS then Some (kr, s)
            else do {
              (kmsg, s) \<leftarrow> ipc_kmsg_alloc sz s;
              if kmsg = IPC_KMSG_NULL then Some (KERN_NO_SPACE, s)
              else
                case ipc_kmsg_copyin kmsg msg sz s of (kr, s) \<Rightarrow>
                if kr \<noteq> KERN_SUCCESS then do { s \<leftarrow> ipc_kmsg_free kmsg s; Some (kr, s) }
                else
                  let s = upd_kmsg kmsg (\<lambda>k. k\<lparr>ikm_port := port\<rparr>) s in
                  case ipc_port_enqueue port kmsg s of (kr, s) \<Rightarrow>
                  if kr \<noteq> KERN_SUCCESS then do { s \<leftarrow> ipc_kmsg_free kmsg s; Some (kr, s) }
                  else Some (KERN_SUCCESS, s)
            })"

text \<open>\<open>mach_msg_receive\<close> from the point where it looks at the queue again.\<close>

definition receive_rest ::
  "addr \<Rightarrow> addr \<Rightarrow> u64 option \<Rightarrow> 'a ipc_state_scheme \<Rightarrow> 'a ipc_state_scheme msg_result option" where
  "receive_rest port msg sz s =
     (if ip_msg_count (ports s port) = 0 then Some (Done KERN_FAILURE sz s)
      else
        case ipc_port_dequeue port s of (kmsg, s) \<Rightarrow>
        if kmsg = IPC_KMSG_NULL then Some (Done KERN_FAILURE sz s)
        else
          case ipc_kmsg_copyout kmsg msg sz s of (kr, sz, s) \<Rightarrow> do {
            s \<leftarrow> ipc_kmsg_free kmsg s;
            Some (Done kr sz s)
          })"

definition mach_msg_receive ::
  "addr \<Rightarrow> u64 option \<Rightarrow> 'a ipc_state_scheme \<Rightarrow> 'a ipc_state_scheme msg_result option" where
  "mach_msg_receive msg sz s =
     (if msg = 0 \<or> sz = None then Some (Done KERN_INVALID_ARGUMENT sz s)
      else
        let local_port = msgh_local_port (mem s) msg
        in if local_port = MACH_PORT_NULL then Some (Done KERN_INVALID_ARGUMENT sz s)
        else if sched_current s = THREAD_NULL then None
        else
          let current_task = thread_task (threads s (sched_current s))
          in if current_task = TASK_NULL \<or> itk_space (tasks s current_task) = IPC_SPACE_NULL
             then Some (Done KERN_INVALID_ARGUMENT sz s)
          else
            case ipc_space_lookup (itk_space (tasks s current_task)) local_port False s of (kr, port) \<Rightarrow>
            if kr \<noteq> KERN_SUCCESS then Some (Done kr sz s)
            else if ip_msg_count (ports s port) = 0 then
              let thread = sched_current s;
                  s = upd_port port (\<lambda>p. p\<lparr>ip_waiting_thread := thread\<rparr>) s;
                  s = sched_block thread s
              in if sched_choose s = THREAD_NULL \<or> sched_choose s = thread then receive_rest port msg sz s
                 else do {
                   s \<leftarrow> sched_run s;
                   Some (Blocked port s)
                 }
            else receive_rest port msg sz s)"

definition mach_msg ::
  "addr \<Rightarrow> u64 \<Rightarrow> u64 \<Rightarrow> u64 \<Rightarrow> u64 \<Rightarrow> u64 \<Rightarrow> u64 \<Rightarrow> addr \<Rightarrow> 'a ipc_state_scheme \<Rightarrow> 'a ipc_state_scheme msg_result option" where
  "mach_msg msg option send_size rcv_size rcv_name timeout notify rcv_msg s = do {
     (kr, s) \<leftarrow> (if option AND 1 \<noteq> 0 then mach_msg_send msg send_size s else Some (KERN_SUCCESS, s));
     if kr \<noteq> KERN_SUCCESS then Some (Done kr None s)
     else if option AND 2 \<noteq> 0 then
       let s = (if rcv_msg \<noteq> 0 then s\<lparr>mem := store64 (mem s) (rcv_msg + 24) rcv_name\<rparr> else s)
       in mach_msg_receive (if rcv_msg \<noteq> 0 then rcv_msg else msg) (Some rcv_size) s
     else Some (Done KERN_SUCCESS None s)
   }"

section \<open>Writing to a live element\<close>

lemma zones_rep_live_write:
  assumes rep: "zones_rep P F s" and i: "i < zone_count s" and x: "x \<in> zone_live P F s i"
    and t: "zone_store t = zone_store s" "zone_count t = zone_count s" "bitmap t = bitmap s" "free_count t = free_count s"
      "hhdm_offset t = hhdm_offset s"
    and m: "\<And>b. \<not> b - x < elem_size (zone_store s i) \<Longrightarrow> mem t b = mem s b"
  shows "zones_rep P F t"
proof -
  have xs: "x \<in> zone_slots (elem_size (zone_store s i)) (P i)" "x \<notin> set (F i)" using x by (auto simp: zone_live_def live_def)
  have "zone_ok t j (P j) (F j)" if j: "j < zone_count s" for j
  proof (rule zone_ok_cong)
    show "zone_ok s j (P j) (F j)" using rep j by (simp add: zones_rep_def)
    fix b y assume y: "y \<in> set (F j)" "b - y < elem_size (zone_store s j)"
    have "\<not> b - x < elem_size (zone_store s i)"
    proof
      assume "b - x < elem_size (zone_store s i)"
      then have "i = j \<and> x = y"
        by (rule zones_rep_disjoint [OF rep i j xs(1) zones_rep_free_subset [OF rep j y(1)] _ y(2)])
      then show False using y(1) xs(2) by simp
    qed
    then show "mem t b = mem s b" by (rule m)
  qed (simp add: t)
  moreover have "pmm_inv t = pmm_inv s" "direct_pages t = direct_pages s" using t by (intro same_pages; simp)+
  ultimately show ?thesis using rep t by (auto simp: zones_rep_def hhdm_ok_def)
qed

section \<open>A message in the kernel\<close>

text \<open>The state of a task that may use the port \<open>port\<close> under the name \<open>n\<close>.\<close>

definition has_right :: "u64 \<Rightarrow> addr \<Rightarrow> 'a ipc_state_scheme \<Rightarrow> bool" where
  "has_right n port s \<longleftrightarrow>
     (let t = thread_task (threads s (sched_current s)) in
      sched_current s \<noteq> 0 \<and> t \<noteq> 0 \<and> itk_space (tasks s t) \<noteq> 0 \<and>
      names (spaces s (itk_space (tasks s t))) n = Some port)"

definition msg_content :: "memory \<Rightarrow> addr \<Rightarrow> u64 \<Rightarrow> u8" where
  "msg_content m a i = m (a + i)"

text \<open>A buffer that shares no byte with an element.\<close>

definition buffer_apart :: "addr \<Rightarrow> addr \<Rightarrow> bool" where
  "buffer_apart buf kmsg \<longleftrightarrow> (\<forall>i < 512. \<forall>j < 592. buf + i \<noteq> kmsg + j)"

lemma has_right_lookup:
  assumes "has_right n port s"
  shows "n \<noteq> 0" "port \<noteq> 0"
    "ipc_space_lookup (itk_space (tasks s (thread_task (threads s (sched_current s))))) n False s = (KERN_SUCCESS, port)"
  using assms lookup_names [of "itk_space (tasks s (thread_task (threads s (sched_current s))))" n s]
  by (auto simp: has_right_def names_def Let_def split: if_splits)

text \<open>The two copies, as one run of bytes.\<close>

lemma in_element: "i < 512 \<Longrightarrow> unat (32 + i :: u64) = 32 + unat i \<and> 32 + i < 592"
proof -
  assume "i < 512"
  then have i: "unat i < 512" by (simp add: word_less_nat_alt)
  then have "unat (32 + i) = 32 + unat i" using unat_add_no_wrap [of 32 i] by simp
  then show ?thesis using i by (simp add: word_less_nat_alt)
qed

lemma buffer_apart_msg:
  assumes "buffer_apart buf kmsg" "n \<le> 512" "i < n" "j < n"
  shows "kmsg + 32 + i \<noteq> buf + j" "buf + j \<noteq> kmsg + 32 + i"
proof -
  have "j < 512" "32 + i < 592" using assms in_element [of i] by (auto intro: less_le_trans)
  then have "buf + j \<noteq> kmsg + (32 + i)" using assms(1) unfolding buffer_apart_def by blast
  then show "kmsg + 32 + i \<noteq> buf + j" "buf + j \<noteq> kmsg + 32 + i" by (simp_all add: add.assoc)
qed

lemma copyin_spec:
  assumes "kmsg \<noteq> 0" "user \<noteq> 0" "48 \<le> n" "n \<le> 512" "buffer_apart user kmsg"
  shows "\<exists>m ks. ipc_kmsg_copyin kmsg user n s = (KERN_SUCCESS, s\<lparr>kmsgs := ks, mem := m\<rparr>) \<and>
    ks kmsg = (kmsgs s kmsg)\<lparr>ikm_header_size := 48\<rparr> \<and> (\<forall>q. q \<noteq> kmsg \<longrightarrow> ks q = kmsgs s q) \<and>
    (\<forall>b. m b = (if b - (kmsg + 32) < n then mem s (user + (b - (kmsg + 32))) else mem s b))"
proof -
  let ?m = "if 0 < n - 48 then kmemcpy (kmsg + 80) (user + 48) (n - 48) (kmemcpy (kmsg + 32) user 48 (mem s))
    else kmemcpy (kmsg + 32) user 48 (mem s)"
  have "\<forall>i < n. \<forall>j < n. kmsg + 32 + i \<noteq> user + j" using buffer_apart_msg [OF assms(5,4)] by blast
  moreover have e: "kmsg + 32 + 48 = kmsg + 80" by simp
  ultimately have c: "\<And>b. ?m b = (if b - (kmsg + 32) < n then mem s (user + (b - (kmsg + 32))) else mem s b)"
    using copy_two [of n "kmsg + 32" user "mem s"] assms(3) unfolding e by blast
  have "ipc_kmsg_copyin kmsg user n s = (KERN_SUCCESS, s\<lparr>
      kmsgs := (kmsgs s)(kmsg := (kmsgs s kmsg)\<lparr>ikm_header_size := 48\<rparr>), mem := ?m\<rparr>)"
    using assms(1-3)
    by (simp add: ipc_kmsg_copyin_def sizeof_mach_msg_header_def ikm_header_def ikm_data_def upd_kmsg_def Let_def not_less)
  then show ?thesis using c by (intro exI [of _ ?m] exI [of _ "(kmsgs s)(kmsg := (kmsgs s kmsg)\<lparr>ikm_header_size := 48\<rparr>)"] conjI allI) auto
qed

lemma copyout_spec:
  assumes "kmsg \<noteq> 0" "user \<noteq> 0" "ikm_size (kmsgs s kmsg) = n" "48 \<le> n" "n \<le> 512" "n \<le> r" "buffer_apart user kmsg"
  shows "\<exists>m. ipc_kmsg_copyout kmsg user (Some r) s = (KERN_SUCCESS, Some n, s\<lparr>mem := m\<rparr>) \<and>
    (\<forall>b. m b = (if b - user < n then mem s (kmsg + 32 + (b - user)) else mem s b))"
proof -
  let ?m = "if 0 < n - 48 then kmemcpy (user + 48) (kmsg + 80) (n - 48) (kmemcpy user (kmsg + 32) 48 (mem s))
    else kmemcpy user (kmsg + 32) 48 (mem s)"
  have "\<forall>i < n. \<forall>j < n. user + i \<noteq> kmsg + 32 + j" using buffer_apart_msg [OF assms(7,5)] by blast
  moreover have e: "kmsg + 32 + 48 = kmsg + 80" by simp
  ultimately have c: "\<And>b. ?m b = (if b - user < n then mem s (kmsg + 32 + (b - user)) else mem s b)"
    using copy_two [of n user "kmsg + 32" "mem s"] assms(4) unfolding e by blast
  have "ipc_kmsg_copyout kmsg user (Some r) s = (KERN_SUCCESS, Some n, s\<lparr>mem := ?m\<rparr>)"
    using assms(1-3,6)
    by (simp add: ipc_kmsg_copyout_def sizeof_mach_msg_header_def ikm_header_def ikm_data_def Let_def not_less)
  then show ?thesis using c by (intro exI [of _ ?m] conjI allI) auto
qed

section \<open>Sending\<close>

lemma port_enqueue_frame:
  fixes s :: "'a ipc_state_scheme" and port kmsg :: addr
  defines "t \<equiv> snd (ipc_port_enqueue port kmsg s)"
  shows "mem t = mem s" "kmsgs t = kmsgs s" "spaces t = spaces s" "tasks t = tasks s" "bitmap t = bitmap s"
    "free_count t = free_count s" "hhdm_offset t = hhdm_offset s" "zone_count t = zone_count s" "zone_store t = zone_store s"
    "kmsg_zone t = kmsg_zone s" "sched_current t = sched_current s" "thread_task (threads t x) = thread_task (threads s x)"
  unfolding t_def
  by (simp_all add: ipc_port_enqueue_def upd_port_def sched_unblock_def sched_enqueue_def sched_set_state_def
      upd_sched_def Let_def sched_current_def cpu_current_thread_def cpu_get_def cong: option.case_cong)

lemma port_dequeue_frame:
  fixes s :: "'a ipc_state_scheme" and port :: addr
  defines "t \<equiv> snd (ipc_port_dequeue port s)"
  shows "mem t = mem s" "kmsgs t = kmsgs s" "bitmap t = bitmap s"
    "free_count t = free_count s" "hhdm_offset t = hhdm_offset s" "zone_count t = zone_count s" "zone_store t = zone_store s"
    "kmsg_zone t = kmsg_zone s"
  unfolding t_def by (simp_all add: ipc_port_dequeue_def upd_port_def Let_def)

text \<open>\<open>all_direct\<close>: every page of the direct map; a user buffer lies outside.\<close>

definition all_direct :: "'a machine_scheme \<Rightarrow> addr set" where
  "all_direct s = PHYS_TO_VIRT s ` {pa. unat pa < 4294967296}"

definition off_direct :: "'a machine_scheme \<Rightarrow> addr \<Rightarrow> bool" where
  "off_direct s a \<longleftrightarrow> (\<forall>j < 512. page_of (a + j) \<notin> all_direct s)"

lemma direct_all: "direct_pages s \<subseteq> all_direct s"
  using used_page_bounds by (auto simp: direct_pages_def all_direct_def)

lemma off_direct_apart:
  assumes "zones_rep P F s" "k < zone_count s" "elem_size (zone_store s k) = 592" "x \<in> zone_live P F s k" "off_direct s a"
  shows "buffer_apart a x"
  unfolding buffer_apart_def
proof (intro allI impI notI)
  fix i j :: u64 assume h: "i < 512" "j < 592" "a + i = x + j"
  have "x \<in> zone_slots 592 (P k)" using assms(3,4) by (simp add: zone_live_def live_def)
  then have "page_of (x + j) \<in> P k"
    using slot_bytes_in_page(2) [OF zones_rep_elem [OF assms(1,2)] zones_rep_pages(1) [OF assms(1,2)]] h(2) assms(3) by simp
  then have "page_of (a + i) \<in> all_direct s" using assms(1,2) direct_all [of s] h(3) by (auto simp: zones_rep_def)
  then show False using assms(5) h(1) by (auto simp: off_direct_def)
qed

lemma msg_bytes_in_element: "b - (x + 32) < n \<Longrightarrow> n \<le> 512 \<Longrightarrow> b - x < (592 :: u64)"
proof -
  assume h: "b - (x + 32) < n" "n \<le> 512"
  then have "b - (x + 32) < 512" by (rule less_le_trans)
  then have "32 + (b - (x + 32)) < 592" using in_element by blast
  then show "b - x < 592" by simp
qed

lemma mach_msg_send_spec:
  assumes rep: "zones_rep P F s" and k: "kmsg_zone s = Some k" "k < zone_count s" "elem_size (zone_store s k) = 592"
    and right: "has_right n port s" and msg: "msg \<noteq> 0" "msgh_remote_port (mem s) msg = n" "off_direct s msg"
    and sz: "48 \<le> sz" "sz \<le> 512" and q: "port_queue port s xs" "length xs < 32"
  obtains (no_space) "mach_msg_send msg sz s = Some (KERN_NO_SPACE, s)"
      "pmm_alloc_page s = (0, s) \<or> max_size (zone_store s k) \<noteq> 0"
  | (sent) kmsg t P' F' where "mach_msg_send msg sz s = Some (KERN_SUCCESS, t)" "zones_rep P' F' t" "kmsg \<noteq> 0"
      "kmsg \<notin> zone_live P F s k" "zone_live P' F' t k = insert kmsg (zone_live P F s k)"
      "port_queue port t (xs @ [kmsg])" "ikm_size (kmsgs t kmsg) = sz"
      "\<And>i. i < sz \<Longrightarrow> mem t (kmsg + 32 + i) = mem s (msg + i)"
      "\<And>x. x \<noteq> kmsg \<Longrightarrow> kmsgs t x = kmsgs s x"
      "\<And>x b j. j < zone_count s \<Longrightarrow> x \<in> zone_live P F s j \<Longrightarrow> b - x < elem_size (zone_store s j) \<Longrightarrow> mem t b = mem s b"
      "\<And>b. page_of b \<notin> all_direct s \<Longrightarrow> mem t b = mem s b"
      "spaces t = spaces s" "tasks t = tasks s" "sched_current t = sched_current s"
      "\<And>x. thread_task (threads t x) = thread_task (threads s x)" "hhdm_offset t = hhdm_offset s"
      "kmsg_zone t = Some k" "zone_count t = zone_count s" "elem_size (zone_store t k) = 592"
proof (cases rule: zalloc_spec [OF rep k(2)])
  note hr = has_right_lookup [OF right]
  have cur: "sched_current s \<noteq> 0" "thread_task (threads s (sched_current s)) \<noteq> 0"
    "itk_space (tasks s (thread_task (threads s (sched_current s)))) \<noteq> 0"
    using right by (simp_all add: has_right_def Let_def)
  have small: "\<not> sz < 48" "\<not> sz > KMSG_ZONE_SIZE" using sz by (simp_all add: not_less KMSG_ZONE_SIZE_def)
  case 1
  then have "mach_msg_send msg sz s = Some (KERN_NO_SPACE, s)"
    using msg hr cur small k(1)
    by (simp add: mach_msg_send_def sizeof_mach_msg_header_def ipc_kmsg_alloc_def get_kmsg_zone_def Let_def)
  then show thesis using 1(3) by (intro no_space) auto
next
  note hr = has_right_lookup [OF right]
  have cur: "sched_current s \<noteq> 0" "thread_task (threads s (sched_current s)) \<noteq> 0"
    "itk_space (tasks s (thread_task (threads s (sched_current s)))) \<noteq> 0"
    using right by (simp_all add: has_right_def Let_def)
  have small: "\<not> sz < 48" "\<not> sz > KMSG_ZONE_SIZE" using sz by (simp_all add: not_less KMSG_ZONE_SIZE_def)
  case (2 kmsg s1 P' F')
  obtain m b c zs where s1: "s1 = s\<lparr>mem := m, bitmap := b, free_count := c, zone_store := zs\<rparr>" using 2(14) by blast
  have e1: "elem_size (zone_store s1 k) = 592" using 2(8) k(3) by simp
  have k1: "k < zone_count s1" using 2(7) k(2) by simp
  have x1: "kmsg \<in> zone_live P' F' s1 k" using 2(5) by simp
  have ad: "all_direct s1 = all_direct s" by (simp add: all_direct_def PHYS_TO_VIRT_def s1)
  have off: "off_direct s1 msg" using msg(3) by (simp add: off_direct_def ad)
  have ap: "buffer_apart msg kmsg" by (rule off_direct_apart [OF 2(2) k1 e1 x1 off])
  define s2 where "s2 = upd_kmsg kmsg (\<lambda>_. \<lparr>ikm_next = IPC_KMSG_NULL, ikm_port = IPC_PORT_NULL, ikm_size = sz,
      ikm_header_size = sizeof_mach_msg_header\<rparr>) s1"
  have al: "ipc_kmsg_alloc sz s = Some (kmsg, s2)"
    using k(1) small 2(1,3) by (simp add: ipc_kmsg_alloc_def get_kmsg_zone_def s2_def)
  obtain m' ks where ci: "ipc_kmsg_copyin kmsg msg sz s2 = (KERN_SUCCESS, s2\<lparr>kmsgs := ks, mem := m'\<rparr>)"
    "ks kmsg = (kmsgs s2 kmsg)\<lparr>ikm_header_size := 48\<rparr>" "\<forall>q. q \<noteq> kmsg \<longrightarrow> ks q = kmsgs s2 q"
    "\<forall>b. m' b = (if b - (kmsg + 32) < sz then mem s2 (msg + (b - (kmsg + 32))) else mem s2 b)"
    using copyin_spec [OF 2(3) msg(1) sz ap, of s2] by blast
  define s3 where "s3 = upd_kmsg kmsg (\<lambda>k. k\<lparr>ikm_port := port\<rparr>) (s2\<lparr>kmsgs := ks, mem := m'\<rparr>)"
  have p3: "ports s3 = ports s" by (simp add: s3_def s2_def s1 upd_kmsg_def)
  have q3: "port_queue port s3 xs" using q(1) by (simp add: port_queue_def p3)
  define t where "t = snd (ipc_port_enqueue port kmsg s3)"
  have en: "ipc_port_enqueue port kmsg s3 = (KERN_SUCCESS, t)"
    using enqueue_port(1) [OF q3 2(3) q(2)] by (simp add: t_def prod_eq_iff)
  note fr = port_enqueue_frame [of port kmsg s3, folded t_def]
  have eq: "mach_msg_send msg sz s = Some (KERN_SUCCESS, t)"
    using msg hr cur small al ci(1) en 2(3)
    by (simp add: mach_msg_send_def sizeof_mach_msg_header_def Let_def s3_def)
  have mt: "mem t b = (if b - (kmsg + 32) < sz then m (msg + (b - (kmsg + 32))) else m b)" for b
    using ci(4) by (simp add: fr s3_def upd_kmsg_def s2_def s1)
  have mt': "mem t b = m b" if "\<not> b - kmsg < 592" for b
    using mt [of b] msg_bytes_in_element [of b kmsg sz] sz(2) that by auto
  have m_user: "m b = mem s b" if "page_of b \<notin> all_direct s" for b
  proof -
    have "page_of b \<notin> direct_pages s1" using that direct_all [of s1] ad by auto
    then show ?thesis using 2(11) by (simp add: s1)
  qed
  have rep_t: "zones_rep P' F' t"
    by (rule zones_rep_live_write [OF 2(2) k1 x1])
      (use mt' in \<open>simp_all add: fr s3_def upd_kmsg_def s2_def e1, simp add: s1\<close>)
  show thesis
  proof (rule sent [OF eq rep_t 2(3,4)])
    show "zone_live P' F' t k = insert kmsg (zone_live P F s k)"
      using 2(5) by (simp add: zone_live_def fr s3_def upd_kmsg_def s2_def)
    show "port_queue port t (xs @ [kmsg])" unfolding t_def by (rule port_queue_enqueue [OF q3 2(3) q(2)])
    show "ikm_size (kmsgs t kmsg) = sz" using ci(2) by (simp add: fr s3_def upd_kmsg_def s2_def)
    show "kmsgs t x = kmsgs s x" if "x \<noteq> kmsg" for x
      using ci(3) that by (simp add: fr s3_def upd_kmsg_def s2_def s1)
    show "mem t (kmsg + 32 + i) = mem s (msg + i)" if "i < sz" for i
    proof -
      have "page_of (msg + i) \<notin> all_direct s" using msg(3) less_le_trans [OF that sz(2)] by (simp add: off_direct_def)
      then show ?thesis using mt [of "kmsg + 32 + i"] that m_user by simp
    qed
    show "mem t b = mem s b" if j: "j < zone_count s" "x \<in> zone_live P F s j" "b - x < elem_size (zone_store s j)" for x b j
    proof -
      have xs: "x \<in> zone_slots (elem_size (zone_store s j)) (P j)" using j(2) by (simp add: zone_live_def live_def)
      have pg: "page_of b \<in> P j"
        by (rule slot_bytes_in_page(2) [OF zones_rep_elem [OF rep j(1)] zones_rep_pages(1) [OF rep j(1)] xs j(3)])
      have nx: "\<not> b - kmsg < 592"
      proof
        assume l: "b - kmsg < 592"
        have ks: "kmsg \<in> zone_slots 592 (P' k)" using x1 by (simp add: zone_live_def live_def e1)
        have j1: "j < zone_count s1" using j(1) 2(7) by simp
        have xl: "x \<in> zone_live P' F' s1 j"
          using j(2) 2(5,6,8) by (cases "j = k") (auto simp: zone_live_def)
        then have xs1: "x \<in> zone_slots (elem_size (zone_store s1 j)) (P' j)" by (simp add: zone_live_def live_def)
        have "k = j \<and> kmsg = x"
          by (rule zones_rep_disjoint [OF 2(2) k1 j1 ks [folded e1] xs1]) (use l e1 j(3) 2(8) in simp_all)
        then show False using 2(4) j(2) by simp
      qed
      have "page_of b \<in> direct_pages s" using pg rep j(1) by (auto simp: zones_rep_def)
      then show ?thesis using mt' [OF nx] 2(10) nx k(3) by (simp add: s1)
    qed
    show "mem t b = mem s b" if "page_of b \<notin> all_direct s" for b
    proof -
      have "\<not> b - kmsg < 592"
      proof
        assume "b - kmsg < 592"
        moreover have "kmsg \<in> zone_slots 592 (P' k)" using x1 by (simp add: zone_live_def live_def e1)
        ultimately have "page_of b \<in> P' k"
          using slot_bytes_in_page(2) [OF zones_rep_elem [OF 2(2) k1] zones_rep_pages(1) [OF 2(2) k1]] e1 by simp
        then have "page_of b \<in> all_direct s" using 2(2) k1 direct_all [of s1] ad by (auto simp: zones_rep_def)
        then show False using that by simp
      qed
      then show ?thesis using mt' m_user [OF that] by simp
    qed
    have "sched_current s3 = sched_current s"
      by (simp add: s3_def upd_kmsg_def s2_def s1 sched_current_def cpu_current_thread_def cpu_get_def cong: option.case_cong)
    then show "sched_current t = sched_current s" by (simp add: fr)
    show "elem_size (zone_store t k) = 592" using e1 by (simp add: fr s3_def upd_kmsg_def s2_def)
  qed (simp_all add: fr s3_def upd_kmsg_def s2_def s1 k(1))
qed

section \<open>Receiving\<close>

text \<open>The call when a message waits: the message is taken out and freed, whether or not it fits the buffer.\<close>

lemma mach_msg_receive_waiting:
  assumes right: "has_right n port s" and msg: "msg \<noteq> 0" "msgh_local_port (mem s) msg = n"
    and q: "port_queue port s (kmsg # xs)" and km: "kmsg \<noteq> 0"
  shows "mach_msg_receive msg (Some r) s = (case ipc_kmsg_copyout kmsg msg (Some r) (snd (ipc_port_dequeue port s)) of
      (kr, sz, s) \<Rightarrow> do { s \<leftarrow> ipc_kmsg_free kmsg s; Some (Done kr sz s) })"
proof -
  have cur: "sched_current s \<noteq> 0" "thread_task (threads s (sched_current s)) \<noteq> 0"
    "itk_space (tasks s (thread_task (threads s (sched_current s)))) \<noteq> 0"
    using right by (simp_all add: has_right_def Let_def)
  have "unat (ip_msg_count (ports s port)) \<noteq> 0" using q by (simp add: port_queue_def ring_def)
  then have c: "ip_msg_count (ports s port) \<noteq> 0" by auto
  have "fst (ipc_port_dequeue port s) = kmsg" by (rule port_queue_dequeue(1) [OF q])
  then have d: "ipc_port_dequeue port s = (kmsg, snd (ipc_port_dequeue port s))" by (metis prod.collapse)
  have "receive_rest port msg (Some r) s = (case ipc_kmsg_copyout kmsg msg (Some r) (snd (ipc_port_dequeue port s)) of
      (kr, sz, s) \<Rightarrow> do { s \<leftarrow> ipc_kmsg_free kmsg s; Some (Done kr sz s) })"
    unfolding receive_rest_def using c km by (subst d) simp
  then show ?thesis
    using msg has_right_lookup [OF right] cur c by (simp add: mach_msg_receive_def Let_def)
qed

lemma mach_msg_receive_spec:
  assumes rep: "zones_rep P F s" and k: "kmsg_zone s = Some k" "k < zone_count s" "elem_size (zone_store s k) = 592"
    and right: "has_right n port s" and msg: "msg \<noteq> 0" "msgh_local_port (mem s) msg = n" "off_direct s msg"
    and q: "port_queue port s (kmsg # xs)" "kmsg \<noteq> 0" "kmsg \<in> zone_live P F s k"
    and sz: "ikm_size (kmsgs s kmsg) = sz" "48 \<le> sz" "sz \<le> 512"
  shows "\<exists>t F'. mach_msg_receive msg (Some r) s =
      Some (if sz \<le> r then Done KERN_SUCCESS (Some sz) t else Done KERN_NO_SPACE (Some r) t) \<and>
    zones_rep P F' t \<and> zone_live P F' t k = zone_live P F s k - {kmsg} \<and> port_queue port t xs \<and>
    (sz \<le> r \<longrightarrow> (\<forall>i < sz. mem t (msg + i) = mem s (kmsg + 32 + i)))"
proof -
  let ?s = "snd (ipc_port_dequeue port s)"
  note fr = port_dequeue_frame [of port s]
  have rep1: "zones_rep P F ?s" by (rule zones_rep_same [OF rep]) (simp_all add: fr)
  have ap: "buffer_apart msg kmsg" by (rule off_direct_apart [OF rep k(2,3) q(3) msg(3)])
  have free: "\<exists>t F'. ipc_kmsg_free kmsg u = Some t \<and> zones_rep P F' t \<and> zone_live P F' t k = zone_live P F s k - {kmsg} \<and>
      ports t = ports u \<and> (\<forall>b. \<not> b - kmsg < 592 \<longrightarrow> mem t b = mem u b)"
    if u: "zones_rep P F u" "zone_store u = zone_store ?s" "zone_count u = zone_count ?s" "kmsg_zone u = Some k" for u :: "'a ipc_state_scheme"
  proof -
    have ku: "k < zone_count u" "kmsg \<in> zone_live P F u k" using u(2,3) k(2) q(3) by (simp_all add: fr zone_live_def)
    show ?thesis
    proof (rule zfree_spec [OF u(1) ku])
      fix t assume t: "zfree (Some k) kmsg u = Some t" "zones_rep P (F(k := kmsg # F k)) t"
        "zone_live P (F(k := kmsg # F k)) t k = zone_live P F u k - {kmsg}"
        "\<And>b. \<not> b - kmsg < elem_size (zone_store u k) \<Longrightarrow> mem t b = mem u b" "\<exists>m zs. t = u\<lparr>mem := m, zone_store := zs\<rparr>"
      have "ipc_kmsg_free kmsg u = Some t" using q(2) u(4) t(1) by (simp add: ipc_kmsg_free_def get_kmsg_zone_def)
      moreover have "ports t = ports u" using t(5) by auto
      moreover have "zone_live P F u k = zone_live P F s k" using u(2) by (simp add: fr zone_live_def)
      ultimately show ?thesis
        using t(2-4) u(2) k(3) by (intro exI [of _ t] exI [of _ "F(k := kmsg # F k)"]) (simp add: fr)
    qed
  qed
  show ?thesis
  proof (cases "sz \<le> r")
    case True
    obtain m where co: "ipc_kmsg_copyout kmsg msg (Some r) ?s = (KERN_SUCCESS, Some sz, ?s\<lparr>mem := m\<rparr>)"
      "\<forall>b. m b = (if b - msg < sz then mem ?s (kmsg + 32 + (b - msg)) else mem ?s b)"
      using copyout_spec [OF q(2) msg(1), of ?s sz r] sz True ap by (auto simp: fr)
    have off: "page_of (msg + i) \<notin> all_direct s" if "i < sz" for i
      using msg(3) less_le_trans [OF that sz(3)] by (simp add: off_direct_def)
    have rep2: "zones_rep P F (?s\<lparr>mem := m\<rparr>)"
    proof (rule zones_rep_fresh_page [OF rep1])
      have eq: "pmm_inv (?s\<lparr>mem := m\<rparr>) = pmm_inv ?s" "direct_pages (?s\<lparr>mem := m\<rparr>) = direct_pages ?s" by (intro same_pages; simp)+
      show "pmm_inv (?s\<lparr>mem := m\<rparr>)" "direct_pages ?s \<subseteq> direct_pages (?s\<lparr>mem := m\<rparr>)"
        using rep1 by (simp_all add: eq zones_rep_def)
      have ds: "direct_pages ?s = direct_pages s" by (rule same_pages(2)) (simp_all add: fr)
      show "mem (?s\<lparr>mem := m\<rparr>) b = mem ?s b" if "page_of b \<in> direct_pages ?s" for b
        using co(2) off [of "b - msg"] that direct_all [of s] ds by auto
    qed simp_all
    obtain t F' where t: "ipc_kmsg_free kmsg (?s\<lparr>mem := m\<rparr>) = Some t" "zones_rep P F' t"
      "zone_live P F' t k = zone_live P F s k - {kmsg}" "ports t = ports ?s" "\<forall>b. \<not> b - kmsg < 592 \<longrightarrow> mem t b = m b"
      using free [OF rep2] k(1) by (auto simp: fr)
    have bytes: "mem t (msg + i) = mem s (kmsg + 32 + i)" if i: "i < sz" for i
    proof -
      have "\<not> msg + i - kmsg < 592"
      proof
        assume l: "msg + i - kmsg < 592"
        have "msg + i = kmsg + (msg + i - kmsg)" by simp
        then show False using ap l less_le_trans [OF i sz(3)] unfolding buffer_apart_def by metis
      qed
      then show ?thesis using t(5) co(2) i by (simp add: fr)
    qed
    have "port_queue port t xs" using port_queue_dequeue(2) [OF q(1)] t(4) by (simp add: port_queue_def)
    then show ?thesis
      using mach_msg_receive_waiting [OF right msg(1,2) q(1,2), of r] co(1) t(1-3) bytes True
      by (intro exI [of _ t] exI [of _ F']) simp
  next
    case False
    then have co: "ipc_kmsg_copyout kmsg msg (Some r) ?s = (KERN_NO_SPACE, Some r, ?s)"
      using q(2) msg(1) sz(1) by (simp add: ipc_kmsg_copyout_def fr not_le)
    obtain t F' where t: "ipc_kmsg_free kmsg ?s = Some t" "zones_rep P F' t"
      "zone_live P F' t k = zone_live P F s k - {kmsg}" "ports t = ports ?s"
      using free [OF rep1 refl refl] k(1) by (auto simp: fr)
    have "port_queue port t xs" using port_queue_dequeue(2) [OF q(1)] t(4) by (simp add: port_queue_def)
    then show ?thesis
      using mach_msg_receive_waiting [OF right msg(1,2) q(1,2), of r] co(1) t(1-3) False
      by (intro exI [of _ t] exI [of _ F']) simp
  qed
qed

section \<open>Properties\<close>

text \<open>
  C6: A message arrives as it was sent.  Sending on an empty port either reports no space (no page is free, or the
  zone is at its limit) with nothing changed, or succeeds; and then a receive on the same port, by whatever thread
  has it under some name and in whatever later state that kept the message, the queue and the zones, delivers exactly
  the bytes of the sent header and data, empties the queue and gives the kernel's copy back.
\<close>

theorem mach_msg_send_receive:
  assumes "zones_rep P F s" "kmsg_zone s = Some k" "k < zone_count s" "elem_size (zone_store s k) = 592"
    and "has_right n port s" "msg \<noteq> 0" "msgh_remote_port (mem s) msg = n" "off_direct s msg" "48 \<le> sz" "sz \<le> 512"
    and "port_queue port s []"
  shows "(mach_msg_send msg sz s = Some (KERN_NO_SPACE, s) \<and> (pmm_alloc_page s = (0, s) \<or> max_size (zone_store s k) \<noteq> 0)) \<or>
    (\<exists>t kmsg P' F'. mach_msg_send msg sz s = Some (KERN_SUCCESS, t) \<and> zones_rep P' F' t \<and> port_queue port t [kmsg] \<and>
      zone_live P' F' t k = insert kmsg (zone_live P F s k) \<and>
      (\<forall>u n' buf r. has_right n' port u \<longrightarrow> buf \<noteq> 0 \<longrightarrow> msgh_local_port (mem u) buf = n' \<longrightarrow> off_direct u buf \<longrightarrow>
         zones_rep P' F' u \<longrightarrow> zone_store u = zone_store t \<longrightarrow> zone_count u = zone_count t \<longrightarrow> kmsg_zone u = Some k \<longrightarrow>
         port_queue port u [kmsg] \<longrightarrow> kmsgs u kmsg = kmsgs t kmsg \<longrightarrow>
         (\<forall>i < sz. mem u (kmsg + 32 + i) = mem t (kmsg + 32 + i)) \<longrightarrow> sz \<le> r \<longrightarrow>
         (\<exists>v F''. mach_msg_receive buf (Some r) u = Some (Done KERN_SUCCESS (Some sz) v) \<and> zones_rep P' F'' v \<and>
            port_queue port v [] \<and> zone_live P' F'' v k = zone_live P F s k \<and>
            (\<forall>i < sz. mem v (buf + i) = mem s (msg + i)))))"
proof (rule mach_msg_send_spec [OF assms])
  assume "mach_msg_send msg sz s = Some (KERN_NO_SPACE, s)" "pmm_alloc_page s = (0, s) \<or> max_size (zone_store s k) \<noteq> 0"
  then show ?thesis by blast
next
  fix kmsg t P' F'
  assume 3: "mach_msg_send msg sz s = Some (KERN_SUCCESS, t)" "zones_rep P' F' t" "kmsg \<noteq> 0"
      "kmsg \<notin> zone_live P F s k" "zone_live P' F' t k = insert kmsg (zone_live P F s k)"
      "port_queue port t ([] @ [kmsg])" "ikm_size (kmsgs t kmsg) = sz"
      "\<And>i. i < sz \<Longrightarrow> mem t (kmsg + 32 + i) = mem s (msg + i)"
      "kmsg_zone t = Some k" "zone_count t = zone_count s" "elem_size (zone_store t k) = 592"
  have "\<exists>v F''. mach_msg_receive buf (Some r) u = Some (Done KERN_SUCCESS (Some sz) v) \<and> zones_rep P' F'' v \<and>
      port_queue port v [] \<and> zone_live P' F'' v k = zone_live P F s k \<and> (\<forall>i < sz. mem v (buf + i) = mem s (msg + i))"
    if u: "has_right n' port u" "buf \<noteq> 0" "msgh_local_port (mem u) buf = n'" "off_direct u buf" "zones_rep P' F' u"
      "zone_store u = zone_store t" "zone_count u = zone_count t" "kmsg_zone u = Some k" "port_queue port u [kmsg]"
      "kmsgs u kmsg = kmsgs t kmsg" "\<forall>i < sz. mem u (kmsg + 32 + i) = mem t (kmsg + 32 + i)" "sz \<le> r" for u n' buf r
  proof -
    have ku: "k < zone_count u" "elem_size (zone_store u k) = 592" using u(6,7) 3(10,11) assms(3) by simp_all
    have lv: "zone_live P' F' u k = insert kmsg (zone_live P F s k)" using 3(5) u(6) by (simp add: zone_live_def)
    have live: "kmsg \<in> zone_live P' F' u k" by (simp add: lv)
    have szu: "ikm_size (kmsgs u kmsg) = sz" using 3(7) u(10) by simp
    obtain v F'' where v: "mach_msg_receive buf (Some r) u = Some (if sz \<le> r then Done KERN_SUCCESS (Some sz) v else Done KERN_NO_SPACE (Some r) v)"
      "zones_rep P' F'' v" "zone_live P' F'' v k = zone_live P' F' u k - {kmsg}" "port_queue port v []"
      "sz \<le> r \<longrightarrow> (\<forall>i < sz. mem v (buf + i) = mem u (kmsg + 32 + i))"
      using mach_msg_receive_spec [OF u(5,8) ku u(1-4) u(9) 3(3) live szu assms(9,10)] by blast
    have "\<forall>i < sz. mem v (buf + i) = mem s (msg + i)" using v(5) u(11,12) 3(8) by simp
    moreover have "zone_live P' F'' v k = zone_live P F s k" using v(3) lv 3(4) by auto
    ultimately show ?thesis using v(1,2,4) u(12) by (intro exI [of _ v] exI [of _ F'']) simp
  qed
  moreover have "port_queue port t [kmsg]" using 3(6) by simp
  ultimately show ?thesis using 3(1,2,5) by blast
qed simp

text \<open>
  A receive whose buffer is too small for the oldest message reports no space and loses the message: it is
  taken from the queue and freed.
\<close>

lemma mach_msg_receive_small_drops:
  assumes "zones_rep P F s" "kmsg_zone s = Some k" "k < zone_count s" "elem_size (zone_store s k) = 592"
    and "has_right n port s" "msg \<noteq> 0" "msgh_local_port (mem s) msg = n" "off_direct s msg"
    and "port_queue port s (kmsg # xs)" "kmsg \<noteq> 0" "kmsg \<in> zone_live P F s k"
    and "ikm_size (kmsgs s kmsg) = sz" "48 \<le> sz" "sz \<le> 512" "r < sz"
  shows "\<exists>t F'. mach_msg_receive msg (Some r) s = Some (Done KERN_NO_SPACE (Some r) t) \<and> port_queue port t xs \<and>
    zones_rep P F' t \<and> kmsg \<notin> zone_live P F' t k"
proof -
  obtain t F' where "mach_msg_receive msg (Some r) s =
      Some (if sz \<le> r then Done KERN_SUCCESS (Some sz) t else Done KERN_NO_SPACE (Some r) t)"
    "zones_rep P F' t" "zone_live P F' t k = zone_live P F s k - {kmsg}" "port_queue port t xs"
    using mach_msg_receive_spec [OF assms(1-14), of r] by blast
  then show ?thesis using assms(15) by (intro exI [of _ t] exI [of _ F']) (simp add: not_le)
qed

text \<open>
  The state the witnesses use: a thread whose task knows an empty port under the name 1, and at 0x1000 a message
  header with that name as both its ports.
\<close>

definition msg_state :: ipc_state where
  "msg_state = (cpu_set_current_thread 1 (quiet [88, 592] undefined))
     \<lparr>mem := (\<lambda>_. 0)(0x1010 := 1, 0x1018 := 1), threads := (\<lambda>_. undefined\<lparr>thread_task := 0x20\<rparr>),
      tasks := (\<lambda>_. kernel_task_init\<lparr>itk_space := 0x30\<rparr>), kmsg_zone := Some 1,
      spaces := (\<lambda>_. \<lparr>is_port_count = 1, is_entries = (\<lambda>_. \<lparr>ie_port = 0x40, ie_name = 1, ie_rights = 1\<rparr>)\<rparr>),
      ports := (\<lambda>_. zero_port)\<rparr>"

lemma msg_state_fields:
  "mem msg_state = (\<lambda>_. 0)(0x1010 := 1, 0x1018 := 1)" "kmsg_zone msg_state = Some 1"
  "zone_store msg_state = (\<lambda>i. blank_zone\<lparr>elem_size := [88, 592] ! i\<rparr>)" "zone_count msg_state = 2"
  "bitmap msg_state = bitmap blank_vm" "free_count msg_state = 48" "hhdm_offset msg_state = 0xffff800000000000"
  by (simp_all add: msg_state_def quiet_def cpu_set_current_thread_def cpu_get_def)

lemma msg_state_right: "has_right 1 0x40 msg_state" "port_queue 0x40 msg_state []"
proof -
  have "sched_current msg_state = 1"
    by (simp add: sched_current_def msg_state_def cpu_current_thread_def cpu_get_def)
      (simp add: cpu_set_current_thread_def cpu_get_def quiet_def)
  then show "has_right 1 0x40 msg_state"
    by (simp add: has_right_def Let_def) (simp add: msg_state_def names_def)
  show "port_queue 0x40 msg_state []" by (simp add: port_queue_def ring_def msg_state_def zero_port_def)
qed

lemma elem_ok_592: "elem_ok 592"
  by (simp add: elem_ok_def aligned_def)

lemma msg_state_zones: "zones_rep (\<lambda>_. {}) (\<lambda>_. []) msg_state" "card (free_set msg_state) = 48"
proof -
  let ?q = "quiet [88, 592] (undefined :: ipc_state)"
  have q: "zones_rep (\<lambda>_. {}) (\<lambda>_. []) ?q" "card (free_set ?q) = 48"
    using quiet [of "[88, 592]" "undefined :: ipc_state"] elem_ok_88 elem_ok_592 by simp_all
  have b: "bitmap_test msg_state = bitmap_test ?q"
    by (rule ext) (simp add: bitmap_test_def msg_state_fields quiet_def)
  show "card (free_set msg_state) = 48" using q(2) by (simp add: free_set_def b)
  have "pmm_inv msg_state"
    using q(1) by (simp add: zones_rep_def pmm_inv_def count_ok_def free_set_def b) (simp add: msg_state_fields quiet_def)
  moreover have "zone_ok msg_state i {} []" if "i < 2" for i
    using that elem_ok_88 elem_ok_592
    by (simp add: zone_ok_def msg_state_fields blank_zone_def live_def zone_slots_def less_2_cases_iff) auto
  ultimately show "zones_rep (\<lambda>_. {}) (\<lambda>_. []) msg_state"
    by (simp add: zones_rep_def hhdm_ok_def msg_state_fields aligned_def)
qed

lemma off_direct_low:
  assumes "hhdm_offset s = 0xffff800000000000"
  shows "off_direct s 0x1000"
  unfolding off_direct_def
proof (intro allI impI notI)
  fix j :: u64 assume j: "j < 512" "page_of (0x1000 + j) \<in> all_direct s"
  then obtain pa where pa: "page_of (0x1000 + j) = PHYS_TO_VIRT s pa" "unat pa < 4294967296" by (auto simp: all_direct_def)
  have "unat (0x1000 + j) = 4096 + unat j" using j(1) unat_add_no_wrap [of "0x1000" j] by (simp add: word_less_nat_alt)
  then have "unat (page_of (0x1000 + j)) < 5000" using j(1) by (simp add: unat_page_of word_less_nat_alt)
  moreover have "unat (PHYS_TO_VIRT s pa) = unat pa + 18446603336221196288"
    unfolding PHYS_TO_VIRT_def assms using pa(2) by (subst unat_add_no_wrap) simp_all
  ultimately show False using pa(1) by simp
qed

lemma small_header:
  "msgh_remote_port ((\<lambda>_. 0)(0x1010 := 1, 0x1018 := 1)) 0x1000 = 1"
  "msgh_local_port ((\<lambda>_. 0)(0x1010 := 1, 0x1018 := 1)) 0x1000 = 1"
  by code_simp+

lemma sent_state:
  obtains t kmsg P F where "mach_msg_send 0x1000 48 msg_state = Some (KERN_SUCCESS, t)" "zones_rep P F t"
    "port_queue 0x40 t [kmsg]" "kmsg \<noteq> 0" "kmsg \<in> zone_live P F t 1" "ikm_size (kmsgs t kmsg) = 48"
    "has_right 1 0x40 t" "msgh_local_port (mem t) 0x1000 = 1" "off_direct t 0x1000"
    "kmsg_zone t = Some 1" "zone_count t = 2" "elem_size (zone_store t 1) = 592"
proof -
  let ?s = msg_state
  have k: "kmsg_zone ?s = Some 1" "1 < zone_count ?s" "elem_size (zone_store ?s 1) = 592" by (simp_all add: msg_state_fields)
  have r: "msgh_remote_port (mem ?s) 0x1000 = 1" unfolding msg_state_fields by (rule small_header)
  have off: "off_direct ?s 0x1000" by (rule off_direct_low) (simp add: msg_state_fields)
  show thesis
  proof (rule mach_msg_send_spec [OF msg_state_zones(1) k msg_state_right(1) _ r off _ _ msg_state_right(2), of 48])
    assume "pmm_alloc_page ?s = (0, ?s) \<or> max_size (zone_store ?s 1) \<noteq> 0"
    then have "pmm_alloc_page ?s = (0, ?s)" by (simp add: msg_state_fields blank_zone_def)
    then have "free_set ?s = {}" using pmm_alloc_page_full [of ?s] msg_state_zones(1) by (auto simp: zones_rep_def)
    then show thesis using msg_state_zones(2) by simp
  next
    fix kmsg t P F
    assume t: "mach_msg_send 0x1000 48 ?s = Some (KERN_SUCCESS, t)" "zones_rep P F t" "kmsg \<noteq> 0"
      "zone_live P F t 1 = insert kmsg (zone_live (\<lambda>_. {}) (\<lambda>_. []) ?s 1)"
      "port_queue 0x40 t ([] @ [kmsg])" "ikm_size (kmsgs t kmsg) = 48"
      "\<And>b. page_of b \<notin> all_direct ?s \<Longrightarrow> mem t b = mem ?s b"
      "spaces t = spaces ?s" "tasks t = tasks ?s" "sched_current t = sched_current ?s"
      "\<And>x. thread_task (threads t x) = thread_task (threads ?s x)" "hhdm_offset t = hhdm_offset ?s"
      "kmsg_zone t = Some 1" "zone_count t = zone_count ?s" "elem_size (zone_store t 1) = 592"
    have "has_right 1 0x40 t" using msg_state_right(1) t(8-11) by (simp add: has_right_def)
    moreover have "msgh_local_port (mem t) 0x1000 = msgh_local_port (mem ?s) 0x1000"
      unfolding msgh_local_port_def load64_def
    proof (rule load_bytes_cong)
      fix i :: nat assume i: "i < 8"
      have "page_of (0x1000 + (24 + of_nat i)) \<notin> all_direct ?s"
      proof -
        have "(24 + of_nat i :: u64) < 512"
          using i unat_add_no_wrap [of 24 "of_nat i"] by (simp add: word_less_nat_alt unat_of_nat64)
        then show ?thesis using off unfolding off_direct_def by blast
      qed
      then show "mem t (0x1000 + 24 + of_nat i) = mem ?s (0x1000 + 24 + of_nat i)" using t(7) by (simp add: add.assoc)
    qed
    then have "msgh_local_port (mem t) 0x1000 = 1" by (simp only: msg_state_fields small_header)
    moreover have "off_direct t 0x1000" by (rule off_direct_low) (simp add: t(12) msg_state_fields)
    ultimately show thesis using t by (intro that [of t P F kmsg]) (simp_all add: msg_state_fields)
  qed (simp_all)
qed

theorem mach_msg_send_receive_witness:
  "\<exists>t v. mach_msg_send 0x1000 48 msg_state = Some (KERN_SUCCESS, t) \<and>
     mach_msg_receive 0x1000 (Some 48) t = Some (Done KERN_SUCCESS (Some 48) v) \<and> mem v 0x1010 = 1"
proof (rule sent_state)
  fix t kmsg P F
  assume t: "mach_msg_send 0x1000 48 msg_state = Some (KERN_SUCCESS, t)"
    "has_right 1 0x40 t" "msgh_local_port (mem t) 0x1000 = 1" "off_direct t 0x1000" "kmsg_zone t = Some 1"
  have k: "kmsg_zone msg_state = Some 1" "1 < zone_count msg_state" "elem_size (zone_store msg_state 1) = 592"
    by (simp_all add: msg_state_fields)
  have r: "msgh_remote_port (mem msg_state) 0x1000 = 1" unfolding msg_state_fields by (rule small_header)
  have off: "off_direct msg_state 0x1000" by (rule off_direct_low) (simp add: msg_state_fields)
  obtain kmsg' P' F' where s: "zones_rep P' F' t" "port_queue 0x40 t [kmsg']"
    "\<forall>(u :: ipc_state) n' buf r. has_right n' 0x40 u \<longrightarrow> buf \<noteq> 0 \<longrightarrow> msgh_local_port (mem u) buf = n' \<longrightarrow> off_direct u buf \<longrightarrow>
         zones_rep P' F' u \<longrightarrow> zone_store u = zone_store t \<longrightarrow> zone_count u = zone_count t \<longrightarrow> kmsg_zone u = Some 1 \<longrightarrow>
         port_queue 0x40 u [kmsg'] \<longrightarrow> kmsgs u kmsg' = kmsgs t kmsg' \<longrightarrow>
         (\<forall>i < 48. mem u (kmsg' + 32 + i) = mem t (kmsg' + 32 + i)) \<longrightarrow> 48 \<le> r \<longrightarrow>
         (\<exists>v F''. mach_msg_receive buf (Some r) u = Some (Done KERN_SUCCESS (Some 48) v) \<and> zones_rep P' F'' v \<and>
            port_queue 0x40 v [] \<and> zone_live P' F'' v 1 = zone_live (\<lambda>_. {}) (\<lambda>_. []) msg_state 1 \<and>
            (\<forall>i < 48. mem v (buf + i) = mem msg_state (0x1000 + i)))"
    using mach_msg_send_receive [OF msg_state_zones(1) k msg_state_right(1) _ r off _ _ msg_state_right(2), of 48] t(1)
    by auto
  obtain v where v: "mach_msg_receive 0x1000 (Some 48) t = Some (Done KERN_SUCCESS (Some 48) v)"
    "\<forall>i < 48. mem v (0x1000 + i) = mem msg_state (0x1000 + i)"
    using s(3) [THEN spec, of t, THEN spec, of 1, THEN spec, of "0x1000", THEN spec, of 48] t(2-5) s(1,2) by auto
  have "mem v 0x1010 = 1" using v(2) [rule_format, of "0x10"] by (simp add: msg_state_fields)
  then show ?thesis using t(1) v(1) by blast
qed

lemma mach_msg_receive_small_drops_witness:
  "\<exists>(s :: ipc_state) (t :: ipc_state) kmsg. port_queue 0x40 s [kmsg] \<and> mach_msg_receive 0x1000 (Some 0) s = Some (Done KERN_NO_SPACE (Some 0) t) \<and>
     port_queue 0x40 t []"
proof (rule sent_state)
  fix s :: ipc_state and kmsg P F
  assume s: "zones_rep P F s" "port_queue 0x40 s [kmsg]" "kmsg \<noteq> 0" "kmsg \<in> zone_live P F s 1" "ikm_size (kmsgs s kmsg) = 48"
    "has_right 1 0x40 s" "msgh_local_port (mem s) 0x1000 = 1" "off_direct s 0x1000"
    "kmsg_zone s = Some 1" "zone_count s = 2" "elem_size (zone_store s 1) = 592"
  have "1 < zone_count s" by (simp add: s(10))
  then obtain t where "mach_msg_receive 0x1000 (Some 0) s = Some (Done KERN_NO_SPACE (Some 0) t)" "port_queue 0x40 t []"
    using mach_msg_receive_small_drops [OF s(1,9) _ s(11,6) _ s(7,8,2,3,4,5), of 0] by auto
  then show ?thesis using s(2) by (intro exI [of _ s] exI [of _ t] exI [of _ kmsg]) simp
qed

end
