(* ===== verification/Macho.thy ===== *)
theory Macho
  imports Ipc_Msg
begin

text \<open>
  \<^verbatim>\<open>kern/macho.[ch]\<close> and \<^verbatim>\<open>kern/exec.c\<close>: loading a Mach-O image.  The image is read from \<open>mem\<close> with the
  offsets of the packed-free C structures; the segments are written to \<open>mem\<close> at their own virtual
  addresses, that is, through whatever address space is loaded, as the code does.
\<close>

section \<open>Structures\<close>

record macho_image =
  mi_header :: addr
  mi_entry_point :: u64
  mi_base_address :: u64
  mi_size :: u64

definition MH_MAGIC_64 :: u32 where "MH_MAGIC_64 = 0xfeedfacf"
definition MH_OBJECT :: u32 where "MH_OBJECT = 0x1"
definition MH_EXECUTE :: u32 where "MH_EXECUTE = 0x2"
definition LC_SEGMENT_64 :: u32 where "LC_SEGMENT_64 = 0x19"
definition LC_MAIN :: u32 where "LC_MAIN = 0x80000028"
definition CPU_TYPE_X86_64 :: u32 where "CPU_TYPE_X86_64 = 0x01000007"
definition sizeof_mach_header_64 :: u64 where "sizeof_mach_header_64 = 32"

text \<open>\<open>struct mach_header_64\<close>\<close>

definition mh_magic :: "memory \<Rightarrow> addr \<Rightarrow> u32" where "mh_magic m h = load32 m h"
definition mh_cputype :: "memory \<Rightarrow> addr \<Rightarrow> u32" where "mh_cputype m h = load32 m (h + 4)"
definition mh_filetype :: "memory \<Rightarrow> addr \<Rightarrow> u32" where "mh_filetype m h = load32 m (h + 12)"
definition mh_ncmds :: "memory \<Rightarrow> addr \<Rightarrow> u32" where "mh_ncmds m h = load32 m (h + 16)"

text \<open>\<open>struct load_command\<close>, \<open>struct segment_command_64\<close> and \<open>struct entry_point_command\<close>\<close>

definition lc_cmd :: "memory \<Rightarrow> addr \<Rightarrow> u32" where "lc_cmd m lc = load32 m lc"
definition lc_cmdsize :: "memory \<Rightarrow> addr \<Rightarrow> u32" where "lc_cmdsize m lc = load32 m (lc + 4)"
definition seg_vmaddr :: "memory \<Rightarrow> addr \<Rightarrow> u64" where "seg_vmaddr m lc = load64 m (lc + 24)"
definition seg_vmsize :: "memory \<Rightarrow> addr \<Rightarrow> u64" where "seg_vmsize m lc = load64 m (lc + 32)"
definition seg_fileoff :: "memory \<Rightarrow> addr \<Rightarrow> u64" where "seg_fileoff m lc = load64 m (lc + 40)"
definition seg_filesize :: "memory \<Rightarrow> addr \<Rightarrow> u64" where "seg_filesize m lc = load64 m (lc + 48)"
definition seg_initprot :: "memory \<Rightarrow> addr \<Rightarrow> u32" where "seg_initprot m lc = load32 m (lc + 60)"
definition ep_entryoff :: "memory \<Rightarrow> addr \<Rightarrow> u64" where "ep_entryoff m lc = load64 m (lc + 8)"

text \<open>\<open>(uint8_t *)lc + lc->cmdsize\<close>\<close>

definition next_command :: "memory \<Rightarrow> addr \<Rightarrow> addr" where
  "next_command m lc = lc + ucast (lc_cmdsize m lc)"

section \<open>Loading\<close>

definition macho_validate :: "addr \<Rightarrow> 'a machine_scheme \<Rightarrow> kern_return" where
  "macho_validate hdr s =
     (if hdr = 0 then KERN_INVALID_ARGUMENT
      else if mh_magic (mem s) hdr \<noteq> MH_MAGIC_64 then KERN_INVALID_ARGUMENT
      else if mh_filetype (mem s) hdr \<noteq> MH_EXECUTE \<and> mh_filetype (mem s) hdr \<noteq> MH_OBJECT then KERN_INVALID_ARGUMENT
      else if mh_cputype (mem s) hdr \<noteq> CPU_TYPE_X86_64 then KERN_NOT_SUPPORTED
      else KERN_SUCCESS)"

definition segment_prot :: "u32 \<Rightarrow> u32" where
  "segment_prot initprot =
     (let prot = 0;
          prot = (if initprot AND VM_PROT_READ \<noteq> 0 then prot OR VM_PROT_READ else prot);
          prot = (if initprot AND VM_PROT_WRITE \<noteq> 0 then prot OR VM_PROT_WRITE else prot)
      in if initprot AND VM_PROT_EXECUTE \<noteq> 0 then prot OR VM_PROT_EXECUTE else prot)"

text \<open>The body of the loop for a segment command.\<close>

definition load_segment ::
  "addr \<Rightarrow> addr \<Rightarrow> addr \<Rightarrow> macho_image \<Rightarrow> 'a vm_state_scheme \<Rightarrow> (kern_return \<times> macho_image \<times> 'a vm_state_scheme) option" where
  "load_segment vmap sc image_data img s =
     (if seg_vmsize (mem s) sc > 0 then do {
        let adr = seg_vmaddr (mem s) sc;
        (kr, s) \<leftarrow> vm_map_page_range vmap adr (seg_vmsize (mem s) sc) (segment_prot (seg_initprot (mem s) sc)) s;
        if kr \<noteq> KERN_SUCCESS then Some (kr, img, s)
        else
          let img = (if seg_fileoff (mem s) sc = 0 \<and> mi_base_address img = 0
                       then img\<lparr>mi_base_address := seg_vmaddr (mem s) sc\<rparr> else img);
              s = (if seg_filesize (mem s) sc > 0 then
                     let src = image_data + seg_fileoff (mem s) sc;
                         s = s\<lparr>mem := kmemcpy adr src (seg_filesize (mem s) sc) (mem s)\<rparr>
                     in if seg_vmsize (mem s) sc > seg_filesize (mem s) sc
                        then s\<lparr>mem := kmemset (adr + seg_filesize (mem s) sc) 0
                                (seg_vmsize (mem s) sc - seg_filesize (mem s) sc) (mem s)\<rparr>
                        else s
                   else s)
          in Some (KERN_SUCCESS, img, s)
      }
      else Some (KERN_SUCCESS, img, s))"

partial_function (option) parse_commands ::
  "addr \<Rightarrow> addr \<Rightarrow> addr \<Rightarrow> u32 \<Rightarrow> addr \<Rightarrow> macho_image \<Rightarrow> 'a vm_state_scheme \<Rightarrow>
   (kern_return \<times> macho_image \<times> 'a vm_state_scheme) option" where
  "parse_commands vmap hdr image_data i lc img s =
     (if i < mh_ncmds (mem s) hdr then do {
        (kr, img, s) \<leftarrow> (if lc_cmd (mem s) lc = LC_SEGMENT_64 then load_segment vmap lc image_data img s
                          else Some (KERN_SUCCESS, img, s));
        if kr \<noteq> KERN_SUCCESS then Some (kr, img, s)
        else parse_commands vmap hdr image_data (i + 1) (next_command (mem s) lc) img s
      }
      else Some (KERN_SUCCESS, img, s))"

definition macho_parse_segments ::
  "addr \<Rightarrow> addr \<Rightarrow> addr \<Rightarrow> macho_image \<Rightarrow> 'a vm_state_scheme \<Rightarrow> (kern_return \<times> macho_image \<times> 'a vm_state_scheme) option" where
  "macho_parse_segments vmap hdr image_data img s =
     parse_commands vmap hdr image_data 0 (hdr + sizeof_mach_header_64) img s"

text \<open>The search for the entry point ends since \<open>i\<close> counts up to \<open>ncmds\<close>.\<close>

function find_main :: "memory \<Rightarrow> addr \<Rightarrow> u32 \<Rightarrow> addr \<Rightarrow> macho_image \<Rightarrow> macho_image" where
  "find_main m hdr i lc img =
     (if i < mh_ncmds m hdr then
        if lc_cmd m lc = LC_MAIN then img\<lparr>mi_entry_point := mi_base_address img + ep_entryoff m lc\<rparr>
        else find_main m hdr (i + 1) (next_command m lc) img
      else img\<lparr>mi_entry_point := 0\<rparr>)"
  by pat_completeness auto

lemma unat_incr32: "i < (n :: u32) \<Longrightarrow> unat (i + 1) = Suc (unat i)"
proof -
  assume "i < n"
  then have "unat i < unat n" by (simp add: word_less_nat_alt)
  moreover have "unat n < 4294967296" using unsigned_less [of n, where ?'a = nat] by simp
  ultimately have "unat i + 1 < 4294967296" by linarith
  then show ?thesis by (simp add: unat_word_ariths)
qed

termination find_main
  by (relation "measure (\<lambda>(m, hdr, i, lc, img). unat (mh_ncmds m hdr) - unat i)")
    (auto simp: unat_incr32, simp add: word_less_nat_alt diff_less_mono2)

declare find_main.simps [simp del]

definition macho_find_entry :: "addr \<Rightarrow> macho_image \<Rightarrow> 'a machine_scheme \<Rightarrow> kern_return \<times> macho_image" where
  "macho_find_entry hdr img s =
     (KERN_SUCCESS, find_main (mem s) hdr 0 (hdr + sizeof_mach_header_64) img)"

definition macho_load ::
  "addr \<Rightarrow> addr \<Rightarrow> u64 \<Rightarrow> bool \<Rightarrow> macho_image \<Rightarrow> 'a vm_state_scheme \<Rightarrow>
   (kern_return \<times> macho_image \<times> 'a vm_state_scheme) option" where
  "macho_load vmap image_data image_size null_out image_out s =
     (if vmap = VM_MAP_NULL \<or> image_data = 0 \<or> null_out then Some (KERN_INVALID_ARGUMENT, image_out, s)
      else if image_size < sizeof_mach_header_64 then Some (KERN_INVALID_ARGUMENT, image_out, s)
      else
        let hdr = image_data;
            kr = macho_validate hdr s
        in if kr \<noteq> KERN_SUCCESS then Some (kr, image_out, s)
        else do {
          let image_out = image_out\<lparr>mi_header := hdr, mi_size := image_size, mi_base_address := 0\<rparr>;
          (kr, image_out, s) \<leftarrow> macho_parse_segments vmap hdr image_data image_out s;
          if kr \<noteq> KERN_SUCCESS then Some (kr, image_out, s)
          else
            case macho_find_entry hdr image_out s of (kr, image_out) \<Rightarrow>
            if kr \<noteq> KERN_SUCCESS then Some (kr, image_out, s)
            else do {
              s \<leftarrow> kprintf (''MACHO: loaded entry=0x%lx size=%lu'' @ nl) [VInt (mi_entry_point image_out), VInt image_size] s;
              Some (KERN_SUCCESS, image_out, s)
            }
        })"

partial_function (option) unload_commands ::
  "addr \<Rightarrow> u32 \<Rightarrow> addr \<Rightarrow> 'a vm_state_scheme \<Rightarrow> 'a vm_state_scheme option" where
  "unload_commands hdr i lc s =
     (if i < mh_ncmds (mem s) hdr then do {
        s \<leftarrow> (if lc_cmd (mem s) lc = LC_SEGMENT_64 \<and> seg_vmsize (mem s) lc > 0 then do {
               (_, s) \<leftarrow> vm_deallocate (kernel_map s) (seg_vmaddr (mem s) lc) (seg_vmsize (mem s) lc) s;
               Some s
             }
             else Some s);
        unload_commands hdr (i + 1) (next_command (mem s) lc) s
      }
      else Some s)"

text \<open>\<open>None\<close> for \<open>image\<close> is a null pointer.\<close>

definition macho_unload ::
  "macho_image option \<Rightarrow> 'a vm_state_scheme \<Rightarrow> (kern_return \<times> macho_image option \<times> 'a vm_state_scheme) option" where
  "macho_unload img s =
     (case img of
        None \<Rightarrow> Some (KERN_INVALID_ARGUMENT, img, s)
      | Some im \<Rightarrow>
          if mi_header im = 0 then Some (KERN_INVALID_ARGUMENT, img, s)
          else do {
            s \<leftarrow> unload_commands (mi_header im) 0 (mi_header im + sizeof_mach_header_64) s;
            Some (KERN_SUCCESS, Some (im\<lparr>mi_header := 0, mi_entry_point := 0, mi_size := 0\<rparr>), s)
          })"

section \<open>\<open>exec.c\<close>\<close>

definition USER_MAP_MIN :: u64 where "USER_MAP_MIN = 0x1000"
definition USER_MAP_MAX :: u64 where "USER_MAP_MAX = 0x00007fffffffffff"

definition blank_image :: macho_image where
  "blank_image = \<lparr>mi_header = 0, mi_entry_point = 0, mi_base_address = 0, mi_size = 0\<rparr>"

text \<open>
  The second component is what \<open>exec_load\<close> writes to \<open>*entry_point\<close>, 0 where it does not write.  Its
  local \<open>struct macho_image\<close> is uninitialised; \<open>macho_load\<close> sets every field it reads.
\<close>

definition exec_load ::
  "addr \<Rightarrow> addr \<Rightarrow> u64 \<Rightarrow> bool \<Rightarrow> 'a sched_state_scheme \<Rightarrow> (kern_return \<times> u64 \<times> 'a sched_state_scheme) option" where
  "exec_load task image_data image_size null_out s =
     (if task = TASK_NULL \<or> image_data = 0 \<or> null_out then Some (KERN_INVALID_ARGUMENT, 0, s)
      else do {
        (kr, s) \<leftarrow> (if task_map (tasks s task) = VM_MAP_NULL then
             case pmap_create s of (pmap, s) \<Rightarrow>
             if pmap = 0 then Some (KERN_NO_SPACE, s)
             else do {
               (vmap, s) \<leftarrow> vm_map_create pmap USER_MAP_MIN USER_MAP_MAX s;
               let s = s\<lparr>tasks := (tasks s)(task := (tasks s task)\<lparr>task_map := vmap\<rparr>)\<rparr>;
               if task_map (tasks s task) = VM_MAP_NULL then Some (KERN_NO_SPACE, pmap_destroy pmap s)
               else Some (KERN_SUCCESS, s)
             }
           else Some (KERN_SUCCESS, s));
        if kr \<noteq> KERN_SUCCESS then Some (kr, 0, s)
        else do {
          (kr, macho, s) \<leftarrow> macho_load (task_map (tasks s task)) image_data image_size False blank_image s;
          if kr \<noteq> KERN_SUCCESS then do {
            s \<leftarrow> kprintf (''EXEC: macho_load failed: %d'' @ nl) [VInt (ucast (kr_code kr))] s;
            Some (kr, 0, s)
          }
          else do {
            let entry_point = mi_entry_point macho;
            s \<leftarrow> kprintf (''EXEC: loaded task=%p entry=0x%lx'' @ nl) [VInt task, VInt entry_point] s;
            Some (KERN_SUCCESS, entry_point, s)
          }
        }
      })"

definition exec_unload :: "addr \<Rightarrow> 'a sched_state_scheme \<Rightarrow> (kern_return \<times> 'a sched_state_scheme) option" where
  "exec_unload task s =
     (if task = TASK_NULL then Some (KERN_INVALID_ARGUMENT, s)
      else if task_map (tasks s task) \<noteq> VM_MAP_NULL then do {
        s \<leftarrow> vm_map_destroy (task_map (tasks s task)) s;
        Some (KERN_SUCCESS, s\<lparr>tasks := (tasks s)(task := (tasks s task)\<lparr>task_map := VM_MAP_NULL\<rparr>)\<rparr>)
      }
      else Some (KERN_SUCCESS, s))"

section \<open>The load commands as a list\<close>

text \<open>The addresses of \<open>n\<close> commands, each found by the size of the one before.\<close>

fun command_list :: "memory \<Rightarrow> addr \<Rightarrow> nat \<Rightarrow> addr list" where
  "command_list m lc 0 = []"
| "command_list m lc (Suc n) = lc # command_list m (next_command m lc) n"

lemma find_main_list:
  "unat i + n = unat (mh_ncmds m hdr) \<Longrightarrow> find_main m hdr i lc img = img\<lparr>mi_entry_point :=
     (case find (\<lambda>lc. lc_cmd m lc = LC_MAIN) (command_list m lc n) of
        Some lc \<Rightarrow> mi_base_address img + ep_entryoff m lc | None \<Rightarrow> 0)\<rparr>"
proof (induction n arbitrary: i lc)
  case 0
  then have "\<not> i < mh_ncmds m hdr" by (simp add: word_less_nat_alt)
  then show ?case by (subst find_main.simps) simp
next
  case (Suc n)
  then have lt: "i < mh_ncmds m hdr" by (simp add: word_less_nat_alt)
  have "unat (i + 1) + n = unat (mh_ncmds m hdr)" using Suc.prems unat_incr32 [OF lt] by simp
  from Suc.IH [OF this, of "next_command m lc"] show ?case using lt by (subst find_main.simps) simp
qed

text \<open>A range that starts below the map is refused with nothing changed.\<close>

lemma page_range_below: "start < min_offset (vm_maps s vmap) \<Longrightarrow> vm_map_page_range vmap start sz prot s = Some (KERN_INVALID_ARGUMENT, s)"
  by (simp add: vm_map_page_range_def range_ok_def)

section \<open>Properties\<close>

text \<open>
  C28: \<open>macho_find_entry\<close> is the search for the first \<open>LC_MAIN\<close> in the list of load commands: the entry point is
  the image's base plus its offset, or 0 if there is none.  It ends for every header, whatever sizes its commands
  claim.
\<close>

theorem macho_find_entry_correct:
  "macho_find_entry hdr img s = (KERN_SUCCESS, img\<lparr>mi_entry_point :=
     (case find (\<lambda>lc. lc_cmd (mem s) lc = LC_MAIN)
             (command_list (mem s) (hdr + sizeof_mach_header_64) (unat (mh_ncmds (mem s) hdr))) of
        Some lc \<Rightarrow> mi_base_address img + ep_entryoff (mem s) lc | None \<Rightarrow> 0)\<rparr>)"
  by (simp add: macho_find_entry_def find_main_list)

text \<open>
  C39: An executable that starts with the usual \<open>__PAGEZERO\<close> segment cannot be loaded into a user map: a first
  segment of positive size below the map's lowest address makes \<open>macho_load\<close> fail with an invalid argument, with
  nothing mapped and nothing written.
\<close>

theorem macho_load_rejects_pagezero:
  assumes "vmap \<noteq> 0" "image_data \<noteq> 0" "image_size \<ge> 32" "macho_validate image_data s = KERN_SUCCESS"
    and "mh_ncmds (mem s) image_data > 0" "lc_cmd (mem s) (image_data + 32) = LC_SEGMENT_64"
    and "seg_vmsize (mem s) (image_data + 32) > 0" "seg_vmaddr (mem s) (image_data + 32) < min_offset (vm_maps s vmap)"
  shows "\<exists>img. macho_load vmap image_data image_size False image_out s = Some (KERN_INVALID_ARGUMENT, img, s)"
proof -
  have "load_segment vmap (image_data + 32) image_data img s = Some (KERN_INVALID_ARGUMENT, img, s)" for img
    using assms(7) page_range_below [OF assms(8)] by (simp add: load_segment_def)
  then have "macho_parse_segments vmap image_data image_data img s = Some (KERN_INVALID_ARGUMENT, img, s)" for img
    using assms(5,6) unfolding macho_parse_segments_def sizeof_mach_header_64_def
    by (subst parse_commands.simps) simp
  then show ?thesis using assms(1-4) by (simp add: macho_load_def sizeof_mach_header_64_def Let_def not_less)
qed

text \<open>A header, a \<open>__PAGEZERO\<close> of 4 GB, and a map that starts at 0x1000.\<close>

definition pagezero_image :: memory where
  "pagezero_image = (let m = (\<lambda>_. 0); m = store32 m 0x10000 MH_MAGIC_64; m = store32 m 0x10004 CPU_TYPE_X86_64;
     m = store32 m 0x1000c MH_EXECUTE; m = store32 m 0x10010 1; m = store32 m 0x10020 LC_SEGMENT_64;
     m = store32 m 0x10024 72 in store64 m 0x10040 0x100000000)"

lemma pagezero_image:
  "mh_magic pagezero_image 0x10000 = MH_MAGIC_64" "mh_filetype pagezero_image 0x10000 = MH_EXECUTE"
  "mh_cputype pagezero_image 0x10000 = CPU_TYPE_X86_64" "mh_ncmds pagezero_image 0x10000 = 1"
  "lc_cmd pagezero_image 0x10020 = LC_SEGMENT_64" "seg_vmsize pagezero_image 0x10020 = 0x100000000"
  "seg_vmaddr pagezero_image 0x10020 = 0"
  by code_simp+

theorem macho_load_rejects_pagezero_witness:
  "\<exists>(s :: vm_state) img. macho_load 0x50 0x10000 4096 False blank_image s = Some (KERN_INVALID_ARGUMENT, img, s)"
proof -
  define s where "s = (undefined :: vm_state)\<lparr>mem := pagezero_image, vm_maps := (\<lambda>_. zero_map\<lparr>min_offset := USER_MAP_MIN\<rparr>)\<rparr>"
  have "macho_validate 0x10000 s = KERN_SUCCESS" by (simp add: macho_validate_def s_def pagezero_image)
  then show ?thesis
    using macho_load_rejects_pagezero [of "0x50" "0x10000" "4096" s blank_image]
    by (auto simp: s_def pagezero_image USER_MAP_MIN_def)
qed

end
