(* ===== verification/Syscall.thy ===== *)
theory Syscall
  imports Macho
begin

text \<open>
  \<^verbatim>\<open>kern/syscall.[ch]\<close>, \<^verbatim>\<open>hal/x86_64/syscall.S\<close> and \<^verbatim>\<open>hal/x86_64/syscall_setup.c\<close>: the dispatch of system
  calls.  A handler that blocks (a receive) has the outcome \<open>Blocked\<close> of \<open>Ipc_Msg\<close>.
\<close>

section \<open>The table\<close>

datatype syscall_handler =
    sys_mach_msg_wrapper
  | sys_thread_create_wrapper
  | sys_thread_exit_wrapper
  | sys_exec_wrapper

record sys_state = ipc_state +
  syscall_table :: "nat \<Rightarrow> syscall_handler option"
  syscall_entry_addr :: u64

definition MAX_SYSCALL :: nat where "MAX_SYSCALL = 64"
definition SYSCALL_MACH_MSG :: nat where "SYSCALL_MACH_MSG = 1"
definition SYSCALL_THREAD_CREATE :: nat where "SYSCALL_THREAD_CREATE = 2"
definition SYSCALL_THREAD_EXIT :: nat where "SYSCALL_THREAD_EXIT = 3"
definition SYSCALL_TASK_CREATE :: nat where "SYSCALL_TASK_CREATE = 4"
definition SYSCALL_VM_ALLOCATE :: nat where "SYSCALL_VM_ALLOCATE = 5"
definition SYSCALL_VM_DEALLOCATE :: nat where "SYSCALL_VM_DEALLOCATE = 6"
definition SYSCALL_EXEC :: nat where "SYSCALL_EXEC = 7"

definition syscall_mach_msg ::
  "addr \<Rightarrow> u32 \<Rightarrow> u32 \<Rightarrow> u32 \<Rightarrow> u64 \<Rightarrow> u64 \<Rightarrow> u64 \<Rightarrow> 'a sys_state_scheme \<Rightarrow> 'a sys_state_scheme msg_result option" where
  "syscall_mach_msg msg option send_size rcv_size rcv_name timeout notify s =
     mach_msg msg (ucast option) (ucast send_size) (ucast rcv_size) rcv_name 0 0 msg s"

definition call_mach_msg :: "u64 \<Rightarrow> u64 \<Rightarrow> u64 \<Rightarrow> u64 \<Rightarrow> 'a sys_state_scheme \<Rightarrow> 'a sys_state_scheme msg_result option" where
  "call_mach_msg arg1 arg2 arg3 arg4 s = syscall_mach_msg arg1 (ucast arg2) (ucast arg3) (ucast arg4) 0 0 0 s"

definition call_thread_create :: "u64 \<Rightarrow> u64 \<Rightarrow> u64 \<Rightarrow> 'a sys_state_scheme \<Rightarrow> 'a sys_state_scheme msg_result option" where
  "call_thread_create arg1 arg3 arg4 s = do {
     (kr, thread, s) \<leftarrow> thread_create arg1 arg3 arg4 s;
     Some (Done kr None s)
   }"

definition call_thread_exit :: "'a sys_state_scheme \<Rightarrow> 'a sys_state_scheme msg_result option" where
  "call_thread_exit s =
     (let current = sched_current s
      in if current \<noteq> THREAD_NULL then do {
           (_, s) \<leftarrow> thread_destroy current s;
           Some (Done KERN_SUCCESS None s)
         }
         else Some (Done KERN_SUCCESS None s))"

definition call_exec :: "u64 \<Rightarrow> u64 \<Rightarrow> u64 \<Rightarrow> 'a sys_state_scheme \<Rightarrow> 'a sys_state_scheme msg_result option" where
  "call_exec arg1 arg2 arg3 s = do {
     (kr, entry, s) \<leftarrow> exec_load arg1 arg2 arg3 False s;
     Some (Done kr None s)
   }"

text \<open>\<open>handler(arg1, ..., arg6)\<close>\<close>

fun call_handler ::
  "syscall_handler \<Rightarrow> u64 \<Rightarrow> u64 \<Rightarrow> u64 \<Rightarrow> u64 \<Rightarrow> u64 \<Rightarrow> u64 \<Rightarrow> 'a sys_state_scheme \<Rightarrow> 'a sys_state_scheme msg_result option" where
  "call_handler sys_mach_msg_wrapper a1 a2 a3 a4 a5 a6 s = call_mach_msg a1 a2 a3 a4 s"
| "call_handler sys_thread_create_wrapper a1 a2 a3 a4 a5 a6 s = call_thread_create a1 a3 a4 s"
| "call_handler sys_thread_exit_wrapper a1 a2 a3 a4 a5 a6 s = call_thread_exit s"
| "call_handler sys_exec_wrapper a1 a2 a3 a4 a5 a6 s = call_exec a1 a2 a3 s"

definition syscall_init :: "'a sys_state_scheme \<Rightarrow> 'a sys_state_scheme option" where
  "syscall_init s = do {
     let s = fold (\<lambda>i s. s\<lparr>syscall_table := (syscall_table s)(i := None)\<rparr>) [0..<MAX_SYSCALL] s;
     let s = s\<lparr>syscall_table := (syscall_table s)(SYSCALL_MACH_MSG := Some sys_mach_msg_wrapper)\<rparr>;
     let s = s\<lparr>syscall_table := (syscall_table s)(SYSCALL_THREAD_CREATE := Some sys_thread_create_wrapper)\<rparr>;
     let s = s\<lparr>syscall_table := (syscall_table s)(SYSCALL_THREAD_EXIT := Some sys_thread_exit_wrapper)\<rparr>;
     let s = s\<lparr>syscall_table := (syscall_table s)(SYSCALL_EXEC := Some sys_exec_wrapper)\<rparr>;
     kprintf (''DANA: syscall table initialized'' @ nl) [] s
   }"

text \<open>\<open>syscall_num\<close> is a signed \<open>int\<close>.\<close>

definition syscall_dispatch ::
  "u32 \<Rightarrow> u64 \<Rightarrow> u64 \<Rightarrow> u64 \<Rightarrow> u64 \<Rightarrow> u64 \<Rightarrow> u64 \<Rightarrow> 'a sys_state_scheme \<Rightarrow> 'a sys_state_scheme msg_result option" where
  "syscall_dispatch syscall_num a1 a2 a3 a4 a5 a6 s =
     (if sint syscall_num < 0 \<or> sint syscall_num \<ge> int MAX_SYSCALL then Some (Done KERN_NOT_SUPPORTED None s)
      else
        case syscall_table s (unat syscall_num) of
          None \<Rightarrow> Some (Done KERN_NOT_SUPPORTED None s)
        | Some handler \<Rightarrow> call_handler handler a1 a2 a3 a4 a5 a6 s)"

section \<open>Entry from user mode\<close>

definition syscall_arch_init :: "'a sys_state_scheme \<Rightarrow> 'a sys_state_scheme" where
  "syscall_arch_init s =
     (let lstar = syscall_entry_addr s;
          star = push_bit 48 (0x1B :: u64) OR push_bit 32 0x08;
          fmask = 0x200600;
          s = write_msr MSR_LSTAR lstar s;
          s = write_msr MSR_STAR star s;
          s = write_msr MSR_FMASK fmask s;
          efer = read_msr MSR_EFER s;
          efer = efer OR push_bit 0 1
      in write_msr MSR_EFER efer s)"

text \<open>
  \<open>syscall_entry\<close> up to its call of \<open>syscall_dispatch\<close>, over the stack alone: the registers it pushes, and
  what it loads as the arguments.  \<open>stk\<close> is the stack as a list of words, the top first.
\<close>

record user_regs =
  u_rax :: u64
  u_rcx :: u64
  u_r11 :: u64
  u_rbp :: u64
  u_rdi :: u64
  u_rsi :: u64
  u_rdx :: u64
  u_r10 :: u64
  u_r8 :: u64
  u_r9 :: u64

definition entry_pushes :: "user_regs \<Rightarrow> u64 list \<Rightarrow> u64 list" where
  "entry_pushes r stk =
     fold (#) [u_rax r, u_rcx r, u_r11 r, u_rbp r, u_rdi r, u_rsi r, u_rdx r, u_r10 r, u_r8 r, u_r9 r] stk"

text \<open>After \<open>sub rsp, 8\<close>; \<open>pad\<close> is the word that was there.\<close>

definition entry_call :: "user_regs \<Rightarrow> u64 \<Rightarrow> u64 list \<Rightarrow> u64 list \<times> u64 list" where
  "entry_call r pad stk =
     (let stk = pad # entry_pushes r stk;
          num = u_rax r;
          a1 = stk ! 7; a2 = stk ! 8; a3 = stk ! 9; a4 = stk ! 10; a5 = stk ! 11;
          stk = stk ! 12 # stk
      in ([num, a1, a2, a3, a4, a5, hd stk], stk))"

text \<open>From the return of \<open>syscall_dispatch\<close>, with its result in \<open>rax\<close>, to \<open>sysret\<close>.\<close>

definition entry_return :: "u64 list \<Rightarrow> u64 \<Rightarrow> user_regs" where
  "entry_return stk result =
     (let stk = drop 2 stk
      in \<lparr>u_rax = stk ! 9, u_rcx = stk ! 8, u_r11 = stk ! 7, u_rbp = stk ! 6, u_rdi = stk ! 5, u_rsi = stk ! 4,
          u_rdx = stk ! 3, u_r10 = stk ! 2, u_r8 = stk ! 1, u_r9 = stk ! 0\<rparr>)"

section \<open>The dispatch\<close>

definition table_of :: "nat \<Rightarrow> syscall_handler option" where
  "table_of i = (if i = 1 then Some sys_mach_msg_wrapper else if i = 2 then Some sys_thread_create_wrapper
     else if i = 3 then Some sys_thread_exit_wrapper else if i = 7 then Some sys_exec_wrapper else None)"

lemma clear_table:
  "fold (\<lambda>i s. s\<lparr>syscall_table := (syscall_table s)(i := None)\<rparr>) [0..<n] s =
     s\<lparr>syscall_table := (\<lambda>i. if i < n then None else syscall_table s i)\<rparr>"
proof (induction n)
  case (Suc n)
  have "(\<lambda>i. if i < n then None else syscall_table s i)(n := None) =
      (\<lambda>i. if i < Suc n then None else syscall_table s i)"
    by (rule ext) simp
  then show ?case using Suc.IH by (simp del: fun_upd_apply)
qed simp

lemma syscall_init_table:
  "\<exists>t. syscall_init s = Some t \<and> (\<forall>i < 64. syscall_table t i = table_of i)"
proof -
  have k: "kvprintf (''DANA: syscall table initialized'' @ nl) [] \<noteq> None" by code_simp
  then show ?thesis
    unfolding syscall_init_def clear_table
    by (auto simp: kprintf_def MAX_SYSCALL_def SYSCALL_MACH_MSG_def SYSCALL_THREAD_CREATE_def SYSCALL_THREAD_EXIT_def
        SYSCALL_EXEC_def table_of_def)
qed

lemma sint_range32: "\<not> (sint (n :: u32) < 0 \<or> sint n \<ge> 64) \<Longrightarrow> unat n < 64"
proof -
  assume a: "\<not> (sint n < 0 \<or> sint n \<ge> 64)"
  have "uint n = uint (word_of_int (sint n) :: u32)" by simp
  also have "\<dots> = sint n mod 2 ^ 32" by (simp only: uint_word_of_int) simp
  also have "\<dots> = sint n" using a by simp
  finally show ?thesis using a by (simp add: unat_eq_nat_uint nat_less_iff)
qed

lemma dispatch_table:
  assumes "\<forall>i < 64. syscall_table s i = table_of i"
  shows "syscall_dispatch n a1 a2 a3 a4 a5 a6 s =
    (if sint n < 0 \<or> sint n \<ge> 64 then Some (Done KERN_NOT_SUPPORTED None s)
     else case table_of (unat n) of
            None \<Rightarrow> Some (Done KERN_NOT_SUPPORTED None s)
          | Some handler \<Rightarrow> call_handler handler a1 a2 a3 a4 a5 a6 s)"
  using assms sint_range32 [of n] by (auto simp: syscall_dispatch_def MAX_SYSCALL_def)

lemma sint_served: "(n :: u32) \<in> {1, 2, 3, 7} \<Longrightarrow> \<not> (sint n < 0 \<or> sint n \<ge> 64)"
  by auto

lemma table_served: "table_of (unat (n :: u32)) =
    (if n = 1 then Some sys_mach_msg_wrapper else if n = 2 then Some sys_thread_create_wrapper
     else if n = 3 then Some sys_thread_exit_wrapper else if n = 7 then Some sys_exec_wrapper else None)"
  by (simp add: table_of_def word_unat_eq_iff)

section \<open>Properties\<close>

text \<open>
  C25: After \<open>syscall_init\<close>, as long as the table is not written again, exactly the numbers 1, 2, 3 and 7
  are served, each by its own wrapper with the first arguments of the call; every other number, the
  negative ones and those past the table included, returns \<open>KERN_NOT_SUPPORTED\<close> and changes nothing.
\<close>

theorem syscall_dispatch_correct:
  assumes init: "syscall_init s = Some t" and same: "syscall_table u = syscall_table t"
  shows "syscall_dispatch n a1 a2 a3 a4 a5 a6 u =
    (if n = 1 then call_mach_msg a1 a2 a3 a4 u
     else if n = 2 then call_thread_create a1 a3 a4 u
     else if n = 3 then call_thread_exit u
     else if n = 7 then call_exec a1 a2 a3 u
     else Some (Done KERN_NOT_SUPPORTED None u))"
proof -
  have t: "\<forall>i < 64. syscall_table u i = table_of i" using syscall_init_table [of s] init same by auto
  show ?thesis
    unfolding dispatch_table [OF t] table_served using sint_served [of n] by auto
qed

theorem syscall_dispatch_correct_witness:
  "\<exists>t. syscall_init (undefined :: sys_state) = Some t \<and>
     syscall_dispatch 4 0 0 0 0 0 0 t = Some (Done KERN_NOT_SUPPORTED None t) \<and>
     syscall_dispatch (- 1) 0 0 0 0 0 0 t = Some (Done KERN_NOT_SUPPORTED None t) \<and>
     syscall_dispatch 1 9 2 0 0 0 0 t = call_mach_msg 9 2 0 0 t"
proof -
  obtain t where t: "syscall_init (undefined :: sys_state) = Some t" using syscall_init_table by blast
  have "syscall_dispatch 4 0 0 0 0 0 0 t = Some (Done KERN_NOT_SUPPORTED None t)"
    using syscall_dispatch_correct [OF t refl, of 4 0 0 0 0 0 0] by simp
  moreover have "syscall_dispatch (- 1) 0 0 0 0 0 0 t = Some (Done KERN_NOT_SUPPORTED None t)"
    using syscall_dispatch_correct [OF t refl, of "- 1" 0 0 0 0 0 0] by simp
  moreover have "syscall_dispatch 1 9 2 0 0 0 0 t = call_mach_msg 9 2 0 0 t"
    using syscall_dispatch_correct [OF t refl, of 1 9 2 0 0 0 0] by simp
  ultimately show ?thesis using t by blast
qed

text \<open>
  C38: The entry path hands \<open>syscall_dispatch\<close> the right number but the wrong arguments: RBP, R11, RCX, RAX
  and the two words above the saved registers instead of RDI, RSI, RDX, R10, R8 and R9.  And its pops
  restore every register, RAX included, so whatever the handler returned, the caller sees the number of
  the system call again.
\<close>

theorem syscall_entry_wrong_arguments:
  "entry_call r pad (u # v # stk) =
     ([u_rax r, u_rbp r, u_r11 r, u_rcx r, u_rax r, u, v], v # pad # entry_pushes r (u # v # stk)) \<and>
   entry_return (snd (entry_call r pad (u # v # stk))) result = r"
  by (simp add: entry_call_def entry_pushes_def entry_return_def Let_def numeral_eq_Suc)

text \<open>
  The system call for \<open>mach_msg\<close> cannot receive.  Its wrapper passes \<open>MACH_PORT_NULL\<close> as the name to receive on,
  which \<open>mach_msg\<close> writes over the local port of the caller's buffer before \<open>mach_msg_receive\<close> reads it back:
  a call with the receive option alone always returns \<open>KERN_INVALID_ARGUMENT\<close>, whatever waits in the queue.
\<close>

lemma syscall_cannot_receive:
  "call_mach_msg msg 2 send_size rcv_size s =
     Some (Done KERN_INVALID_ARGUMENT (Some (ucast (ucast rcv_size :: u32)))
       (if msg = 0 then s else s\<lparr>mem := store64 (mem s) (msg + 24) 0\<rparr>))"
  by (simp add: call_mach_msg_def syscall_mach_msg_def mach_msg_def mach_msg_receive_def Let_def msgh_local_port_def MACH_PORT_NULL_def mem_simps)

end
