(* ===== verification/Idt.thy ===== *)
theory Idt
  imports Syscall
begin

text \<open>
  \<^verbatim>\<open>hal/x86_64/idt.c\<close>: the interrupt descriptor table, the handlers of the 32 exceptions, the page fault and
  the timer interrupt.  The addresses of the handlers and of the table are the linker's.
\<close>

record idt_entry =
  ie_offset_lo :: u16
  ie_selector :: u16
  ie_ist :: u8
  ie_type_attr :: u8
  ie_offset_mid :: u16
  ie_offset_hi :: u32
  ie_zero :: u32

record idtr =
  idtr_limit :: u16
  idtr_base :: u64

record interrupt_frame =
  if_rip :: u64
  if_cs :: u64
  if_rflags :: u64
  if_rsp :: u64
  if_ss :: u64

record idt_state = sys_state +
  idt :: "nat \<Rightarrow> idt_entry"
  idt_addr :: addr
  loaded_idtr :: idtr
  isr_addr :: "nat \<Rightarrow> u64"
  irq_0_addr :: u64
  cr2 :: u64

definition IDT_SIZE :: nat where "IDT_SIZE = 256"
definition GATE_INT :: u8 where "GATE_INT = 0x8e"
definition IRQ_BASE :: nat where "IRQ_BASE = 32"
definition sizeof_idt_entry :: nat where "sizeof_idt_entry = 16"

definition idt_set :: "nat \<Rightarrow> u64 \<Rightarrow> u8 \<Rightarrow> 'a idt_state_scheme \<Rightarrow> 'a idt_state_scheme" where
  "idt_set vec handler type_attr s =
     s\<lparr>idt := (idt s)(vec := \<lparr>ie_offset_lo = ucast (handler AND 0xffff), ie_selector = GDT_KERNEL_CODE, ie_ist = 0,
        ie_type_attr = type_attr, ie_offset_mid = ucast (drop_bit 16 handler AND 0xffff),
        ie_offset_hi = ucast (drop_bit 32 handler AND 0xffffffff), ie_zero = 0\<rparr>)\<rparr>"

definition idt_init :: "'a idt_state_scheme \<Rightarrow> 'a idt_state_scheme" where
  "idt_init s =
     (let s = fold (\<lambda>n s. idt_set n (isr_addr s n) GATE_INT s) [0..<32] s;
          s = idt_set (IRQ_BASE + 0) (irq_0_addr s) GATE_INT s
      in s\<lparr>loaded_idtr := \<lparr>idtr_limit = of_nat (IDT_SIZE * sizeof_idt_entry) - 1, idtr_base = idt_addr s\<rparr>\<rparr>)"

section \<open>The handlers\<close>

definition exception_names :: "string list" where
  "exception_names =
    [''Division Error'', ''Debug'', ''NMI'', ''Breakpoint'', ''Overflow'', ''Bound Range Exceeded'', ''Invalid Opcode'',
     ''Device Not Available'', ''Double Fault'', ''Coprocessor Segment Overrun'', ''Invalid TSS'', ''Segment Not Present'',
     ''Stack-Segment Fault'', ''General Protection Fault'', ''Page Fault'', ''Reserved'', ''x87 FPU Error'',
     ''Alignment Check'', ''Machine Check'', ''SIMD FPU Exception'', ''Virtualization Exception'',
     ''Control Protection Exception'', ''Reserved'', ''Reserved'', ''Reserved'', ''Reserved'', ''Reserved'', ''Reserved'',
     ''Hypervisor Injection'', ''VMM Communication'', ''Security Exception'', ''Reserved'']"

text \<open>
  \<open>cpu_disable_interrupts(); while (1) cpu_halt();\<close>: nothing wakes the processor, so the loop stays in
  its first round.
\<close>

definition stop_cpu :: "'a cpu_state_scheme \<Rightarrow> 'a cpu_state_scheme" where
  "stop_cpu s = cpu_halt (cpu_disable_interrupts s)"

definition exception_handler :: "u64 \<Rightarrow> u64 \<Rightarrow> interrupt_frame \<Rightarrow> 'a idt_state_scheme \<Rightarrow> 'a idt_state_scheme option" where
  "exception_handler vector error_code fr s = do {
     let name = (if vector < 32 then exception_names ! unat vector else ''Unknown'');
     s \<leftarrow> kprintf (''DANA: EXCEPTION #%lu (%s) error=0x%lx rip=0x%lx'' @ nl)
       [VInt vector, VStr (Some name), VInt error_code, VInt (if_rip fr)] s;
     Some (stop_cpu s)
   }"

text \<open>The vectors whose stub is made by \<open>DEFINE_ISR_ERR\<close>; the others drop to error code 0.\<close>

definition has_error_code :: "nat \<Rightarrow> bool" where
  "has_error_code n \<longleftrightarrow> n \<in> {8, 10, 11, 12, 13, 17, 21, 30}"

definition isr :: "nat \<Rightarrow> interrupt_frame \<Rightarrow> u64 \<Rightarrow> 'a idt_state_scheme \<Rightarrow> 'a idt_state_scheme option" where
  "isr n f e s = exception_handler (of_nat n) (if has_error_code n then e else 0) f s"

definition fault_name :: "vm_fault_return \<Rightarrow> string" where
  "fault_name ret =
     (if ret = VM_FAULT_BAD_ADDRESS then ''bad address''
      else if ret = VM_FAULT_PROTECTION then ''protection'' else ''oom'')"

definition isr_14 :: "interrupt_frame \<Rightarrow> u64 \<Rightarrow> 'a idt_state_scheme \<Rightarrow> 'a idt_state_scheme option" where
  "isr_14 fr error_code s = do {
     let cr2v = cr2 s;
     let fault_type = VM_FAULT_READ;
     let fault_type = (if error_code AND 2 \<noteq> 0 then VM_FAULT_WRITE else fault_type);
     let fault_type = (if error_code AND 16 \<noteq> 0 then VM_FAULT_EXECUTE else fault_type);
     (ret, s) \<leftarrow> vm_fault (kernel_map s) cr2v fault_type s;
     if ret = VM_FAULT_SUCCESS then Some s
     else do {
       s \<leftarrow> kprintf (''DANA: PAGE FAULT cr2=0x%lx error=0x%lx rip=0x%lx [%s]'' @ nl)
         [VInt cr2v, VInt error_code, VInt (if_rip fr), VStr (Some (fault_name ret))] s;
       Some (stop_cpu s)
     }
   }"

definition irq_0 :: "interrupt_frame \<Rightarrow> 'a idt_state_scheme \<Rightarrow> 'a idt_state_scheme option" where
  "irq_0 fr s = thread_yield (pit_increment_tick s)"

section \<open>What the processor does with the table\<close>

text \<open>
  On an interrupt the processor takes the gate of the vector from the loaded table, goes on at its address
  with interrupts off, and stops with a further fault when the gate is not a present interrupt gate.
\<close>

definition gate_address :: "idt_entry \<Rightarrow> u64" where
  "gate_address e = ucast (ie_offset_lo e) OR push_bit 16 (ucast (ie_offset_mid e)) OR push_bit 32 (ucast (ie_offset_hi e))"

definition gate_usable :: "idt_entry \<Rightarrow> bool" where
  "gate_usable e \<longleftrightarrow> ie_type_attr e = 0x8e \<and> ie_selector e = GDT_KERNEL_CODE \<and> ie_ist e = 0"

definition run_at :: "u64 \<Rightarrow> interrupt_frame \<Rightarrow> u64 \<Rightarrow> 'a idt_state_scheme \<Rightarrow> 'a idt_state_scheme option" where
  "run_at a f e s =
     (if a = irq_0_addr s then irq_0 f s
      else case find (\<lambda>n. isr_addr s n = a) [0..<32] of
             None \<Rightarrow> None
           | Some n \<Rightarrow> if n = 14 then isr_14 f e s else isr n f e s)"

definition take_interrupt :: "nat \<Rightarrow> interrupt_frame \<Rightarrow> u64 \<Rightarrow> 'a idt_state_scheme \<Rightarrow> 'a idt_state_scheme option" where
  "take_interrupt vec f e s =
     (if idtr_base (loaded_idtr s) = idt_addr s \<and> 16 * vec + 15 \<le> unat (idtr_limit (loaded_idtr s)) \<and> gate_usable (idt s vec)
      then run_at (gate_address (idt s vec)) f e (s\<lparr>interrupts := False\<rparr>)
      else None)"

section \<open>The gates\<close>

definition gate :: "u64 \<Rightarrow> idt_entry" where
  "gate h = \<lparr>ie_offset_lo = ucast (h AND 0xffff), ie_selector = GDT_KERNEL_CODE, ie_ist = 0, ie_type_attr = GATE_INT,
     ie_offset_mid = ucast (drop_bit 16 h AND 0xffff), ie_offset_hi = ucast (drop_bit 32 h AND 0xffffffff), ie_zero = 0\<rparr>"

lemma idt_set_gate: "idt_set vec h GATE_INT s = s\<lparr>idt := (idt s)(vec := gate h)\<rparr>"
  by (simp add: idt_set_def gate_def)

lemma gate_address [simp]: "gate_address (gate h) = h"
proof -
  have low: "(0xffff :: u64) = mask 16" "(0xffffffff :: u64) = mask 32" by (simp_all add: mask_eq_exp_minus_1)
  have "ucast (ucast (h AND mask 16) :: u16) OR push_bit 16 (ucast (ucast (drop_bit 16 h AND mask 16) :: u16)) OR
      push_bit 32 (ucast (ucast (drop_bit 32 h AND mask 32) :: u32)) = h" (is "?l = h")
  proof (rule bit_word_eqI)
    fix n assume "n < LENGTH(64)"
    then consider "n < 16" | "16 \<le> n" "n - 16 < 16" | "32 \<le> n" "n - 32 < 32" by force
    then show "bit ?l n \<longleftrightarrow> bit h n" by cases (auto simp: bit_simps)
  qed
  then show ?thesis unfolding gate_address_def gate_def low by simp
qed

lemma gate_usable [simp]: "gate_usable (gate h)"
  by (simp add: gate_usable_def gate_def GATE_INT_def)

lemma idt_fold:
  "fold (\<lambda>n s. idt_set n (isr_addr s n) GATE_INT s) [0..<k] s =
     s\<lparr>idt := (\<lambda>n. if n < k then gate (isr_addr s n) else idt s n)\<rparr>"
proof (induction k)
  case (Suc k)
  have "(\<lambda>n. if n < k then gate (isr_addr s n) else idt s n)(k := gate (isr_addr s k)) =
      (\<lambda>n. if n < Suc k then gate (isr_addr s n) else idt s n)"
    by (rule ext) simp
  then show ?case using Suc.IH by (simp add: idt_set_gate del: fun_upd_apply)
qed simp

lemma idt_init_eq:
  "idt_init s = s\<lparr>idt := (\<lambda>n. if n < 32 then gate (isr_addr s n) else if n = 32 then gate (irq_0_addr s) else idt s n),
     loaded_idtr := \<lparr>idtr_limit = 4095, idtr_base = idt_addr s\<rparr>\<rparr>"
proof -
  have "(\<lambda>n. if n < 32 then gate (isr_addr s n) else idt s n)(32 := gate (irq_0_addr s)) =
      (\<lambda>n. if n < 32 then gate (isr_addr s n) else if n = 32 then gate (irq_0_addr s) else idt s n)"
    by (rule ext) simp
  then show ?thesis
    unfolding idt_init_def idt_fold Let_def
    by (simp add: idt_set_gate IRQ_BASE_def IDT_SIZE_def sizeof_idt_entry_def del: fun_upd_apply)
qed

lemma run_at_isr:
  assumes "inj_on (isr_addr s) {..<32}" "irq_0_addr s \<notin> isr_addr s ` {..<32}" "n < 32"
  shows "run_at (isr_addr s n) f e s = (if n = 14 then isr_14 f e s else isr n f e s)"
proof -
  have "find (\<lambda>k. isr_addr s k = isr_addr s n) [0..<32] = Some n"
    using assms(1,3) by (fastforce simp: find_Some_iff inj_on_def intro!: exI [of _ n])
  moreover have "isr_addr s n \<noteq> irq_0_addr s" using assms(2,3) by (metis image_eqI lessThan_iff)
  ultimately show ?thesis by (simp add: run_at_def)
qed

section \<open>The handlers stop the processor or return\<close>

lemma stop_cpu: "halted (stop_cpu s)" "\<not> interrupts (stop_cpu s)"
  by (simp_all add: stop_cpu_def cpu_halt_def)

lemma page_fault_message:
  obtains out where "kprintf (''DANA: PAGE FAULT cr2=0x%lx error=0x%lx rip=0x%lx [%s]'' @ nl)
     [VInt a, VInt e, VInt r, VStr (Some n)] s = Some (s\<lparr>console := console s @ out\<rparr>)"
  by (rule kprintf_total [of "''DANA: PAGE FAULT cr2=0x%lx error=0x%lx rip=0x%lx [%s]'' @ nl"
        "[VInt a, VInt e, VInt r, VStr (Some n)]" s])
    (simp_all add: conv_int_def conv_long_def long_directive_def)

definition fault_access :: "u64 \<Rightarrow> int" where
  "fault_access e = (if e AND 16 \<noteq> 0 then VM_FAULT_EXECUTE else if e AND 2 \<noteq> 0 then VM_FAULT_WRITE else VM_FAULT_READ)"

lemma isr_14_cases:
  assumes "vm_fault (kernel_map s) (cr2 s) (fault_access e) s = Some (r, t)"
  shows "\<exists>u. isr_14 f e s = Some u \<and> (if r = VM_FAULT_SUCCESS then u = t else halted u \<and> \<not> interrupts u)"
proof (cases "r = VM_FAULT_SUCCESS")
  case True
  then show ?thesis using assms by (simp add: isr_14_def fault_access_def Let_def)
next
  case False
  obtain out where "kprintf (''DANA: PAGE FAULT cr2=0x%lx error=0x%lx rip=0x%lx [%s]'' @ nl)
     [VInt (cr2 s), VInt e, VInt (if_rip f), VStr (Some (fault_name r))] t = Some (t\<lparr>console := console t @ out\<rparr>)"
    by (rule page_fault_message)
  then show ?thesis using assms False by (simp add: isr_14_def fault_access_def Let_def stop_cpu)
qed

lemma sched_run_devices:
  assumes "sched_run s = Some t"
  shows "pit_ticks t = pit_ticks s" "port_outs t = port_outs s"
proof -
  have set: "pit_ticks (sched_set_state x n s) = pit_ticks s" "port_outs (sched_set_state x n s) = port_outs s"
    for x n and s :: "'b sched_state_scheme" by (simp_all add: sched_set_state_def upd_sched_def)
  have enq: "pit_ticks (snd (sched_enqueue x s)) = pit_ticks s" "port_outs (snd (sched_enqueue x s)) = port_outs s"
    for x and s :: "'b sched_state_scheme" by (simp_all add: sched_enqueue_def upd_sched_def Let_def)
  have deq: "pit_ticks (snd (sched_dequeue x s)) = pit_ticks s" "port_outs (snd (sched_dequeue x s)) = port_outs s"
    for x and s :: "'b sched_state_scheme" by (simp_all add: sched_dequeue_def upd_sched_def Let_def)
  have cur: "pit_ticks (cpu_set_current_thread x s) = pit_ticks s" "port_outs (cpu_set_current_thread x s) = port_outs s"
    for x and s :: "'b sched_state_scheme" by (simp_all add: cpu_set_current_thread_def split: option.split)
  have sw: "pit_ticks v = pit_ticks u \<and> port_outs v = port_outs u" if "thread_switch x y u = Some v"
    for x y and u v :: "'b sched_state_scheme"
  proof -
    have "x \<noteq> 0" "y \<noteq> 0" using that by (auto simp: thread_switch_def Let_def split: if_splits)
    then show ?thesis using that by (auto simp: thread_switch_eq)
  qed
  have "pit_ticks t = pit_ticks s \<and> port_outs t = port_outs s"
    using assms by (auto simp: sched_run_def Let_def set enq deq cur dest!: sw split: if_splits)
  then show "pit_ticks t = pit_ticks s" "port_outs t = port_outs s" by simp_all
qed

section \<open>Properties\<close>

text \<open>
  After \<open>idt_init\<close> the processor reaches the right handler: each exception vector its own stub, with the
  page fault at vector 14, vector 32 the timer interrupt, all with interrupts off; a vector above 32 has the handler of its
  old gate, none if that was not usable, and past the table there is none.
\<close>

lemma idt_init_routes:
  assumes "inj_on (isr_addr s) {..<32}" "irq_0_addr s \<notin> isr_addr s ` {..<32}"
  shows "take_interrupt n f e (idt_init s) =
    (if n < 32 then (if n = 14 then isr_14 f e else isr n f e) ((idt_init s)\<lparr>interrupts := False\<rparr>)
     else if n = 32 then irq_0 f ((idt_init s)\<lparr>interrupts := False\<rparr>)
     else if n < 256 \<and> gate_usable (idt s n) then run_at (gate_address (idt s n)) f e ((idt_init s)\<lparr>interrupts := False\<rparr>)
     else None)"
proof -
  let ?t = "(idt_init s)\<lparr>interrupts := False\<rparr>"
  have a: "isr_addr ?t = isr_addr s" "irq_0_addr ?t = irq_0_addr s" by (simp_all add: idt_init_eq)
  consider "n < 32" | "n = 32" | "n > 32" by linarith
  then show ?thesis
  proof cases
    case 1
    have "take_interrupt n f e (idt_init s) = run_at (isr_addr ?t n) f e ?t"
      using 1 by (simp add: take_interrupt_def idt_init_eq)
    then show ?thesis using run_at_isr [of ?t n f e] assms 1 by (simp add: a)
  next
    case 2
    then show ?thesis by (simp add: take_interrupt_def idt_init_eq run_at_def)
  next
    case 3
    then show ?thesis by (auto simp: take_interrupt_def idt_init_eq)
  qed
qed

text \<open>A frame for the witnesses.\<close>

definition kernel_frame :: interrupt_frame where
  "kernel_frame = \<lparr>if_rip = 0xffffffff80001234, if_cs = 8, if_rflags = 0x202, if_rsp = 0xffffffff90000000, if_ss = 16\<rparr>"

lemma idt_init_routes_witness:
  "take_interrupt 6 kernel_frame 0 (idt_init ((undefined :: idt_state)\<lparr>isr_addr := (\<lambda>n. of_nat n), irq_0_addr := 99\<rparr>)) =
     isr 6 kernel_frame 0 ((idt_init ((undefined :: idt_state)\<lparr>isr_addr := (\<lambda>n. of_nat n), irq_0_addr := 99\<rparr>))\<lparr>interrupts := False\<rparr>)"
proof -
  let ?s = "(undefined :: idt_state)\<lparr>isr_addr := (\<lambda>n. of_nat n), irq_0_addr := 99\<rparr>"
  have u: "unat (of_nat n :: u64) = n" if "n < 32" for n using that by (simp add: unat_of_nat)
  have "inj_on (isr_addr ?s) {..<32}" by (rule inj_on_inverseI [where g = unat]) (simp add: u)
  moreover have "irq_0_addr ?s \<notin> isr_addr ?s ` {..<32}"
  proof
    assume "irq_0_addr ?s \<in> isr_addr ?s ` {..<32}"
    then obtain n where "n < 32" "(99 :: u64) = of_nat n" by auto
    then have "unat (99 :: u64) = n" using u by metis
    then show False using \<open>n < 32\<close> by simp
  qed
  ultimately show ?thesis using idt_init_routes [of ?s 6 kernel_frame 0] by simp
qed

text \<open>
  C26: The page fault handler.  It looks only at the kernel map, whatever thread faulted.  A mapped address
  returns at once with nothing changed, so an access the tables forbid faults again for ever; an address without
  an entry, or an access the entry forbids, stops the processor with interrupts off; and otherwise the page is
  wired, or the processor stops for lack of memory.
\<close>

theorem page_fault_handled:
  assumes "map_list s (kernel_map s) es"
  defines "pm \<equiv> vm_pmap (vm_maps s (kernel_map s))"
  shows "\<exists>u. isr_14 f e s = Some u \<and>
    (if pmap_query pm (page_of (cr2 s)) s \<noteq> 0 then u = s
     else case find (covers s (cr2 s)) es of
       None \<Rightarrow> halted u \<and> \<not> interrupts u
     | Some x \<Rightarrow>
         let prot = vme_prot (vm_entries s x) in
         if fault_access e = VM_FAULT_WRITE \<and> prot AND VM_PROT_WRITE = 0 \<or>
            fault_access e = VM_FAULT_EXECUTE \<and> prot AND VM_PROT_EXECUTE = 0
         then halted u \<and> \<not> interrupts u
         else case wire_page pm (page_of (cr2 s)) (fault_prot_to_pte prot) s of
           (done, t) \<Rightarrow> if done then u = t else halted u \<and> \<not> interrupts u)"
proof -
  have l: "links s (header (kernel_map s) # es @ [header (kernel_map s)])" "header (kernel_map s) \<notin> set es" "0 \<notin> set es"
    using assms(1) by (auto simp: map_list_def)
  have look: "vm_map_lookup_entry (kernel_map s) (cr2 s) s = Some (case find (covers s (cr2 s)) es of None \<Rightarrow> 0 | Some e \<Rightarrow> e)"
    unfolding vm_map_lookup_entry_def by (rule lookup_loop_list [OF l])
  have x0: "x \<noteq> 0" if "find (covers s (cr2 s)) es = Some x" for x
  proof -
    have "x \<in> set es" using that by (auto simp: find_Some_iff)
    then show ?thesis using l(3) by blast
  qed
  have stays: "vm_fault (kernel_map s) (cr2 s) (fault_access e) s \<noteq> None"
    unfolding vm_fault_unfold look by (simp split: option.split prod.split)
  obtain r t where rt: "vm_fault (kernel_map s) (cr2 s) (fault_access e) s = Some (r, t)"
    using stays by fastforce
  obtain u where u: "isr_14 f e s = Some u" "if r = VM_FAULT_SUCCESS then u = t else halted u \<and> \<not> interrupts u"
    using isr_14_cases [OF rt] by blast
  show ?thesis
    unfolding pm_def
    using rt u(2) x0 by (intro exI [of _ u]) (auto simp: u(1) vm_fault_unfold look Let_def split: if_splits prod.splits option.splits)
qed

definition empty_kernel_map :: idt_state where
  "empty_kernel_map = (undefined :: idt_state)\<lparr>mem := (\<lambda>_. 0), hhdm_offset := 0xffff800000000000, kernel_map := 0x100,
     vm_maps := (\<lambda>_. zero_map), pmaps := (\<lambda>_. \<lparr>pml4_phys = 0x1000, pm_ref_count = 1\<rparr>),
     vm_entries := (\<lambda>_. zero_entry\<lparr>vme_next := header 0x100, vme_prev := header 0x100\<rparr>), cr2 := 0x400000\<rparr>"

theorem page_fault_handled_witness:
  "\<exists>u. isr_14 kernel_frame 2 empty_kernel_map = Some u \<and> halted u \<and> \<not> interrupts u"
proof -
  have "map_list empty_kernel_map (kernel_map empty_kernel_map) []"
    by (simp add: map_list_def empty_kernel_map_def header_def)
  moreover have "pmap_query (vm_pmap (vm_maps empty_kernel_map (kernel_map empty_kernel_map))) (page_of (cr2 empty_kernel_map))
      empty_kernel_map = 0"
  proof -
    have "load_bytes (\<lambda>_. 0) a n = 0" for a n by (induction n arbitrary: a) simp_all
    then have z: "load64 (\<lambda>_. 0) a = 0" for a by (simp add: load64_def)
    show ?thesis
      by (simp add: empty_kernel_map_def pmap_query_def pmap_walk_def walk_level_def read_pte_def z)
  qed
  ultimately show ?thesis using page_fault_handled [of empty_kernel_map "[]" kernel_frame 2] by simp
qed

text \<open>
  C29: The timer interrupt counts one tick and preempts: the first thread of the queue runs next and goes to
  the back.  It writes to no port, so the interrupt controller is never told that the interrupt was served and
  delivers no other.
\<close>

theorem timer_interrupt_preempts:
  assumes "run_queue s (x # xs)" "cpu_current_thread s \<noteq> 0" "cpu_current_thread s \<noteq> x" "cpu_data_ptr s = Some i"
  shows "\<exists>t. irq_0 f s = Some t \<and> cpu_current_thread t = x \<and> run_queue t (xs @ [x]) \<and>
    pit_ticks t = pit_ticks s + 1 \<and> port_outs t = port_outs s"
proof -
  let ?s = "pit_increment_tick s"
  have q: "run_queue ?s (x # xs)"
    by (rule run_queue_cong [OF assms(1)]) (simp_all add: pit_increment_tick_def same_links_def)
  have c: "cpu_current_thread ?s = cpu_current_thread s" "cpu_data_ptr ?s = Some i"
    using assms(4) by (simp_all add: pit_increment_tick_def cpu_current_thread_def cpu_get_def)
  show ?thesis
  proof (rule sched_run_rotates [OF q _ _ c(2)])
    show "cpu_current_thread ?s \<noteq> 0" "cpu_current_thread ?s = x \<Longrightarrow> xs = []" using assms(2,3) by (simp_all add: c)
    fix t assume t: "sched_run ?s = Some t" "run_queue t (xs @ [x])" "cpu_current_thread t = x" "cpu_data_ptr t = Some i"
    show ?thesis
      using t sched_run_devices [OF t(1)] by (simp add: irq_0_def thread_yield_eq pit_increment_tick_def)
  qed
qed

theorem timer_interrupt_preempts_witness:
  "\<exists>t. irq_0 kernel_frame (cpu_set_current_thread 3 (fold rq_put [1, 2] (sched_init (undefined :: idt_state))
        \<lparr>cpu_data_ptr := Some 0\<rparr>)) = Some t \<and> cpu_current_thread t = 1"
proof -
  let ?q = "fold rq_put [1, 2] (sched_init (undefined :: idt_state))"
  let ?s = "cpu_set_current_thread 3 (?q\<lparr>cpu_data_ptr := Some 0\<rparr>)"
  have "rq.all_fit [1, 2] ([] :: addr list)" by simp
  then have "run_queue ?q [1, 2]"
    using rq.enq_many [of "sched_init (undefined :: idt_state)" "[]" "[1, 2]"] run_queue_init [of "undefined :: idt_state"]
    by simp
  then have q: "run_queue ?s [1, 2]" by (rule run_queue_cong) (simp_all add: same_links_def)
  have "cpu_current_thread ?s = 3" "cpu_data_ptr ?s = Some 0" by simp_all
  then show ?thesis using timer_interrupt_preempts [OF q, of 0 kernel_frame] by auto
qed

end
