(* ===== verification/Serial.thy ===== *)
theory Serial
  imports Io
begin

text \<open>\<^verbatim>\<open>hal/x86_64/serial.c\<close>: the COM1 driver, which polls the transmitter before each byte.\<close>

definition COM1 :: u16 where "COM1 = 0x3f8"

definition serial_init :: "'a machine_scheme \<Rightarrow> 'a machine_scheme" where
  "serial_init s =
     (let s = cpu_outb (COM1 + 1) 0x00 s;
          s = cpu_outb (COM1 + 3) 0x80 s;
          s = cpu_outb (COM1 + 0) 0x01 s;
          s = cpu_outb (COM1 + 1) 0x00 s;
          s = cpu_outb (COM1 + 3) 0x03 s;
          s = cpu_outb (COM1 + 2) 0xc7 s
      in cpu_outb (COM1 + 4) 0x0b s)"

definition serial_tx_empty :: "'a machine_scheme \<Rightarrow> u8 \<times> 'a machine_scheme" where
  "serial_tx_empty s = (case cpu_inb (COM1 + 5) s of (v, s) \<Rightarrow> (v AND 0x20, s))"

text \<open>The polling loop of \<open>serial_putc\<close>; it may not end.\<close>

partial_function (option) wait_tx :: "'a machine_scheme \<Rightarrow> 'a machine_scheme option" where
  "wait_tx s = (case serial_tx_empty s of (r, s) \<Rightarrow> if r \<noteq> 0 then Some s else wait_tx (cpu_pause s))"

definition serial_putc :: "u8 \<Rightarrow> 'a machine_scheme \<Rightarrow> 'a machine_scheme option" where
  "serial_putc c s = do {
     s \<leftarrow> wait_tx s;
     s \<leftarrow> (if c = 10 then wait_tx (cpu_outb COM1 13 s) else Some s);
     Some (cpu_outb COM1 c s)
   }"

partial_function (option) serial_puts :: "addr \<Rightarrow> 'a machine_scheme \<Rightarrow> 'a machine_scheme option" where
  "serial_puts a s =
     (if mem s a = 0 then Some s
      else do {
        s \<leftarrow> serial_putc (mem s a) s;
        serial_puts (a + 1) s
      })"

section \<open>A transmitter that keeps becoming empty\<close>

definition tx_ready :: "u32 \<Rightarrow> bool" where
  "tx_ready v \<longleftrightarrow> (ucast v :: u8) AND 0x20 \<noteq> 0"

definition tx_live :: "'a machine_scheme \<Rightarrow> bool" where
  "tx_live s \<longleftrightarrow> (\<forall>n. \<exists>m \<ge> n. tx_ready (port_ins s m))"

lemma tx_live_Suc: "tx_live s \<Longrightarrow> tx_live (s\<lparr>port_ins := (\<lambda>n. port_ins s (k + n))\<rparr>)"
proof -
  assume l: "tx_live s"
  have "\<exists>m \<ge> n. tx_ready (port_ins s (k + m))" for n
  proof -
    obtain m where "m \<ge> k + n" "tx_ready (port_ins s m)" using l unfolding tx_live_def by blast
    then show ?thesis by (intro exI [of _ "m - k"]) simp
  qed
  then show ?thesis by (simp add: tx_live_def)
qed

lemma tx_live_outb [simp]: "tx_live (cpu_outb p v s) = tx_live s"
  by (simp add: tx_live_def cpu_outb_def port_write_def)

lemma wait_tx_ends:
  assumes "tx_ready (port_ins s m)"
  obtains k where "wait_tx s = Some (s\<lparr>port_ins := (\<lambda>n. port_ins s (k + n))\<rparr>)"
  using assms
proof (induction m arbitrary: s thesis)
  case 0
  then have "wait_tx s = Some (s\<lparr>port_ins := (\<lambda>n. port_ins s (1 + n))\<rparr>)"
    by (subst wait_tx.simps) (simp add: serial_tx_empty_def cpu_inb_def port_read_def tx_ready_def)
  then show ?case by (rule 0(1))
next
  case (Suc m)
  let ?s = "s\<lparr>port_ins := (\<lambda>n. port_ins s (Suc n))\<rparr>"
  show ?case
  proof (cases "tx_ready (port_ins s 0)")
    case True
    then have "wait_tx s = Some (s\<lparr>port_ins := (\<lambda>n. port_ins s (1 + n))\<rparr>)"
      by (subst wait_tx.simps) (simp add: serial_tx_empty_def cpu_inb_def port_read_def tx_ready_def)
    then show ?thesis by (rule Suc.prems(1))
  next
    case False
    obtain k where k: "wait_tx ?s = Some (?s\<lparr>port_ins := (\<lambda>n. port_ins ?s (k + n))\<rparr>)"
      using Suc.IH [of ?s] Suc.prems(2) by auto
    have "wait_tx s = wait_tx ?s"
      using False by (subst wait_tx.simps) (simp add: serial_tx_empty_def cpu_inb_def port_read_def tx_ready_def cpu_pause_def)
    then have "wait_tx s = Some (s\<lparr>port_ins := (\<lambda>n. port_ins s (Suc k + n))\<rparr>)" using k by simp
    then show ?thesis by (rule Suc.prems(1))
  qed
qed

lemma wait_tx_live:
  assumes "tx_live s"
  obtains i where "wait_tx s = Some (s\<lparr>port_ins := i\<rparr>)" "tx_live (s\<lparr>port_ins := i\<rparr>)"
proof -
  obtain m where "tx_ready (port_ins s m)" using assms unfolding tx_live_def by blast
  then show thesis by (rule wait_tx_ends) (rule that, assumption, rule tx_live_Suc, rule assms)
qed

text \<open>What goes over the line for a character.\<close>

definition sent :: "u8 \<Rightarrow> (u16 \<times> u32) list" where
  "sent c = map (\<lambda>b. (COM1, ucast b)) (if c = 10 then [13, 10] else [c])"

lemma serial_putc_live:
  assumes "tx_live s"
  obtains i where "serial_putc c s = Some (s\<lparr>port_ins := i, port_outs := port_outs s @ sent c\<rparr>)"
    "tx_live (s\<lparr>port_ins := i, port_outs := port_outs s @ sent c\<rparr>)"
proof (rule wait_tx_live [OF assms])
  fix i assume i: "wait_tx s = Some (s\<lparr>port_ins := i\<rparr>)" "tx_live (s\<lparr>port_ins := i\<rparr>)"
  show thesis
  proof (cases "c = 10")
    case False
    then show thesis
      using i by (intro that [of i]) (simp_all add: serial_putc_def cpu_outb_def port_write_def sent_def tx_live_def)
  next
    case True
    let ?s = "cpu_outb COM1 13 (s\<lparr>port_ins := i\<rparr>)"
    have "tx_live ?s" using i(2) by simp
    then show thesis
    proof (rule wait_tx_live)
      fix j assume "wait_tx ?s = Some (?s\<lparr>port_ins := j\<rparr>)" "tx_live (?s\<lparr>port_ins := j\<rparr>)"
      then show thesis
        using i True
        by (intro that [of j]) (simp_all add: serial_putc_def cpu_outb_def port_write_def sent_def tx_live_def)
    qed
  qed
qed

section \<open>Properties\<close>

text \<open>
  C30: As long as the transmitter keeps becoming empty, \<open>serial_puts\<close> returns, and it has sent exactly the
  characters of the string in order, with a carriage return before each newline.
\<close>

theorem serial_puts_transmits:
  assumes "tx_live s" "\<forall>k < length cs. mem s (a + of_nat k) = cs ! k \<and> cs ! k \<noteq> 0" "mem s (a + of_nat (length cs)) = 0"
  shows "\<exists>i. serial_puts a s = Some (s\<lparr>port_ins := i, port_outs := port_outs s @ concat (map sent cs)\<rparr>)"
  using assms
proof (induction cs arbitrary: a s)
  case Nil
  then have "serial_puts a s = Some s" by (subst serial_puts.simps) simp
  then show ?case by (intro exI [of _ "port_ins s"]) simp
next
  case (Cons c cs)
  have c: "mem s a = c" "c \<noteq> 0" using Cons.prems(2) by (force)+
  show ?case
  proof (rule serial_putc_live [OF Cons.prems(1), of c])
    fix i
    let ?s = "s\<lparr>port_ins := i, port_outs := port_outs s @ sent c\<rparr>"
    assume p: "serial_putc c s = Some ?s" "tx_live ?s"
    have "mem ?s (a + 1 + of_nat k) = cs ! k \<and> cs ! k \<noteq> 0" if "k < length cs" for k
      using Cons.prems(2) [rule_format, of "Suc k"] that by (simp add: add.assoc)
    moreover have "mem ?s (a + 1 + of_nat (length cs)) = 0" using Cons.prems(3) by (simp add: add.assoc)
    ultimately obtain j where "serial_puts (a + 1) ?s =
        Some (?s\<lparr>port_ins := j, port_outs := port_outs ?s @ concat (map sent cs)\<rparr>)"
      using Cons.IH [OF p(2), of "a + 1"] by blast
    then show ?case using c p(1) by (intro exI [of _ j], subst serial_puts.simps) simp
  qed
qed

theorem serial_puts_transmits_witness:
  "\<exists>t. serial_puts 0x1000 \<lparr>mem = (\<lambda>_. 0)(0x1000 := 72, 0x1001 := 10), hhdm_offset = 0, console = [],
       port_outs = [], port_ins = (\<lambda>n. if even n then 0 else 0x20)\<rparr> = Some t \<and>
     port_outs t = [(0x3f8, 72), (0x3f8, 13), (0x3f8, 10)]"
proof -
  let ?s = "\<lparr>mem = (\<lambda>_. 0)(0x1000 := 72, 0x1001 := 10), hhdm_offset = 0, console = [],
       port_outs = [], port_ins = (\<lambda>n :: nat. if even n then 0 else 0x20)\<rparr>"
  have "tx_live ?s" unfolding tx_live_def
  proof
    fix n :: nat
    show "\<exists>m \<ge> n. tx_ready (port_ins ?s m)" by (rule exI [of _ "2 * n + 1"]) (simp add: tx_ready_def)
  qed
  moreover have "\<forall>k < length [72, 10 :: u8]. mem ?s (0x1000 + of_nat k) = [72, 10] ! k \<and> [72, 10 :: u8] ! k \<noteq> 0"
    by (auto simp: less_Suc_eq)
  moreover have "mem ?s (0x1000 + of_nat (length [72, 10 :: u8])) = 0" by simp
  ultimately show ?thesis
    using serial_puts_transmits [of ?s "[72, 10]" "0x1000"] by (auto simp: sent_def COM1_def)
qed

end
