(* ===== verification/Fb.thy ===== *)
theory Fb
  imports Memory
begin

text \<open>
  \<^verbatim>\<open>hal/x86_64/fb.c\<close>: the text console on Limine's linear framebuffer.  Pixels are written to the
  byte memory at \<open>fb_addr + y * fb_pitch + x * (fb_bpp / 8)\<close>, the products in 32 bits as in C.
\<close>

record fb_state = machine +
  fb_addr :: u64
  fb_width :: u32
  fb_height :: u32
  fb_pitch :: u32
  fb_bpp :: u8
  fb_cols :: u32
  fb_rows :: u32
  cur_col :: u32
  cur_row :: u32
  fb_ready :: bool

definition FONT_W :: u32 where "FONT_W = 8"
definition FONT_H :: u32 where "FONT_H = 8"
definition FG :: u32 where "FG = 0x00E8E8E8"
definition BG :: u32 where "BG = 0x00000000"

definition font :: "u8 list list" where
  "font =
    [[0x00, 0x00, 0x00, 0x00, 0x00, 0x00, 0x00, 0x00],
     [0x18, 0x3C, 0x3C, 0x18, 0x18, 0x00, 0x18, 0x00],
     [0x36, 0x36, 0x00, 0x00, 0x00, 0x00, 0x00, 0x00],
     [0x36, 0x36, 0x7F, 0x36, 0x7F, 0x36, 0x36, 0x00],
     [0x0C, 0x3E, 0x03, 0x1E, 0x30, 0x1F, 0x0C, 0x00],
     [0x00, 0x63, 0x33, 0x18, 0x0C, 0x66, 0x63, 0x00],
     [0x1C, 0x36, 0x1C, 0x6E, 0x3B, 0x33, 0x6E, 0x00],
     [0x06, 0x06, 0x03, 0x00, 0x00, 0x00, 0x00, 0x00],
     [0x18, 0x0C, 0x06, 0x06, 0x06, 0x0C, 0x18, 0x00],
     [0x06, 0x0C, 0x18, 0x18, 0x18, 0x0C, 0x06, 0x00],
     [0x00, 0x66, 0x3C, 0xFF, 0x3C, 0x66, 0x00, 0x00],
     [0x00, 0x0C, 0x0C, 0x3F, 0x0C, 0x0C, 0x00, 0x00],
     [0x00, 0x00, 0x00, 0x00, 0x00, 0x0C, 0x0C, 0x06],
     [0x00, 0x00, 0x00, 0x3F, 0x00, 0x00, 0x00, 0x00],
     [0x00, 0x00, 0x00, 0x00, 0x00, 0x0C, 0x0C, 0x00],
     [0x60, 0x30, 0x18, 0x0C, 0x06, 0x03, 0x01, 0x00],
     [0x3E, 0x63, 0x73, 0x7B, 0x6F, 0x67, 0x3E, 0x00],
     [0x0C, 0x0E, 0x0C, 0x0C, 0x0C, 0x0C, 0x3F, 0x00],
     [0x1E, 0x33, 0x30, 0x1C, 0x06, 0x33, 0x3F, 0x00],
     [0x1E, 0x33, 0x30, 0x1C, 0x30, 0x33, 0x1E, 0x00],
     [0x38, 0x3C, 0x36, 0x33, 0x7F, 0x30, 0x78, 0x00],
     [0x3F, 0x03, 0x1F, 0x30, 0x30, 0x33, 0x1E, 0x00],
     [0x1C, 0x06, 0x03, 0x1F, 0x33, 0x33, 0x1E, 0x00],
     [0x3F, 0x33, 0x30, 0x18, 0x0C, 0x0C, 0x0C, 0x00],
     [0x1E, 0x33, 0x33, 0x1E, 0x33, 0x33, 0x1E, 0x00],
     [0x1E, 0x33, 0x33, 0x3E, 0x30, 0x18, 0x0E, 0x00],
     [0x00, 0x0C, 0x0C, 0x00, 0x00, 0x0C, 0x0C, 0x00],
     [0x00, 0x0C, 0x0C, 0x00, 0x00, 0x0C, 0x0C, 0x06],
     [0x18, 0x0C, 0x06, 0x03, 0x06, 0x0C, 0x18, 0x00],
     [0x00, 0x00, 0x3F, 0x00, 0x00, 0x3F, 0x00, 0x00],
     [0x06, 0x0C, 0x18, 0x30, 0x18, 0x0C, 0x06, 0x00],
     [0x1E, 0x33, 0x30, 0x18, 0x0C, 0x00, 0x0C, 0x00],
     [0x3E, 0x63, 0x7B, 0x7B, 0x7B, 0x03, 0x1E, 0x00],
     [0x0C, 0x1E, 0x33, 0x33, 0x3F, 0x33, 0x33, 0x00],
     [0x3F, 0x66, 0x66, 0x3E, 0x66, 0x66, 0x3F, 0x00],
     [0x3C, 0x66, 0x03, 0x03, 0x03, 0x66, 0x3C, 0x00],
     [0x1F, 0x36, 0x66, 0x66, 0x66, 0x36, 0x1F, 0x00],
     [0x7F, 0x46, 0x16, 0x1E, 0x16, 0x46, 0x7F, 0x00],
     [0x7F, 0x46, 0x16, 0x1E, 0x16, 0x06, 0x0F, 0x00],
     [0x3C, 0x66, 0x03, 0x03, 0x73, 0x66, 0x7C, 0x00],
     [0x33, 0x33, 0x33, 0x3F, 0x33, 0x33, 0x33, 0x00],
     [0x1E, 0x0C, 0x0C, 0x0C, 0x0C, 0x0C, 0x1E, 0x00],
     [0x78, 0x30, 0x30, 0x30, 0x33, 0x33, 0x1E, 0x00],
     [0x67, 0x66, 0x36, 0x1E, 0x36, 0x66, 0x67, 0x00],
     [0x0F, 0x06, 0x06, 0x06, 0x46, 0x66, 0x7F, 0x00],
     [0x63, 0x77, 0x7F, 0x7F, 0x6B, 0x63, 0x63, 0x00],
     [0x63, 0x67, 0x6F, 0x7B, 0x73, 0x63, 0x63, 0x00],
     [0x1C, 0x36, 0x63, 0x63, 0x63, 0x36, 0x1C, 0x00],
     [0x3F, 0x66, 0x66, 0x3E, 0x06, 0x06, 0x0F, 0x00],
     [0x1E, 0x33, 0x33, 0x33, 0x3B, 0x1E, 0x38, 0x00],
     [0x3F, 0x66, 0x66, 0x3E, 0x36, 0x66, 0x67, 0x00],
     [0x1E, 0x33, 0x07, 0x0E, 0x38, 0x33, 0x1E, 0x00],
     [0x3F, 0x2D, 0x0C, 0x0C, 0x0C, 0x0C, 0x1E, 0x00],
     [0x33, 0x33, 0x33, 0x33, 0x33, 0x33, 0x3F, 0x00],
     [0x33, 0x33, 0x33, 0x33, 0x33, 0x1E, 0x0C, 0x00],
     [0x63, 0x63, 0x63, 0x6B, 0x7F, 0x77, 0x63, 0x00],
     [0x63, 0x63, 0x36, 0x1C, 0x1C, 0x36, 0x63, 0x00],
     [0x33, 0x33, 0x33, 0x1E, 0x0C, 0x0C, 0x1E, 0x00],
     [0x7F, 0x63, 0x31, 0x18, 0x4C, 0x66, 0x7F, 0x00],
     [0x1E, 0x06, 0x06, 0x06, 0x06, 0x06, 0x1E, 0x00],
     [0x03, 0x06, 0x0C, 0x18, 0x30, 0x60, 0x40, 0x00],
     [0x1E, 0x18, 0x18, 0x18, 0x18, 0x18, 0x1E, 0x00],
     [0x08, 0x1C, 0x36, 0x63, 0x00, 0x00, 0x00, 0x00],
     [0x00, 0x00, 0x00, 0x00, 0x00, 0x00, 0x00, 0xFF],
     [0x0C, 0x0C, 0x18, 0x00, 0x00, 0x00, 0x00, 0x00],
     [0x00, 0x00, 0x1E, 0x30, 0x3E, 0x33, 0x6E, 0x00],
     [0x07, 0x06, 0x06, 0x3E, 0x66, 0x66, 0x3B, 0x00],
     [0x00, 0x00, 0x1E, 0x33, 0x03, 0x33, 0x1E, 0x00],
     [0x38, 0x30, 0x30, 0x3E, 0x33, 0x33, 0x6E, 0x00],
     [0x00, 0x00, 0x1E, 0x33, 0x3F, 0x03, 0x1E, 0x00],
     [0x1C, 0x36, 0x06, 0x0F, 0x06, 0x06, 0x0F, 0x00],
     [0x00, 0x00, 0x6E, 0x33, 0x33, 0x3E, 0x30, 0x1F],
     [0x07, 0x06, 0x36, 0x6E, 0x66, 0x66, 0x67, 0x00],
     [0x0C, 0x00, 0x0E, 0x0C, 0x0C, 0x0C, 0x1E, 0x00],
     [0x30, 0x00, 0x30, 0x30, 0x30, 0x33, 0x33, 0x1E],
     [0x07, 0x06, 0x66, 0x36, 0x1E, 0x36, 0x67, 0x00],
     [0x0E, 0x0C, 0x0C, 0x0C, 0x0C, 0x0C, 0x1E, 0x00],
     [0x00, 0x00, 0x33, 0x7F, 0x7F, 0x6B, 0x63, 0x00],
     [0x00, 0x00, 0x1F, 0x33, 0x33, 0x33, 0x33, 0x00],
     [0x00, 0x00, 0x1E, 0x33, 0x33, 0x33, 0x1E, 0x00],
     [0x00, 0x00, 0x3B, 0x66, 0x66, 0x3E, 0x06, 0x0F],
     [0x00, 0x00, 0x6E, 0x33, 0x33, 0x3E, 0x30, 0x78],
     [0x00, 0x00, 0x3B, 0x6E, 0x66, 0x06, 0x0F, 0x00],
     [0x00, 0x00, 0x3E, 0x03, 0x1E, 0x30, 0x1F, 0x00],
     [0x08, 0x0C, 0x3E, 0x0C, 0x0C, 0x2C, 0x18, 0x00],
     [0x00, 0x00, 0x33, 0x33, 0x33, 0x33, 0x6E, 0x00],
     [0x00, 0x00, 0x33, 0x33, 0x33, 0x1E, 0x0C, 0x00],
     [0x00, 0x00, 0x63, 0x6B, 0x7F, 0x7F, 0x36, 0x00],
     [0x00, 0x00, 0x63, 0x36, 0x1C, 0x36, 0x63, 0x00],
     [0x00, 0x00, 0x33, 0x33, 0x33, 0x3E, 0x30, 0x1F],
     [0x00, 0x00, 0x3F, 0x19, 0x0C, 0x26, 0x3F, 0x00],
     [0x38, 0x0C, 0x0C, 0x07, 0x0C, 0x0C, 0x38, 0x00],
     [0x18, 0x18, 0x18, 0x00, 0x18, 0x18, 0x18, 0x00],
     [0x07, 0x0C, 0x0C, 0x38, 0x0C, 0x0C, 0x07, 0x00],
     [0x6E, 0x3B, 0x00, 0x00, 0x00, 0x00, 0x00, 0x00],
     [0x00, 0x00, 0x00, 0x00, 0x00, 0x00, 0x00, 0x00]]"

definition put_byte :: "addr \<Rightarrow> u8 \<Rightarrow> 'a machine_scheme \<Rightarrow> 'a machine_scheme" where
  "put_byte a b s = s\<lparr>mem := (mem s)(a := b)\<rparr>"

definition put_pixel :: "u32 \<Rightarrow> u32 \<Rightarrow> u32 \<Rightarrow> 'a fb_state_scheme \<Rightarrow> 'a fb_state_scheme" where
  "put_pixel x y color s =
     (let p = fb_addr s + ucast (y * fb_pitch s) + ucast (x * ucast (fb_bpp s div 8)) in
      if fb_bpp s = 32 then
        put_byte (p + 3) 0 (put_byte (p + 2) (ucast (drop_bit 16 color AND 0xff))
          (put_byte (p + 1) (ucast (drop_bit 8 color AND 0xff)) (put_byte p (ucast (color AND 0xff)) s)))
      else if fb_bpp s = 24 then
        put_byte (p + 2) (ucast (drop_bit 16 color AND 0xff))
          (put_byte (p + 1) (ucast (drop_bit 8 color AND 0xff)) (put_byte p (ucast (color AND 0xff)) s))
      else if fb_bpp s = 16 then
        let c = ucast (push_bit 11 (drop_bit 19 color AND 0x1f) OR push_bit 5 (drop_bit 10 color AND 0x3f) OR
                  (drop_bit 3 color AND 0x1f)) :: u16
        in put_byte (p + 1) (ucast (drop_bit 8 c AND 0xff)) (put_byte p (ucast (c AND 0xff)) s)
      else s)"

text \<open>One row of a glyph, and the glyph.\<close>

definition draw_row :: "u32 \<Rightarrow> u32 \<Rightarrow> u8 \<Rightarrow> 'a fb_state_scheme \<Rightarrow> 'a fb_state_scheme" where
  "draw_row px y row_bits s =
     fold (\<lambda>gx s. put_pixel (px + of_nat gx) y (if row_bits AND push_bit gx 1 \<noteq> 0 then FG else BG) s) [0..<8] s"

definition draw_char :: "u32 \<Rightarrow> u32 \<Rightarrow> u8 \<Rightarrow> 'a fb_state_scheme \<Rightarrow> 'a fb_state_scheme" where
  "draw_char col row c s =
     (let c = (if c < 0x20 \<or> c > 0x7f then 63 else c);
          glyph = font ! unat (c - 0x20);
          px = col * FONT_W;
          py = row * FONT_H
      in fold (\<lambda>gy s. draw_row px (py + of_nat gy) (glyph ! gy) s) [0..<8] s)"

definition scroll_up :: "'a fb_state_scheme \<Rightarrow> 'a fb_state_scheme" where
  "scroll_up s =
     (let row_bytes = fb_pitch s * FONT_H;
          dst = fb_addr s;
          src = dst + ucast row_bytes;
          copy_bytes = row_bytes * (fb_rows s - 1);
          s = fold (\<lambda>i s. put_byte (dst + of_nat i) (mem s (src + of_nat i)) s) [0..<unat copy_bytes] s;
          last_row = dst + ucast copy_bytes
      in fold (\<lambda>i s. put_byte (last_row + of_nat i) 0 s) [0..<unat row_bytes] s)"

definition fb_init :: "u64 \<Rightarrow> u32 \<Rightarrow> u32 \<Rightarrow> u32 \<Rightarrow> u8 \<Rightarrow> 'a fb_state_scheme \<Rightarrow> 'a fb_state_scheme" where
  "fb_init addr width height pitch bpp s =
     (let s = s\<lparr>fb_addr := addr, fb_width := width, fb_height := height, fb_pitch := pitch, fb_bpp := bpp,
            fb_cols := width div FONT_W, fb_rows := height div FONT_H, cur_col := 0, cur_row := 0, fb_ready := True\<rparr>
      in fold (\<lambda>i s. put_byte (addr + of_nat i) 0 s) [0..<unat (height * pitch)] s)"

definition fb_active :: "'a fb_state_scheme \<Rightarrow> bool" where
  "fb_active s = fb_ready s"

definition fb_putc :: "u8 \<Rightarrow> 'a fb_state_scheme \<Rightarrow> 'a fb_state_scheme" where
  "fb_putc c s =
     (if \<not> fb_ready s then s
      else
        let s =
          (if c = 10 then s\<lparr>cur_col := 0, cur_row := cur_row s + 1\<rparr>
           else if c = 13 then s\<lparr>cur_col := 0\<rparr>
           else if c = 9 then s\<lparr>cur_col := (cur_col s + 8) AND NOT 7\<rparr>
           else if c = 8 then (if cur_col s > 0 then s\<lparr>cur_col := cur_col s - 1\<rparr> else s)
           else
             let s = draw_char (cur_col s) (cur_row s) c s;
                 s = s\<lparr>cur_col := cur_col s + 1\<rparr>
             in if cur_col s \<ge> fb_cols s then s\<lparr>cur_col := 0, cur_row := cur_row s + 1\<rparr> else s)
        in if cur_row s \<ge> fb_rows s
           then let s = scroll_up s in s\<lparr>cur_row := fb_rows s - 1\<rparr>
           else s)"

section \<open>Writes stay in the framebuffer\<close>

text \<open>The geometry Limine reports: the rows do not overlap and the buffer does not wrap.\<close>

definition fb_wf :: "'a fb_state_scheme \<Rightarrow> bool" where
  "fb_wf s \<longleftrightarrow> fb_bpp s \<in> {16, 24, 32} \<and> unat (fb_width s) * (unat (fb_bpp s) div 8) \<le> unat (fb_pitch s) \<and>
     unat (fb_height s) * unat (fb_pitch s) < 2 ^ 32 \<and>
     fb_cols s = fb_width s div FONT_W \<and> fb_rows s = fb_height s div FONT_H \<and> 0 < fb_cols s \<and> 0 < fb_rows s"

definition in_fb :: "'a fb_state_scheme \<Rightarrow> addr \<Rightarrow> bool" where
  "in_fb s a \<longleftrightarrow> unat (a - fb_addr s) < unat (fb_height s) * unat (fb_pitch s)"

text \<open>The geometry is kept, and only bytes of the framebuffer change.\<close>

definition fb_frame :: "'a fb_state_scheme \<Rightarrow> 'a fb_state_scheme \<Rightarrow> bool" where
  "fb_frame s t \<longleftrightarrow> (\<exists>m. t = s\<lparr>mem := m\<rparr> \<and> (\<forall>a. \<not> in_fb s a \<longrightarrow> m a = mem s a))"

lemma fb_frame_refl: "fb_frame s s"
  unfolding fb_frame_def by (rule exI [of _ "mem s"]) simp

lemma fb_frame_trans: "fb_frame s t \<Longrightarrow> fb_frame t u \<Longrightarrow> fb_frame s u"
  unfolding fb_frame_def by (auto simp: in_fb_def)

lemma fb_frame_fields:
  assumes "fb_frame s t"
  shows "fb_wf t = fb_wf s" "in_fb t = in_fb s" "cur_col t = cur_col s" "cur_row t = cur_row s" "fb_cols t = fb_cols s"
    "fb_rows t = fb_rows s" "fb_ready t = fb_ready s" "fb_pitch t = fb_pitch s" "fb_addr t = fb_addr s"
  using assms by (auto simp: fb_frame_def fb_wf_def in_fb_def fun_eq_iff)

lemma fb_frame_byte: "in_fb s a \<Longrightarrow> fb_frame s (put_byte a b s)"
  unfolding fb_frame_def put_byte_def by auto

lemma fb_frame_fold:
  assumes "\<And>x t. x \<in> set xs \<Longrightarrow> fb_frame s t \<Longrightarrow> fb_frame t (f x t)" "fb_frame s t"
  shows "fb_frame s (fold f xs t)"
  using assms
proof (induction xs arbitrary: t)
  case (Cons x xs)
  have "fb_frame s (f x t)" using Cons.prems(1) [of x t] Cons.prems(2) fb_frame_trans by auto
  then show ?case using Cons.IH [of "f x t"] Cons.prems(1) by simp
qed simp

lemma unat_lt_32: "unat (x :: u32) < 4294967296"
  using unsigned_less [of x, where ?'a = nat] by simp

lemma unat_ucast_32_64: "unat (ucast (x :: u32) :: u64) = unat x"
  using unat_lt_32 [of x] by (simp add: unsigned_ucast_eq take_bit_eq_mod)

lemma unat_ucast_8_32: "unat (ucast (x :: u8) :: u32) = unat x"
  using unsigned_less [of x, where ?'a = nat] by (simp add: unsigned_ucast_eq take_bit_eq_mod)

lemma unat_mult32: "unat (x :: u32) * unat y < 4294967296 \<Longrightarrow> unat (x * y) = unat x * unat y"
  by (simp add: unat_word_ariths)

lemma unat_add32: "unat (x :: u32) + unat y < 4294967296 \<Longrightarrow> unat (x + y) = unat x + unat y"
  by (simp add: unat_word_ariths)

lemma in_fb_offset:
  assumes "a = fb_addr s + ucast (u :: u32) + ucast (v :: u32) + of_nat k" "k < 4"
    "unat u + unat v + k < unat (fb_height s) * unat (fb_pitch s)"
  shows "in_fb s a"
proof -
  have "a - fb_addr s = ucast u + ucast v + of_nat k" using assms(1) by simp
  moreover have "unat (ucast u + ucast v + of_nat k :: u64) = unat u + unat v + k"
  proof -
    have k: "unat (of_nat k :: u64) = k" using assms(2) by (intro unat_of_nat64) simp
    have b: "unat (ucast u :: u64) = unat u" "unat (ucast v :: u64) = unat v" "unat u < 4294967296" "unat v < 4294967296"
      by (simp_all add: unat_ucast_32_64 unat_lt_32)
    have "unat (ucast u + ucast v :: u64) = unat u + unat v" by (subst unat_add_no_wrap) (use b in linarith, simp add: b)
    moreover have "unat (ucast u + ucast v :: u64) + k < 18446744073709551616"
      using b assms(2) calculation by linarith
    ultimately show ?thesis using unat_add_no_wrap [of "ucast u + ucast v" "of_nat k"] by (simp add: k)
  qed
  ultimately show ?thesis using assms(3) by (simp add: in_fb_def)
qed

lemma put_pixel_frame:
  assumes wf: "fb_wf s" and x: "unat x < unat (fb_width s)" and y: "unat y < unat (fb_height s)"
  shows "fb_frame s (put_pixel x y color s)"
proof -
  let ?B = "unat (fb_bpp s) div 8" and ?P = "unat (fb_pitch s)" and ?H = "unat (fb_height s)"
  let ?u = "y * fb_pitch s" and ?v = "x * ucast (fb_bpp s div 8)"
  let ?p = "fb_addr s + ucast ?u + ucast ?v"
  have w: "unat (fb_width s) * ?B \<le> ?P" "?H * ?P < 4294967296" "fb_bpp s \<in> {16, 24, 32}"
    using wf by (auto simp: fb_wf_def)
  have B: "unat (ucast (fb_bpp s div 8) :: u32) = ?B" by (simp add: unat_ucast_8_32 unat_div)
  have "Suc (unat y) * ?P \<le> ?H * ?P" using y by (intro mult_right_mono) simp_all
  then have yP: "unat y * ?P + ?P \<le> ?H * ?P" by simp
  then have u: "unat ?u = unat y * ?P" using w(2) by (intro unat_mult32) linarith
  have "Suc (unat x) * ?B \<le> unat (fb_width s) * ?B" using x by (intro mult_right_mono) simp_all
  then have xB: "unat x * ?B + ?B \<le> ?P" using w(1) by simp
  have "unat x * ?B < 4294967296" using xB unat_lt_32 [of "fb_pitch s"] by linarith
  then have v: "unat ?v = unat x * ?B" using unat_mult32 [of x "ucast (fb_bpp s div 8)"] by (simp add: B)
  have inb: "in_fb s (?p + of_nat k)" if "k < ?B" "k < 4" for k
    by (rule in_fb_offset [OF refl that(2)]) (use u v xB yP that in linarith)
  have inb0: "in_fb s ?p" if "0 < ?B" using inb [of 0] that by simp
  show ?thesis
  proof -
    consider (b32) "fb_bpp s = 32" | (b24) "fb_bpp s = 24" | (b16) "fb_bpp s = 16" using w(3) by blast
    then show ?thesis
    proof cases
      case b32
      then have "in_fb s ?p" "in_fb s (?p + 1)" "in_fb s (?p + 2)" "in_fb s (?p + 3)"
        using inb0 inb [of 1] inb [of 2] inb [of 3] by simp_all
      then show ?thesis using b32 by (auto simp: put_pixel_def Let_def put_byte_def fb_frame_def)
    next
      case b24
      then have "in_fb s ?p" "in_fb s (?p + 1)" "in_fb s (?p + 2)"
        using inb0 inb [of 1] inb [of 2] by simp_all
      then show ?thesis using b24 by (auto simp: put_pixel_def Let_def put_byte_def fb_frame_def)
    next
      case b16
      then have "in_fb s ?p" "in_fb s (?p + 1)" using inb0 inb [of 1] by simp_all
      then show ?thesis using b16 by (auto simp: put_pixel_def Let_def put_byte_def fb_frame_def)
    qed
  qed
qed

lemma draw_char_frame:
  assumes wf: "fb_wf s" and col: "col < fb_cols s" and row: "row < fb_rows s"
  shows "fb_frame s (draw_char col row c s)"
proof -
  have c: "unat col * 8 + 8 \<le> unat (fb_width s)" and r: "unat row * 8 + 8 \<le> unat (fb_height s)"
    using wf col row by (auto simp: fb_wf_def FONT_W_def FONT_H_def word_less_nat_alt unat_div)
  have px: "unat (col * FONT_W + of_nat gx) = unat col * 8 + gx" if "gx < 8" for gx
  proof -
    have "unat (col * FONT_W) = unat col * 8"
      using unat_mult32 [of col FONT_W] c unat_lt_32 [of "fb_width s"] by (simp add: FONT_W_def)
    moreover have "unat (of_nat gx :: u32) = gx" using that by (simp add: unat_of_nat take_bit_eq_mod)
    ultimately show ?thesis
      using unat_add32 [of "col * FONT_W" "of_nat gx"] c unat_lt_32 [of "fb_width s"] that by simp
  qed
  have py: "unat (row * FONT_H + of_nat gy) = unat row * 8 + gy" if "gy < 8" for gy
  proof -
    have "unat (row * FONT_H) = unat row * 8"
      using unat_mult32 [of row FONT_H] r unat_lt_32 [of "fb_height s"] by (simp add: FONT_H_def)
    moreover have "unat (of_nat gy :: u32) = gy" using that by (simp add: unat_of_nat take_bit_eq_mod)
    ultimately show ?thesis
      using unat_add32 [of "row * FONT_H" "of_nat gy"] r unat_lt_32 [of "fb_height s"] that by simp
  qed
  have row_frame: "fb_frame t (draw_row (col * FONT_W) (row * FONT_H + of_nat gy) bits t)"
    if gy: "gy < 8" and t: "fb_frame s t" for gy bits t
    unfolding draw_row_def
  proof (rule fb_frame_fold [OF _ fb_frame_refl])
    fix gx u assume gx: "gx \<in> set [0..<8]" and u: "fb_frame t u"
    have su: "fb_frame s u" by (rule fb_frame_trans [OF t u])
    then have eq: "fb_width u = fb_width s" "fb_height u = fb_height s" by (auto simp: fb_frame_def)
    show "fb_frame u (put_pixel (col * FONT_W + of_nat gx) (row * FONT_H + of_nat gy)
        (if bits AND push_bit gx 1 \<noteq> 0 then FG else BG) u)"
    proof (rule put_pixel_frame)
      show "fb_wf u" using wf fb_frame_fields(1) [OF su] by simp
    qed (use gx gy c r in \<open>simp_all add: eq px py\<close>)
  qed
  show ?thesis
    unfolding draw_char_def Let_def
    by (rule fb_frame_fold [OF _ fb_frame_refl]) (rule row_frame, simp_all)
qed

lemma scroll_up_frame:
  assumes wf: "fb_wf s"
  shows "fb_frame s (scroll_up s)"
proof -
  let ?P = "unat (fb_pitch s)" and ?H = "unat (fb_height s)" and ?R = "unat (fb_rows s)"
  let ?rb = "fb_pitch s * FONT_H" and ?cb = "fb_pitch s * FONT_H * (fb_rows s - 1)"
  have R: "?R = ?H div 8" "0 < ?R" and HP: "?H * ?P < 4294967296"
    using wf by (auto simp: fb_wf_def FONT_H_def unat_div word_less_nat_alt)
  have "?R * 8 \<le> ?H" using R by simp
  then have "?R * 8 * ?P \<le> ?H * ?P" by (rule mult_right_mono) simp
  then have tot: "?P * 8 * (?R - 1) + ?P * 8 \<le> ?H * ?P" using R(2)
    by (cases "?R") (simp_all add: algebra_simps)
  have rb: "unat ?rb = ?P * 8" using unat_mult32 [of "fb_pitch s" FONT_H] tot HP by (simp add: FONT_H_def)
  have r1: "unat (fb_rows s - 1) = ?R - 1"
    using R(2) by (simp add: unat_sub word_le_nat_alt)
  have cb: "unat ?cb = ?P * 8 * (?R - 1)" using unat_mult32 [of ?rb "fb_rows s - 1"] tot HP rb r1 by simp
  have near: "in_fb t (fb_addr s + of_nat i)" if "fb_frame s t" "i < unat ?cb" for i t
  proof -
    have "i < ?H * ?P" using that(2) cb tot by linarith
    moreover have "i < 18446744073709551616" using calculation HP by linarith
    ultimately show ?thesis using fb_frame_fields(2) [OF that(1)] by (simp add: in_fb_def unat_of_nat64)
  qed
  have far: "in_fb t (fb_addr s + ucast ?cb + of_nat i)" if "fb_frame s t" "i < unat ?rb" for i t
  proof -
    have l: "unat ?cb + i < ?H * ?P" using that(2) cb rb tot by linarith
    then have i: "i < 18446744073709551616" using HP by linarith
    have "unat (ucast ?cb + of_nat i :: u64) = unat ?cb + i"
      using unat_add_no_wrap [of "ucast ?cb" "of_nat i"] l HP i by (simp add: unat_ucast_32_64 unat_of_nat64)
    then show ?thesis using fb_frame_fields(2) [OF that(1)] l by (simp add: in_fb_def add.assoc)
  qed
  define u where "u = fold (\<lambda>i s'. put_byte (fb_addr s + of_nat i) (mem s' (fb_addr s + ucast ?rb + of_nat i)) s')
      [0..<unat ?cb] s"
  have u: "fb_frame s u" unfolding u_def
  proof (rule fb_frame_fold [OF _ fb_frame_refl])
    fix i t assume "i \<in> set [0..<unat ?cb]" "fb_frame s t"
    then show "fb_frame t (put_byte (fb_addr s + of_nat i) (mem t (fb_addr s + ucast ?rb + of_nat i)) t)"
      by (intro fb_frame_byte near) simp_all
  qed
  have "fb_frame s (fold (\<lambda>i s'. put_byte (fb_addr s + ucast ?cb + of_nat i) 0 s') [0..<unat ?rb] u)"
    by (rule fb_frame_fold [OF _ u]) (intro fb_frame_byte far, assumption, simp)
  then show ?thesis by (simp add: scroll_up_def Let_def u_def)
qed

section \<open>Properties\<close>

text \<open>The cursor position after the switch of \<open>fb_putc\<close> and before the check for the last row.\<close>

lemma fb_putc_step:
  assumes wf: "fb_wf s" and pos: "cur_col s < fb_cols s" "cur_row s < fb_rows s" and rdy: "fb_ready s"
  obtains u where "fb_putc c s = (if cur_row u \<ge> fb_rows u then (scroll_up u)\<lparr>cur_row := fb_rows (scroll_up u) - 1\<rparr> else u)"
    "\<exists>t col row. fb_frame s t \<and> u = t\<lparr>cur_col := col, cur_row := row\<rparr>" "c \<noteq> 9 \<longrightarrow> cur_col u < fb_cols s"
proof -
  have next_col: "cur_col s + 1 < fb_cols s" if "\<not> fb_cols s \<le> cur_col s + 1" using that by (simp add: not_le)
  have prev_col: "cur_col s - 1 < fb_cols s" if "cur_col s > 0"
    using that pos(1) by (simp add: word_less_nat_alt unat_sub word_le_nat_alt)
  have z: "0 < fb_cols s" using wf unfolding fb_wf_def by blast
  let ?d = "draw_char (cur_col s) (cur_row s) c s"
  have d: "fb_frame s ?d" by (rule draw_char_frame [OF wf pos])
  note df = fb_frame_fields [OF d]
  have keep: "\<exists>t col row. fb_frame s t \<and> s\<lparr>cur_col := a, cur_row := b\<rparr> = t\<lparr>cur_col := col, cur_row := row\<rparr>" for a b
    using fb_frame_refl by blast
  have keep_col: "\<exists>t col row. fb_frame s t \<and> s\<lparr>cur_col := a\<rparr> = t\<lparr>cur_col := col, cur_row := row\<rparr>" for a
    using keep [where a = a and b = "cur_row s"] by simp
  have drawn: "\<exists>t col row. fb_frame s t \<and> ?d\<lparr>cur_col := a, cur_row := b\<rparr> = t\<lparr>cur_col := col, cur_row := row\<rparr>" for a b
    using d by blast
  have drawn_col: "\<exists>t col row. fb_frame s t \<and> ?d\<lparr>cur_col := a\<rparr> = t\<lparr>cur_col := col, cur_row := row\<rparr>" for a
    using drawn [where a = a and b = "cur_row ?d"] by simp
  consider (nl) "c = 10" | (cr) "c = 13" | (tab) "c = 9" | (bs) "c = 8" | (wrap) "c \<notin> {10, 13, 9, 8}" "fb_cols s \<le> cur_col s + 1"
    | (char) "c \<notin> {10, 13, 9, 8}" "\<not> fb_cols s \<le> cur_col s + 1" by auto
  then show thesis
  proof cases
    case nl
    show thesis by (rule that [of "s\<lparr>cur_col := 0, cur_row := cur_row s + 1\<rparr>"])
      (use nl rdy z keep in \<open>simp_all add: fb_putc_def Let_def\<close>)
  next
    case cr
    show thesis by (rule that [of "s\<lparr>cur_col := 0\<rparr>"])
      (use cr rdy z keep_col in \<open>simp_all add: fb_putc_def Let_def\<close>)
  next
    case tab
    show thesis by (rule that [of "s\<lparr>cur_col := (cur_col s + 8) AND NOT 7\<rparr>"])
      (use tab rdy keep_col in \<open>simp_all add: fb_putc_def Let_def\<close>)
  next
    case bs
    show thesis by (rule that [of "if cur_col s > 0 then s\<lparr>cur_col := cur_col s - 1\<rparr> else s"])
      (use bs rdy pos prev_col keep_col keep_col [of "cur_col s"] in \<open>simp_all add: fb_putc_def Let_def\<close>)
  next
    case wrap
    show thesis by (rule that [of "?d\<lparr>cur_col := 0, cur_row := cur_row s + 1\<rparr>"])
      (use wrap rdy z drawn in \<open>simp_all add: fb_putc_def Let_def df\<close>)
  next
    case char
    show thesis by (rule that [of "?d\<lparr>cur_col := cur_col s + 1\<rparr>"])
      (use char rdy next_col drawn_col in \<open>simp_all add: fb_putc_def Let_def df\<close>)
  qed
qed

text \<open>
  C31: With the cursor on the screen, writing a character changes no byte outside the framebuffer, keeps
  the geometry and leaves the cursor on a row of the screen, and on a column of it unless the character
  is a tab.
\<close>

theorem fb_putc_in_bounds:
  assumes wf: "fb_wf s" and pos: "cur_col s < fb_cols s" "cur_row s < fb_rows s"
  shows "(\<forall>a. \<not> in_fb s a \<longrightarrow> mem (fb_putc c s) a = mem s a) \<and> fb_wf (fb_putc c s) \<and>
    cur_row (fb_putc c s) < fb_rows s \<and> (c \<noteq> 9 \<longrightarrow> cur_col (fb_putc c s) < fb_cols s)"
proof (cases "fb_ready s")
  case False
  then show ?thesis using assms by (simp add: fb_putc_def)
next
  case True
  show ?thesis
  proof (rule fb_putc_step [OF wf pos True])
    fix u
    assume run: "fb_putc c s = (if cur_row u \<ge> fb_rows u then (scroll_up u)\<lparr>cur_row := fb_rows (scroll_up u) - 1\<rparr> else u)"
      and u: "\<exists>t col row. fb_frame s t \<and> u = t\<lparr>cur_col := col, cur_row := row\<rparr>" and col: "c \<noteq> 9 \<longrightarrow> cur_col u < fb_cols s"
    obtain m col row where ueq: "u = s\<lparr>mem := m, cur_col := col, cur_row := row\<rparr>" and m: "\<forall>a. \<not> in_fb s a \<longrightarrow> m a = mem s a"
      using u by (auto simp: fb_frame_def)
    have uf: "fb_wf u = fb_wf s" "in_fb u = in_fb s" "fb_cols u = fb_cols s" "fb_rows u = fb_rows s"
      by (auto simp: ueq fb_wf_def in_fb_def fun_eq_iff)
    have sc: "fb_frame u (scroll_up u)" using scroll_up_frame wf uf(1) by simp
    note sf = fb_frame_fields [OF sc]
    have "\<forall>a. \<not> in_fb s a \<longrightarrow> mem (scroll_up u) a = mem s a"
      using sc m uf(2) by (auto simp: fb_frame_def ueq)
    moreover have "fb_rows s - 1 < fb_rows s"
    proof -
      have "0 < fb_rows s" using wf unfolding fb_wf_def by blast
      then show ?thesis by (simp add: word_less_nat_alt unat_sub word_le_nat_alt)
    qed
    moreover have "fb_wf ((scroll_up u)\<lparr>cur_row := r\<rparr>)" for r
    proof -
      have "fb_wf ((scroll_up u)\<lparr>cur_row := r\<rparr>) = fb_wf (scroll_up u)" by (simp add: fb_wf_def)
      then show ?thesis using sf(1) uf(1) wf by simp
    qed
    ultimately show ?thesis
      using run col m uf wf sf by (auto simp: ueq not_le)
  qed
qed

definition small_fb :: fb_state where
  "small_fb = \<lparr>mem = (\<lambda>_. 1), hhdm_offset = 0, console = [], port_outs = [], port_ins = (\<lambda>_. 0),
     fb_addr = 0x10000, fb_width = 8, fb_height = 8, fb_pitch = 32, fb_bpp = 32, fb_cols = 1, fb_rows = 1,
     cur_col = 0, cur_row = 0, fb_ready = True\<rparr>"

theorem fb_putc_in_bounds_witness:
  "mem (fb_putc 65 small_fb) 0x10100 = 1"
proof -
  have "fb_wf small_fb" by (simp add: fb_wf_def small_fb_def FONT_W_def FONT_H_def)
  moreover have "cur_col small_fb < fb_cols small_fb" "cur_row small_fb < fb_rows small_fb"
    by (simp_all add: small_fb_def)
  moreover have "\<not> in_fb small_fb 0x10100" by (simp add: in_fb_def small_fb_def)
  ultimately have "mem (fb_putc 65 small_fb) 0x10100 = mem small_fb 0x10100"
    using fb_putc_in_bounds by blast
  then show ?thesis by (simp add: small_fb_def)
qed

text \<open>
  A tab may leave the cursor right of the last column, and the next character is then drawn there: on
  the last row of the screen its pixels land behind the framebuffer.
\<close>

lemma fb_tab_writes_outside:
  "\<not> in_fb small_fb 0x101fc \<and> mem (fb_putc 65 (fb_putc 9 small_fb)) 0x101fc \<noteq> mem small_fb 0x101fc"
  by code_simp

end
