(* ===== verification/Console.thy ===== *)
theory Console
  imports Serial Fb
begin

text \<open>
  The console half of \<^verbatim>\<open>hal/x86_64/hal.c\<close>: every character goes to the serial line, and to the framebuffer
  once there is one.  Elsewhere the kernel's console is the string of characters handed to
  \<open>hal_console_putc\<close>; here is what the devices make of one of them.
\<close>

definition hal_early_console_init :: "'a fb_state_scheme \<Rightarrow> 'a fb_state_scheme" where
  "hal_early_console_init s = serial_init s"

definition hal_console_set_framebuffer ::
  "u64 \<Rightarrow> u32 \<Rightarrow> u32 \<Rightarrow> u32 \<Rightarrow> u8 \<Rightarrow> 'a fb_state_scheme \<Rightarrow> 'a fb_state_scheme" where
  "hal_console_set_framebuffer addr width height pitch bpp s = fb_init addr width height pitch bpp s"

definition hal_console_putc :: "u8 \<Rightarrow> 'a fb_state_scheme \<Rightarrow> 'a fb_state_scheme option" where
  "hal_console_putc c s = do {
     s \<leftarrow> serial_putc c s;
     Some (if fb_active s then fb_putc c s else s)
   }"

end
