(* ===== verification/Boot.thy ===== *)
theory Boot
  imports Idt Console
begin

text \<open>
  The rest of \<^verbatim>\<open>hal/x86_64/hal.c\<close> and \<^verbatim>\<open>main.c\<close>: how the kernel starts, with the part of \<^verbatim>\<open>include/limine.h\<close> it
  uses.  The requests are static data that the boot loader fills in before \<open>kmain\<close> runs; a response is
  null or what it points to.  The console devices have a state of their own, \<open>console_dev\<close>, with the video memory
  and the ports of the serial line.
\<close>

section \<open>The boot protocol\<close>

record 'r limine_request =
  req_id :: "u64 list"
  req_revision :: u64
  response :: "'r option"

record hhdm_response =
  hhdm_revision :: u64
  hhdm_resp_offset :: u64

record limine_framebuffer =
  lfb_address :: addr
  lfb_width :: u64
  lfb_height :: u64
  lfb_pitch :: u64
  lfb_bpp :: u16
  lfb_memory_model :: u8
  lfb_red_mask_size :: u8
  lfb_red_mask_shift :: u8
  lfb_green_mask_size :: u8
  lfb_green_mask_shift :: u8
  lfb_blue_mask_size :: u8
  lfb_blue_mask_shift :: u8
  lfb_edid_size :: u64
  lfb_edid :: addr
  lfb_mode_count :: u64
  lfb_modes :: addr

record framebuffer_response =
  fbr_revision :: u64
  framebuffer_count :: u64
  framebuffers :: "limine_framebuffer list"

record memmap_response =
  mmr_revision :: u64
  entry_count :: u64
  mm_entries :: "memmap_entry list"

record executable_address_response =
  ear_revision :: u64
  physical_base :: u64
  virtual_base :: u64

record stack_size_response =
  ssr_revision :: u64

type_synonym hhdm_request = "hhdm_response limine_request"
type_synonym memmap_request = "memmap_response limine_request"
type_synonym framebuffer_request = "framebuffer_response limine_request"
type_synonym executable_address_request = "executable_address_response limine_request"

record stack_size_request = "stack_size_response limine_request" +
  stack_size :: u64

definition LIMINE_COMMON_MAGIC :: "u64 list" where
  "LIMINE_COMMON_MAGIC = [0xc7b1dd30df4c8b88, 0x0a82e883a194f07b]"

definition LIMINE_REQUESTS_START_MARKER :: "u64 list" where
  "LIMINE_REQUESTS_START_MARKER = [0xf6b8f4b39de7d1ae, 0xfab91a6940fcb9cf, 0x785c6ed015d3e316, 0x181e920a7852b9d9]"

definition LIMINE_REQUESTS_END_MARKER :: "u64 list" where
  "LIMINE_REQUESTS_END_MARKER = [0xadc0e0531bb10d03, 0x9572709f31764c62]"

definition LIMINE_BASE_REVISION :: "u64 \<Rightarrow> u64 list" where
  "LIMINE_BASE_REVISION n = [0xf9562b2d5c95a6c8, 0x6a7b384944536bdc, n]"

definition LIMINE_BASE_REVISION_SUPPORTED :: "u64 list \<Rightarrow> bool" where
  "LIMINE_BASE_REVISION_SUPPORTED var \<longleftrightarrow> var ! 2 = 0"

definition LIMINE_STACK_SIZE_REQUEST_ID :: "u64 list" where
  "LIMINE_STACK_SIZE_REQUEST_ID = LIMINE_COMMON_MAGIC @ [0x224ef0460a8e8926, 0xe1cb0fc25f46ea3d]"

definition LIMINE_HHDM_REQUEST_ID :: "u64 list" where
  "LIMINE_HHDM_REQUEST_ID = LIMINE_COMMON_MAGIC @ [0x48dcf1cb8ad2b852, 0x63984e959a98244b]"

definition LIMINE_FRAMEBUFFER_REQUEST_ID :: "u64 list" where
  "LIMINE_FRAMEBUFFER_REQUEST_ID = LIMINE_COMMON_MAGIC @ [0x9d5827dcd881dd75, 0xa3148604f6fab11b]"

definition LIMINE_MEMMAP_REQUEST_ID :: "u64 list" where
  "LIMINE_MEMMAP_REQUEST_ID = LIMINE_COMMON_MAGIC @ [0x67cf3d9d378a806f, 0xe304acdfc50c3c62]"

definition LIMINE_EXECUTABLE_ADDRESS_REQUEST_ID :: "u64 list" where
  "LIMINE_EXECUTABLE_ADDRESS_REQUEST_ID = LIMINE_COMMON_MAGIC @ [0x71ba76863cc55f63, 0xb2644a48c516a487]"

definition LIMINE_FRAMEBUFFER_RGB :: u8 where "LIMINE_FRAMEBUFFER_RGB = 1"

section \<open>The kernel's state and its static data\<close>

record kern_state = idt_state +
  console_dev :: fb_state
  kernel_task :: addr
  kernel_end :: u64
  idle_thread_entry :: u64
  requests_start :: "u64 list"
  requests_end :: "u64 list"
  base_revision :: "u64 list"
  hhdm_req :: hhdm_request
  memmap_req :: memmap_request
  fb_req :: framebuffer_request
  exe_req :: executable_address_request
  stack_req :: stack_size_request

text \<open>The devices have a machine of their own; the kernel's does not change with them.\<close>

lemma console_dev_machine [simp]:
  "mem (s\<lparr>console_dev := d\<rparr>) = mem s" "hhdm_offset (s\<lparr>console_dev := d\<rparr>) = hhdm_offset s"
  "console (s\<lparr>console_dev := d\<rparr>) = console s" "port_outs (s\<lparr>console_dev := d\<rparr>) = port_outs s"
  by (cases s; simp)+

definition static_requests :: "'a kern_state_scheme \<Rightarrow> 'a kern_state_scheme" where
  "static_requests s = s\<lparr>
     requests_start := LIMINE_REQUESTS_START_MARKER,
     requests_end := LIMINE_REQUESTS_END_MARKER,
     base_revision := LIMINE_BASE_REVISION 3,
     hhdm_req := \<lparr>req_id = LIMINE_HHDM_REQUEST_ID, req_revision = 0, response = None\<rparr>,
     memmap_req := \<lparr>req_id = LIMINE_MEMMAP_REQUEST_ID, req_revision = 0, response = None\<rparr>,
     fb_req := \<lparr>req_id = LIMINE_FRAMEBUFFER_REQUEST_ID, req_revision = 0, response = None\<rparr>,
     exe_req := \<lparr>req_id = LIMINE_EXECUTABLE_ADDRESS_REQUEST_ID, req_revision = 0, response = None\<rparr>,
     stack_req := \<lparr>req_id = LIMINE_STACK_SIZE_REQUEST_ID, req_revision = 0, response = None, stack_size = 256 * 1024\<rparr>\<rparr>"

text \<open>\<open>hal_halt\<close> does not return: a state it leaves is the last one.\<close>

definition hal_halt :: "'a cpu_state_scheme \<Rightarrow> 'a cpu_state_scheme" where
  "hal_halt s = stop_cpu s"

definition hal_init :: "'a idt_state_scheme \<Rightarrow> 'a idt_state_scheme option" where
  "hal_init s = do {
     let s = cpu_init s;
     s \<leftarrow> cpu_init_self 0 s;
     let s = gdt_init s;
     let s = gdt_load_tss s;
     let s = idt_init s;
     let s = syscall_arch_init s;
     syscall_init s
   }"

section \<open>\<open>kmain\<close>\<close>

text \<open>The framebuffer is used when there is one with RGB pixels.\<close>

definition kmain_framebuffer :: "'a kern_state_scheme \<Rightarrow> 'a kern_state_scheme option" where
  "kmain_framebuffer s =
     (case response (fb_req s) of
        None \<Rightarrow> Some s
      | Some r \<Rightarrow>
          if framebuffer_count r > 0 then
            case framebuffers r of
              [] \<Rightarrow> None
            | fb # _ \<Rightarrow>
                if lfb_memory_model fb = LIMINE_FRAMEBUFFER_RGB then
                  let s = s\<lparr>console_dev := hal_console_set_framebuffer (lfb_address fb) (ucast (lfb_width fb))
                        (ucast (lfb_height fb)) (ucast (lfb_pitch fb)) (ucast (lfb_bpp fb)) (console_dev s)\<rparr>
                  in kprintf (''DANA: framebuffer %ux%u %ubpp'' @ nl)
                       [VInt (lfb_width fb), VInt (lfb_height fb), VInt (ucast (lfb_bpp fb))] s
                else Some s
          else Some s)"

definition kern_phys :: "'a kern_state_scheme \<Rightarrow> u64 \<times> u64" where
  "kern_phys s =
     (let kern_phys_start = 0x200000;
          kern_phys_end = 0x200000
      in case response (exe_req s) of
           None \<Rightarrow> (kern_phys_start, kern_phys_end)
         | Some r \<Rightarrow>
             let kern_phys_start = physical_base r;
                 kern_phys_end = kern_phys_start + (kernel_end s - virtual_base r)
             in (kern_phys_start, kern_phys_end))"

text \<open>From \<open>hal_init\<close> on; \<open>sched_idle\<close> gives the processor up in its first round.\<close>

definition kmain_start :: "memmap_entry list \<Rightarrow> u64 \<times> u64 \<Rightarrow> 'a kern_state_scheme \<Rightarrow> 'a kern_state_scheme option" where
  "kmain_start mmap kp s = do {
     s \<leftarrow> hal_init s;
     s \<leftarrow> kprintf (''DANA: GDT and IDT loaded'' @ nl) [] s;
     s \<leftarrow> pmm_init mmap (fst kp) (snd kp) s;
     s \<leftarrow> pmap_init s;
     (_, s) \<leftarrow> vm_map_init s;
     s \<leftarrow> kprintf (''DANA: kernel task id = %u'' @ nl) [VInt (ucast (task_id (tasks s (kernel_task s))))] s;
     let s = sched_init s;
     s \<leftarrow> clock_init s;
     (_, s) \<leftarrow> sched_create_idle (idle_thread_entry s) s;
     s \<leftarrow> kprintf (''DANA: boot complete'' @ nl) [] s;
     let s = cpu_enable_interrupts s;
     sched_idle_round s
   }"

definition kmain :: "'a kern_state_scheme \<Rightarrow> 'a kern_state_scheme option" where
  "kmain s = do {
     let s = s\<lparr>console_dev := hal_early_console_init (console_dev s)\<rparr>;
     s \<leftarrow> kprintf (''DANA: booting...'' @ nl) [] s;
     s \<leftarrow> kprintf (''DANA: DANA is Almost Not Apple'' @ nl) [] s;
     if \<not> LIMINE_BASE_REVISION_SUPPORTED (base_revision s) then do {
       s \<leftarrow> kprintf (''DANA: ERROR: Limine base revision not supported'' @ nl) [] s;
       Some (hal_halt s)
     }
     else case response (hhdm_req s) of
       None \<Rightarrow> do {
         s \<leftarrow> kprintf (''DANA: ERROR: no HHDM response'' @ nl) [] s;
         Some (hal_halt s)
       }
     | Some h \<Rightarrow> do {
         let s = s\<lparr>hhdm_offset := hhdm_resp_offset h\<rparr>;
         s \<leftarrow> kprintf (''DANA: HHDM offset = 0x%llx'' @ nl) [VInt (hhdm_offset s)] s;
         s \<leftarrow> kmain_framebuffer s;
         case response (memmap_req s) of
           None \<Rightarrow> do {
             s \<leftarrow> kprintf (''DANA: ERROR: no memory map'' @ nl) [] s;
             Some (hal_halt s)
           }
         | Some r \<Rightarrow> do {
             s \<leftarrow> kprintf (''DANA: memory map has %u entries'' @ nl) [VInt (entry_count r)] s;
             if unat (entry_count r) > length (mm_entries r) then None
             else kmain_start (take (unat (entry_count r)) (mm_entries r)) (kern_phys s) s
           }
       }
   }"

section \<open>The steps of the boot\<close>

lemma kprintf_plain: "CHR ''%'' \<notin> set fmt \<Longrightarrow> kprintf fmt [] s = Some (s\<lparr>console := console s @ fmt\<rparr>)"
  by (simp add: kprintf_def kvprintf_plain)

lemma kprintf_kinds:
  "fmt_kinds fmt = Some (map kind_of args) \<Longrightarrow> \<exists>out. kprintf fmt args s = Some (s\<lparr>console := console s @ out\<rparr>)"
  by (rule kprintf_total) auto

lemma cpu_init_eq: "\<exists>d. cpu_init s = s\<lparr>cpu_data_store := d\<rparr>"
proof -
  have "\<exists>d. fold (\<lambda>i s. s\<lparr>cpu_data_store := (cpu_data_store s)(i := blank_cpu)\<rparr>) xs s = s\<lparr>cpu_data_store := d\<rparr>" for xs s
  proof (induction xs arbitrary: s)
    case (Cons x xs)
    show ?case using Cons [of "s\<lparr>cpu_data_store := (cpu_data_store s)(x := blank_cpu)\<rparr>"] by (auto simp del: fun_upd_apply)
  next
    case Nil
    show ?case by (rule exI [of _ "cpu_data_store s"]) simp
  qed
  then show ?thesis by (simp add: cpu_init_def)
qed

lemma hal_init_ok:
  assumes "next_cpu_number s = 0"
  obtains t where "hal_init s = Some t" "zone_count t = zone_count s" "hhdm_offset t = hhdm_offset s"
    "thread_zone t = thread_zone s" "cpu_data_ptr t = Some 0"
proof -
  obtain d where d: "cpu_init s = s\<lparr>cpu_data_store := d\<rparr>" using cpu_init_eq by blast
  obtain u where u: "cpu_init_self 0 (cpu_init s) = Some u" "zone_count u = zone_count s" "hhdm_offset u = hhdm_offset s"
    "thread_zone u = thread_zone s" "cpu_data_ptr u = Some 0"
    using assms by (simp add: d cpu_init_self_def Let_def MAX_CPUS_def write_fs_base_def write_msr)
  let ?v = "syscall_arch_init (idt_init (gdt_load_tss (gdt_init u)))"
  have v: "zone_count ?v = zone_count s" "hhdm_offset ?v = hhdm_offset s" "thread_zone ?v = thread_zone s"
    "cpu_data_ptr ?v = Some 0"
    by (simp_all add: syscall_arch_init_def idt_init_eq gdt_load_tss_def gdt_init_def gdt_set_def gdt_set_tss_def write_msr
        Let_def u)
  have "\<exists>t c. syscall_init ?v = Some (?v\<lparr>syscall_table := t, console := c\<rparr>)"
    unfolding syscall_init_def clear_table by (simp add: kprintf_plain del: fun_upd_apply) blast
  then show thesis using that v u(1) by (auto simp: hal_init_def)
qed

lemma zones_rep_none:
  "pmm_inv s \<Longrightarrow> hhdm_ok s \<Longrightarrow> zone_count s = 0 \<Longrightarrow> zones_rep (\<lambda>_. {}) (\<lambda>_. []) s"
  by (simp add: zones_rep_def)

lemma zinit_eq:
  assumes "zone_count s < 32"
  obtains zs where "zinit nm esz mx s = Some (Some (zone_count s), s\<lparr>zone_store := zs, zone_count := Suc (zone_count s)\<rparr>)"
    "max_size (zs (zone_count s)) = mx"
  using assms by (intro that [of "(zone_store s)(zone_count s := \<lparr>zname = nm, elem_size = round_elem esz, max_size = mx,
    cur_size = 0, free_list = 0, count_free = 0, count_alloc = 0\<rparr>)"]) (simp_all add: zinit_def Let_def upd_zone_def)

text \<open>A new zone has no pages yet.\<close>

lemma zinit_rep:
  assumes "zones_rep P F s" "zone_count s < 32" "unat esz \<le> 4096"
  obtains zs where "zinit nm esz mx s = Some (Some (zone_count s), s\<lparr>zone_store := zs, zone_count := Suc (zone_count s)\<rparr>)"
    "zones_rep (P(zone_count s := {})) (F(zone_count s := [])) (s\<lparr>zone_store := zs, zone_count := Suc (zone_count s)\<rparr>)"
    "max_size (zs (zone_count s)) = mx"
proof -
  obtain zs where z: "zinit nm esz mx s = Some (Some (zone_count s), s\<lparr>zone_store := zs, zone_count := Suc (zone_count s)\<rparr>)"
    "max_size (zs (zone_count s)) = mx"
    by (rule zinit_eq [OF assms(2)])
  have "zones_rep (P(zone_count s := {})) (F(zone_count s := [])) (s\<lparr>zone_store := zs, zone_count := Suc (zone_count s)\<rparr>)"
    by (rule zinit_spec [OF assms, of nm mx]) (use z(1) in simp)
  with z that show thesis by blast
qed

lemma vm_map_init_ok:
  fixes s :: "'a vm_state_scheme"
  assumes rep: "zones_rep P F s" and n: "zone_count s = 0"
  obtains c zs z1 z2 es ms P' F' where
    "vm_map_init s = Some (KERN_SUCCESS, s\<lparr>vm_map_entry_zone := z1, zone_store := zs, zone_count := 2,
       vm_map_zone := z2, vm_maps := ms, vm_entries := es, console := c\<rparr>)"
    "zones_rep P' F' (s\<lparr>vm_map_entry_zone := z1, zone_store := zs, zone_count := 2,
       vm_map_zone := z2, vm_maps := ms, vm_entries := es, console := c\<rparr>)"
proof -
  obtain zs1 where z1: "zinit ''vm_map_entry'' sizeof_vm_map_entry 0 s = Some (Some 0, s\<lparr>zone_store := zs1, zone_count := 1\<rparr>)"
    "zones_rep (P(0 := {})) (F(0 := [])) (s\<lparr>zone_store := zs1, zone_count := 1\<rparr>)"
    by (rule zinit_rep [OF rep, of sizeof_vm_map_entry "''vm_map_entry''" 0]) (simp_all add: n sizeof_vm_map_entry_def)
  let ?s1 = "s\<lparr>zone_store := zs1, zone_count := 1, vm_map_entry_zone := Some 0\<rparr>"
  have r1: "zones_rep (P(0 := {})) (F(0 := [])) ?s1" by (rule zones_rep_same [OF z1(2)]) simp_all
  have sz: "unat sizeof_vm_map \<le> 4096" by (simp add: sizeof_vm_map_def)
  obtain zs2 where z2: "zinit ''vm_map'' sizeof_vm_map 0 ?s1 = Some (Some 1, ?s1\<lparr>zone_store := zs2, zone_count := 2\<rparr>)"
    "zones_rep (P(0 := {}, 1 := {})) (F(0 := [], 1 := [])) (?s1\<lparr>zone_store := zs2, zone_count := 2\<rparr>)"
    by (rule zinit_rep [OF r1, of sizeof_vm_map "''vm_map''" 0]) (use sz in \<open>simp_all add: numeral_2_eq_2\<close>)
  define fm where "fm = ''VM: kernel map [0x%llx, 0x%llx]'' @ nl"
  have "\<exists>out. kvprintf fm [VInt a, VInt b] = Some out" for a b
    by (rule kvprintf_total) (simp add: fm_def conv_int_def conv_long_def long_directive_def)
  then have k: "kprintf fm [VInt a, VInt b] u = Some (u\<lparr>console := console u @ the (kvprintf fm [VInt a, VInt b])\<rparr>)"
    for a b and u :: "'a vm_state_scheme"
    by (auto simp: kprintf_def split: option.split)
  have "\<exists>c es ms. vm_map_init s = Some (KERN_SUCCESS, s\<lparr>vm_map_entry_zone := Some 0, zone_store := zs2, zone_count := 2,
       vm_map_zone := Some 1, vm_maps := ms, vm_entries := es, console := c\<rparr>)"
    unfolding vm_map_init_def fm_def [symmetric]
    by (auto simp: z1 z2 map_list_init_def upd_entry_def upd_map_def k Let_def simp del: fun_upd_apply One_nat_def)
  then obtain c es ms where r: "vm_map_init s = Some (KERN_SUCCESS, s\<lparr>vm_map_entry_zone := Some 0, zone_store := zs2, zone_count := 2,
       vm_map_zone := Some 1, vm_maps := ms, vm_entries := es, console := c\<rparr>)" by blast
  have "zones_rep (P(0 := {}, 1 := {})) (F(0 := [], 1 := [])) (s\<lparr>vm_map_entry_zone := Some 0, zone_store := zs2, zone_count := 2,
       vm_map_zone := Some 1, vm_maps := ms, vm_entries := es, console := c\<rparr>)"
    by (rule zones_rep_same [OF z2(2)]) simp_all
  then show thesis by (rule that [OF r])
qed

lemma sched_create_idle_first:
  fixes s :: "'a sched_state_scheme"
  assumes rep: "zones_rep P F s" and z: "thread_zone s = None" "zone_count s < 32" and q: "run_queue s []"
    and free: "card (free_set s) \<ge> 2" and cpu: "cpu_data_ptr s = Some i"
  obtains idle u where "sched_create_idle entry s = Some (KERN_SUCCESS, u)" "run_queue u [idle]" "idle \<noteq> 0"
    "cpu_current_thread u = idle" "cpu_idle_thread u = idle" "sched_get_state idle u = THREAD_STATE_RUNNING"
proof (rule zinit_rep [OF rep z(2), of sizeof_thread "''thread''" 0])
  show "unat sizeof_thread \<le> 4096" by (simp add: sizeof_thread_def)
  let ?k = "zone_count s"
  fix zs assume t: "zinit ''thread'' sizeof_thread 0 s = Some (Some ?k, s\<lparr>zone_store := zs, zone_count := Suc ?k\<rparr>)"
    "zones_rep (P(?k := {})) (F(?k := [])) (s\<lparr>zone_store := zs, zone_count := Suc ?k\<rparr>)" "max_size (zs ?k) = 0"
  let ?t = "s\<lparr>zone_store := zs, zone_count := Suc ?k, thread_zone := Some ?k\<rparr>"
  have "get_thread_zone s = Some (Some ?k, ?t)" "get_thread_zone ?t = Some (Some ?k, ?t)"
    using t(1) z(1) by (simp_all add: get_thread_zone_def)
  then have same: "sched_create_idle entry s = sched_create_idle entry ?t"
    by (simp add: sched_create_idle_def thread_create_def)
  have rt: "zones_rep (P(?k := {})) (F(?k := [])) ?t" by (rule zones_rep_same [OF t(2)]) simp_all
  have st: "thread_zone ?t = Some ?k" "?k < zone_count ?t" "run_queue ?t []" "card (free_set ?t) \<ge> 2"
    "max_size (zone_store ?t ?k) = 0" "cpu_data_ptr ?t = Some i"
    using q free t(3) cpu by (simp_all add: run_queue_def free_set_def bitmap_test_def)
  show thesis by (rule sched_create_idle_spec [OF rt st, of entry]) (rule that, simp_all add: same)
qed

text \<open>From \<open>hal_init\<close> to the end, when the memory map leaves two pages.\<close>

lemma kmain_start_ok:
  fixes s :: "'a kern_state_scheme"
  assumes mm: "limine_memmap 0 mmap" "find_bitmap mmap \<noteq> 0" "unat (snd kp) \<le> 18446744073709547520"
    and free: "card (usable_pages mmap - reserved_pages mmap (fst kp) (snd kp)) \<ge> 2"
    and s: "hhdm_ok s" "zone_count s = 0" "thread_zone s = None" "next_cpu_number s = 0"
  obtains t where "kmain_start mmap kp s = Some t" "halted t" "\<not> interrupts t" "run_queue t [cpu_current_thread t]"
    "cpu_current_thread t = cpu_idle_thread t" "cpu_idle_thread t \<noteq> 0" "\<exists>pre. console t = pre @ ''DANA: boot complete'' @ nl"
proof -
  obtain s1 where s1: "hal_init s = Some s1" "zone_count s1 = 0" "hhdm_offset s1 = hhdm_offset s" "thread_zone s1 = None"
    "cpu_data_ptr s1 = Some 0"
    using hal_init_ok [OF s(4)] s(2,3) by metis
  let ?s2 = "s1\<lparr>console := console s1 @ ''DANA: GDT and IDT loaded'' @ nl\<rparr>"
  obtain s3 c b a n f where s3: "pmm_init mmap (fst kp) (snd kp) ?s2 = Some s3" "pmm_inv s3"
    "free_set s3 = usable_pages mmap - reserved_pages mmap (fst kp) (snd kp)"
    "s3 = ?s2\<lparr>console := c, bitmap := b, bitmap_base := a, total_pages := n, free_count := f\<rparr>"
    using pmm_init_spec [OF mm, of "fst kp" ?s2] by blast
  have f3: "zone_count s3 = 0" "hhdm_ok s3" "thread_zone s3 = None" "cpu_data_ptr s3 = Some 0"
    using s(1) by (simp_all add: s3(4) s1 hhdm_ok_def)
  obtain s4 where s4: "pmap_init s3 = Some s4" "zones_rep (\<lambda>_. {}) (\<lambda>_. []) s4" "zone_count s4 = 0" "thread_zone s4 = None"
    "cpu_data_ptr s4 = Some 0" "free_set s4 = free_set s3"
  proof -
    let ?c = "read_cr3 s3 AND PTE_ADDR_MASK"
    let ?p = "s3\<lparr>pmaps := (pmaps s3)(pmap_kernel s3 := \<lparr>pml4_phys = ?c, pm_ref_count = 1\<rparr>)\<rparr>"
    have "fmt_kinds (''PMAP: kernel PML4 at phys 0x%x'' @ nl) = Some (map kind_of [VInt ?c])" by (simp add: conv_int_def)
    then obtain out where "kprintf (''PMAP: kernel PML4 at phys 0x%x'' @ nl) [VInt ?c] ?p = Some (?p\<lparr>console := console ?p @ out\<rparr>)"
      using kprintf_kinds by blast
    then have p: "pmap_init s3 = Some (s3\<lparr>pmaps := (pmaps s3)(pmap_kernel s3 := \<lparr>pml4_phys = ?c, pm_ref_count = 1\<rparr>),
        console := console s3 @ out\<rparr>)" (is "_ = Some ?t")
      by (simp add: pmap_init_def Let_def)
    have "zones_rep (\<lambda>_. {}) (\<lambda>_. []) ?t"
      by (rule zones_rep_same [OF zones_rep_none [OF s3(2) f3(2,1)]]) simp_all
    then show thesis using p f3 that by (simp add: free_set_def bitmap_test_def)
  qed
  obtain c5 zs z1 z2 es ms P F where s5: "vm_map_init s4 = Some (KERN_SUCCESS, s4\<lparr>vm_map_entry_zone := z1, zone_store := zs, zone_count := 2,
       vm_map_zone := z2, vm_maps := ms, vm_entries := es, console := c5\<rparr>)"
    "zones_rep P F (s4\<lparr>vm_map_entry_zone := z1, zone_store := zs, zone_count := 2,
       vm_map_zone := z2, vm_maps := ms, vm_entries := es, console := c5\<rparr>)" (is "zones_rep P F ?s5")
    by (rule vm_map_init_ok [OF s4(2,3)])
  obtain o6 where s6: "kprintf (''DANA: kernel task id = %u'' @ nl) [VInt (ucast (task_id (tasks s4 (kernel_task s4))))] ?s5 =
      Some (s4\<lparr>vm_map_entry_zone := z1, zone_store := zs, zone_count := 2,
       vm_map_zone := z2, vm_maps := ms, vm_entries := es, console := c5 @ o6\<rparr>)" (is "_ = Some ?s6")
    using kprintf_kinds [of "''DANA: kernel task id = %u'' @ nl" "[VInt (ucast (task_id (tasks s4 (kernel_task s4))))]" ?s5]
    by (auto simp: conv_int_def)
  obtain s7 where s7: "clock_init (sched_init ?s6) = Some s7" "zones_rep P F s7" "thread_zone s7 = None"
    "zone_count s7 = 2" "run_queue s7 []" "free_set s7 = free_set s4" "cpu_data_ptr s7 = Some 0"
  proof -
    let ?r = "sched_init ?s6"
    obtain t po where t: "clock_init ?r = Some t" "t = ?r\<lparr>port_outs := po, pit_freq := CLOCK_HZ, pit_ticks := 0\<rparr>"
      by (auto simp: clock_init_def pit_init_def CLOCK_HZ_def Let_def cpu_outb_def port_write_def)
    have "zones_rep P F t" by (rule zones_rep_same [OF s5(2)]) (simp_all add: t(2) sched_init_def)
    moreover have "run_queue t []" using run_queue_init [of ?s6] by (simp add: t(2) run_queue_def)
    ultimately show thesis
      using t s4 that by (simp add: sched_init_def free_set_def bitmap_test_def)
  qed
  show thesis
  proof (rule sched_create_idle_first [OF s7(2,3) _ s7(5) _ s7(7), of "idle_thread_entry s7"])
    show "zone_count s7 < 32" "card (free_set s7) \<ge> 2" using free s7(4,6) s4(6) s3(3) by simp_all
    fix idle u assume u: "sched_create_idle (idle_thread_entry s7) s7 = Some (KERN_SUCCESS, u)" "run_queue u [idle]" "idle \<noteq> 0"
      "cpu_current_thread u = idle" "cpu_idle_thread u = idle"
    let ?u = "cpu_enable_interrupts (u\<lparr>console := console u @ ''DANA: boot complete'' @ nl\<rparr>)"
    have c: "cpu_current_thread ?u = idle" "cpu_idle_thread ?u = idle" "cpu_current_thread (cpu_halt ?u) = idle"
      "cpu_idle_thread (cpu_halt ?u) = idle"
      using u by (simp_all add: cpu_current_thread_def cpu_idle_thread_def cpu_get_def cpu_enable_interrupts_def cpu_halt_def
          cong: option.case_cong)
    have q: "run_queue ?u [idle]" "run_queue (cpu_halt ?u) [idle]"
      using u(2) by (simp_all add: run_queue_def cpu_enable_interrupts_def cpu_halt_def)
    have nl0: "CHR ''%'' \<notin> set nl" by simp
    have "kmain_start mmap kp s = sched_idle_round ?u"
      by (simp add: kmain_start_def s1(1) kprintf_plain s3(1) s4(1) s5(1) s6 s7(1) u(1) nl0 del: append_Cons nl_def)
    also have "\<dots> = Some (cpu_halt ?u)" using q(1) c(1) by (intro sched_idle_alone) simp
    finally show thesis
      by (rule that) (use q(2) c u(3) in \<open>simp_all add: cpu_halt_def cpu_enable_interrupts_def\<close>)
  qed
qed

text \<open>The boot loader's answer about framebuffers is usable: the list has as many elements as it says.\<close>

definition fb_answer_ok :: "'a kern_state_scheme \<Rightarrow> bool" where
  "fb_answer_ok s \<longleftrightarrow> (case response (fb_req s) of
     None \<Rightarrow> True
   | Some r \<Rightarrow> unat (framebuffer_count r) = length (framebuffers r))"

lemma kmain_framebuffer_ok:
  assumes "fb_answer_ok s"
  obtains d c where "kmain_framebuffer s = Some (s\<lparr>console_dev := d, console := c\<rparr>)"
proof -
  have same: "s = s\<lparr>console_dev := console_dev s, console := console s\<rparr>" by simp
  show thesis
  proof (cases "\<exists>r fb fbs. response (fb_req s) = Some r \<and> framebuffer_count r > 0 \<and> framebuffers r = fb # fbs \<and>
      lfb_memory_model fb = LIMINE_FRAMEBUFFER_RGB")
    case True
    then obtain r fb fbs where r: "response (fb_req s) = Some r" "framebuffer_count r > 0" "framebuffers r = fb # fbs"
      "lfb_memory_model fb = LIMINE_FRAMEBUFFER_RGB" by blast
    let ?s = "s\<lparr>console_dev := hal_console_set_framebuffer (lfb_address fb) (ucast (lfb_width fb))
                (ucast (lfb_height fb)) (ucast (lfb_pitch fb)) (ucast (lfb_bpp fb)) (console_dev s)\<rparr>"
    have "fmt_kinds (''DANA: framebuffer %ux%u %ubpp'' @ nl) =
        Some (map kind_of [VInt (lfb_width fb), VInt (lfb_height fb), VInt (ucast (lfb_bpp fb))])"
      by (simp add: conv_int_def)
    from kprintf_kinds [OF this, of ?s] r that show thesis by (auto simp: kmain_framebuffer_def Let_def)
  next
    case False
    then have "kmain_framebuffer s = Some s"
      using assms by (auto simp: kmain_framebuffer_def fb_answer_ok_def Let_def word_gt_0 unat_eq_0
          split: option.splits list.splits)
    then show thesis using that same by metis
  qed
qed

lemma hhdm_message:
  obtains out where "kprintf (''DANA: HHDM offset = 0x%llx'' @ nl) [VInt v] s = Some (s\<lparr>console := console s @ out\<rparr>)"
  by (rule kprintf_total [of "''DANA: HHDM offset = 0x%llx'' @ nl" "[VInt v]" s])
    (simp_all add: conv_int_def conv_long_def long_directive_def)

lemma memmap_message:
  obtains out where "kprintf (''DANA: memory map has %u entries'' @ nl) [VInt v] s = Some (s\<lparr>console := console s @ out\<rparr>)"
  by (rule kprintf_total [of "''DANA: memory map has %u entries'' @ nl" "[VInt v]" s]) (simp_all add: conv_int_def)

text \<open>Up to the memory map, which decides how \<open>kmain\<close> goes on.\<close>

lemma kmain_prefix:
  fixes s :: "'a kern_state_scheme"
  assumes "base_revision s ! 2 = 0" "response (hhdm_req s) = Some h" "fb_answer_ok s"
  obtains d c where "kmain s = (let s = s\<lparr>hhdm_offset := hhdm_resp_offset h, console_dev := d, console := c\<rparr> in
    case response (memmap_req s) of
      None \<Rightarrow> do {
        s \<leftarrow> kprintf (''DANA: ERROR: no memory map'' @ nl) [] s;
        Some (hal_halt s)
      }
    | Some r \<Rightarrow> do {
        s \<leftarrow> kprintf (''DANA: memory map has %u entries'' @ nl) [VInt (entry_count r)] s;
        if unat (entry_count r) > length (mm_entries r) then None
        else kmain_start (take (unat (entry_count r)) (mm_entries r)) (kern_phys s) s
      })"
proof -
  have nl0: "CHR ''%'' \<notin> set nl" by simp
  let ?s1 = "s\<lparr>console_dev := hal_early_console_init (console_dev s),
      console := (console s @ ''DANA: booting...'' @ nl) @ ''DANA: DANA is Almost Not Apple'' @ nl, hhdm_offset := hhdm_resp_offset h\<rparr>"
  obtain o1 where o1: "kprintf (''DANA: HHDM offset = 0x%llx'' @ nl) [VInt (hhdm_resp_offset h)] ?s1 =
    Some (?s1\<lparr>console := console ?s1 @ o1\<rparr>)" by (rule hhdm_message)
  have "fb_answer_ok (?s1\<lparr>console := console ?s1 @ o1\<rparr>)" using assms(3) by (simp add: fb_answer_ok_def)
  then obtain d c where "kmain_framebuffer (?s1\<lparr>console := console ?s1 @ o1\<rparr>) =
      Some (?s1\<lparr>console := console ?s1 @ o1, console_dev := d, console := c\<rparr>)"
    by (rule kmain_framebuffer_ok)
  then show thesis
    using assms(1,2) o1
    by (intro that [of c d]) (simp add: kmain_def kprintf_plain nl0 LIMINE_BASE_REVISION_SUPPORTED_def Let_def
        del: append_Cons nl_def append_assoc)
qed

section \<open>Properties\<close>

text \<open>
  What the boot loader and the linker owe the kernel: the answers to the requests, a memory map as Limine
  promises it with room for the allocator's bitmap and two more pages beside the kernel, a page-aligned direct map
  that does not wrap, and the zero-initialised data of the program.
\<close>

definition boot_ok :: "'a kern_state_scheme \<Rightarrow> hhdm_response \<Rightarrow> memmap_entry list \<Rightarrow> bool" where
  "boot_ok s h mmap \<longleftrightarrow>
     base_revision s ! 2 = 0 \<and> response (hhdm_req s) = Some h \<and> fb_answer_ok s \<and>
     (\<exists>r. response (memmap_req s) = Some r \<and> unat (entry_count r) = length mmap \<and> mm_entries r = mmap) \<and>
     limine_memmap 0 mmap \<and> find_bitmap mmap \<noteq> 0 \<and> unat (snd (kern_phys s)) \<le> 18446744073709547520 \<and>
     card (usable_pages mmap - reserved_pages mmap (fst (kern_phys s)) (snd (kern_phys s))) \<ge> 2 \<and>
     aligned 4096 (hhdm_resp_offset h) \<and> unat (hhdm_resp_offset h) \<le> 18446744069414584320 \<and>
     zone_count s = 0 \<and> thread_zone s = None \<and> next_cpu_number s = 0"

text \<open>
  C1: The boot.  For every answer of the boot loader that keeps its promises, \<open>kmain\<close> runs through all its
  initialisation to the last message and creates the idle thread.  That thread is then the only one of the
  run queue and the current one, so the first round of its loop halts the processor, and halts it with interrupts off,
  although \<open>kmain\<close> has just enabled them: nothing runs after the boot.
\<close>

theorem kmain_boots:
  assumes "boot_ok s h mmap"
  shows "\<exists>t pre. kmain s = Some t \<and> console t = pre @ ''DANA: boot complete'' @ nl \<and> halted t \<and> \<not> interrupts t \<and>
    run_queue t [cpu_idle_thread t] \<and> cpu_current_thread t = cpu_idle_thread t \<and> cpu_idle_thread t \<noteq> 0"
proof -
  note ok = assms [unfolded boot_ok_def]
  obtain r where r: "response (memmap_req s) = Some r" "unat (entry_count r) = length mmap" "mm_entries r = mmap" using ok by blast
  obtain d c where k: "kmain s = (let s = s\<lparr>hhdm_offset := hhdm_resp_offset h, console_dev := d, console := c\<rparr> in
    case response (memmap_req s) of
      None \<Rightarrow> do {
        s \<leftarrow> kprintf (''DANA: ERROR: no memory map'' @ nl) [] s;
        Some (hal_halt s)
      }
    | Some r \<Rightarrow> do {
        s \<leftarrow> kprintf (''DANA: memory map has %u entries'' @ nl) [VInt (entry_count r)] s;
        if unat (entry_count r) > length (mm_entries r) then None
        else kmain_start (take (unat (entry_count r)) (mm_entries r)) (kern_phys s) s
      })"
    using kmain_prefix [of s h] ok by metis
  let ?s = "s\<lparr>hhdm_offset := hhdm_resp_offset h, console_dev := d, console := c\<rparr>"
  obtain o1 where o1: "kprintf (''DANA: memory map has %u entries'' @ nl) [VInt (entry_count r)] ?s =
      Some (?s\<lparr>console := console ?s @ o1\<rparr>)" by (rule memmap_message)
  let ?t = "s\<lparr>hhdm_offset := hhdm_resp_offset h, console_dev := d, console := c @ o1\<rparr>"
  have kp: "kern_phys ?t = kern_phys s" by (simp add: kern_phys_def split: option.split)
  have run: "kmain s = kmain_start mmap (kern_phys s) ?t"
    unfolding k using r o1 kp by (simp add: Let_def del: append_Cons nl_def)
  have pre: "limine_memmap 0 mmap" "find_bitmap mmap \<noteq> 0" "unat (snd (kern_phys s)) \<le> 18446744073709547520"
    "card (usable_pages mmap - reserved_pages mmap (fst (kern_phys s)) (snd (kern_phys s))) \<ge> 2"
    "hhdm_ok ?t" "zone_count ?t = 0" "thread_zone ?t = None" "next_cpu_number ?t = 0"
    using ok by (simp_all add: hhdm_ok_def)
  show ?thesis
    unfolding run by (rule kmain_start_ok [OF pre]) auto
qed

text \<open>What stops the boot before the machine is initialised.\<close>

definition boot_error :: "'a kern_state_scheme \<Rightarrow> string option" where
  "boot_error s =
     (if base_revision s ! 2 \<noteq> 0 then Some ''Limine base revision not supported''
      else if response (hhdm_req s) = None then Some ''no HHDM response''
      else if response (memmap_req s) = None then Some ''no memory map''
      else None)"

text \<open>
  C27: A boot loader that does not speak the base revision, or gives no direct map or no memory map, is
  refused with a message that says so, before any table, page or thread exists: the processor stops with
  interrupts off.
\<close>

theorem kmain_refuses:
  assumes "boot_error s = Some m" "fb_answer_ok s"
  shows "\<exists>t pre. kmain s = Some t \<and> console t = pre @ ''DANA: ERROR: '' @ m @ nl \<and> halted t \<and> \<not> interrupts t \<and>
    idt t = idt s \<and> bitmap t = bitmap s \<and> threads t = threads s"
proof -
  have nl0: "CHR ''%'' \<notin> set nl" by simp
  consider (rev) "base_revision s ! 2 \<noteq> 0" "m = ''Limine base revision not supported''"
    | (hhdm) "base_revision s ! 2 = 0" "response (hhdm_req s) = None" "m = ''no HHDM response''"
    | (map) h where "base_revision s ! 2 = 0" "response (hhdm_req s) = Some h" "response (memmap_req s) = None" "m = ''no memory map''"
    using assms(1) by (auto simp: boot_error_def split: if_splits)
  then show ?thesis
  proof cases
    case rev
    then show ?thesis
      by (simp add: kmain_def kprintf_plain LIMINE_BASE_REVISION_SUPPORTED_def hal_halt_def stop_cpu_def cpu_halt_def
          cpu_disable_interrupts_def Let_def)
  next
    case hhdm
    then show ?thesis
      by (simp add: kmain_def kprintf_plain LIMINE_BASE_REVISION_SUPPORTED_def hal_halt_def stop_cpu_def cpu_halt_def
          cpu_disable_interrupts_def Let_def)
  next
    case (map h)
    show ?thesis
      by (rule kmain_prefix [OF map(1,2) assms(2)])
        (simp add: map(3,4) kprintf_plain hal_halt_def stop_cpu_def cpu_halt_def cpu_disable_interrupts_def Let_def)
  qed
qed

section \<open>A machine to boot\<close>

definition boot_machine :: kern_state where
  "boot_machine = (undefined :: kern_state)\<lparr>zone_count := 0, thread_zone := None, next_cpu_number := 0,
     base_revision := LIMINE_BASE_REVISION 0,
     hhdm_req := \<lparr>req_id = [], req_revision = 0,
       response = Some \<lparr>hhdm_revision = 0, hhdm_resp_offset = 0xffff800000000000\<rparr>\<rparr>,
     memmap_req := \<lparr>req_id = [], req_revision = 0,
       response = Some \<lparr>mmr_revision = 0, entry_count = 1, mm_entries = small_memmap\<rparr>\<rparr>,
     fb_req := \<lparr>req_id = [], req_revision = 0, response = None\<rparr>,
     exe_req := \<lparr>req_id = [], req_revision = 0, response = None\<rparr>\<rparr>"

lemma boot_machine_free:
  "card (usable_pages small_memmap - reserved_pages small_memmap 0x200000 0x200000) \<ge> 2"
proof -
  let ?e = "\<lparr>me_base = 0x100000, me_length = 0x400000, me_type = 0\<rparr>"
  have e: "region_start ?e = 0x100000" "region_end ?e = 0x500000" by (simp_all add: region_start_def region_end_def)
  have "0x300 \<in> range_pages 0x100000 0x500000" "0x301 \<in> range_pages 0x100000 0x500000"
    by (simp_all add: range_pages_def)
  then have "{0x300, 0x301} \<subseteq> usable_pages small_memmap"
    by (simp add: usable_pages_def small_memmap_def usable_def region_pages_def e tracked_def)
  moreover have "{0x300, 0x301} \<inter> reserved_pages small_memmap 0x200000 0x200000 = {}"
    by (auto simp: reserved_pages_def small_memmap(2) range_pages_def)
  ultimately have "{0x300, 0x301} \<subseteq> usable_pages small_memmap - reserved_pages small_memmap 0x200000 0x200000"
    by blast
  then have "card {0x300, 0x301 :: u64} \<le> card (usable_pages small_memmap - reserved_pages small_memmap 0x200000 0x200000)"
    by (intro card_mono) simp_all
  then show ?thesis by simp
qed

lemma boot_machine_ok: "boot_ok boot_machine \<lparr>hhdm_revision = 0, hhdm_resp_offset = 0xffff800000000000\<rparr> small_memmap"
proof -
  have "kern_phys boot_machine = (0x200000, 0x200000)" by (simp add: kern_phys_def boot_machine_def)
  moreover have "aligned 4096 (0xffff800000000000 :: u64)" by (simp add: aligned_def)
  ultimately show ?thesis
    using boot_machine_free small_memmap
    by (simp add: boot_ok_def fb_answer_ok_def boot_machine_def LIMINE_BASE_REVISION_def) (simp add: small_memmap_def)
qed

theorem kmain_boots_witness:
  "\<exists>t pre. kmain boot_machine = Some t \<and> console t = pre @ ''DANA: boot complete'' @ nl \<and> halted t \<and> \<not> interrupts t"
  using kmain_boots [OF boot_machine_ok] by auto

theorem kmain_refuses_witness:
  "\<exists>t pre. kmain (static_requests (undefined :: kern_state)) = Some t \<and>
     console t = pre @ ''DANA: ERROR: Limine base revision not supported'' @ nl \<and> halted t"
proof -
  let ?s = "static_requests (undefined :: kern_state)"
  have "boot_error ?s = Some ''Limine base revision not supported''" "fb_answer_ok ?s"
    by (simp_all add: boot_error_def fb_answer_ok_def static_requests_def LIMINE_BASE_REVISION_def)
  from kmain_refuses [OF this] show ?thesis by auto
qed

end
