(* ===== verification/Vga.thy ===== *)
theory Vga
  imports Io
begin

text \<open>
  \<^verbatim>\<open>hal/x86_64/vga.c\<close>: the VGA text console at 0xb8000.  A cell is a 16-bit word, written as two bytes of
  memory.  The cursor is two C \<open>int\<close>s.  \<open>char\<close> is signed, so its conversion to 16 bits extends the sign.
\<close>

record vga_state = machine +
  vga_row :: int
  vga_col :: int
  vga_attr :: u8

definition VGA_COLS :: int where [simp]: "VGA_COLS = 80"
definition VGA_ROWS :: int where [simp]: "VGA_ROWS = 25"
definition VGA_COLOR_BLACK :: u8 where "VGA_COLOR_BLACK = 0"
definition VGA_COLOR_LIGHT_GREY :: u8 where "VGA_COLOR_LIGHT_GREY = 7"

text \<open>\<open>VGA_BUF[i]\<close>\<close>

definition VGA_BUF :: "int \<Rightarrow> addr" where
  "VGA_BUF i = 0xb8000 + 2 * of_int i"

definition vga_load :: "int \<Rightarrow> 'a machine_scheme \<Rightarrow> u16" where
  "vga_load i s = ucast (mem s (VGA_BUF i)) OR push_bit 8 (ucast (mem s (VGA_BUF i + 1)))"

definition vga_store :: "int \<Rightarrow> u16 \<Rightarrow> 'a machine_scheme \<Rightarrow> 'a machine_scheme" where
  "vga_store i v s = s\<lparr>mem := (mem s)(VGA_BUF i := ucast v, VGA_BUF i + 1 := ucast (drop_bit 8 v))\<rparr>"

definition vga_entry :: "u8 \<Rightarrow> u8 \<Rightarrow> u16" where
  "vga_entry c attr = scast c OR push_bit 8 (ucast attr)"

definition vga_update_cursor :: "'a vga_state_scheme \<Rightarrow> 'a vga_state_scheme" where
  "vga_update_cursor s =
     (let pos = of_int (vga_row s * VGA_COLS + vga_col s) :: u16;
          s = cpu_outb 0x3d4 0x0f s;
          s = cpu_outb 0x3d5 (ucast (pos AND 0xff)) s;
          s = cpu_outb 0x3d4 0x0e s
      in cpu_outb 0x3d5 (ucast (drop_bit 8 pos)) s)"

definition vga_scroll :: "'a vga_state_scheme \<Rightarrow> 'a vga_state_scheme" where
  "vga_scroll s =
     (let s = fold (\<lambda>row s. fold (\<lambda>col s.
                vga_store ((row - 1) * VGA_COLS + col) (vga_load (row * VGA_COLS + col) s) s) [0..79] s) [1..24] s;
          s = fold (\<lambda>col s. vga_store ((VGA_ROWS - 1) * VGA_COLS + col) (vga_entry 32 (vga_attr s)) s) [0..79] s
      in s\<lparr>vga_row := VGA_ROWS - 1\<rparr>)"

definition vga_clear :: "'a vga_state_scheme \<Rightarrow> 'a vga_state_scheme" where
  "vga_clear s =
     (let s = fold (\<lambda>i s. vga_store i (vga_entry 32 (vga_attr s)) s) [0..1999] s
      in vga_update_cursor (s\<lparr>vga_row := 0, vga_col := 0\<rparr>))"

definition vga_set_color :: "u8 \<Rightarrow> u8 \<Rightarrow> 'a vga_state_scheme \<Rightarrow> 'a vga_state_scheme" where
  "vga_set_color fg bg s = s\<lparr>vga_attr := push_bit 4 bg OR (fg AND 0x0f)\<rparr>"

definition vga_init :: "'a vga_state_scheme \<Rightarrow> 'a vga_state_scheme" where
  "vga_init s = vga_clear (vga_set_color VGA_COLOR_LIGHT_GREY VGA_COLOR_BLACK s)"

definition vga_putc :: "u8 \<Rightarrow> 'a vga_state_scheme \<Rightarrow> 'a vga_state_scheme" where
  "vga_putc c s =
     (let s =
        (if c = 10 then s\<lparr>vga_col := 0, vga_row := vga_row s + 1\<rparr>
         else if c = 13 then s\<lparr>vga_col := 0\<rparr>
         else if c = 9 then s\<lparr>vga_col := (vga_col s + 8) AND NOT 7\<rparr>
         else if c = 8 then
           (if vga_col s > 0 then
              let s = s\<lparr>vga_col := vga_col s - 1\<rparr>
              in vga_store (vga_row s * VGA_COLS + vga_col s) (vga_entry 32 (vga_attr s)) s
            else s)
         else
           let s = vga_store (vga_row s * VGA_COLS + vga_col s) (vga_entry c (vga_attr s)) s;
               s = s\<lparr>vga_col := vga_col s + 1\<rparr>
           in if vga_col s \<ge> VGA_COLS then s\<lparr>vga_col := 0, vga_row := vga_row s + 1\<rparr> else s);
          s = (if vga_row s \<ge> VGA_ROWS then vga_scroll s else s)
      in vga_update_cursor s)"

section \<open>The cursor\<close>

lemma vga_store_cursor [simp]:
  "vga_row (vga_store i v s) = vga_row s" "vga_col (vga_store i v s) = vga_col s" "vga_attr (vga_store i v s) = vga_attr s"
  by (simp_all add: vga_store_def)

lemma vga_update_cursor_cursor [simp]:
  "vga_row (vga_update_cursor s) = vga_row s" "vga_col (vga_update_cursor s) = vga_col s"
  by (simp_all add: vga_update_cursor_def Let_def cpu_outb_def port_write_def)

lemma fold_vga_cursor:
  "(\<And>x t. x \<in> set xs \<Longrightarrow> vga_col (f x t) = vga_col t) \<Longrightarrow> vga_col (fold f xs s) = vga_col s"
  by (induction xs arbitrary: s) auto

lemma vga_scroll_cursor [simp]: "vga_row (vga_scroll s) = 24" "vga_col (vga_scroll s) = vga_col s"
  by (simp_all add: vga_scroll_def Let_def fold_vga_cursor)

text \<open>The cursor stays on a row of the screen, and on a column unless the character is a tab.\<close>

lemma vga_putc_cursor:
  assumes "0 \<le> vga_row s" "vga_row s < VGA_ROWS" "0 \<le> vga_col s" "vga_col s < VGA_COLS"
  shows "0 \<le> vga_row (vga_putc c s) \<and> vga_row (vga_putc c s) < VGA_ROWS"
    "c \<noteq> 9 \<Longrightarrow> 0 \<le> vga_col (vga_putc c s) \<and> vga_col (vga_putc c s) < VGA_COLS"
  using assms by (auto simp: vga_putc_def Let_def)

end
