(* ===== verification/Ipc_Block.thy ===== *)
theory Ipc_Block
  imports Ipc_Msg
begin

text \<open>
  \<^verbatim>\<open>kern/ipc_msg.c\<close>, \<^verbatim>\<open>kern/ipc_port.c\<close> and \<^verbatim>\<open>kern/sched.c\<close> together: a receive on an empty port blocks its thread, a
  later send wakes it.  \<open>kstep\<close> is one call of the kernel by the current thread; its invariant \<open>sched_inv\<close> ties the run
  queue, the states of the threads and the waiting threads of the ports, and \<open>alive\<close> is the set of threads that can
  still run.
\<close>

section \<open>What the messages leave alone\<close>

definition same_sched :: "'a ipc_state_scheme \<Rightarrow> 'a ipc_state_scheme \<Rightarrow> bool" where
  "same_sched s t \<longleftrightarrow> threads t = threads s \<and> runqueue t = runqueue s \<and> cpu_data_ptr t = cpu_data_ptr s \<and>
     cpu_data_store t = cpu_data_store s \<and> ports t = ports s \<and> spaces t = spaces s \<and> tasks t = tasks s"

lemma same_sched_refl [simp]: "same_sched s s"
  by (simp add: same_sched_def)

lemma same_sched_trans: "same_sched s t \<Longrightarrow> same_sched t u \<Longrightarrow> same_sched s u"
  by (simp add: same_sched_def)

lemma same_sched_mem [simp]: "same_sched s (t\<lparr>mem := m\<rparr>) = same_sched s t"
  "same_sched s (upd_kmsg k f t) = same_sched s t" "same_sched s (upd_zone z g t) = same_sched s t"
  by (simp_all add: same_sched_def upd_kmsg_def upd_zone_def)

lemma grow_loop_same: "same_sched s (grow_loop z page i n s)"
proof (induction z page i n s rule: grow_loop.induct)
  case (1 z page i n s)
  show ?case
  proof (cases "i < n")
    case True
    from "1.IH" [OF True refl refl refl] show ?thesis
      by (subst grow_loop.simps) (simp add: True Let_def same_sched_def upd_zone_def)
  qed (simp add: grow_loop.simps)
qed

lemma zone_grow_same: "same_sched s (snd (zone_grow z s))"
proof -
  obtain pa u where al: "pmm_alloc_page s = (pa, u)" by fastforce
  obtain b c where u: "u = s\<lparr>bitmap := b, free_count := c\<rparr>" by (rule pmm_alloc_page_frame [OF al])
  have "same_sched s u" by (simp add: u same_sched_def)
  moreover have "same_sched s (grow_loop z page i n u)" for page i n
    by (rule same_sched_trans [OF calculation grow_loop_same])
  ultimately show ?thesis by (simp add: zone_grow_def al Let_def)
qed

lemma zalloc_same: "zalloc z s = Some (x, t) \<Longrightarrow> same_sched s t"
proof -
  assume a: "zalloc z s = Some (x, t)"
  then obtain i where i: "z = Some i" by (cases z) (auto simp: zalloc_def)
  obtain e u where g: "(if free_list (zone_store s i) = 0 then zone_grow i s else (0, s)) = (e, u)" by fastforce
  have "same_sched s u" using zone_grow_same [of s i] g by (auto split: if_splits)
  then show ?thesis using a g by (auto simp: zalloc_def i Let_def split: if_splits)
qed

lemma zfree_same: "zfree z x s = Some t \<Longrightarrow> same_sched s t"
  by (auto simp: zfree_def Let_def split: option.splits if_splits)

lemma get_kmsg_zone_same: "get_kmsg_zone s = Some (z, t) \<Longrightarrow> same_sched s t"
  by (auto simp: get_kmsg_zone_def zinit_def Let_def kprintf_def same_sched_def upd_zone_def
      split: if_splits option.splits bind_splits)

lemma kmsg_alloc_same: "ipc_kmsg_alloc sz s = Some (k, t) \<Longrightarrow> same_sched s t"
  by (auto simp: ipc_kmsg_alloc_def split: if_splits bind_splits
      dest!: get_kmsg_zone_same zalloc_same simp: same_sched_def upd_kmsg_def)

lemma kmsg_free_same: "ipc_kmsg_free k s = Some t \<Longrightarrow> same_sched s t"
  by (auto simp: ipc_kmsg_free_def split: if_splits bind_splits
      dest!: get_kmsg_zone_same zfree_same simp: same_sched_def)

lemma copyin_same: "same_sched s (snd (ipc_kmsg_copyin k m sz s))"
  by (simp add: ipc_kmsg_copyin_def Let_def)

lemma copyout_same: "same_sched s (snd (snd (ipc_kmsg_copyout k m sz s)))"
  by (simp add: ipc_kmsg_copyout_def Let_def split: option.split)

section \<open>What the scheduler leaves alone\<close>

definition same_ipc :: "'a ipc_state_scheme \<Rightarrow> 'a ipc_state_scheme \<Rightarrow> bool" where
  "same_ipc s t \<longleftrightarrow> ports t = ports s \<and> spaces t = spaces s \<and> tasks t = tasks s \<and> kmsgs t = kmsgs s \<and>
     bitmap t = bitmap s \<and> free_count t = free_count s \<and> hhdm_offset t = hhdm_offset s \<and>
     kmsg_zone t = kmsg_zone s \<and> zone_store t = zone_store s \<and> zone_count t = zone_count s \<and>
     (\<forall>x. thread_task (threads t x) = thread_task (threads s x))"

lemma same_ipc_trans: "same_ipc s t \<Longrightarrow> same_ipc t u \<Longrightarrow> same_ipc s u"
  by (simp add: same_ipc_def)

lemma same_ipc_ops:
  "same_ipc s (sched_set_state x st s)" "same_ipc s (snd (sched_enqueue x s))" "same_ipc s (snd (sched_dequeue x s))"
  "same_ipc s (cpu_set_current_thread x s)" "same_ipc s (sched_block x s)"
  by (simp_all add: same_ipc_def sched_set_state_def sched_enqueue_def sched_dequeue_def cpu_set_current_thread_def
      sched_block_def upd_sched_def Let_def split: option.split)

lemma thread_switch_same_ipc: "thread_switch x y s = Some t \<Longrightarrow> same_ipc s t"
proof -
  assume sw: "thread_switch x y s = Some t"
  then have "x \<noteq> 0" "y \<noteq> 0" by (auto simp: thread_switch_def Let_def split: if_splits)
  then show "same_ipc s t" using sw by (auto simp: thread_switch_eq same_ipc_def)
qed

lemma sched_run_same_ipc: "sched_run s = Some t \<Longrightarrow> same_ipc s t"
proof -
  assume run: "sched_run s = Some t"
  let ?c = "cpu_current_thread s" and ?n = "sched_choose s"
  let ?s1 = "if ?c \<noteq> 0 then if ts_state (sched (threads s ?c)) = THREAD_STATE_RUNNING
    then sched_set_state ?c THREAD_STATE_RUNNABLE s else s else s"
  let ?s2 = "sched_set_state ?n THREAD_STATE_RUNNING ?s1"
  let ?q = "snd (sched_enqueue ?n (snd (sched_dequeue ?n ?s2)))"
  have 1: "same_ipc s ?s1" using same_ipc_ops(1) [of s] by (auto simp: same_ipc_def)
  have 2: "same_ipc s ?s2" by (rule same_ipc_trans [OF 1 same_ipc_ops(1)])
  have 3: "same_ipc s ?q" by (rule same_ipc_trans [OF same_ipc_trans [OF 2 same_ipc_ops(3)] same_ipc_ops(2)])
  have "same_ipc s (if b then ?q else ?s2)" for b using 2 3 by simp
  then have 4: "same_ipc s (cpu_set_current_thread ?n (if b then ?q else ?s2))" for b
    using same_ipc_trans [OF _ same_ipc_ops(4)] by blast
  show ?thesis
  proof (cases "?n = 0 \<or> ?n = ?c")
    case True
    then show ?thesis using run by (auto simp: sched_run_def Let_def same_ipc_def)
  next
    case False
    let ?b = "ts_prev (sched (threads ?s2 ?n)) \<noteq> 0 \<or> ts_next (sched (threads ?s2 ?n)) \<noteq> 0 \<or> rq_head (runqueue ?s2) = ?n"
    have "thread_switch ?c ?n (cpu_set_current_thread ?n (if ?b then ?q else ?s2)) = Some t"
      using run False unfolding sched_run_def Let_def THREAD_NULL_def by (simp only: if_False simp_thms)
    then show ?thesis using same_ipc_trans [OF 4 thread_switch_same_ipc] by blast
  qed
qed

section \<open>The states of threads\<close>

abbreviation thread_st :: "'a sched_state_scheme \<Rightarrow> addr \<Rightarrow> thread_state" where
  "thread_st s x \<equiv> ts_state (sched (threads s x))"

lemma thread_st_ops:
  "thread_st (snd (sched_enqueue x s)) y = thread_st s y" "thread_st (snd (sched_dequeue x s)) y = thread_st s y"
  "thread_st (cpu_set_current_thread x s) y = thread_st s y"
  "thread_st (sched_set_state x st s) y = (if y = x \<and> x \<noteq> 0 then st else thread_st s y)"
  by (simp_all add: sched_enqueue_def sched_dequeue_def sched_set_state_def cpu_set_current_thread_def upd_sched_def Let_def
      split: option.split)

text \<open>A run either changes nothing or puts the first thread on the processor and last in the queue.\<close>

lemma sched_run_cases:
  assumes q: "run_queue s xs" "xs \<noteq> []" and c: "cpu_current_thread s \<noteq> 0" and cpu: "cpu_data_ptr s = Some i"
  obtains (stay) "hd xs = cpu_current_thread s" "sched_run s = Some s"
  | (switch) t where "hd xs \<noteq> cpu_current_thread s" "sched_run s = Some t" "run_queue t (tl xs @ [hd xs])"
      "cpu_current_thread t = hd xs" "cpu_data_ptr t = Some i" "cpu_idle_thread t = cpu_idle_thread s"
      "\<And>y. thread_st t y = (if y = hd xs then THREAD_STATE_RUNNING
         else if y = cpu_current_thread s \<and> thread_st s y = THREAD_STATE_RUNNING then THREAD_STATE_RUNNABLE else thread_st s y)"
proof -
  obtain x ys where xs: "xs = x # ys" using q(2) by (cases xs) auto
  let ?c = "cpu_current_thread s"
  show thesis
  proof (cases "x = ?c")
    case True
    then have "sched_run s = Some s" using run_queue_choose [OF q(1) [unfolded xs]] by (intro sched_run_noop) simp
    then show thesis using True xs by (intro stay) simp_all
  next
    case False
    have x0: "x \<noteq> 0" using run_queue_null [OF q(1)] xs by auto
    show thesis
    proof (rule sched_run_rotates [OF q(1) [unfolded xs] c _ cpu])
      fix t
      let ?s1 = "if thread_st s ?c = THREAD_STATE_RUNNING then sched_set_state ?c THREAD_STATE_RUNNABLE s else s"
      let ?r = "rq.rotate_one (sched_set_state x THREAD_STATE_RUNNING ?s1)"
      assume t: "sched_run s = Some t" "run_queue t (ys @ [x])" "cpu_current_thread t = x" "cpu_data_ptr t = Some i"
        "?c = x \<and> t = s \<or> thread_switch ?c x (cpu_set_current_thread x ?r) = Some t"
      then have sw: "thread_switch ?c x (cpu_set_current_thread x ?r) = Some t" using False by simp
      have rot: "thread_st (rq.rotate_one u) y = thread_st u y" "cpu_idle_thread (rq.rotate_one u) = cpu_idle_thread u"
        for u :: "'a sched_state_scheme" and y
        by (simp_all add: rq.rotate_one_def rq_take_def rq_put_def Let_def thread_st_ops)
      have "thread_st t y = thread_st ?r y" for y
        using thread_switch_frame(3) [OF sw, of y] by (simp add: thread_st_ops)
      then have st: "thread_st t y = (if y = x then THREAD_STATE_RUNNING
         else if y = ?c \<and> thread_st s y = THREAD_STATE_RUNNING then THREAD_STATE_RUNNABLE else thread_st s y)" for y
        using x0 c by (auto simp: rot thread_st_ops)
      have "cpu_idle_thread t = cpu_idle_thread s"
        using thread_switch_frame(6) [OF sw] by (simp add: rot)
      then show thesis using t False xs st by (intro switch [of t]) simp_all
    qed (use False in simp)
  qed
qed

section \<open>Threads are never lost, as long as no port has two waiters\<close>

text \<open>
  The run queue holds the current thread, the idle thread and every other that can run; a thread that waits on a
  port is blocked, in no queue, and waits on no second port.
\<close>

definition sched_inv :: "addr list \<Rightarrow> 'a ipc_state_scheme \<Rightarrow> bool" where
  "sched_inv xs s \<longleftrightarrow> run_queue s xs \<and> cpu_data_ptr s \<noteq> None \<and> cpu_idle_thread s \<in> set xs \<and> cpu_current_thread s \<in> set xs \<and>
     (\<forall>x \<in> set xs. thread_st s x = THREAD_STATE_RUNNABLE \<or> thread_st s x = THREAD_STATE_RUNNING) \<and>
     (\<forall>p. ip_waiting_thread (ports s p) \<noteq> 0 \<longrightarrow>
        ip_waiting_thread (ports s p) \<notin> set xs \<and> thread_st s (ip_waiting_thread (ports s p)) = THREAD_STATE_BLOCKED) \<and>
     (\<forall>p q. ip_waiting_thread (ports s p) = ip_waiting_thread (ports s q) \<longrightarrow> ip_waiting_thread (ports s p) \<noteq> 0 \<longrightarrow> p = q) \<and>
     (cpu_current_thread s = hd xs \<longrightarrow> tl xs = [])"

text \<open>The threads that will run again: those in the run queue and those a message can wake.\<close>

definition waiters :: "'a ipc_state_scheme \<Rightarrow> addr set" where
  "waiters s = {w. w \<noteq> 0 \<and> (\<exists>p. ip_waiting_thread (ports s p) = w)}"

definition alive :: "addr list \<Rightarrow> 'a ipc_state_scheme \<Rightarrow> addr set" where
  "alive xs s = set xs \<union> waiters s"

lemma sched_invD:
  assumes "sched_inv xs s"
  shows "run_queue s xs" "cpu_idle_thread s \<in> set xs" "cpu_current_thread s \<in> set xs" "xs \<noteq> []" "cpu_current_thread s \<noteq> 0"
    "\<And>x. x \<in> set xs \<Longrightarrow> thread_st s x = THREAD_STATE_RUNNABLE \<or> thread_st s x = THREAD_STATE_RUNNING"
    "\<And>p. ip_waiting_thread (ports s p) \<noteq> 0 \<Longrightarrow> ip_waiting_thread (ports s p) \<notin> set xs"
    "\<And>p. ip_waiting_thread (ports s p) \<noteq> 0 \<Longrightarrow> thread_st s (ip_waiting_thread (ports s p)) = THREAD_STATE_BLOCKED"
    "\<And>p q. ip_waiting_thread (ports s p) = ip_waiting_thread (ports s q) \<Longrightarrow> ip_waiting_thread (ports s p) \<noteq> 0 \<Longrightarrow> p = q"
    "cpu_current_thread s = hd xs \<Longrightarrow> tl xs = []"
  using assms by (auto simp: sched_inv_def)

lemma sched_invI:
  assumes "run_queue s xs" "cpu_data_ptr s \<noteq> None" "cpu_idle_thread s \<in> set xs" "cpu_current_thread s \<in> set xs"
    "\<And>x. x \<in> set xs \<Longrightarrow> thread_st s x = THREAD_STATE_RUNNABLE \<or> thread_st s x = THREAD_STATE_RUNNING"
    "\<And>p. ip_waiting_thread (ports s p) \<noteq> 0 \<Longrightarrow> ip_waiting_thread (ports s p) \<notin> set xs"
    "\<And>p. ip_waiting_thread (ports s p) \<noteq> 0 \<Longrightarrow> thread_st s (ip_waiting_thread (ports s p)) = THREAD_STATE_BLOCKED"
    "\<And>p q. ip_waiting_thread (ports s p) = ip_waiting_thread (ports s q) \<Longrightarrow> ip_waiting_thread (ports s p) \<noteq> 0 \<Longrightarrow> p = q"
    "cpu_current_thread s = hd xs \<Longrightarrow> tl xs = []"
  shows "sched_inv xs s"
  unfolding sched_inv_def using assms by blast

lemma sched_inv_same: "sched_inv xs s \<Longrightarrow> same_sched s t \<Longrightarrow> sched_inv xs t"
  by (simp add: sched_inv_def same_sched_def run_queue_def cpu_idle_thread_def cpu_current_thread_def cpu_get_def
      cong: option.case_cong)

lemma alive_cong: "(\<And>p. ip_waiting_thread (ports t p) = ip_waiting_thread (ports s p)) \<Longrightarrow> alive xs t = alive xs s"
  by (simp add: alive_def waiters_def)

lemma alive_same: "same_sched s t \<Longrightarrow> alive xs t = alive xs s"
  by (rule alive_cong) (simp add: same_sched_def)

lemma sched_run_inv:
  assumes inv: "sched_inv xs s"
  obtains t ys where "sched_run s = Some t" "sched_inv ys t" "alive ys t = alive xs s"
proof -
  note d = sched_invD [OF inv]
  obtain i where i: "cpu_data_ptr s = Some i" using inv by (auto simp: sched_inv_def)
  show thesis
  proof (cases rule: sched_run_cases [OF d(1,4,5) i])
    case 1
    then show thesis using that inv by blast
  next
    case (2 t)
    have ports: "ports t = ports s" using sched_run_same_ipc [OF 2(2)] by (simp add: same_ipc_def)
    have set: "set (tl xs @ [hd xs]) = set xs" using d(4) by (cases xs) auto
    show thesis
    proof (rule that [OF 2(2)])
      show "alive (tl xs @ [hd xs]) t = alive xs s" by (simp only: alive_def waiters_def set ports)
      show "sched_inv (tl xs @ [hd xs]) t"
      proof (rule sched_invI)
        show "run_queue t (tl xs @ [hd xs])" "cpu_data_ptr t \<noteq> None" using 2(3,5) by simp_all
        show "cpu_idle_thread t \<in> set (tl xs @ [hd xs])" "cpu_current_thread t \<in> set (tl xs @ [hd xs])"
          using 2(4,6) d(2,4) unfolding set by simp_all
        show "thread_st t x = THREAD_STATE_RUNNABLE \<or> thread_st t x = THREAD_STATE_RUNNING" if "x \<in> set (tl xs @ [hd xs])" for x
          using that d(6) [of x] unfolding set 2(7) by auto
        show "ip_waiting_thread (ports t p) \<notin> set (tl xs @ [hd xs])" if "ip_waiting_thread (ports t p) \<noteq> 0" for p
          using that d(7) [of p] unfolding set ports by simp
        show "thread_st t (ip_waiting_thread (ports t p)) = THREAD_STATE_BLOCKED" if "ip_waiting_thread (ports t p) \<noteq> 0" for p
          using that d(3,4) d(7) [of p] d(8) [of p] unfolding ports 2(7) by auto
        show "p = q" if "ip_waiting_thread (ports t p) = ip_waiting_thread (ports t q)" "ip_waiting_thread (ports t p) \<noteq> 0" for p q
          using that d(9) unfolding ports by blast
        show "tl (tl xs @ [hd xs]) = []" if "cpu_current_thread t = hd (tl xs @ [hd xs])"
        proof -
          have "distinct xs" using d(1) by (simp add: run_queue_def)
          then show ?thesis using that 2(4) d(4) by (cases xs; cases "tl xs") auto
        qed
      qed
    qed
  qed
qed

text \<open>The invariant looks at the ports only for their waiting threads.\<close>

lemma sched_inv_cong:
  assumes "sched_inv xs s" "threads t = threads s" "runqueue t = runqueue s" "cpu_data_ptr t = cpu_data_ptr s"
    "cpu_data_store t = cpu_data_store s" "\<And>p. ip_waiting_thread (ports t p) = ip_waiting_thread (ports s p)"
  shows "sched_inv xs t"
  using assms by (simp add: sched_inv_def run_queue_def cpu_idle_thread_def cpu_current_thread_def cpu_get_def cong: option.case_cong)

text \<open>A thread that waits for a port and is woken.\<close>

lemma sched_unblock_effect:
  assumes "w \<noteq> 0"
  shows "cpu_data_ptr (sched_unblock w t) = cpu_data_ptr t" "cpu_idle_thread (sched_unblock w t) = cpu_idle_thread t"
    "cpu_current_thread (sched_unblock w t) = cpu_current_thread t" "ports (sched_unblock w t) = ports t"
    "thread_st (sched_unblock w t) y = (if y = w then THREAD_STATE_RUNNABLE else thread_st t y)"
  using assms
  by (simp_all add: sched_unblock_def sched_enqueue_def sched_set_state_def upd_sched_def Let_def
      cpu_idle_thread_def cpu_current_thread_def cpu_get_def cong: option.case_cong)

lemma sched_unblock_inv:
  assumes inv: "sched_inv xs s" and w: "ip_waiting_thread (ports s p) = w" "w \<noteq> 0"
    and t: "threads t = threads s" "runqueue t = runqueue s" "cpu_data_ptr t = cpu_data_ptr s" "cpu_data_store t = cpu_data_store s"
      "\<And>q. ip_waiting_thread (ports t q) = (if q = p then 0 else ip_waiting_thread (ports s q))"
    and busy: "cpu_current_thread s \<noteq> cpu_idle_thread s"
  shows "sched_inv (xs @ [w]) (sched_unblock w t)"
proof (rule sched_invI)
  note d = sched_invD [OF inv]
  note e = sched_unblock_effect [OF w(2), of t]
  have wx: "w \<notin> set xs" using d(7) [of p] w by simp
  have q: "run_queue t xs" using d(1) t(1,2) by (simp add: run_queue_def)
  have cpu: "cpu_idle_thread t = cpu_idle_thread s" "cpu_current_thread t = cpu_current_thread s"
    using t(3,4) by (simp_all add: cpu_idle_thread_def cpu_current_thread_def cpu_get_def cong: option.case_cong)
  show "run_queue (sched_unblock w t) (xs @ [w])"
    using run_queue_enqueue [OF run_queue_set_state [OF q] w(2) wx] w(2) by (simp add: sched_unblock_def Let_def)
  show "cpu_data_ptr (sched_unblock w t) \<noteq> None" using inv by (simp add: e t(3) sched_inv_def)
  show "cpu_idle_thread (sched_unblock w t) \<in> set (xs @ [w])" "cpu_current_thread (sched_unblock w t) \<in> set (xs @ [w])"
    using d(2,3) by (simp_all add: e cpu)
  show "thread_st (sched_unblock w t) x = THREAD_STATE_RUNNABLE \<or> thread_st (sched_unblock w t) x = THREAD_STATE_RUNNING"
    if "x \<in> set (xs @ [w])" for x
    using d(6) [of x] that by (auto simp: e t(1))
  have other: "q \<noteq> p \<and> ip_waiting_thread (ports s q) \<noteq> 0 \<and> ip_waiting_thread (ports s q) \<noteq> w"
    if "ip_waiting_thread (ports t q) \<noteq> 0" for q
    using that d(9) [of p q] w by (auto simp: t(5) split: if_splits)
  show "ip_waiting_thread (ports (sched_unblock w t) q) \<notin> set (xs @ [w])"
    "thread_st (sched_unblock w t) (ip_waiting_thread (ports (sched_unblock w t) q)) = THREAD_STATE_BLOCKED"
    if n: "ip_waiting_thread (ports (sched_unblock w t) q) \<noteq> 0" for q
    using other [of q] n d(7) [of q] d(8) [of q] by (auto simp: e t(1,5))
  show "q = r" if "ip_waiting_thread (ports (sched_unblock w t) q) = ip_waiting_thread (ports (sched_unblock w t) r)"
    "ip_waiting_thread (ports (sched_unblock w t) q) \<noteq> 0" for q r
  proof -
    have n: "ip_waiting_thread (ports t q) = ip_waiting_thread (ports t r)" "ip_waiting_thread (ports t q) \<noteq> 0"
      using that by (simp_all add: e)
    then have "q \<noteq> p" "r \<noteq> p" using other [of q] other [of r] by metis+
    then have "ip_waiting_thread (ports s q) = ip_waiting_thread (ports s r)" "ip_waiting_thread (ports s q) \<noteq> 0"
      using n by (simp_all add: t(5))
    then show ?thesis by (rule d(9))
  qed
  have "tl xs \<noteq> []" using d(2-4) busy by (cases xs) auto
  then show "tl (xs @ [w]) = []" if "cpu_current_thread (sched_unblock w t) = hd (xs @ [w])"
    using that d(4,10) by (simp add: e cpu)
qed

lemma sched_unblock_alive:
  assumes w: "ip_waiting_thread (ports s p) = w" "w \<noteq> 0"
    and t: "\<And>q. ip_waiting_thread (ports t q) = (if q = p then 0 else ip_waiting_thread (ports s q))"
  shows "alive (xs @ [w]) (sched_unblock w t) = alive xs s"
proof -
  have "x \<in> waiters s \<longleftrightarrow> x \<in> insert w (waiters t)" for x
  proof (cases "x = w")
    case True
    then show ?thesis using w by (auto simp: waiters_def)
  next
    case False
    then have "ip_waiting_thread (ports s q) = x \<longleftrightarrow> q \<noteq> p \<and> ip_waiting_thread (ports s q) = x" for q using w(1) by auto
    then show ?thesis using False by (auto simp: waiters_def t split: if_splits)
  qed
  then have "insert w (waiters t) = waiters s" by blast
  then show ?thesis by (auto simp: alive_def waiters_def)
qed

lemma port_enqueue_cases:
  obtains (refused) kr where "ipc_port_enqueue port kmsg s = (kr, s)" "kr \<noteq> KERN_SUCCESS"
  | (quiet) "ipc_port_enqueue port kmsg s = (KERN_SUCCESS, s\<lparr>ports := (ports s)(port := put_msg kmsg (ports s port))\<rparr>)"
      "ip_waiting_thread (ports s port) = 0"
  | (woken) "ipc_port_enqueue port kmsg s = (KERN_SUCCESS,
      sched_unblock (ip_waiting_thread (ports s port)) (s\<lparr>ports := (ports s)(port := put_msg kmsg (ports s port))\<rparr>))"
      "ip_waiting_thread (ports s port) \<noteq> 0"
proof (cases "port = 0 \<or> kmsg = 0 \<or> ip_msg_count (ports s port) \<ge> 32")
  case True
  then have "ipc_port_enqueue port kmsg s = (KERN_INVALID_ARGUMENT, s) \<or> ipc_port_enqueue port kmsg s = (KERN_NO_SPACE, s)"
    by (simp add: ipc_port_enqueue_def) blast
  then show thesis by (rule disjE) (erule refused, simp)+
next
  case False
  show thesis
  proof (cases "ip_waiting_thread (ports s port) = 0")
    case True
    then have "put_msg kmsg (ports s port) = (ports s port)\<lparr>ip_messages := (ip_messages (ports s port))(unat (ip_msg_last (ports s port)) := kmsg),
        ip_msg_last := (ip_msg_last (ports s port) + 1) mod 32, ip_msg_count := ip_msg_count (ports s port) + 1\<rparr>"
      by (cases "ports s port") (simp add: put_msg_def)
    then show thesis using False True
      by (intro quiet) (simp_all add: ipc_port_enqueue_def Let_def upd_port_def)
  next
    case w: False
    then show thesis using False
      by (intro woken) (simp_all add: ipc_port_enqueue_def Let_def upd_port_def put_msg_def IPC_PORT_QUEUE_MAX_def)
  qed
qed

lemma port_enqueue_inv:
  assumes inv: "sched_inv xs s" and busy: "cpu_current_thread s \<noteq> cpu_idle_thread s"
  obtains ys where "sched_inv ys (snd (ipc_port_enqueue port kmsg s))" "alive ys (snd (ipc_port_enqueue port kmsg s)) = alive xs s"
proof (cases rule: port_enqueue_cases [of port kmsg s])
  case refused
  then show thesis using that inv by simp
next
  case quiet
  let ?u = "s\<lparr>ports := (ports s)(port := put_msg kmsg (ports s port))\<rparr>"
  have w: "ip_waiting_thread (ports ?u p) = ip_waiting_thread (ports s p)" for p
    using quiet(2) by (simp add: put_msg_def)
  have "sched_inv xs ?u" by (rule sched_inv_cong [OF inv]) (use w in simp_all)
  moreover have "alive xs ?u = alive xs s" using w by (rule alive_cong)
  ultimately show thesis by (rule that [of xs, unfolded quiet(1) snd_conv])
next
  case woken
  have "sched_inv (xs @ [ip_waiting_thread (ports s port)])
      (sched_unblock (ip_waiting_thread (ports s port)) (s\<lparr>ports := (ports s)(port := put_msg kmsg (ports s port))\<rparr>))"
    by (rule sched_unblock_inv [OF inv refl woken(2)]) (simp_all add: put_msg_def busy)
  moreover have "alive (xs @ [ip_waiting_thread (ports s port)])
      (sched_unblock (ip_waiting_thread (ports s port)) (s\<lparr>ports := (ports s)(port := put_msg kmsg (ports s port))\<rparr>)) = alive xs s"
    by (rule sched_unblock_alive [OF refl woken(2)]) (simp add: put_msg_def)
  ultimately show thesis by (rule that [unfolded woken(1) snd_conv])
qed

text \<open>A send ends with the message in a queue, or leaves the scheduler and the ports alone.\<close>

lemma mach_msg_send_steps:
  assumes "mach_msg_send msg sz s = Some (kr, t)"
  obtains (nothing) "same_sched s t" "kr \<noteq> KERN_SUCCESS"
  | (queued) u port kmsg where "same_sched s u" "ipc_port_enqueue port kmsg u = (KERN_SUCCESS, t)" "kr = KERN_SUCCESS"
      "has_right (msgh_remote_port (mem s) msg) port s"
proof -
  let ?n = "msgh_remote_port (mem s) msg" and ?tk = "thread_task (threads s (sched_current s))"
  let ?sp = "itk_space (tasks s ?tk)"
  show thesis
  proof (cases "msg = 0 \<or> sz < sizeof_mach_msg_header \<or> ?n = 0 \<or> ?tk = 0 \<or> ?sp = 0 \<or> names (spaces s ?sp) ?n = None")
    case True
    then have "t = s \<and> kr = KERN_INVALID_ARGUMENT"
      using assms lookup_names [of ?sp ?n s] by (auto simp: mach_msg_send_def Let_def split: if_splits)
    then have "same_sched s t" "kr \<noteq> KERN_SUCCESS" by simp_all
    then show thesis by (rule nothing)
  next
    case False
    then obtain port where port: "names (spaces s ?sp) ?n = Some port" by auto
    have cur: "sched_current s \<noteq> 0" using assms False by (auto simp: mach_msg_send_def Let_def split: if_splits)
    have look: "ipc_space_lookup ?sp ?n False s = (KERN_SUCCESS, port)" using lookup_names [of ?sp ?n s] False port by simp
    have right: "has_right ?n port s" using False port cur by (simp add: has_right_def Let_def)
    obtain kmsg s1 where al: "ipc_kmsg_alloc sz s = Some (kmsg, s1)"
      using assms False look cur by (auto simp: mach_msg_send_def Let_def split: if_splits bind_splits)
    obtain k2 s2 where ci: "ipc_kmsg_copyin kmsg msg sz s1 = (k2, s2)" by fastforce
    let ?u = "upd_kmsg kmsg (\<lambda>k. k\<lparr>ikm_port := port\<rparr>) s2"
    obtain k3 s3 where en: "ipc_port_enqueue port kmsg ?u = (k3, s3)" by fastforce
    have s1: "same_sched s s1" by (rule kmsg_alloc_same [OF al])
    have s2: "same_sched s s2" using same_sched_trans [OF s1 copyin_same [of s1 kmsg msg sz]] ci by simp
    then have su: "same_sched s ?u" by simp
    have run: "mach_msg_send msg sz s =
      (if kmsg = 0 then Some (KERN_NO_SPACE, s1)
       else if k2 \<noteq> KERN_SUCCESS then do { s \<leftarrow> ipc_kmsg_free kmsg s2; Some (k2, s) }
       else if k3 \<noteq> KERN_SUCCESS then do { s \<leftarrow> ipc_kmsg_free kmsg s3; Some (k3, s) }
       else Some (KERN_SUCCESS, s3))"
      using False look cur by (simp add: mach_msg_send_def Let_def al ci en)
    have s3: "same_sched s s3" if "k3 \<noteq> KERN_SUCCESS"
      using port_enqueue_cases [of port kmsg ?u] en that su by (metis prod.inject)
    have free: "same_sched v w \<Longrightarrow> ipc_kmsg_free kmsg w = Some t \<Longrightarrow> same_sched v t" for v w
      by (rule same_sched_trans [OF _ kmsg_free_same])
    show thesis
    proof (cases "kmsg \<noteq> 0 \<and> k2 = KERN_SUCCESS \<and> k3 = KERN_SUCCESS")
      case True
      then show thesis using run assms en su right by (intro queued [of ?u port kmsg]) auto
    next
      case False
      then consider "kmsg = 0" | "kmsg \<noteq> 0" "k2 \<noteq> KERN_SUCCESS" | "kmsg \<noteq> 0" "k2 = KERN_SUCCESS" "k3 \<noteq> KERN_SUCCESS" by blast
      then have "same_sched s t \<and> kr \<noteq> KERN_SUCCESS"
      proof cases
        case 1
        then show ?thesis using run assms s1 by simp
      next
        case 2
        then show ?thesis using run assms free [OF s2] by (auto split: bind_splits)
      next
        case 3
        then show ?thesis using run assms free [OF s3] by (auto split: bind_splits)
      qed
      then show thesis by (elim conjE) (rule nothing)
    qed
  qed
qed

lemma same_sched_cpu:
  "same_sched s t \<Longrightarrow> cpu_current_thread t = cpu_current_thread s \<and> cpu_idle_thread t = cpu_idle_thread s"
  by (simp add: same_sched_def cpu_current_thread_def cpu_idle_thread_def cpu_get_def cong: option.case_cong)

lemma mach_msg_send_inv:
  assumes inv: "sched_inv xs s" and busy: "cpu_current_thread s \<noteq> cpu_idle_thread s" and run: "mach_msg_send msg sz s = Some (kr, t)"
  obtains ys where "sched_inv ys t" "alive ys t = alive xs s"
proof (cases rule: mach_msg_send_steps [OF run])
  case 1
  then show thesis using that [of xs] sched_inv_same [OF inv 1(1)] alive_same [OF 1(1)] by simp
next
  case (2 u port kmsg)
  show thesis
  proof (rule port_enqueue_inv [OF sched_inv_same [OF inv 2(1)], of port kmsg])
    show "cpu_current_thread u \<noteq> cpu_idle_thread u" using same_sched_cpu [OF 2(1)] busy by simp
  qed (use 2(2) alive_same [OF 2(1)] that in simp)
qed

section \<open>Receiving\<close>

lemma receive_rest_inv:
  assumes inv: "sched_inv xs s" and run: "receive_rest port msg sz s = Some (Done kr sz' t)"
  shows "sched_inv xs t \<and> alive xs t = alive xs s"
proof -
  obtain k u where deq: "ipc_port_dequeue port s = (k, u)" by fastforce
  have u: "sched_inv xs u" "alive xs u = alive xs s"
  proof -
    have w: "ip_waiting_thread (ports u p) = ip_waiting_thread (ports s p)" for p
      using deq by (auto simp: ipc_port_dequeue_def Let_def upd_port_def split: if_splits)
    then show "alive xs u = alive xs s" by (rule alive_cong)
    show "sched_inv xs u"
      by (rule sched_inv_cong [OF inv])
        (use w deq in \<open>auto simp: ipc_port_dequeue_def Let_def upd_port_def split: if_splits\<close>)
  qed
  obtain k2 sz2 v where co: "ipc_kmsg_copyout k msg sz u = (k2, sz2, v)" by (cases "ipc_kmsg_copyout k msg sz u") auto
  have v: "same_sched u v" using copyout_same [of u k msg sz] co by simp
  consider "t = s" | "t = u" | "ipc_kmsg_free k v = Some t"
    using run deq co by (auto simp: receive_rest_def split: if_splits bind_splits)
  then show ?thesis
  proof cases
    case 3
    have "same_sched u t" by (rule same_sched_trans [OF v kmsg_free_same [OF 3]])
    then show ?thesis using sched_inv_same [OF u(1)] alive_same [of u t xs] u(2) by simp
  qed (use inv u in simp_all)
qed

text \<open>A receive is refused, takes a message, or waits.\<close>

definition wait_on :: "addr \<Rightarrow> 'a ipc_state_scheme \<Rightarrow> 'a ipc_state_scheme" where
  "wait_on port s = sched_block (sched_current s) (upd_port port (\<lambda>p. p\<lparr>ip_waiting_thread := sched_current s\<rparr>) s)"

lemma mach_msg_receive_right:
  assumes "has_right (msgh_local_port (mem s) msg) port s" "msg \<noteq> 0" "sz \<noteq> None"
  shows "mach_msg_receive msg sz s =
    (if ip_msg_count (ports s port) = 0 then
       if sched_choose (wait_on port s) = 0 \<or> sched_choose (wait_on port s) = sched_current s
       then receive_rest port msg sz (wait_on port s)
       else do { s \<leftarrow> sched_run (wait_on port s); Some (Blocked port s) }
     else receive_rest port msg sz s)"
proof -
  have "sched_current s \<noteq> 0" "thread_task (threads s (sched_current s)) \<noteq> 0"
    "itk_space (tasks s (thread_task (threads s (sched_current s)))) \<noteq> 0"
    using assms(1) by (simp_all add: has_right_def Let_def)
  then show ?thesis
    using has_right_lookup [OF assms(1)] assms(2,3)
    by (cases sz) (simp_all add: mach_msg_receive_def Let_def wait_on_def)
qed

lemma mach_msg_receive_waits:
  assumes "msg \<noteq> 0" "has_right (msgh_local_port (mem s) msg) port s" "ip_msg_count (ports s port) = 0"
    "sched_choose (wait_on port s) \<noteq> 0" "sched_choose (wait_on port s) \<noteq> sched_current s" "sched_run (wait_on port s) = Some t"
  shows "mach_msg_receive msg (Some r) s = Some (Blocked port t)"
  using mach_msg_receive_right [OF assms(2,1), of "Some r"] assms(3-6) by simp

lemma mach_msg_receive_cases:
  assumes "mach_msg_receive msg sz s = Some r"
  obtains (refused) kr where "r = Done kr sz s"
  | (taken) port where "has_right (msgh_local_port (mem s) msg) port s" "ip_msg_count (ports s port) \<noteq> 0"
      "receive_rest port msg sz s = Some r"
  | (waits) port where "has_right (msgh_local_port (mem s) msg) port s" "ip_msg_count (ports s port) = 0"
      "r = (if sched_choose (wait_on port s) = 0 \<or> sched_choose (wait_on port s) = sched_current s
         then the (receive_rest port msg sz (wait_on port s)) else Blocked port (the (sched_run (wait_on port s))))"
proof -
  let ?n = "msgh_local_port (mem s) msg" and ?tk = "thread_task (threads s (sched_current s))"
  let ?sp = "itk_space (tasks s ?tk)"
  show thesis
  proof (cases "msg = 0 \<or> sz = None \<or> ?n = 0 \<or> ?tk = 0 \<or> ?sp = 0 \<or> names (spaces s ?sp) ?n = None")
    case True
    then have "\<exists>kr. r = Done kr sz s"
      using assms lookup_names [of ?sp ?n s] by (auto simp: mach_msg_receive_def Let_def split: if_splits)
    then show thesis using refused by blast
  next
    case False
    then obtain port where port: "names (spaces s ?sp) ?n = Some port" by auto
    have cur: "sched_current s \<noteq> 0" using assms False by (auto simp: mach_msg_receive_def Let_def split: if_splits)
    have right: "has_right ?n port s" using False port cur by (simp add: has_right_def Let_def)
    have msz: "msg \<noteq> 0" "sz \<noteq> None" using False by simp_all
    note run = mach_msg_receive_right [OF right msz]
    show thesis
    proof (cases "ip_msg_count (ports s port) = 0")
      case True
      show thesis
        by (rule waits [OF right True]) (use assms True run in \<open>auto split: if_splits bind_splits dest: sym\<close>)
    next
      case f: False
      show thesis by (rule taken [OF right f]) (use assms f run in simp)
    qed
  qed
qed

lemma wait_on_inv:
  assumes inv: "sched_inv xs s" and busy: "cpu_current_thread s \<noteq> cpu_idle_thread s"
  obtains t ys where "sched_run (wait_on port s) = Some t" "sched_choose (wait_on port s) \<noteq> 0"
    "sched_choose (wait_on port s) \<noteq> sched_current s" "sched_inv ys t" "set ys = set xs - {cpu_current_thread s}"
    "ys = rotate1 (remove1 (cpu_current_thread s) xs)" "cpu_current_thread t = last ys" "cpu_idle_thread t = cpu_idle_thread s"
    "\<And>p. ip_waiting_thread (ports t p) = (if p = port then cpu_current_thread s else ip_waiting_thread (ports s p))"
    "thread_st t (cpu_current_thread s) = THREAD_STATE_BLOCKED"
proof -
  let ?c = "cpu_current_thread s"
  let ?v = "upd_port port (\<lambda>p. p\<lparr>ip_waiting_thread := ?c\<rparr>) s"
  note d = sched_invD [OF inv]
  obtain i where i: "cpu_data_ptr s = Some i" using inv by (auto simp: sched_inv_def)
  obtain as bs where xs: "xs = as @ ?c # bs" using d(3) by (auto simp: in_set_conv_decomp)
  have dx: "distinct xs" "0 \<notin> set xs" using d(1) by (simp_all add: run_queue_def)
  let ?u = "wait_on port s" and ?zs = "as @ bs"
  have u: "?u = snd (sched_dequeue ?c (sched_set_state ?c THREAD_STATE_BLOCKED ?v))"
    using d(5) by (simp add: wait_on_def sched_block_def sched_current_def Let_def)
  have "run_queue ?v (as @ ?c # bs)" using d(1) unfolding xs by (simp add: run_queue_def upd_port_def)
  then have q: "run_queue ?u ?zs"
    unfolding u by (intro run_queue_dequeue [THEN conjunct2] run_queue_set_state)
  have cpu: "cpu_current_thread ?u = ?c" "cpu_idle_thread ?u = cpu_idle_thread s" "cpu_data_ptr ?u = Some i"
    using i by (simp_all add: u upd_port_def cpu_current_thread_def cpu_idle_thread_def cpu_get_def
        sched_dequeue_def sched_set_state_def upd_sched_def Let_def cong: option.case_cong)
  have st: "thread_st ?u y = (if y = ?c then THREAD_STATE_BLOCKED else thread_st s y)" for y
    using d(5) by (simp add: u thread_st_ops upd_port_def)
  have zs: "set ?zs = set xs - {?c}" "?c \<notin> set ?zs" using xs dx(1) by auto
  have idle: "cpu_idle_thread s \<in> set ?zs" using d(2) busy zs(1) by simp
  then have ne: "?zs \<noteq> []" by auto
  then have hd: "hd ?zs \<in> set ?zs" by (rule hd_in_set)
  have ch: "sched_choose ?u = hd ?zs" using q ne by (metis list.collapse run_queue_choose)
  have h: "hd ?zs \<noteq> ?c" "hd ?zs \<noteq> 0" using hd zs dx(2) xs by auto
  have pu: "ports ?u = ports ?v" by (simp add: u sched_dequeue_def sched_set_state_def upd_sched_def Let_def)
  have c0: "cpu_current_thread ?u \<noteq> 0" using cpu d(5) by simp
  show thesis
  proof (cases rule: sched_run_cases [OF q ne c0 cpu(3)])
    case 1
    then show thesis using h cpu by simp
  next
    case (2 t)
    have pt: "ip_waiting_thread (ports t p) = (if p = port then ?c else ip_waiting_thread (ports s p))" for p
      using sched_run_same_ipc [OF 2(2)] by (simp add: same_ipc_def pu upd_port_def)
    have rot: "tl ?zs @ [hd ?zs] = rotate1 (remove1 ?c xs)"
      using xs dx(1) ne by (simp add: remove1_append rotate1_hd_tl)
    then have lst: "last (rotate1 (remove1 ?c xs)) = hd ?zs" by (metis last_snoc)
    have ys: "set (tl ?zs @ [hd ?zs]) = set ?zs" using ne by (cases ?zs) auto
    have stt: "thread_st t y = (if y = hd ?zs then THREAD_STATE_RUNNING else if y = ?c then THREAD_STATE_BLOCKED else thread_st s y)" for y
      unfolding 2(7) by (simp add: st cpu)
    have only: "p = port" if "ip_waiting_thread (ports t p) = ?c" for p
    proof (rule ccontr)
      assume "p \<noteq> port"
      then have "ip_waiting_thread (ports s p) = ?c" using that by (simp add: pt)
      then show False using d(3,5) d(7) [of p] by simp
    qed
    have "sched_inv (tl ?zs @ [hd ?zs]) t"
    proof (rule sched_invI)
      show "run_queue t (tl ?zs @ [hd ?zs])" "cpu_data_ptr t \<noteq> None" using 2(3,5) by simp_all
      show "cpu_idle_thread t \<in> set (tl ?zs @ [hd ?zs])" "cpu_current_thread t \<in> set (tl ?zs @ [hd ?zs])"
        unfolding ys using 2(4,6) idle cpu hd by simp_all
      show "thread_st t x = THREAD_STATE_RUNNABLE \<or> thread_st t x = THREAD_STATE_RUNNING" if "x \<in> set (tl ?zs @ [hd ?zs])" for x
        using that d(6) [of x] zs unfolding ys stt by auto
      show "ip_waiting_thread (ports t p) \<notin> set (tl ?zs @ [hd ?zs])" if "ip_waiting_thread (ports t p) \<noteq> 0" for p
      proof (cases "p = port")
        case True
        then show ?thesis using zs(2) unfolding ys pt by simp
      next
        case False
        then show ?thesis using that d(7) [of p] zs(1) unfolding ys by (simp add: pt)
      qed
      show "thread_st t (ip_waiting_thread (ports t p)) = THREAD_STATE_BLOCKED" if "ip_waiting_thread (ports t p) \<noteq> 0" for p
      proof (cases "p = port")
        case True
        then show ?thesis using h(1) by (simp add: pt stt)
      next
        case False
        then have eq: "ip_waiting_thread (ports t p) = ip_waiting_thread (ports s p)" by (simp add: pt)
        then have n: "ip_waiting_thread (ports s p) \<noteq> 0" using that by simp
        have "hd ?zs \<in> set xs" using hd zs(1) by blast
        then have "ip_waiting_thread (ports s p) \<noteq> hd ?zs" using d(7) [OF n] by metis
        then show ?thesis unfolding eq stt using d(8) [OF n] by (simp only: if_False if_cancel)
      qed
      show "p = q" if "ip_waiting_thread (ports t p) = ip_waiting_thread (ports t q)" "ip_waiting_thread (ports t p) \<noteq> 0" for p q
      proof (cases "p = port \<or> q = port")
        case True
        then have "ip_waiting_thread (ports t p) = ?c" using that(1) by (elim disjE) (simp_all add: pt)
        then show ?thesis using that(1) only by metis
      next
        case False
        then have "ip_waiting_thread (ports t p) = ip_waiting_thread (ports s p)"
          "ip_waiting_thread (ports t q) = ip_waiting_thread (ports s q)" by (simp_all add: pt)
        then have "ip_waiting_thread (ports s p) = ip_waiting_thread (ports s q)" "ip_waiting_thread (ports s p) \<noteq> 0"
          using that by metis+
        then show ?thesis by (rule d(9))
      qed
      show "tl (tl ?zs @ [hd ?zs]) = []" if "cpu_current_thread t = hd (tl ?zs @ [hd ?zs])"
      proof -
        have "distinct ?zs" using q by (simp add: run_queue_def)
        then show ?thesis using that 2(4) ne by (cases ?zs; cases "tl ?zs") auto
      qed
    qed
    moreover have "thread_st t ?c = THREAD_STATE_BLOCKED" using h(1) by (simp add: stt)
    ultimately show thesis
      using 2(2,4,6) ch h ys zs(1) pt cpu rot lst by (intro that [of t "tl ?zs @ [hd ?zs]"]) (simp_all add: sched_current_def)
  qed
qed

section \<open>The steps of the kernel\<close>

text \<open>
  What the current thread can do: yield, send, receive, wait, go on after a wait, or write memory.  Only the
  idle thread never sends or receives, and no thread waits on a port that has a waiting thread already.
\<close>

inductive kstep :: "'a ipc_state_scheme \<Rightarrow> 'a ipc_state_scheme \<Rightarrow> bool" where
  yield: "thread_yield s = Some t \<Longrightarrow> kstep s t"
| send: "cpu_current_thread s \<noteq> cpu_idle_thread s \<Longrightarrow> mach_msg_send msg sz s = Some (kr, t) \<Longrightarrow> kstep s t"
| receive: "cpu_current_thread s \<noteq> cpu_idle_thread s \<Longrightarrow> mach_msg_receive msg sz s = Some (Done kr sz' t) \<Longrightarrow> kstep s t"
| wait: "cpu_current_thread s \<noteq> cpu_idle_thread s \<Longrightarrow> mach_msg_receive msg sz s = Some (Blocked port t) \<Longrightarrow>
    ip_waiting_thread (ports s port) = 0 \<Longrightarrow> kstep s t"
| resume: "receive_rest port msg sz s = Some (Done kr sz' t) \<Longrightarrow> kstep s t"
| store: "kstep s (s\<lparr>mem := m\<rparr>)"

lemma receive_rest_done: "receive_rest port msg sz s \<noteq> Some (Blocked p t)"
  by (auto simp: receive_rest_def split: prod.split bind_splits)

lemma mach_msg_receive_done:
  assumes inv: "sched_inv xs s" and busy: "cpu_current_thread s \<noteq> cpu_idle_thread s"
    and run: "mach_msg_receive msg sz s = Some (Done kr sz' t)"
  shows "sched_inv xs t \<and> alive xs t = alive xs s"
proof (cases rule: mach_msg_receive_cases [OF run])
  case 1
  then show ?thesis using inv by simp
next
  case (2 port)
  show ?thesis by (rule receive_rest_inv [OF inv 2(3)])
next
  case (3 port)
  show ?thesis by (rule wait_on_inv [OF inv busy, of port]) (use 3(3) in simp)
qed

lemma mach_msg_receive_blocked:
  assumes run: "mach_msg_receive msg sz s = Some (Blocked port t)" and inv: "sched_inv xs s"
    and busy: "cpu_current_thread s \<noteq> cpu_idle_thread s"
  obtains "sched_run (wait_on port s) = Some t" "has_right (msgh_local_port (mem s) msg) port s" "ip_msg_count (ports s port) = 0"
proof (cases rule: mach_msg_receive_cases [OF run])
  case (3 p)
  show thesis by (rule wait_on_inv [OF inv busy, of p]) (use 3 that in simp)
qed (use receive_rest_done [of _ msg sz s port t] in auto)

lemma waiters_wait:
  assumes c: "c \<noteq> 0" and p: "\<And>p. ip_waiting_thread (ports t p) = (if p = port then c else ip_waiting_thread (ports s p))"
  shows "waiters t = insert c {w. w \<noteq> 0 \<and> (\<exists>p. p \<noteq> port \<and> ip_waiting_thread (ports s p) = w)}"
  unfolding waiters_def p using c by auto

lemma kstep_inv:
  assumes step: "kstep s t" and inv: "sched_inv xs s"
  obtains ys where "sched_inv ys t" "alive ys t = alive xs s"
  using step
proof cases
  case yield
  then have run: "sched_run s = Some t" by (simp add: thread_yield_eq)
  show thesis by (rule sched_run_inv [OF inv]) (use run that in simp)
next
  case send
  show thesis by (rule mach_msg_send_inv [OF inv send]) (rule that)
next
  case receive
  then show thesis using mach_msg_receive_done [OF inv receive] that by blast
next
  case (wait msg sz port)
  have run: "sched_run (wait_on port s) = Some t"
    by (rule mach_msg_receive_blocked [OF wait(2) inv wait(1)])
  show thesis
  proof (rule wait_on_inv [OF inv wait(1), of port])
    fix u ys
    let ?c = "cpu_current_thread s"
    assume u: "sched_run (wait_on port s) = Some u" "sched_inv ys u" "set ys = set xs - {?c}"
      "\<And>p. ip_waiting_thread (ports u p) = (if p = port then ?c else ip_waiting_thread (ports s p))"
    note d = sched_invD [OF inv]
    have "waiters u = insert ?c {w. w \<noteq> 0 \<and> (\<exists>p. p \<noteq> port \<and> ip_waiting_thread (ports s p) = w)}"
      by (rule waiters_wait [OF d(5) u(4)])
    also have "{w. w \<noteq> 0 \<and> (\<exists>p. p \<noteq> port \<and> ip_waiting_thread (ports s p) = w)} = waiters s"
      using wait(3) by (auto simp: waiters_def)
    finally have "alive ys u = alive xs s" using u(3) d(3) by (auto simp: alive_def)
    then show thesis using u(1,2) run that by simp
  qed
next
  case (resume port msg sz kr sz')
  then show thesis using receive_rest_inv [OF inv resume] that by blast
next
  case (store m)
  have "same_sched s t" by (simp add: store)
  then show thesis using that sched_inv_same [OF inv] alive_same by blast
qed

lemma kstep_invariant:
  assumes "kstep\<^sup>*\<^sup>* s t" "sched_inv xs s"
  shows "\<exists>ys. sched_inv ys t \<and> alive ys t = alive xs s"
using assms
proof (induction rule: rtranclp_induct)
  case base
  then show ?case by blast
next
  case (step u v)
  then obtain ys where ys: "sched_inv ys u" "alive ys u = alive xs s" by blast
  show ?case by (rule kstep_inv [OF step(2) ys(1)]) (use ys(2) in auto)
qed

text \<open>
  C7: No thread is lost.  From a state where the run queue and the ports' waiting threads fit together, any
  sequence of yields, sends, receives and waits keeps the invariant and the set of threads that are
  queued or waiting on a port, as long as no thread waits on a port another waits on.
\<close>

theorem kernel_keeps_threads:
  assumes "kstep\<^sup>*\<^sup>* s t" "sched_inv xs s"
  shows "\<exists>ys. sched_inv ys t \<and> alive ys t = alive xs s"
  by (rule kstep_invariant [OF assms])

section \<open>A blocked receiver and its message\<close>

lemma sched_runs_same_ipc: "sched_runs n s = Some t \<Longrightarrow> same_ipc s t"
proof (induction n arbitrary: s)
  case 0
  then show ?case by (simp add: same_ipc_def)
next
  case (Suc n)
  then obtain u where "sched_run s = Some u" "sched_runs n u = Some t" by (auto split: bind_splits)
  then show ?case using same_ipc_trans sched_run_same_ipc Suc.IH by blast
qed

text \<open>Under the invariant every queued thread is reached, within one turn of the queue.\<close>

lemma sched_runs_reach:
  assumes inv: "sched_inv xs s" and x: "x \<in> set xs" "tl xs \<noteq> []"
  shows "\<exists>n t. n \<le> length xs \<and> sched_runs n s = Some t \<and> cpu_current_thread t = x"
proof -
  note d = sched_invD [OF inv]
  obtain i where i: "cpu_data_ptr s = Some i" using inv by (auto simp: sched_inv_def)
  show ?thesis
  proof (cases rule: sched_run_cases [OF d(1,4,5) i])
    case 1
    then show ?thesis using d(10) x(2) by simp
  next
    case (2 t)
    let ?ys = "tl xs @ [hd xs]"
    show ?thesis
    proof (cases "x = hd xs")
      case True
      have "1 \<le> length xs" using d(4) by (cases xs) auto
      then show ?thesis using 2(2,4) True by (intro exI [of _ 1] exI [of _ t]) simp
    next
      case False
      then have "x \<in> set (tl xs)" using x(1) by (cases xs) auto
      then obtain k where k: "k < length (tl xs)" "tl xs ! k = x" by (auto simp: in_set_conv_nth)
      have "hd xs \<noteq> 0" using d(1,4) run_queue_null hd_in_set by metis
      then have "\<exists>w. sched_runs (Suc k) t = Some w \<and> run_queue w (rotate (Suc k) ?ys) \<and>
          cpu_current_thread w = ?ys ! (k mod length ?ys)"
        by (intro sched_runs_rotate [OF 2(3)]) (use 2(4,5) in simp_all)
      then obtain w where w: "sched_runs (Suc k) t = Some w" "cpu_current_thread w = ?ys ! k" using k(1) by auto
      have "cpu_current_thread w = x" using w(2) k by (simp add: nth_append)
      moreover have "sched_runs (Suc (Suc k)) s = Some w" using 2(2) w(1) by simp
      moreover have "Suc (Suc k) \<le> length xs" using k(1) by simp
      ultimately show ?thesis by blast
    qed
  qed
qed

text \<open>A send to a port with a waiting thread queues that thread last and clears the port's waiting thread.\<close>

lemma send_wakes:
  assumes inv: "sched_inv xs s" and busy: "cpu_current_thread s \<noteq> cpu_idle_thread s"
    and run: "mach_msg_send msg sz s = Some (KERN_SUCCESS, t)" and right: "has_right (msgh_remote_port (mem s) msg) port s"
    and w: "ip_waiting_thread (ports s port) = w" "w \<noteq> 0"
  shows "sched_inv (xs @ [w]) t \<and> tl (xs @ [w]) \<noteq> [] \<and> ip_waiting_thread (ports t port) = 0 \<and> ip_msg_count (ports t port) \<noteq> 0"
proof (cases rule: mach_msg_send_steps [OF run])
  case (2 u p kmsg)
  have p: "p = port" using 2(4) right by (simp add: has_right_def Let_def)
  have pu: "ports u = ports s" using 2(1) by (simp add: same_sched_def)
  let ?v = "u\<lparr>ports := (ports u)(port := put_msg kmsg (ports u port))\<rparr>"
  have t: "t = sched_unblock w ?v" "ip_msg_count (ports s port) < 32"
    using 2(2) w unfolding p pu
    by (auto simp: ipc_port_enqueue_def Let_def upd_port_def put_msg_def pu IPC_PORT_QUEUE_MAX_def split: if_splits)
  have "sched_inv (xs @ [w]) t"
    unfolding t(1)
    by (rule sched_unblock_inv [OF sched_inv_same [OF inv 2(1)], of port])
      (use w busy same_sched_cpu [OF 2(1)] in \<open>simp_all add: pu put_msg_def\<close>)
  moreover have "ip_msg_count (ports s port) + 1 \<noteq> 0"
  proof
    assume "ip_msg_count (ports s port) + 1 = 0"
    then have "ip_msg_count (ports s port) = - 1" by (simp add: eq_neg_iff_add_eq_0)
    then show False using t(2) by simp
  qed
  moreover have "tl (xs @ [w]) \<noteq> []" using sched_invD(4) [OF inv] by (cases xs) auto
  ultimately show ?thesis by (simp add: t(1) put_msg_def pu)
qed simp

text \<open>
  C9: A blocked receiver gets its message.  When a thread blocks in a receive, and later another thread sends to
  that port with success while it still waits there, the receiver is back at the end of the run queue, the
  port has no waiting thread, and within as many yields as the queue is long the receiver is
  the current thread again, with a message in the port's queue.
\<close>

theorem blocked_receiver_is_woken:
  assumes "sched_inv xs s" "cpu_current_thread s \<noteq> cpu_idle_thread s" "mach_msg_receive msg sz s = Some (Blocked port t)"
    and "kstep\<^sup>*\<^sup>* t u" "ip_waiting_thread (ports u port) = cpu_current_thread s"
    and "cpu_current_thread u \<noteq> cpu_idle_thread u" "has_right (msgh_remote_port (mem u) m) port u"
    and "mach_msg_send m n u = Some (KERN_SUCCESS, v)"
  shows "\<exists>ys k w. sched_inv ys v \<and> last ys = cpu_current_thread s \<and> ip_waiting_thread (ports v port) = 0 \<and>
    k \<le> length ys \<and> sched_runs k v = Some w \<and> cpu_current_thread w = cpu_current_thread s \<and> ip_msg_count (ports w port) \<noteq> 0"
proof -
  let ?c = "cpu_current_thread s"
  have run: "sched_run (wait_on port s) = Some t" by (rule mach_msg_receive_blocked [OF assms(3,1,2)])
  obtain ys where "sched_inv ys t" by (rule wait_on_inv [OF assms(1,2), of port]) (use run in auto)
  then obtain zs where zs: "sched_inv zs u" using kstep_invariant [OF assms(4)] by blast
  have "?c \<noteq> 0" by (rule sched_invD(5) [OF assms(1)])
  note v = send_wakes [OF zs assms(6,8,7,5) this]
  obtain k w where w: "k \<le> length (zs @ [?c])" "sched_runs k v = Some w" "cpu_current_thread w = ?c"
    using sched_runs_reach [of "zs @ [?c]" v ?c] v by auto
  have "ports w = ports v" using sched_runs_same_ipc [OF w(2)] by (simp add: same_ipc_def)
  then show ?thesis using v w by (intro exI [of _ "zs @ [?c]"] exI [of _ k] exI [of _ w]) simp
qed

text \<open>
  C36: A second receiver strands the first.  A port remembers one waiting thread: when a second thread waits on a port,
  the first stays blocked, no port and no run queue knows it, and whatever the kernel does afterwards
  it never is the current thread again.
\<close>

theorem second_receiver_strands_first:
  assumes "sched_inv xs s" "cpu_current_thread s \<noteq> cpu_idle_thread s" "msg \<noteq> 0"
    and "has_right (msgh_local_port (mem s) msg) port s" "ip_msg_count (ports s port) = 0"
    and "ip_waiting_thread (ports s port) = w" "w \<noteq> 0"
  shows "\<exists>t. mach_msg_receive msg (Some r) s = Some (Blocked port t) \<and>
    ip_waiting_thread (ports t port) = cpu_current_thread s \<and>
    (\<forall>u. kstep\<^sup>*\<^sup>* t u \<longrightarrow> cpu_current_thread u \<noteq> w \<and> (\<forall>p. ip_waiting_thread (ports u p) \<noteq> w))"
proof (rule wait_on_inv [OF assms(1,2), of port])
  fix t ys
  let ?c = "cpu_current_thread s"
  assume t: "sched_run (wait_on port s) = Some t" "sched_choose (wait_on port s) \<noteq> 0"
    "sched_choose (wait_on port s) \<noteq> sched_current s" "sched_inv ys t" "set ys = set xs - {?c}"
    "\<And>p. ip_waiting_thread (ports t p) = (if p = port then ?c else ip_waiting_thread (ports s p))"
  note d = sched_invD [OF assms(1)]
  have w: "w \<notin> set xs" "w \<noteq> ?c" using d(7) [of port] d(3) assms(6,7) by auto
  have run: "mach_msg_receive msg (Some r) s = Some (Blocked port t)"
    using mach_msg_receive_waits [OF assms(3-5) t(2,3,1)] by simp
  have "w \<noteq> ip_waiting_thread (ports s p)" if "p \<noteq> port" for p
    using d(9) [of p port] that assms(6,7) by auto
  then have "w \<notin> waiters t" using waiters_wait [OF d(5) t(6)] w by auto
  then have lost: "w \<notin> alive ys t" using t(5) w by (simp add: alive_def)
  have "cpu_current_thread u \<noteq> w \<and> (\<forall>p. ip_waiting_thread (ports u p) \<noteq> w)" if k: "kstep\<^sup>*\<^sup>* t u" for u
  proof -
    obtain zs where zs: "sched_inv zs u" "alive zs u = alive ys t" using kstep_invariant [OF k t(4)] by blast
    have "cpu_current_thread u \<in> alive zs u" using sched_invD(3) [OF zs(1)] by (simp add: alive_def)
    then show ?thesis using lost zs(2) assms(7) by (auto simp: alive_def waiters_def)
  qed
  then show ?thesis using run t(6) by auto
qed

section \<open>Three threads and a port\<close>

text \<open>
  The threads 3, 1 and 2 in the queue, 1 the idle thread and 2 the current one; all have the task 0x20,
  whose space has a right to the port 0x40.
\<close>

definition trio :: ipc_state where
  "trio = fold rq_put [3, 1, 2] (cpu_set_current_thread 2 (cpu_set_idle_thread 1
     (msg_state\<lparr>threads := \<lambda>_. undefined\<lparr>thread_task := 0x20, sched := \<lparr>ts_state = THREAD_STATE_RUNNABLE, ts_next = 0, ts_prev = 0, run_time = 0\<rparr>\<rparr>\<rparr>)))"

lemma rq_put_frame:
  "same_ipc s (rq_put x s)" "thread_st (rq_put x s) y = thread_st s y" "cpu_data_ptr (rq_put x s) = cpu_data_ptr s"
  "cpu_current_thread (rq_put x s) = cpu_current_thread s" "cpu_idle_thread (rq_put x s) = cpu_idle_thread s"
  "mem (rq_put x s) = mem s"
  unfolding rq_put_def using same_ipc_ops(2) [of s x] by (simp_all add: thread_st_ops)

lemma trio_fields:
  "ports trio = (\<lambda>_. zero_port)" "thread_st trio x = THREAD_STATE_RUNNABLE" "thread_task (threads trio x) = 0x20"
  "cpu_current_thread trio = 2" "cpu_idle_thread trio = 1" "cpu_data_ptr trio = Some 0" "mem trio = mem msg_state"
  "tasks trio = tasks msg_state" "spaces trio = spaces msg_state" "same_ipc (msg_state\<lparr>threads := threads trio\<rparr>) trio"
proof -
  let ?i = "cpu_set_current_thread 2 (cpu_set_idle_thread 1
     (msg_state\<lparr>threads := \<lambda>_. undefined\<lparr>thread_task := 0x20, sched := \<lparr>ts_state = THREAD_STATE_RUNNABLE, ts_next = 0, ts_prev = 0, run_time = 0\<rparr>\<rparr>\<rparr>))"
  have t: "trio = rq_put 2 (rq_put 1 (rq_put 3 ?i))" by (simp add: trio_def)
  have same: "same_ipc ?i trio"
    unfolding t by (rule same_ipc_trans [OF same_ipc_trans [OF rq_put_frame(1) rq_put_frame(1)] rq_put_frame(1)])
  have i: "cpu_data_ptr msg_state = Some 0" by (simp add: msg_state_def quiet_def cpu_set_current_thread_def cpu_get_def)
  have th: "threads ?i = (\<lambda>_. undefined\<lparr>thread_task := 0x20, sched := \<lparr>ts_state = THREAD_STATE_RUNNABLE, ts_next = 0, ts_prev = 0, run_time = 0\<rparr>\<rparr>)"
    "ports ?i = ports msg_state" "tasks ?i = tasks msg_state" "spaces ?i = spaces msg_state" "mem ?i = mem msg_state"
    by (simp_all add: cpu_set_current_thread_def cpu_set_idle_thread_def split: option.split)
  show "ports trio = (\<lambda>_. zero_port)" "tasks trio = tasks msg_state" "spaces trio = spaces msg_state" "thread_task (threads trio x) = 0x20"
    using same th by (simp_all add: same_ipc_def msg_state_def)
  show "thread_st trio x = THREAD_STATE_RUNNABLE" unfolding t rq_put_frame th by simp
  show "mem trio = mem msg_state" unfolding t rq_put_frame th ..
  show "cpu_current_thread trio = 2" "cpu_idle_thread trio = 1" "cpu_data_ptr trio = Some 0"
    using i by (simp_all add: t rq_put_frame)
      (simp_all add: cpu_set_current_thread_def cpu_set_idle_thread_def cpu_current_thread_def cpu_idle_thread_def cpu_get_def)
  show "same_ipc (msg_state\<lparr>threads := threads trio\<rparr>) trio"
    using same by (simp add: same_ipc_def cpu_set_current_thread_def cpu_set_idle_thread_def split: option.splits)
qed

lemma trio_inv: "sched_inv [3, 1, 2] trio"
proof (rule sched_invI)
  let ?i = "cpu_set_current_thread 2 (cpu_set_idle_thread 1
     (msg_state\<lparr>threads := \<lambda>_. undefined\<lparr>thread_task := 0x20, sched := \<lparr>ts_state = THREAD_STATE_RUNNABLE, ts_next = 0, ts_prev = 0, run_time = 0\<rparr>\<rparr>\<rparr>))"
  have "run_queue ?i []" by (simp add: run_queue_def cpu_set_idle_thread_def msg_state_def quiet_def split: option.split)
  then show "run_queue trio [3, 1, 2]"
    using rq.enq_many [of ?i "[]" "[3, 1, 2]"] unfolding trio_def by simp
qed (simp_all add: trio_fields zero_port_def)

lemma trio_right: "has_right 1 0x40 trio"
  using msg_state_right(1) by (simp add: has_right_def Let_def sched_current_def trio_fields) (simp add: msg_state_def names_def)

lemma trio_header: "msgh_local_port (mem trio) 0x1000 = 1"
  unfolding trio_fields msg_state_fields using small_header by simp

text \<open>Thread 2 waits on the port; thread 3 is the current thread then, and prepares a message.\<close>

lemma wait_on_same_ipc:
  "same_ipc (upd_port port (\<lambda>p. p\<lparr>ip_waiting_thread := sched_current s\<rparr>) s) (wait_on port s)"
  unfolding wait_on_def by (rule same_ipc_ops(5))

lemma trio_waits:
  obtains t u where "mach_msg_receive 0x1000 (Some 48) trio = Some (Blocked 0x40 t)" "u = t\<lparr>mem := mem msg_state\<rparr>"
    "kstep\<^sup>*\<^sup>* trio u" "kstep\<^sup>*\<^sup>* t u" "sched_inv [1, 3] u" "ip_waiting_thread (ports u 0x40) = 2" "port_queue 0x40 u []"
    "cpu_current_thread u = 3" "cpu_idle_thread u = 1" "has_right 1 0x40 u" "zones_rep (\<lambda>_. {}) (\<lambda>_. []) u" "card (free_set u) = 48"
    "kmsg_zone u = Some 1" "zone_count u = 2" "zone_store u = zone_store msg_state" "hhdm_offset u = hhdm_offset msg_state"
proof (rule wait_on_inv [OF trio_inv, of "0x40"])
  show busy: "cpu_current_thread trio \<noteq> cpu_idle_thread trio" by (simp add: trio_fields)
  fix t ys
  assume t: "sched_run (wait_on 0x40 trio) = Some t"
    "sched_choose (wait_on 0x40 trio) \<noteq> 0" "sched_choose (wait_on 0x40 trio) \<noteq> sched_current trio" "sched_inv ys t"
    "ys = rotate1 (remove1 (cpu_current_thread trio) [3, 1, 2])" "cpu_current_thread t = last ys" "cpu_idle_thread t = cpu_idle_thread trio"
    "\<And>p. ip_waiting_thread (ports t p) = (if p = 0x40 then cpu_current_thread trio else ip_waiting_thread (ports trio p))"
  let ?u = "t\<lparr>mem := mem msg_state\<rparr>"
  have cnt: "ip_msg_count (ports trio 0x40) = 0" by (simp add: trio_fields zero_port_def)
  have r: "has_right (msgh_local_port (mem trio) 0x1000) 0x40 trio" using trio_right trio_header by simp
  have run: "mach_msg_receive 0x1000 (Some 48) trio = Some (Blocked 0x40 t)"
    by (rule mach_msg_receive_waits [OF _ r cnt t(2,3,1)]) simp
  have w0: "ip_waiting_thread (ports trio 0x40) = 0" by (simp add: trio_fields zero_port_def)
  have k: "kstep t ?u" by (rule kstep.store)
  have "kstep trio t" by (rule kstep.wait [OF busy run w0])
  then have k2: "kstep\<^sup>*\<^sup>* trio ?u" using k by auto
  have ys: "ys = [1, 3]" using t(5) by (simp add: trio_fields)
  have cur: "cpu_current_thread ?u = 3" "cpu_idle_thread ?u = 1"
  proof -
    have "cpu_current_thread t = 3" "cpu_idle_thread t = 1" using t(6,7) ys by (simp_all add: trio_fields)
    moreover have "same_sched t ?u" by simp
    ultimately show "cpu_current_thread ?u = 3" "cpu_idle_thread ?u = 1" using same_sched_cpu [of t ?u] by simp_all
  qed
  have inv: "sched_inv [1, 3] ?u" by (rule sched_inv_same [of _ t]) (use t(4) ys in simp_all)
  have same: "same_ipc (upd_port 0x40 (\<lambda>p. p\<lparr>ip_waiting_thread := sched_current trio\<rparr>) trio) t"
    by (rule same_ipc_trans [OF wait_on_same_ipc sched_run_same_ipc [OF t(1)]])
  have same2: "same_ipc (msg_state\<lparr>threads := threads trio\<rparr>) trio" by (rule trio_fields(10))
  have fields: "bitmap ?u = bitmap msg_state" "free_count ?u = free_count msg_state" "hhdm_offset ?u = hhdm_offset msg_state"
      "zone_count ?u = zone_count msg_state" "zone_store ?u = zone_store msg_state" "kmsg_zone ?u = Some 1"
    using same same2 by (simp_all add: same_ipc_def upd_port_def msg_state_fields)
  have "zones_rep (\<lambda>_. {}) (\<lambda>_. []) ?u"
    by (rule zones_rep_same [OF msg_state_zones(1)]) (simp_all add: fields del: ipc_state.simps)
  moreover have "card (free_set ?u) = 48"
    using msg_state_zones(2) fields(1) by (simp add: free_set_def bitmap_test_def)
  moreover have "has_right 1 0x40 ?u"
    using trio_right same cur by (simp add: has_right_def Let_def sched_current_def same_ipc_def upd_port_def trio_fields)
  moreover have "port_queue 0x40 ?u []"
    using same by (simp add: port_queue_def ring_def same_ipc_def upd_port_def trio_fields zero_port_def)
  moreover have "ip_waiting_thread (ports ?u 0x40) = 2" using t(8) by (simp add: trio_fields)
  ultimately show thesis
    using run k k2 inv cur fields by (intro that [of t ?u]) (simp_all add: msg_state_fields)
qed

theorem kernel_keeps_threads_witness:
  "\<exists>t ys. kstep\<^sup>*\<^sup>* trio t \<and> ip_waiting_thread (ports t 0x40) = 2 \<and> sched_inv ys t \<and> alive ys t = {1, 2, 3}"
proof -
  obtain u where u: "kstep\<^sup>*\<^sup>* trio u" "ip_waiting_thread (ports u 0x40) = 2" by (rule trio_waits) blast
  have "alive [3, 1, 2] trio = {1, 2, 3}" by (auto simp: alive_def waiters_def trio_fields zero_port_def)
  then show ?thesis using u kernel_keeps_threads [OF u(1) trio_inv] by auto
qed

theorem blocked_receiver_is_woken_witness:
  "\<exists>t u v w k ys. mach_msg_receive 0x1000 (Some 48) trio = Some (Blocked 0x40 t) \<and> kstep\<^sup>*\<^sup>* t u \<and>
     mach_msg_send 0x1000 48 u = Some (KERN_SUCCESS, v) \<and> sched_inv ys v \<and> k \<le> length ys \<and> sched_runs k v = Some w \<and>
     cpu_current_thread w = 2 \<and> ip_msg_count (ports w 0x40) \<noteq> 0"
proof (rule trio_waits)
  fix t u
  assume u: "mach_msg_receive 0x1000 (Some 48) trio = Some (Blocked 0x40 t)" "u = t\<lparr>mem := mem msg_state\<rparr>"
    "kstep\<^sup>*\<^sup>* t u" "ip_waiting_thread (ports u 0x40) = 2" "port_queue 0x40 u []"
    "cpu_current_thread u = 3" "cpu_idle_thread u = 1" "has_right 1 0x40 u" "zones_rep (\<lambda>_. {}) (\<lambda>_. []) u" "card (free_set u) = 48"
    "kmsg_zone u = Some 1" "zone_count u = 2" "zone_store u = zone_store msg_state" "hhdm_offset u = hhdm_offset msg_state"
  have r: "msgh_remote_port (mem u) 0x1000 = 1" using small_header by (simp add: u(2) msg_state_fields)
  have k: "1 < zone_count u" "elem_size (zone_store u 1) = 592" by (simp_all add: u(12,13) msg_state_fields)
  have off: "off_direct u 0x1000" by (rule off_direct_low) (simp add: u(14) msg_state_fields)
  have busy: "cpu_current_thread trio \<noteq> cpu_idle_thread trio" "cpu_current_thread u \<noteq> cpu_idle_thread u"
    "ip_waiting_thread (ports u 0x40) = cpu_current_thread trio" by (simp_all add: trio_fields u(4,6,7))
  have right: "has_right (msgh_remote_port (mem u) 0x1000) 0x40 u" using u(8) r by simp
  show ?thesis
  proof (rule mach_msg_send_spec [OF u(9,11) k u(8) _ r off _ _ u(5), of 48])
    assume "pmm_alloc_page u = (0, u) \<or> max_size (zone_store u 1) \<noteq> 0"
    then have "pmm_alloc_page u = (0, u)" by (simp add: u(13) msg_state_fields blank_zone_def)
    then have "free_set u = {}" using pmm_alloc_page_full [of u] u(9) by (auto simp: zones_rep_def)
    then show ?thesis using u(10) by simp
  next
    fix v assume v: "mach_msg_send 0x1000 48 u = Some (KERN_SUCCESS, v)"
    show ?thesis
      using blocked_receiver_is_woken [OF trio_inv busy(1) u(1,3) busy(3,2) right v] u(1,3) v trio_fields(4) by metis
  qed simp_all
qed

theorem second_receiver_strands_first_witness:
  "\<exists>s t. kstep\<^sup>*\<^sup>* trio s \<and> mach_msg_receive 0x1000 (Some 48) s = Some (Blocked 0x40 t) \<and>
     (\<forall>u. kstep\<^sup>*\<^sup>* t u \<longrightarrow> cpu_current_thread u \<noteq> 2)"
proof (rule trio_waits)
  fix t u
  assume u: "u = t\<lparr>mem := mem msg_state\<rparr>" "kstep\<^sup>*\<^sup>* trio u" "sched_inv [1, 3] u" "ip_waiting_thread (ports u 0x40) = 2"
    "port_queue 0x40 u []" "cpu_current_thread u = 3" "cpu_idle_thread u = 1" "has_right 1 0x40 u"
  have busy: "cpu_current_thread u \<noteq> cpu_idle_thread u" by (simp add: u(6,7))
  have r: "has_right (msgh_local_port (mem u) 0x1000) 0x40 u" using u(8) small_header by (simp add: u(1) msg_state_fields)
  have cnt: "ip_msg_count (ports u 0x40) = 0" using u(5) by (simp add: port_queue_def ring_def flip: word_unat_eq_iff) (simp add: word_unat_eq_iff)
  obtain v where "mach_msg_receive 0x1000 (Some 48) u = Some (Blocked 0x40 v)"
    "\<forall>w. kstep\<^sup>*\<^sup>* v w \<longrightarrow> cpu_current_thread w \<noteq> 2"
    using second_receiver_strands_first [OF u(3) busy _ r cnt u(4), of 48] by auto
  then show ?thesis using u(2) by blast
qed

end
