(* ===== verification/Ipc_Sound.thy ===== *)
theory Ipc_Sound
  imports Ipc_Block
begin

text \<open>
  \<^verbatim>\<open>kern/ipc_*.c\<close>: the invariant of the data of ports and spaces, kept by every operation of the message system in any
  order.  From it, no operation leaves the arrays of a port or of a space.
\<close>

section \<open>Well-formed ports and spaces\<close>

definition port_typed :: "ipc_port \<Rightarrow> bool" where
  "port_typed p \<longleftrightarrow> (\<exists>xs. ring p xs \<and> 0 \<notin> set xs)"

definition ipc_typed :: "'a ipc_state_scheme \<Rightarrow> bool" where
  "ipc_typed s \<longleftrightarrow> (\<forall>p. port_typed (ports s p)) \<and> (\<forall>sp. space_ok (spaces s sp))"

lemma ring_other [simp]:
  "ring (p\<lparr>ip_waiting_thread := w\<rparr>) xs = ring p xs" "ring (p\<lparr>ip_ref_count := c\<rparr>) xs = ring p xs"
  by (simp_all add: ring_def)

lemma port_typed_other [simp]:
  "port_typed (p\<lparr>ip_waiting_thread := w\<rparr>) = port_typed p" "port_typed (p\<lparr>ip_ref_count := c\<rparr>) = port_typed p"
  by (simp_all add: port_typed_def)

lemma port_typed_new: "port_typed (zero_port\<lparr>ip_type := ty, ip_ref_count := c\<rparr>)"
  by (auto simp: port_typed_def ring_def zero_port_def)

lemma port_typed_bounds:
  assumes "port_typed p"
  shows "unat (ip_msg_first p) < 32" "unat (ip_msg_last p) < 32" "unat (ip_msg_count p) \<le> 32"
  using assms by (auto simp: port_typed_def ring_def)

lemma port_typed_put: "port_typed p \<Longrightarrow> k \<noteq> 0 \<Longrightarrow> \<not> ip_msg_count p \<ge> 32 \<Longrightarrow> port_typed (put_msg k p)"
proof -
  assume t: "port_typed p" and k: "k \<noteq> 0" and c: "\<not> ip_msg_count p \<ge> 32"
  obtain xs where xs: "ring p xs" "0 \<notin> set xs" using t by (auto simp: port_typed_def)
  have "length xs < 32" using xs(1) c by (simp add: ring_def word_le_nat_alt)
  then have "ring (put_msg k p) (xs @ [k])" by (rule ring_put [OF xs(1)])
  then show ?thesis using xs(2) k by (auto simp: port_typed_def)
qed

lemma port_typed_take: "port_typed p \<Longrightarrow> ip_msg_count p \<noteq> 0 \<Longrightarrow> port_typed (take_msg p)"
proof -
  assume t: "port_typed p" and c: "ip_msg_count p \<noteq> 0"
  obtain xs where xs: "ring p xs" "0 \<notin> set xs" using t by (auto simp: port_typed_def)
  obtain y ys where "xs = y # ys" using xs(1) c by (cases xs) (auto simp: ring_def unat_eq_0)
  then show ?thesis using xs ring_take(2) [of p y ys] by (auto simp: port_typed_def)
qed

lemma ipc_typed_same: "same_sched s t \<Longrightarrow> ipc_typed t = ipc_typed s"
  by (simp add: same_sched_def ipc_typed_def)

lemma ipc_typed_run: "same_ipc s t \<Longrightarrow> ipc_typed t = ipc_typed s"
  by (simp add: same_ipc_def ipc_typed_def)

lemma ipc_typedD: "ipc_typed s \<Longrightarrow> port_typed (ports s p)"
  by (simp add: ipc_typed_def)

lemma ipc_typed_upd: "ipc_typed s \<Longrightarrow> port_typed (f (ports s p)) \<Longrightarrow> ipc_typed (upd_port p f s)"
  by (simp add: ipc_typed_def upd_port_def)

lemma ipc_typed_space: "ipc_typed s \<Longrightarrow> space_ok (f (spaces s p)) \<Longrightarrow> ipc_typed (upd_space p f s)"
  by (simp add: ipc_typed_def upd_space_def)

lemma ipc_typed_fields [simp]:
  "ipc_typed (s\<lparr>ipc_port_zone := z\<rparr>) = ipc_typed s" "ipc_typed (s\<lparr>ipc_space_zone := z\<rparr>) = ipc_typed s"
  "ipc_typed (s\<lparr>mem := m\<rparr>) = ipc_typed s"
  by (simp_all add: ipc_typed_def)

section \<open>The operations keep them\<close>

lemma typed_enqueue:
  assumes "ipc_typed s"
  shows "ipc_typed (snd (ipc_port_enqueue port kmsg s))"
proof (cases "port = 0 \<or> kmsg = 0 \<or> ip_msg_count (ports s port) \<ge> 32")
  case True
  then show ?thesis using assms by (auto simp: ipc_port_enqueue_def)
next
  case False
  let ?u = "s\<lparr>ports := (ports s)(port := put_msg kmsg (ports s port))\<rparr>"
  have "ipc_typed ?u" using assms False port_typed_put by (simp add: ipc_typed_def)
  moreover have "ipc_typed (sched_unblock w ?u) = ipc_typed ?u" for w
    by (simp add: ipc_typed_def sched_unblock_def sched_enqueue_def sched_set_state_def upd_sched_def Let_def)
  ultimately show ?thesis using assms by (cases rule: port_enqueue_cases [of port kmsg s]) simp_all
qed

lemma typed_dequeue:
  assumes "ipc_typed s"
  shows "ipc_typed (snd (ipc_port_dequeue port s))"
proof (cases "port = 0 \<or> ip_msg_count (ports s port) = 0")
  case False
  then have "snd (ipc_port_dequeue port s) = upd_port port take_msg s"
    by (simp add: ipc_port_dequeue_def Let_def upd_port_def take_msg_def)
  then show ?thesis using ipc_typed_upd [of s take_msg port] ipc_typedD [OF assms] assms False port_typed_take by simp
qed (use assms in \<open>auto simp: ipc_port_dequeue_def\<close>)

lemma zinit_typed: "zinit nm sz mx s = Some (z, t) \<Longrightarrow> ipc_typed t = ipc_typed s"
  by (auto simp: zinit_def Let_def kprintf_def ipc_typed_def upd_zone_def split: if_splits option.splits bind_splits)

lemma get_zones_typed:
  "get_ipc_port_zone s = Some (z, t) \<Longrightarrow> ipc_typed t = ipc_typed s"
  "get_ipc_space_zone s = Some (z, t) \<Longrightarrow> ipc_typed t = ipc_typed s"
  by (auto simp: get_ipc_port_zone_def get_ipc_space_zone_def Let_def zinit_typed split: if_splits bind_splits)

lemma typed_alloc:
  assumes "ipc_port_alloc s = Some (kr, port, t)" "ipc_typed s"
  shows "ipc_typed t"
proof -
  obtain z u where z: "get_ipc_port_zone s = Some (z, u)" using assms(1) by (auto simp: ipc_port_alloc_def split: bind_splits)
  have u: "ipc_typed u" using get_zones_typed(1) [OF z] assms(2) by simp
  show ?thesis
  proof (cases "z = ZONE_NULL")
    case False
    then obtain x v where a: "zalloc z u = Some (x, v)" using assms(1) z by (auto simp: ipc_port_alloc_def split: bind_splits)
    have v: "ipc_typed v" using ipc_typed_same [OF zalloc_same [OF a]] u by simp
    then show ?thesis using assms(1) z a False port_typed_new
      by (auto simp: ipc_port_alloc_def Let_def upd_port_def ipc_typed_def split: if_splits)
  qed (use assms(1) z u in \<open>simp add: ipc_port_alloc_def\<close>)
qed

lemma typed_space_create:
  assumes "ipc_space_create s = Some (kr, sp, t)" "ipc_typed s"
  shows "ipc_typed t"
proof -
  obtain z u where z: "get_ipc_space_zone s = Some (z, u)" using assms(1) by (auto simp: ipc_space_create_def split: bind_splits)
  have u: "ipc_typed u" using get_zones_typed(2) [OF z] assms(2) by simp
  show ?thesis
  proof (cases "z = ZONE_NULL")
    case False
    then obtain x v where a: "zalloc z u = Some (x, v)" using assms(1) z by (auto simp: ipc_space_create_def split: bind_splits)
    have v: "ipc_typed v" using ipc_typed_same [OF zalloc_same [OF a]] u by simp
    then show ?thesis using assms(1) z a False
      by (auto simp: ipc_space_create_def Let_def upd_space_def ipc_typed_def space_ok_def zero_space_def split: if_splits)
  qed (use assms(1) z u in \<open>simp add: ipc_space_create_def\<close>)
qed

lemma typed_drain:
  assumes "drain_port port s = Some t" "ipc_typed s"
  shows "ipc_typed t"
proof -
  have "ipc_typed s \<longrightarrow> ipc_typed t"
  proof (induct rule: drain_port.raw_induct [OF _ assms(1)])
    case (1 drain port s t)
    obtain k u where d: "ipc_port_dequeue port s = (k, u)" by fastforce
    have "ipc_typed u" if "ipc_typed s" using typed_dequeue [OF that, of port] d by simp
    moreover have "ipc_typed v = ipc_typed u" if "ipc_kmsg_free k u = Some v" for v
      by (rule ipc_typed_same [OF kmsg_free_same [OF that]])
    ultimately show ?case using 1(2) d by (auto split: if_splits bind_splits dest: 1(1))
  qed
  then show ?thesis using assms(2) by blast
qed

lemma typed_release:
  assumes "ipc_port_release port s = Some t" "ipc_typed s"
  shows "ipc_typed t"
proof -
  let ?s = "upd_port port (\<lambda>p. p\<lparr>ip_ref_count := ip_ref_count p - 1\<rparr>) s"
  have s: "ipc_typed ?s" by (rule ipc_typed_upd [OF assms(2)]) (use assms(2) in \<open>simp add: ipc_typed_def\<close>)
  consider "t = s" | "t = ?s" | u z v where "drain_port port ?s = Some u" "get_ipc_port_zone u = Some (z, v)" "zfree z port v = Some t"
    using assms(1) by (auto simp: ipc_port_release_def Let_def split: if_splits bind_splits)
  then show ?thesis
  proof cases
    case 3
    then show ?thesis using typed_drain [OF 3(1) s] get_zones_typed(1) [OF 3(2)] ipc_typed_same [OF zfree_same [OF 3(3)]] by simp
  qed (use assms(2) s in simp_all)
qed

lemma typed_release_ports:
  assumes "release_ports space i s = Some t" "ipc_typed s"
  shows "ipc_typed t"
proof -
  have "ipc_typed s \<longrightarrow> ipc_typed t"
  proof (induct rule: release_ports.raw_induct [OF _ assms(1)])
    case (1 rel space i s t)
    have "ipc_typed u" if "ipc_port_release x s = Some u" "ipc_typed s" for x u using typed_release that by blast
    then show ?case using 1(2) by (auto split: if_splits bind_splits dest: 1(1))
  qed
  then show ?thesis using assms(2) by blast
qed

lemma typed_space_destroy: "ipc_space_destroy sp s = Some t \<Longrightarrow> ipc_typed s \<Longrightarrow> ipc_typed t"
  by (auto simp: ipc_space_destroy_def get_zones_typed(2) ipc_typed_same [OF zfree_same] split: if_splits bind_splits
      dest: typed_release_ports)

lemma ipc_typed_entry: "ipc_typed s \<Longrightarrow> ipc_typed (upd_ipc_entry sp i f s)"
  unfolding upd_ipc_entry_def by (rule ipc_typed_space) (simp_all add: ipc_typed_def space_ok_def)

lemma typed_insert:
  assumes "ipc_typed s"
  shows "ipc_typed (snd (snd (ipc_space_insert sp port no s)))"
proof (cases "sp = 0 \<or> port = 0 \<or> no \<or> is_port_count (spaces s sp) \<ge> 1024")
  case False
  have "unat (is_port_count (spaces s sp)) < 1024" using False by (simp add: word_le_nat_alt)
  then have "unat (is_port_count (spaces s sp) + 1) \<le> 1024" by (simp add: unat_word_ariths)
  then have "space_ok (is_port_count_update (\<lambda>c. c + 1) (is_entries_update g (spaces s sp)))" for g
    by (simp add: space_ok_def)
  then show ?thesis using False assms ipc_typed_entry
    by (simp add: ipc_space_insert_def Let_def upd_ipc_entry_def upd_space_def ipc_typed_def space_ok_def)
qed (use assms in \<open>auto simp: ipc_space_insert_def\<close>)

lemma typed_remove: "ipc_space_remove sp n s = Some (kr, t) \<Longrightarrow> ipc_typed s \<Longrightarrow> ipc_typed t"
  by (auto simp: ipc_space_remove_def Let_def split: if_splits bind_splits intro!: ipc_typed_entry dest: typed_release)

section \<open>Messages\<close>

fun result_state :: "'a ipc_state_scheme msg_result \<Rightarrow> 'a ipc_state_scheme" where
  "result_state (Done kr sz s) = s"
| "result_state (Blocked port s) = s"

lemma typed_send:
  assumes "mach_msg_send msg sz s = Some (kr, t)" "ipc_typed s"
  shows "ipc_typed t"
proof (cases rule: mach_msg_send_steps [OF assms(1)])
  case 1
  then show ?thesis using ipc_typed_same assms(2) by blast
next
  case (2 u port kmsg)
  then show ?thesis using typed_enqueue [of u port kmsg] ipc_typed_same [OF 2(1)] assms(2) by simp
qed

lemma typed_receive_rest:
  assumes "receive_rest port msg sz s = Some r" "ipc_typed s"
  shows "ipc_typed (result_state r)"
proof -
  obtain k u where d: "ipc_port_dequeue port s = (k, u)" by fastforce
  have u: "ipc_typed u" using typed_dequeue [OF assms(2), of port] d by simp
  obtain k2 sz2 v where co: "ipc_kmsg_copyout k msg sz u = (k2, sz2, v)" by (cases "ipc_kmsg_copyout k msg sz u") auto
  have v: "ipc_typed v" using ipc_typed_same [OF copyout_same [of u k msg sz]] co u by simp
  show ?thesis using assms d co u v
    by (auto simp: receive_rest_def ipc_typed_same [OF kmsg_free_same] split: if_splits bind_splits)
qed

lemma ipc_typed_wait: "ipc_typed s \<Longrightarrow> ipc_typed (wait_on port s)"
  using ipc_typed_run [OF wait_on_same_ipc [of port s]] by (simp add: ipc_typed_upd ipc_typedD)

lemma typed_receive:
  assumes "mach_msg_receive msg sz s = Some r" "ipc_typed s"
  shows "ipc_typed (result_state r)"
proof (cases "msg = 0 \<or> sz = None")
  case True
  then show ?thesis using assms by (auto simp: mach_msg_receive_def)
next
  case False
  show ?thesis
  proof (cases rule: mach_msg_receive_cases [OF assms(1)])
    case (3 port)
    have w: "ipc_typed (wait_on port s)" by (rule ipc_typed_wait [OF assms(2)])
    have "ipc_typed u" if "sched_run (wait_on port s) = Some u" for u
      using ipc_typed_run [OF sched_run_same_ipc [OF that]] w by simp
    then show ?thesis
      using assms(1) mach_msg_receive_right [OF 3(1), of sz] False 3(2) typed_receive_rest [OF _ w]
      by (auto split: if_splits bind_splits)
  qed (use assms(2) typed_receive_rest in auto)
qed

lemma typed_mach_msg:
  assumes "mach_msg msg opt ss rs rn to nf rm s = Some r" "ipc_typed s"
  shows "ipc_typed (result_state r)"
proof -
  obtain kr u where u: "(if opt AND 1 \<noteq> 0 then mach_msg_send msg ss s else Some (KERN_SUCCESS, s)) = Some (kr, u)"
    using assms(1) by (auto simp: mach_msg_def split: bind_splits)
  have "ipc_typed u" using u typed_send assms(2) by (auto split: if_splits)
  then show ?thesis using assms(1) u typed_receive
    by (auto simp: mach_msg_def Let_def split: if_splits bind_splits)
qed

section \<open>Every operation, in any order\<close>

inductive ipc_step :: "'a ipc_state_scheme \<Rightarrow> 'a ipc_state_scheme \<Rightarrow> bool" where
  port_alloc: "ipc_port_alloc s = Some (kr, port, t) \<Longrightarrow> ipc_step s t"
| port_release: "ipc_port_release port s = Some t \<Longrightarrow> ipc_step s t"
| port_enqueue: "ipc_step s (snd (ipc_port_enqueue port kmsg s))"
| port_dequeue: "ipc_step s (snd (ipc_port_dequeue port s))"
| space_create: "ipc_space_create s = Some (kr, sp, t) \<Longrightarrow> ipc_step s t"
| space_destroy: "ipc_space_destroy sp s = Some t \<Longrightarrow> ipc_step s t"
| space_insert: "ipc_step s (snd (snd (ipc_space_insert sp port no s)))"
| space_remove: "ipc_space_remove sp n s = Some (kr, t) \<Longrightarrow> ipc_step s t"
| kmsg_alloc: "ipc_kmsg_alloc sz s = Some (k, t) \<Longrightarrow> ipc_step s t"
| kmsg_free: "ipc_kmsg_free k s = Some t \<Longrightarrow> ipc_step s t"
| copyin: "ipc_step s (snd (ipc_kmsg_copyin k msg sz s))"
| copyout: "ipc_step s (snd (snd (ipc_kmsg_copyout k msg osz s)))"
| message: "mach_msg msg opt ss rs rn to nf rm s = Some r \<Longrightarrow> ipc_step s (result_state r)"
| resume: "receive_rest port msg osz s = Some r \<Longrightarrow> ipc_step s (result_state r)"
| run: "sched_run s = Some t \<Longrightarrow> ipc_step s t"
| store: "ipc_step s (s\<lparr>mem := m\<rparr>)"

lemma ipc_step_typed: "ipc_step s t \<Longrightarrow> ipc_typed s \<Longrightarrow> ipc_typed t"
proof (induction rule: ipc_step.induct)
  case (kmsg_alloc sz s k t)
  then show ?case using ipc_typed_same [OF kmsg_alloc_same] by blast
next
  case (kmsg_free k s t)
  then show ?case using ipc_typed_same [OF kmsg_free_same] by blast
next
  case (copyin s k msg sz)
  then show ?case using ipc_typed_same [OF copyin_same] by blast
next
  case (copyout s k msg osz)
  then show ?case using ipc_typed_same [OF copyout_same] by blast
next
  case (run s t)
  then show ?case using ipc_typed_run [OF sched_run_same_ipc] by blast
next
  case (store s m)
  then show ?case by simp
qed (fact typed_alloc typed_release typed_enqueue typed_dequeue typed_space_create typed_space_destroy typed_insert
  typed_remove typed_mach_msg typed_receive_rest)+

text \<open>
  C8: The data of the message system is well formed at every moment.  Whatever operations on ports, spaces and
  messages run in whatever order, every port is a ring buffer that holds a list of messages, none of them null, and
  every space counts at most 1024 names; so every index the code uses into \<open>ip_messages\<close> and \<open>is_entries\<close> is
  inside the array.
\<close>

theorem ipc_stays_typed:
  assumes "ipc_step\<^sup>*\<^sup>* s t" "ipc_typed s"
  shows "ipc_typed t \<and>
    (\<forall>p. unat (ip_msg_first (ports t p)) < 32 \<and> unat (ip_msg_last (ports t p)) < 32 \<and>
       unat (ip_msg_count (ports t p)) \<le> 32) \<and>
    (\<forall>sp. unat (is_port_count (spaces t sp)) \<le> 1024)"
proof -
  have "ipc_typed t" using assms by (induction rule: rtranclp_induct) (auto intro: ipc_step_typed)
  then show ?thesis using port_typed_bounds by (auto simp: ipc_typed_def space_ok_def)
qed

theorem ipc_stays_typed_witness:
  "\<exists>t. ipc_step\<^sup>*\<^sup>* trio t \<and> ip_msg_count (ports t 0x40) = 1 \<and> ipc_typed t"
proof -
  let ?t = "snd (ipc_port_enqueue 0x40 0x500 trio)"
  have "ipc_step\<^sup>*\<^sup>* trio ?t" by (rule r_into_rtranclp, rule port_enqueue)
  moreover have "ipc_typed trio"
    by (auto simp: ipc_typed_def trio_fields port_typed_def ring_def zero_port_def space_ok_def)
      (simp add: msg_state_def)
  moreover have "ip_msg_count (ports ?t 0x40) = 1"
    by (simp add: ipc_port_enqueue_def upd_port_def trio_fields zero_port_def)
  ultimately show ?thesis using ipc_stays_typed [of trio ?t] by blast
qed

end
