(* ===== verification/Thread_Exit.thy ===== *)
theory Thread_Exit
  imports Syscall
begin

text \<open>
  \<^verbatim>\<open>thread_destroy\<close> of \<^verbatim>\<open>kern/thread.c\<close> on every branch, after \<open>thread_create\<close> and from the system call that ends
  a thread.
\<close>

section \<open>The last reference\<close>

lemma dequeue_frame_fields [simp]:
  "bitmap (snd (sched_dequeue t s)) = bitmap s" "free_count (snd (sched_dequeue t s)) = free_count s"
  "hhdm_offset (snd (sched_dequeue t s)) = hhdm_offset s" "mem (snd (sched_dequeue t s)) = mem s"
  "zone_store (snd (sched_dequeue t s)) = zone_store s" "zone_count (snd (sched_dequeue t s)) = zone_count s"
  "thread_zone (snd (sched_dequeue t s)) = thread_zone s" "tasks (snd (sched_dequeue t s)) = tasks s"
  "kernel_stack_phys (threads (snd (sched_dequeue t s)) x) = kernel_stack_phys (threads s x)"
  "regs (snd (sched_dequeue t s)) = regs s"
  by (simp_all add: sched_dequeue_def Let_def upd_sched_def)

lemma used_pages_same: "bitmap t = bitmap s \<Longrightarrow> used_pages t = used_pages s"
  by (simp add: used_pages_def bitmap_test_def)

definition stack_apart :: "(nat \<Rightarrow> addr set) \<Rightarrow> addr \<Rightarrow> 'a sched_state_scheme \<Rightarrow> bool" where
  "stack_apart P t s \<longleftrightarrow>
     (let pa = kernel_stack_phys (threads s t)
      in pa \<noteq> 0 \<and> pa \<in> used_pages s \<and> (\<forall>j < zone_count s. PHYS_TO_VIRT s pa \<notin> P j))"

lemma thread_destroy_last:
  fixes s :: "'a sched_state_scheme"
  assumes rep: "zones_rep P F s" and z: "thread_zone s = Some i" "i < zone_count s"
    and t: "t \<in> zone_live P F s i" "thread_ref_count (threads s t) = 1" "stack_apart P t s"
    and q: "run_queue s (as @ t # bs)"
  obtains u where "thread_destroy t s = Some (KERN_SUCCESS, u)" "zones_rep P (F(i := t # F i)) u"
    "zone_live P (F(i := t # F i)) u i = zone_live P F s i - {t}" "run_queue u (as @ bs)"
    "used_pages u = used_pages s - {kernel_stack_phys (threads s t)}"
    "\<And>b. \<not> b - t < elem_size (zone_store s i) \<Longrightarrow> mem u b = mem s b"
    "cpu_current_thread u = cpu_current_thread s" "cpu_data_ptr u = cpu_data_ptr s" "tasks u = tasks s" "regs u = regs s"
proof -
  let ?pa = "kernel_stack_phys (threads s t)"
  note st = t(3) [unfolded stack_apart_def Let_def]
  have t0: "t \<noteq> 0" using run_queue_null [OF q] by auto
  define s1 where "s1 = s\<lparr>threads := (threads s)(t := (threads s t)\<lparr>thread_ref_count := thread_ref_count (threads s t) - 1\<rparr>)\<rparr>"
  define s2 where "s2 = snd (sched_dequeue t s1)"
  have q1: "run_queue s1 (as @ t # bs)"
    by (rule run_queue_cong [OF q]) (simp_all add: s1_def same_links_def)
  have q2: "run_queue s2 (as @ bs)" unfolding s2_def by (rule run_queue_dequeue [OF q1, THEN conjunct2])
  have s2: "mem s2 = mem s" "bitmap s2 = bitmap s" "free_count s2 = free_count s" "hhdm_offset s2 = hhdm_offset s"
    "zone_count s2 = zone_count s" "zone_store s2 = zone_store s" "thread_zone s2 = thread_zone s" "tasks s2 = tasks s"
    "kernel_stack_phys (threads s2 t) = ?pa" "cpu_current_thread s2 = cpu_current_thread s" "cpu_data_ptr s2 = cpu_data_ptr s"
    "regs s2 = regs s"
    by (simp_all add: s2_def s1_def cpu_current_thread_def cpu_get_def cong: option.case_cong)
      (simp_all add: sched_dequeue_def upd_sched_def Let_def cong: option.case_cong)
  have rep2: "zones_rep P F s2" by (rule zones_rep_same [OF rep]) (simp_all add: s2)
  have inv: "pmm_inv s2" using rep2 by (simp add: zones_rep_def)
  have us: "used_pages s2 = used_pages s" by (rule used_pages_same) (rule s2(2))
  have p2: "PHYS_TO_VIRT s2 x = PHYS_TO_VIRT s x" for x by (simp add: PHYS_TO_VIRT_def s2)
  note fr = pmm_free_page_used [OF inv, of ?pa]
  obtain b c where "pmm_free_page ?pa s2 = s2\<lparr>bitmap := b, free_count := c\<rparr>" by (rule pmm_free_page_frame)
  then have s3: "pmm_free_page ?pa s2 = s2\<lparr>mem := mem s2, bitmap := b, free_count := c, tlb := tlb s2\<rparr>" by simp
  let ?s3 = "pmm_free_page ?pa s2"
  have u3: "used_pages ?s3 = used_pages s - {?pa}" "pmm_inv ?s3" using fr st us by simp_all
  have rep3: "zones_rep P F ?s3"
  proof (rule zones_rep_frame [OF rep2 s3 u3(2)])
    fix j assume j: "j < zone_count s2"
    have "P j \<subseteq> direct_pages s2" using rep2 j by (simp add: zones_rep_def)
    moreover have "PHYS_TO_VIRT s2 ?pa \<notin> P j" using st j by (simp add: p2 s2(5))
    ultimately show "P j \<subseteq> direct_pages ?s3"
      unfolding direct_pages_def u3(1) us by (auto simp: s3 PHYS_TO_VIRT_def)
  qed simp
  have z3: "zone_count ?s3 = zone_count s" "zone_store ?s3 = zone_store s" "mem ?s3 = mem s"
    by (simp_all add: s3 s2)
  have live3: "zone_live P F ?s3 i = zone_live P F s i" by (simp add: zone_live_def z3)
  show thesis
  proof (rule zfree_spec [OF rep3, of i t])
    show "i < zone_count ?s3" "t \<in> zone_live P F ?s3 i" using z t(1) by (simp_all add: z3 live3)
    fix u assume u: "zfree (Some i) t ?s3 = Some u" "zones_rep P (F(i := t # F i)) u"
      "zone_live P (F(i := t # F i)) u i = zone_live P F ?s3 i - {t}"
      "\<And>b. \<not> b - t < elem_size (zone_store ?s3 i) \<Longrightarrow> mem u b = mem ?s3 b" "\<exists>m zs. u = ?s3\<lparr>mem := m, zone_store := zs\<rparr>"
    obtain m zs where us3: "u = ?s3\<lparr>mem := m, zone_store := zs\<rparr>" using u(5) by blast
    have "thread_destroy t s = Some (KERN_SUCCESS, u)"
    proof -
      have rc: "\<not> thread_ref_count (threads s1 t) > 0" using t(2) by (simp add: s1_def)
      have "thread_destroy t s = do { (z, s) \<leftarrow> get_thread_zone ?s3; s \<leftarrow> zfree z t s; Some (KERN_SUCCESS, s) }"
        using t0 rc st s2(9) unfolding thread_destroy_def Let_def s1_def [symmetric] s2_def [symmetric] by simp
      moreover have "get_thread_zone ?s3 = Some (Some i, ?s3)" using z(1) by (simp add: get_thread_zone_def s3 s2)
      ultimately show ?thesis using u(1) by simp
    qed
    moreover have "run_queue u (as @ bs)" using q2 by (simp add: run_queue_def us3 s3)
    moreover have "used_pages u = used_pages s - {?pa}" using u3(1) used_pages_same [of u ?s3] by (simp add: us3)
    moreover have "cpu_current_thread u = cpu_current_thread s" "cpu_data_ptr u = cpu_data_ptr s" "tasks u = tasks s" "regs u = regs s"
      using s2 by (simp_all add: us3 s3 cpu_current_thread_def cpu_get_def cong: option.case_cong)
    ultimately show thesis using u(2-4) z3 live3 by (intro that [of u]) simp_all
  qed
qed

section \<open>Properties\<close>


text \<open>
  C24: Destroying a thread that was just created undoes the creation: the run queue and the live threads are as
  before, and the page of its stack is free again.
\<close>

theorem thread_create_destroy:
  assumes "zones_rep P F s" "thread_zone s = Some i" "i < zone_count s" "run_queue s xs" "set xs \<subseteq> zone_live P F s i"
    and "thread_create task entry arg s = Some (KERN_SUCCESS, t, u)"
  shows "\<exists>v P' F'. thread_destroy t u = Some (KERN_SUCCESS, v) \<and> zones_rep P' F' v \<and>
    zone_live P' F' v i = zone_live P F s i \<and> run_queue v xs \<and>
    kernel_stack_phys (threads u t) \<in> used_pages u \<and> used_pages v = used_pages u - {kernel_stack_phys (threads u t)}"
proof (cases rule: thread_create_cases [OF assms(1-5), of task entry arg])
  case (1 u F' P')
  then show ?thesis using assms(6) by simp
next
  case (2 t' u' pa P' F')
  then have tu: "t' = t" "u' = u" using assms(6) by simp_all
  note c = 2 [unfolded tu]
  have p: "PHYS_TO_VIRT u pa = PHYS_TO_VIRT s pa" using c(21) by (simp add: PHYS_TO_VIRT_def)
  have sa: "stack_apart P' t u" using c(7,18-20) by (simp add: stack_apart_def Let_def p)
  have z: "thread_zone u = Some i" "i < zone_count u" using assms(2,3) c(22,23) by simp_all
  have live: "t \<in> zone_live P' F' u i" using c(5) by simp
  show ?thesis
  proof (rule thread_destroy_last [OF c(2) z live c(24) sa, of xs "[]"])
    show "run_queue u (xs @ t # [])" using c(6) by simp
    fix v assume v: "thread_destroy t u = Some (KERN_SUCCESS, v)" "zones_rep P' (F'(i := t # F' i)) v"
      "zone_live P' (F'(i := t # F' i)) v i = zone_live P' F' u i - {t}" "run_queue v (xs @ [])"
      "used_pages v = used_pages u - {kernel_stack_phys (threads u t)}"
    have "zone_live P' (F'(i := t # F' i)) v i = zone_live P F s i" using v(3) c(4,5) by auto
    then show ?thesis using v(1,2,4,5) c(7,19) by auto
  qed
qed

lemma rotate_one_regs: "regs (rq.rotate_one s) = regs s"
  by (simp add: rq.rotate_one_def rq_take_def rq_put_def Let_def)

text \<open>
  C33: A thread that exits keeps running.  The system call frees the structure and the kernel stack of the current
  thread, and then returns to it: the thread stays the current one, on a stack page that the next allocation
  may hand out.  When the processor is next given to another thread, the registers are saved on the freed stack
  and their place in the freed structure, and the thread never runs again.
\<close>

theorem thread_exit_keeps_running:
  fixes s :: "'a sys_state_scheme"
  assumes "zones_rep P F s" "thread_zone s = Some i" "i < zone_count s" "sched_current s = t" "t \<in> zone_live P F s i"
    and "thread_ref_count (threads s t) = 1" "stack_apart P t s" "run_queue s (as @ t # bs)" "as @ bs = x # xs"
    and "cpu_data_ptr s = Some c"
  shows "\<exists>u v F'. call_thread_exit s = Some (Done KERN_SUCCESS None u) \<and> sched_current u = t \<and>
    zones_rep P F' u \<and> t \<notin> zone_live P F' u i \<and> kernel_stack_phys (threads s t) \<notin> used_pages u \<and>
    sched_run u = Some v \<and> sched_current v = x \<and> run_queue v (xs @ [x]) \<and> t \<notin> set (xs @ [x]) \<and>
    saved_rsp (threads v t) = rsp (regs s) - 56"
proof (rule thread_destroy_last [OF assms(1-3,5-8)])
  fix u assume u: "thread_destroy t s = Some (KERN_SUCCESS, u)" "zones_rep P (F(i := t # F i)) u"
    "zone_live P (F(i := t # F i)) u i = zone_live P F s i - {t}" "run_queue u (as @ bs)"
    "used_pages u = used_pages s - {kernel_stack_phys (threads s t)}"
    "cpu_current_thread u = cpu_current_thread s" "cpu_data_ptr u = cpu_data_ptr s" "regs u = regs s"
  have d: "distinct (as @ t # bs)" "0 \<notin> set (as @ t # bs)" using assms(8) by (simp_all add: run_queue_def)
  have tx: "t \<notin> set (x # xs)" "t \<noteq> 0" "x \<noteq> 0" using d arg_cong [OF assms(9), of set] by auto
  have cur: "cpu_current_thread u = t" using u(6) assms(4) by (simp add: sched_current_def)
  have exit: "call_thread_exit s = Some (Done KERN_SUCCESS None u)"
    using u(1) assms(4) tx(2) by (simp add: call_thread_exit_def Let_def)
  have q: "run_queue u (x # xs)" using u(4) assms(9) by simp
  show ?thesis
  proof (rule sched_run_rotates [OF q _ _ u(7) [unfolded assms(10)]])
    show "cpu_current_thread u \<noteq> 0" using cur tx(2) by simp
    fix v
    let ?c = "cpu_current_thread u"
    let ?s1 = "if ts_state (sched (threads u ?c)) = THREAD_STATE_RUNNING then sched_set_state ?c THREAD_STATE_RUNNABLE u else u"
    let ?r = "rq.rotate_one (sched_set_state x THREAD_STATE_RUNNING ?s1)"
    assume v: "sched_run u = Some v" "run_queue v (xs @ [x])" "cpu_current_thread v = x"
      "?c = x \<and> v = u \<or> thread_switch ?c x (cpu_set_current_thread x ?r) = Some v"
    have "thread_switch t x (cpu_set_current_thread x ?r) = Some v" using v(4) cur tx(1) by auto
    moreover have "regs (cpu_set_current_thread x ?r) = regs s"
      using u(8) by (simp add: rotate_one_regs cpu_set_current_thread_def sched_set_state_def upd_sched_def split: option.split)
    ultimately have "saved_rsp (threads v t) = rsp (regs s) - 56"
      using tx(2,3) by (auto simp: thread_switch_eq)
    then show ?thesis
      using exit u(2,3,5) v(1-3) cur tx(1) by (auto simp: sched_current_def)
  qed (use cur tx(1) in auto)
qed

text \<open>The state of the witnesses: a thread just created on an otherwise empty kernel.\<close>

lemma one_thread:
  obtains t u P F where "thread_create 0 0x400000 7 (quiet [88] (undefined :: sys_state)) = Some (KERN_SUCCESS, t, u)"
    "zones_rep P F u" "thread_zone u = Some 0" "zone_count u = 1" "t \<in> zone_live P F u 0" "t \<noteq> 0"
    "thread_ref_count (threads u t) = 1" "stack_apart P t u" "run_queue u [t]" "cpu_data_ptr u = Some 0"
proof -
  let ?s = "quiet [88] (undefined :: sys_state)"
  have q: "zones_rep (\<lambda>_. {}) (\<lambda>_. []) ?s" "card (free_set ?s) = 48" "run_queue ?s []"
    using quiet [of "[88]" "undefined :: sys_state"] elem_ok_88 by simp_all
  have z: "thread_zone ?s = Some 0" "zone_count ?s = 1" "max_size (zone_store ?s 0) = 0" "cpu_data_ptr ?s = Some 0"
    by (simp_all add: quiet_def blank_zone_def)
  have z0: "0 < zone_count ?s" "set [] \<subseteq> zone_live (\<lambda>_. {}) (\<lambda>_. []) ?s 0" using z(2) by simp_all
  show thesis
  proof (cases rule: thread_create_cases [OF q(1) z(1) z0(1) q(3) z0(2), of 0 "0x400000" 7])
    case (1 u F' P')
    then show thesis using q(2) z(3) by simp
  next
    case (2 t u pa P' F')
    have "PHYS_TO_VIRT u pa = PHYS_TO_VIRT ?s pa" using 2(21) by (simp add: PHYS_TO_VIRT_def)
    then have "stack_apart P' t u" using 2(7,18-20) by (simp add: stack_apart_def Let_def)
    then show thesis using 2 z by (intro that [of t u P' F']) simp_all
  qed
qed


theorem thread_create_destroy_witness:
  "\<exists>t u v. thread_create 0 0x400000 7 (quiet [88] (undefined :: sys_state)) = Some (KERN_SUCCESS, t, u) \<and>
     thread_destroy t u = Some (KERN_SUCCESS, v) \<and> run_queue v []"
proof (rule one_thread)
  fix t u
  assume u: "thread_create 0 0x400000 7 (quiet [88] (undefined :: sys_state)) = Some (KERN_SUCCESS, t, u)"
  let ?s = "quiet [88] (undefined :: sys_state)"
  have q: "zones_rep (\<lambda>_. {}) (\<lambda>_. []) ?s" "run_queue ?s []"
    using quiet [of "[88]" "undefined :: sys_state"] elem_ok_88 by simp_all
  have z: "thread_zone ?s = Some 0" "0 < zone_count ?s" by (simp_all add: quiet_def)
  from thread_create_destroy [OF q(1) z q(2) _ u] show ?thesis using u by auto
qed

theorem thread_exit_keeps_running_witness:
  "\<exists>(s :: sys_state) t u. sched_current s = t \<and> call_thread_exit s = Some (Done KERN_SUCCESS None u) \<and> sched_current u = t \<and>
     kernel_stack_phys (threads s t) \<in> used_pages s \<and> kernel_stack_phys (threads s t) \<notin> used_pages u"
proof (rule one_thread)
  fix t P F and u :: sys_state
  assume u: "zones_rep P F u" "thread_zone u = Some 0" "zone_count u = 1" "t \<in> zone_live P F u 0" "t \<noteq> 0"
    "thread_ref_count (threads u t) = 1" "stack_apart P t u" "run_queue u [t]" "cpu_data_ptr u = Some 0"
  define x :: addr where "x = (if t = 1 then 2 else 1)"
  define s where "s = cpu_set_current_thread t (rq_put x u)"
  have x: "x \<noteq> 0" "x \<noteq> t" by (simp_all add: x_def)
  have f: "mem s = mem u" "bitmap s = bitmap u" "free_count s = free_count u" "hhdm_offset s = hhdm_offset u"
    "zone_count s = zone_count u" "zone_store s = zone_store u" "thread_zone s = thread_zone u" "cpu_data_ptr s = Some 0"
    "thread_ref_count (threads s t) = 1" "kernel_stack_phys (threads s t) = kernel_stack_phys (threads u t)"
    using u(6,9) by (simp_all add: s_def rq_put_def cpu_set_current_thread_def split: option.split)
  have cur: "sched_current s = t"
    using u(9) by (simp add: s_def sched_current_def rq_put_def)
  have rep: "zones_rep P F s" by (rule zones_rep_same [OF u(1)]) (simp_all add: f)
  have sa: "stack_apart P t s"
    using u(7) by (simp add: stack_apart_def Let_def f PHYS_TO_VIRT_def used_pages_def bitmap_test_def)
  have "run_queue (rq_put x u) [t, x]" using run_queue_enqueue [OF u(8) x(1)] x(2) by (simp add: rq_put_def)
  then have q: "run_queue s ([] @ t # [x])"
    unfolding s_def append_Nil by (rule run_queue_cong) (simp_all add: same_links_def)
  have z: "thread_zone s = Some 0" "0 < zone_count s" using u(2,3) by (simp_all add: f)
  have live: "t \<in> zone_live P F s 0" using u(4) by (simp add: zone_live_def f)
  from thread_exit_keeps_running [OF rep z cur live f(9) sa q _ f(8), of x "[]"]
  obtain v where "call_thread_exit s = Some (Done KERN_SUCCESS None v)" "sched_current v = t"
    "kernel_stack_phys (threads s t) \<notin> used_pages v" by auto
  moreover have "kernel_stack_phys (threads s t) \<in> used_pages s" using sa by (simp add: stack_apart_def Let_def)
  ultimately show ?thesis using cur by blast
qed

end
