(* ===== verification/Vm_Destroy.thy ===== *)
theory Vm_Destroy
  imports Vm_Fault
begin

text \<open>
  \<^verbatim>\<open>vm_map_destroy\<close> of \<^verbatim>\<open>vm/vm_map.c\<close>: the last reference to a map gives back the pages of its entries, the entries,
  the page tables and the map itself.  A page that is mapped without an entry stays in use.
\<close>

section \<open>What the invariant depends on\<close>

lemma tables_same:
  assumes "mem t = mem s" "hhdm_offset t = hhdm_offset s"
  shows "table_at t r p = table_at s r p" "translate t r va = translate s r va" "tables t I r = tables s I r"
proof -
  have n: "next_table t r i = next_table s r i" for r i
    by (simp add: assms next_table_def read_pte_def pte_addr_def PHYS_TO_VIRT_def)
  show ta: "table_at t r p = table_at s r p" for r p
    by (induction p arbitrary: r) (simp_all add: n split: option.split)
  show "translate t r va = translate s r va"
    by (simp add: assms translate_def ta n read_pte_def pte_addr_def PHYS_TO_VIRT_def split: option.split)
  show "tables t I r = tables s I r" by (simp add: tables_def ta)
qed

text \<open>
  The invariant of a map does not depend on the console, on reference counts or on the variables of later
  components, and on the page tables' descriptor only through the root.
\<close>

lemma vm_same:
  fixes s t :: "'a vm_state_scheme"
  assumes "mem t = mem s" "hhdm_offset t = hhdm_offset s" "bitmap t = bitmap s" "free_count t = free_count s"
    "zone_store t = zone_store s" "zone_count t = zone_count s" "vm_entries t = vm_entries s"
    "vm_map_zone t = vm_map_zone s" "vm_map_entry_zone t = vm_map_entry_zone s"
    "nentries (vm_maps t vmap) = nentries (vm_maps s vmap)" "min_offset (vm_maps t vmap) = min_offset (vm_maps s vmap)"
    "max_offset (vm_maps t vmap) = max_offset (vm_maps s vmap)"
    "pml4_phys (pmaps t (vm_pmap (vm_maps t vmap))) = pml4_phys (pmaps s (vm_pmap (vm_maps s vmap)))"
  shows "vm_inv P F root es vmap t = vm_inv P F root es vmap s"
proof -
  note ts = tables_same [OF assms(1,2)]
  have fs: "free_set t = free_set s" by (simp add: assms free_set_def bitmap_test_def)
  have us: "used_pages t = used_pages s" by (simp add: assms used_pages_def bitmap_test_def)
  have p: "PHYS_TO_VIRT t = PHYS_TO_VIRT s" by (rule ext) (simp add: assms PHYS_TO_VIRT_def)
  have inv: "pmm_inv t = pmm_inv s" by (simp add: assms pmm_inv_def count_ok_def fs bitmap_test_def)
  have pt: "pt_tree t I r = pt_tree s I r" for I r by (simp add: assms pt_tree_def ts us hhdm_ok_def)
  have zr: "zones_rep P F t = zones_rep P F s"
    by (simp add: assms zones_rep_def inv hhdm_ok_def zone_ok_def direct_pages_def p us)
  have sp: "space_inv P F root (vm_pmap (vm_maps t vmap)) t = space_inv P F root (vm_pmap (vm_maps s vmap)) s"
    by (simp add: assms space_inv_def zr pmap_inv_def pt inv owned_def ts us p frames_def zone_pages_def)
  have ml: "map_list t vmap es = map_list s vmap es"
    using map_list_cong [of s vmap es t] map_list_cong [of t vmap es s] by (auto simp: assms)
  have "sorted_entries t es = sorted_entries s es" by (rule sorted_entries_cong) (simp add: assms)
  then have "entries_inv P F es vmap t = entries_inv P F es vmap s"
    by (simp add: assms entries_inv_def zone_live_def ml)
  then show ?thesis by (simp add: vm_inv_def sp)
qed

section \<open>The loop over the entries\<close>

definition entry_pages :: "'a vm_state_scheme \<Rightarrow> addr list \<Rightarrow> addr set" where
  "entry_pages s es = (\<Union>e \<in> set es. visited (vme_start (vm_entries s e)) (vme_end (vm_entries s e)))"

text \<open>What the loop leaves alone: the heaps of maps and entries, and every variable of the zones but their stores.\<close>

definition heap_frame :: "'a vm_state_scheme \<Rightarrow> 'a vm_state_scheme \<Rightarrow> bool" where
  "heap_frame s t \<longleftrightarrow> (\<exists>m b c tl zs. t = s\<lparr>mem := m, bitmap := b, free_count := c, tlb := tl, zone_store := zs\<rparr>)"

lemma heap_frame_refl: "heap_frame s s"
proof -
  have "s = s\<lparr>mem := mem s, bitmap := bitmap s, free_count := free_count s, tlb := tlb s, zone_store := zone_store s\<rparr>" by simp
  then show ?thesis unfolding heap_frame_def by blast
qed

lemma heap_frame_trans: "heap_frame s t \<Longrightarrow> heap_frame t u \<Longrightarrow> heap_frame s u"
  unfolding heap_frame_def by (elim exE) (simp, blast)

lemma heap_frame_fields:
  assumes "heap_frame s t"
  shows "vm_maps t = vm_maps s" "vm_entries t = vm_entries s" "vm_map_entry_zone t = vm_map_entry_zone s"
    "vm_map_zone t = vm_map_zone s" "zone_count t = zone_count s" "pmaps t = pmaps s" "pmap_kernel t = pmap_kernel s"
    "hhdm_offset t = hhdm_offset s" "kernel_map t = kernel_map s"
  using assms by (auto simp: heap_frame_def)

lemma vm_frame_heap: "vm_frame s t \<Longrightarrow> heap_frame s t"
proof -
  assume "vm_frame s t"
  then obtain m b c tl where "t = s\<lparr>mem := m, bitmap := b, free_count := c, tlb := tl\<rparr>" by (auto simp: vm_frame_def)
  then have "t = s\<lparr>mem := m, bitmap := b, free_count := c, tlb := tl, zone_store := zone_store s\<rparr>" by simp
  then show ?thesis unfolding heap_frame_def by blast
qed

lemma zfree_heap: "zfree z x s = Some t \<Longrightarrow> heap_frame s t"
proof -
  assume "zfree z x s = Some t"
  then have "t = s\<lparr>mem := mem t, bitmap := bitmap s, free_count := free_count s, tlb := tlb s, zone_store := zone_store t\<rparr>"
    by (auto simp: zfree_def Let_def upd_zone_def split: option.splits if_splits)
  then show ?thesis unfolding heap_frame_def by blast
qed

lemma destroy_entries_spec:
  fixes s :: "'a vm_state_scheme"
  assumes "space_inv P F root (vm_pmap (vm_maps s vmap)) s" "links s (bs @ [header vmap])" "distinct bs"
    "header vmap \<notin> set bs" "0 \<notin> set bs" "vm_map_entry_zone s = Some i" "i < zone_count s" "set bs \<subseteq> zone_live P F s i"
    "\<And>e. e \<in> set bs \<Longrightarrow> unat (vme_end (vm_entries s e)) \<le> 2 ^ 47"
  shows "\<exists>t F'. destroy_entries vmap (hd (bs @ [header vmap])) s = Some t \<and>
    space_inv P F' root (vm_pmap (vm_maps s vmap)) t \<and> heap_frame s t \<and> unmapped root (entry_pages s bs) s t \<and>
    tables t user_half root = tables s user_half root"
  using assms
proof (induction bs arbitrary: s F)
  case Nil
  then show ?case
    by (intro exI [of _ s] exI [of _ F])
      (simp add: destroy_entries.simps heap_frame_refl unmapped_refl entry_pages_def)
next
  case (Cons e bs)
  let ?h = "header vmap" and ?en = "vm_entries s e" and ?pm = "vm_pmap (vm_maps s vmap)"
  have nxt: "next_of s e = hd (bs @ [?h])" by (rule next_of_entry) (use Cons.prems(2) in simp)
  have b: "unat (vme_end ?en) \<le> 2 ^ 47" using Cons.prems(9) by simp
  obtain u where u: "unmap_range ?pm (vme_start ?en) (vme_end ?en) s = Some u" "space_inv P F root ?pm u" "vm_frame s u"
    "unmapped root (visited (vme_start ?en) (vme_end ?en)) s u" "tables u user_half root = tables s user_half root"
    using unmap_range_spec [OF Cons.prems(1) b] unfolding unmapped_def by blast
  have zl: "zone_live P F u k = zone_live P F s k" for k using u(3) by (auto simp: zone_live_def vm_frame_def)
  have x: "i < zone_count u" "e \<in> zone_live P F u i"
    using Cons.prems(7,8) vm_frame_fields [OF u(3)] by (simp_all add: zl)
  show ?case
  proof (rule space_inv_zfree [OF u(2) x])
    fix v
    assume v: "zfree (Some i) e u = Some v" "space_inv P (F(i := e # F i)) root ?pm v"
      "zone_live P (F(i := e # F i)) v i = zone_live P F u i - {e}"
      "zone_count v = zone_count u" "\<And>va. PML4_IDX va \<in> user_half \<Longrightarrow> translate v root va = translate u root va"
      "tables v user_half root = tables u user_half root" "used_pages v = used_pages u"
    have hf: "heap_frame s v" by (rule heap_frame_trans [OF vm_frame_heap [OF u(3)] zfree_heap [OF v(1)]])
    note ff = heap_frame_fields [OF hf]
    have lk: "links v (bs @ [?h])"
      by (rule links_cong [of s]) (use Cons.prems(2) in \<open>cases bs; simp add: ff\<close>, simp_all add: ff)
    have "set bs \<subseteq> zone_live P (F(i := e # F i)) v i" using Cons.prems(3,8) by (auto simp: v(3) zl)
    moreover have "space_inv P (F(i := e # F i)) root (vm_pmap (vm_maps v vmap)) v" using v(2) by (simp add: ff)
    moreover have "\<And>x. x \<in> set bs \<Longrightarrow> unat (vme_end (vm_entries v x)) \<le> 2 ^ 47" using Cons.prems(9) by (simp add: ff)
    moreover have "distinct bs" "?h \<notin> set bs" "0 \<notin> set bs" "vm_map_entry_zone v = Some i" "i < zone_count v"
      using Cons.prems(3-7) by (simp_all add: ff)
    ultimately obtain t F' where t: "destroy_entries vmap (hd (bs @ [?h])) v = Some t" "space_inv P F' root ?pm t" "heap_frame v t"
      "unmapped root (entry_pages v bs) v t" "tables t user_half root = tables v user_half root"
      using Cons.IH [of "F(i := e # F i)" v, OF _ lk] unfolding ff by blast
    have "e \<noteq> ?h" "e \<noteq> 0" using Cons.prems(4,5) by auto
    then have run: "destroy_entries vmap e s = Some t"
      using Cons.prems(6) u(1) v(1) t(1) nxt vm_frame_fields [OF u(3)]
      by (subst destroy_entries.simps) (simp add: Let_def)
    have ep: "entry_pages v bs = entry_pages s bs" by (simp add: entry_pages_def ff)
    have "unmapped root (visited (vme_start ?en) (vme_end ?en) \<union> entry_pages s bs) s t"
    proof (rule unmapped_trans [OF unmapped_cong [OF u(4) v(5,7)]])
      show "unmapped root (entry_pages s bs) v t" using t(4) ep by simp
      fix y assume "y \<in> entry_pages s bs"
      then show "user_addr y" using visited_user Cons.prems(9) by (auto simp: entry_pages_def)
    qed
    then have "unmapped root (entry_pages s (e # bs)) s t" by (simp add: entry_pages_def)
    then show ?case using run t(2,5) v(6) u(5) heap_frame_trans [OF hf t(3)]
      by (intro exI [of _ t] exI [of _ F']) simp
  qed
qed

section \<open>The page tables\<close>

text \<open>What \<open>pmap_destroy\<close> frees is part of the tables below the root.\<close>

lemma table_path:
  assumes "i < 512" "j < 512" "k < 512" "next_table s root i = Some t1"
  shows "t1 \<in> tables s UNIV root"
    "next_table s t1 j = Some t2 \<Longrightarrow> t2 \<in> tables s UNIV root"
    "next_table s t1 j = Some t2 \<Longrightarrow> next_table s t2 k = Some t3 \<Longrightarrow> t3 \<in> tables s UNIV root"
proof -
  have v: "vpath UNIV [i]" "vpath UNIV [i, j]" "vpath UNIV [i, j, k]" using assms(1-3) by (simp_all add: vpath_def)
  show "t1 \<in> tables s UNIV root" using v(1) assms(4) by (auto simp: tables_def intro!: exI [of _ "[i]"])
  show "t2 \<in> tables s UNIV root" if "next_table s t1 j = Some t2"
    using v(2) assms(4) that by (auto simp: tables_def intro!: exI [of _ "[i, j]"])
  show "t3 \<in> tables s UNIV root" if "next_table s t1 j = Some t2" "next_table s t2 k = Some t3"
    using v(3) assms(4) that by (auto simp: tables_def intro!: exI [of _ "[i, j, k]"])
qed

lemma masked_page: "push_bit 12 (drop_bit 12 (e AND PTE_ADDR_MASK)) = e AND PTE_ADDR_MASK"
  by (rule bit_word_eqI) (auto simp: bit_push_bit_iff bit_drop_bit_eq bit_and_iff bit_PTE_ADDR_MASK)

lemma page_freed_push: "p \<in> page_freed (e AND PTE_ADDR_MASK) \<Longrightarrow> push_bit 12 p = e AND PTE_ADDR_MASK"
  using masked_page [of e] by (simp add: page_freed_def)

lemma freed_tables:
  assumes "i4 < 512" "p \<in> pml4_freed s root i4"
  shows "push_bit 12 p \<in> tables s UNIV root"
proof -
  define e4 where "e4 = read_pte s root (of_nat i4)"
  let ?t1 = "e4 AND PTE_ADDR_MASK"
  have i: "(of_nat n :: u64) < 512" if "n < 512" for n using that by (simp add: of_nat_less_word64)
  have e4: "e4 AND PTE_P \<noteq> 0" using assms(2) by (auto simp: pml4_freed_def e4_def Let_def split: if_splits)
  then have n1: "next_table s root (of_nat i4) = Some ?t1" by (simp add: next_table_def e4_def)
  note path = table_path [OF i [OF assms(1)] i i n1]
  consider "p \<in> page_freed ?t1" | i3 where "i3 < 512" "p \<in> pdpt_freed s ?t1 i3"
    using assms(2) e4 by (auto simp: pml4_freed_def e4_def Let_def)
  then show ?thesis
  proof cases
    case 1
    then show ?thesis using path(1) [of 0 0] page_freed_push by simp
  next
    case (2 i3)
    define e3 where "e3 = read_pte s ?t1 (of_nat i3)"
    let ?t2 = "e3 AND PTE_ADDR_MASK"
    have e3: "e3 AND PTE_P \<noteq> 0" using 2(2) by (auto simp: pdpt_freed_def e3_def Let_def split: if_splits)
    then have n2: "next_table s ?t1 (of_nat i3) = Some ?t2" by (simp add: next_table_def e3_def)
    consider "p \<in> page_freed ?t2" | i2 where "i2 < 512" "p \<in> pd_freed s ?t2 i2"
      using 2(2) e3 by (auto simp: pdpt_freed_def e3_def Let_def split: if_splits)
    then show ?thesis
    proof cases
      case 1
      then show ?thesis using path(2) [OF 2(1), of 0] n2 page_freed_push by simp
    next
      case (2 i2)
      define e2 where "e2 = read_pte s ?t2 (of_nat i2)"
      have "e2 AND PTE_P \<noteq> 0" "p \<in> page_freed (e2 AND PTE_ADDR_MASK)"
        using 2(2) by (auto simp: pd_freed_def e2_def Let_def split: if_splits)
      moreover from this have "next_table s ?t2 (of_nat i2) = Some (e2 AND PTE_ADDR_MASK)"
        by (simp add: next_table_def e2_def)
      ultimately show ?thesis using path(3) [OF \<open>i3 < 512\<close> 2(1) n2] page_freed_push by simp
    qed
  qed
qed

lemma pmap_destroy_pages:
  fixes s :: "'a pmap_state_scheme"
  assumes "pm \<noteq> pmap_kernel s" "pm_ref_count (pmaps s pm) = 1" "root = pml4_phys (pmaps s pm)"
    "root \<in> used_pages s" "root \<noteq> 0" "2 ^ 32 \<le> unat (VIRT_TO_PHYS s pm)"
  obtains t b c p where "pmap_destroy pm s = t" "t = s\<lparr>pmaps := p, bitmap := b, free_count := c\<rparr>"
    "root \<notin> used_pages t" "used_pages s - tables s UNIV root \<subseteq> used_pages t" "used_pages t \<subseteq> used_pages s"
proof -
  define A where "A = (\<Union>i4 \<in> {..<512}. pml4_freed s root i4) \<union> page_freed root \<union> page_freed (VIRT_TO_PHYS s pm)"
  define t where "t = pmap_destroy pm s"
  let ?u = "s\<lparr>pmaps := (pmaps s)(pm := (pmaps s pm)\<lparr>pm_ref_count := 0\<rparr>)\<rparr>"
  have fr: "frees A ?u t" using pmap_destroy_last [OF assms(1,2)] unfolding assms(3) [symmetric] A_def t_def .
  obtain b c where t: "t = ?u\<lparr>bitmap := b, free_count := c\<rparr>" using fr by (auto simp: frees_def)
  have test: "bitmap_test t p \<longleftrightarrow> bitmap_test s p \<and> p \<notin> A" for p using fr by (simp add: frees_def bitmap_test_def)
  have "page_freed (VIRT_TO_PHYS s pm) = {}"
    using assms(6) tracked_addr [of "VIRT_TO_PHYS s pm"] by (auto simp: page_freed_def)
  then have Ad: "push_bit 12 p \<in> tables s UNIV root" if "p \<in> A" for p
  proof -
    obtain q where "root = push_bit 12 q" "q < 1048576" using assms(4) by (auto simp: used_pages_def)
    then have "push_bit 12 (drop_bit 12 root) = root" by (simp add: page_addr_inverse)
    moreover have "root \<in> tables s UNIV root" by (auto simp: tables_def vpath_def intro!: exI [of _ "[]"])
    ultimately show ?thesis using that freed_tables [of _ p s root] \<open>page_freed (VIRT_TO_PHYS s pm) = {}\<close>
      by (auto simp: A_def) (auto simp: page_freed_def)
  qed
  have used: "x \<in> used_pages t \<longleftrightarrow> x \<in> used_pages s \<and> drop_bit 12 x \<notin> A" for x
    by (auto simp: used_pages_def test page_addr_inverse)
  show thesis
  proof (rule that [OF t_def [symmetric]])
    show "t = s\<lparr>pmaps := pmaps t, bitmap := b, free_count := c\<rparr>" by (simp add: t)
    have "drop_bit 12 root \<in> page_freed root"
    proof -
      obtain q where q: "root = push_bit 12 q" "q < 1048576" using assms(4) by (auto simp: used_pages_def)
      then have "drop_bit 12 root = q" by (simp add: page_addr_inverse)
      then show ?thesis using q assms(5) by (auto simp: page_freed_def)
    qed
    then show "root \<notin> used_pages t" by (simp add: used A_def)
    show "used_pages t \<subseteq> used_pages s" by (auto simp: used)
    show "used_pages s - tables s UNIV root \<subseteq> used_pages t"
      using Ad by (auto simp: used) (auto simp: used_pages_def page_addr_inverse)
  qed
qed

section \<open>The whole map\<close>

lemma upd_map_space:
  fixes s :: "'a vm_state_scheme"
  shows "space_inv P F root pm (upd_map v f s) = space_inv P F root pm s" "translate (upd_map v f s) root va = translate s root va"
    "tables (upd_map v f s) I root = tables s I root" "used_pages (upd_map v f s) = used_pages s"
    "zone_live P F (upd_map v f s) i = zone_live P F s i"
proof -
  have u: "upd_map v f s = s\<lparr>vm_maps := (vm_maps s)(v := f (vm_maps s v)), vm_entries := vm_entries s\<rparr>" by (simp add: upd_map_def)
  show "space_inv P F root pm (upd_map v f s) = space_inv P F root pm s" "translate (upd_map v f s) root va = translate s root va"
    "tables (upd_map v f s) I root = tables s I root" "used_pages (upd_map v f s) = used_pages s"
    "zone_live P F (upd_map v f s) i = zone_live P F s i"
    unfolding u by (rule space_inv_heaps)+
qed

text \<open>The last reference: the loop, then the page tables and the map.\<close>

lemma vm_map_destroy_spec:
  fixes s :: "'a vm_state_scheme"
  assumes inv: "vm_inv P F root es vmap s" and last: "vmap \<noteq> kernel_map s" "map_ref_count (vm_maps s vmap) = 1"
    and pm: "vm_pmap (vm_maps s vmap) \<noteq> pmap_kernel s" "pm_ref_count (pmaps s (vm_pmap (vm_maps s vmap))) = 1"
      "2 ^ 32 \<le> unat (VIRT_TO_PHYS s (vm_pmap (vm_maps s vmap)))"
  obtains u t F' where "vm_map_destroy vmap s = Some t" "heap_frame (upd_map vmap (map_ref_count_update (\<lambda>_. 0)) s) u"
      "space_inv P F' root (vm_pmap (vm_maps s vmap)) u"
      "unmapped root (entry_pages s es) s u" "es = [] \<Longrightarrow> u = upd_map vmap (map_ref_count_update (\<lambda>_. 0)) s"
      "root \<notin> used_pages t" "used_pages u - tables u UNIV root \<subseteq> used_pages t" "used_pages t \<subseteq> used_pages u"
      "vm_maps t = vm_maps u" "\<exists>m b c p tl zs. t = (upd_map vmap (map_ref_count_update (\<lambda>_. 0)) s)
        \<lparr>mem := m, bitmap := b, free_count := c, zone_store := zs, pmaps := p, tlb := tl\<rparr>"
proof -
  let ?r = "upd_map vmap (map_ref_count_update (\<lambda>_. 0)) s" and ?pm = "vm_pmap (vm_maps s vmap)" and ?h = "header vmap"
  note d = vm_invD [OF inv]
  obtain i j where ij: "vm_map_entry_zone s = Some i" "vm_map_zone s = Some j" "i < zone_count s" "set es \<subseteq> zone_live P F s i"
    using d(2) unfolding entries_inv_def by blast
  have rf: "vm_entries ?r = vm_entries s" "vm_pmap (vm_maps ?r vmap) = ?pm" "vm_map_entry_zone ?r = Some i" "vm_map_zone ?r = Some j"
    "zone_count ?r = zone_count s" "pmaps ?r = pmaps s" "pmap_kernel ?r = pmap_kernel s" "hhdm_offset ?r = hhdm_offset s"
    using ij by (simp_all add: upd_map_def)
  have sp: "space_inv P F root (vm_pmap (vm_maps ?r vmap)) ?r" using d(1) unfolding rf upd_map_space .
  have "links ?r (es @ [?h])"
  proof -
    have "links s (es @ [?h])" using d(9) by (cases es) simp_all
    then show ?thesis by (rule links_cong) (simp_all add: rf)
  qed
  note de = destroy_entries_spec [OF sp this d(13,10,11) rf(3)]
  obtain u F' where u: "destroy_entries vmap (hd (es @ [?h])) ?r = Some u" "space_inv P F' root ?pm u" "heap_frame ?r u"
    "unmapped root (entry_pages ?r es) ?r u" "tables u user_half root = tables ?r user_half root"
    using de ij(3,4) entry_end_user [OF inv] unfolding rf upd_map_space by blast
  note uf = heap_frame_fields [OF u(3)]
  have root: "root = pml4_phys (pmaps u ?pm)" by (rule space_invD(6) [OF u(2)])
  have "root \<in> tables u user_half root" by (auto simp: tables_def vpath_def intro!: exI [of _ "[]"])
  then have used: "root \<in> used_pages u" "root \<noteq> 0" using space_invD(3,8) [OF u(2)] by auto
  have "?pm \<noteq> pmap_kernel u" "pm_ref_count (pmaps u ?pm) = 1" using pm by (simp_all add: uf rf)
  moreover have "VIRT_TO_PHYS u ?pm = VIRT_TO_PHYS s ?pm" by (simp add: VIRT_TO_PHYS_def uf rf)
  then have "2 ^ 32 \<le> unat (VIRT_TO_PHYS u ?pm)" using pm(3) by simp
  ultimately show thesis
  proof (rule pmap_destroy_pages [OF _ _ root used])
    fix v b c p
    assume v: "pmap_destroy ?pm u = v" "v = u\<lparr>pmaps := p, bitmap := b, free_count := c\<rparr>" "root \<notin> used_pages v"
      "used_pages u - tables u UNIV root \<subseteq> used_pages v" "used_pages v \<subseteq> used_pages u"
    have v0: "vmap \<noteq> 0"
    proof
      assume "vmap = 0"
      obtain j where "vmap \<in> zone_live P F s j" "j < zone_count s" using d(2) unfolding entries_inv_def by blast
      then show False using zone_slot_nonzero(1) [of P F s j vmap] space_invD(1) [OF d(1)] \<open>vmap = 0\<close>
        by (auto simp: zone_live_def live_def)
    qed
    obtain t where t: "zfree (Some j) vmap v = Some t" using v0 by (simp add: zfree_def Let_def)
    have tt: "t = v\<lparr>mem := mem t, zone_store := zone_store t\<rparr>"
      using t by (auto simp: zfree_def Let_def upd_zone_def split: if_splits)
    have "used_pages t = used_pages v" by (subst tt) (simp add: used_pages_def bitmap_test_def)
    moreover have "vm_map_destroy vmap s = Some t"
    proof -
      have n: "next_of ?r ?h = hd (es @ [?h])" using next_of_entry [OF d(9)] by (simp add: rf)
      have z: "vm_map_zone v = Some j" by (simp add: v(2) uf rf)
      have m: "vm_pmap (vm_maps u vmap) = ?pm" by (simp add: uf rf)
      have r: "upd_map vmap (\<lambda>m. m\<lparr>map_ref_count := map_ref_count m - 1\<rparr>) s = ?r"
        using last(2) by (simp add: upd_map_def)
      have "\<not> map_ref_count (vm_maps ?r vmap) > 0" by (simp add: upd_map_def)
      then show ?thesis using last(1) u(1) v(1) t unfolding vm_map_destroy_def Let_def r by (simp add: n m z)
    qed
    moreover have "unmapped root (entry_pages s es) s u"
    proof -
      have "entry_pages ?r es = entry_pages s es" by (simp add: entry_pages_def rf)
      moreover have "freed_frames root X ?r = freed_frames root X s" for X by (simp add: freed_frames_def upd_map_space)
      ultimately show ?thesis using u(4) by (simp add: unmapped_def upd_map_space)
    qed
    moreover have "u = ?r" if "es = []"
      using u(1) that by (simp add: destroy_entries.simps)
    moreover have "vm_maps t = vm_maps u" by (subst tt) (simp add: v(2))
    moreover have "\<exists>m b c p tl zs. t = ?r\<lparr>mem := m, bitmap := b, free_count := c, zone_store := zs, pmaps := p, tlb := tl\<rparr>"
    proof -
      obtain m' b' c' tl zs where "u = ?r\<lparr>mem := m', bitmap := b', free_count := c', tlb := tl, zone_store := zs\<rparr>"
        using u(3) by (auto simp: heap_frame_def)
      then have "t = ?r\<lparr>mem := mem t, bitmap := b, free_count := c, zone_store := zone_store t, pmaps := p, tlb := tl\<rparr>"
        by (subst tt) (simp add: v(2))
      then show ?thesis by blast
    qed
    ultimately show thesis using u(2,3) v(3-5) by (intro that [of t u F']) simp_all
  qed
qed

text \<open>
  C21: Destroying a map.  Dropping the last reference ends, whatever entries the map has; every page that an entry
  of the map covers is free again, and so is the root of the page tables.
\<close>

theorem vm_map_destroy_correct:
  fixes s :: "'a vm_state_scheme"
  assumes "vm_inv P F root es vmap s" "vmap \<noteq> kernel_map s" "map_ref_count (vm_maps s vmap) = 1"
    and "vm_pmap (vm_maps s vmap) \<noteq> pmap_kernel s" "pm_ref_count (pmaps s (vm_pmap (vm_maps s vmap))) = 1"
    and "2 ^ 32 \<le> unat (VIRT_TO_PHYS s (vm_pmap (vm_maps s vmap)))"
  shows "\<exists>t. vm_map_destroy vmap s = Some t \<and>
    used_pages t \<subseteq> used_pages s - freed_frames root (entry_pages s es) s - {root}"
proof (rule vm_map_destroy_spec [OF assms])
  fix u t
  assume t: "vm_map_destroy vmap s = Some t" "unmapped root (entry_pages s es) s u" "root \<notin> used_pages t"
    "used_pages t \<subseteq> used_pages u"
  then show ?thesis by (auto simp: unmapped_def)
qed

text \<open>The map with two wired pages, over a descriptor of its own.\<close>

definition destroy_demo :: vm_state where
  "destroy_demo = one_entry\<lparr>kernel_map := 0, pmap_kernel := hhdm_offset one_entry,
     vm_maps := (vm_maps one_entry)(fst one_map := (vm_maps one_entry (fst one_map))
       \<lparr>map_ref_count := 1, vm_pmap := hhdm_offset one_entry + 0x100000000\<rparr>),
     pmaps := \<lambda>_. \<lparr>pml4_phys = 0x1000, pm_ref_count = 1\<rparr>\<rparr>"

theorem vm_map_destroy_correct_witness:
  "\<exists>t e. vm_map_destroy (fst one_map) destroy_demo = Some t \<and> translate destroy_demo 0x1000 0x401000 = Some e \<and>
     e AND PTE_ADDR_MASK \<in> used_pages destroy_demo \<and> e AND PTE_ADDR_MASK \<notin> used_pages t"
proof (rule one_entry_ok)
  fix P F ne
  assume o: "vm_inv P F 0x1000 [ne] (fst one_map) one_entry"
    "entry_info one_entry ne = (0x400000, 0x402000, VM_PROT_DEFAULT, VM_PROT_ALL, VME_WIRED)"
    "\<exists>e. translate one_entry 0x1000 0x401000 = Some e"
  let ?s = destroy_demo and ?m = "fst one_map"
  have root: "pml4_phys (pmaps one_entry (vm_pmap (vm_maps one_entry ?m))) = 0x1000"
    using space_invD(6) [OF vm_invD(1) [OF o(1)]] by simp
  have inv: "vm_inv P F 0x1000 [ne] ?m ?s"
    using o(1) vm_same [of ?s one_entry ?m P F "0x1000" "[ne]"] root by (simp add: destroy_demo_def)
  obtain j where "?m \<in> zone_live P F ?s j" "j < zone_count ?s" using vm_invD(2) [OF inv] unfolding entries_inv_def by blast
  then have m0: "?m \<noteq> 0" using zone_slot_nonzero(1) [of P F ?s j ?m] space_invD(1) [OF vm_invD(1) [OF inv]]
    by (auto simp: zone_live_def live_def)
  obtain e where e: "translate ?s 0x1000 0x401000 = Some e"
    using o(3) tables_same(2) [of ?s one_entry] by (auto simp: destroy_demo_def)
  have "0x401000 \<in> entry_pages ?s [ne]"
    using o(2) visited_0x400000(2) by (simp add: entry_pages_def destroy_demo_def entry_info_def Let_def)
  then have f: "e AND PTE_ADDR_MASK \<in> freed_frames 0x1000 (entry_pages ?s [ne]) ?s"
    using e unfolding freed_frames_def by blast
  have "PML4_IDX 0x401000 \<in> user_half" by (rule user_half_idx) (simp add: user_addr_def)
  then have "e AND PTE_ADDR_MASK \<in> frames 0x1000 ?s" using e unfolding frames_def by blast
  then have u: "e AND PTE_ADDR_MASK \<in> used_pages ?s" using space_invD(3,9) [OF vm_invD(1) [OF inv]] by blast
  have "?m \<noteq> kernel_map ?s" "map_ref_count (vm_maps ?s ?m) = 1" "vm_pmap (vm_maps ?s ?m) \<noteq> pmap_kernel ?s"
    "pm_ref_count (pmaps ?s (vm_pmap (vm_maps ?s ?m))) = 1" "2 ^ 32 \<le> unat (VIRT_TO_PHYS ?s (vm_pmap (vm_maps ?s ?m)))"
    using m0 by (simp_all add: destroy_demo_def VIRT_TO_PHYS_def)
  from vm_map_destroy_correct [OF inv this] show ?thesis using e f u by blast
qed

end
