(* ===== verification/Macho_Load.thy ===== *)
theory Macho_Load
  imports Macho Vm_Destroy
begin

text \<open>
  \<^verbatim>\<open>macho_load\<close> of \<^verbatim>\<open>kern/macho.c\<close> refines an abstract loader: the bytes it leaves at user addresses are those of
  the segments placed one after the other, and the pages of every segment are mapped with its protection.
  \<open>image_ok\<close> is what the code relies on without checking it.
\<close>

section \<open>Mapping a range, and the memory outside the direct map\<close>

lemma used_all_direct: "x \<in> used_pages t \<Longrightarrow> PHYS_TO_VIRT s x \<in> all_direct s"
  using used_page_bounds by (auto simp: all_direct_def)

lemma used_pages_bitmap: "bitmap t = bitmap s \<Longrightarrow> used_pages t = used_pages s"
  by (simp add: used_pages_def bitmap_test_def)

lemma all_direct_frame: "hhdm_offset t = hhdm_offset s \<Longrightarrow> all_direct t = all_direct s"
  by (simp add: all_direct_def PHYS_TO_VIRT_def)

lemma wire_page_mem:
  assumes sp: "space_inv P F root pm s" and va: "PML4_IDX a \<in> user_half" and x: "page_of x \<notin> all_direct s"
  shows "mem (snd (wire_page pm a fl s)) x = mem s x"
proof -
  obtain pa w where al: "pmm_alloc_page s = (pa, w)" by (cases "pmm_alloc_page s")
  obtain b c where w: "w = s\<lparr>bitmap := b, free_count := c\<rparr>" by (rule pmm_alloc_page_frame [OF al])
  show ?thesis
  proof (cases "pa = 0")
    case True
    then show ?thesis using al by (simp add: wire_page_def w)
  next
    case False
    note a = space_inv_alloc [OF sp al False]
    have uw: "pa \<in> used_pages w" "pa \<notin> owned P root w" using a(4,5,7) by auto
    define z where "z = w\<lparr>mem := kmemset (PHYS_TO_VIRT w pa) 0 4096 (mem w)\<rparr>"
    note zz = space_inv_zero [OF a(1) uw, folded z_def]
    have uz: "pa \<in> used_pages z" "pa \<notin> owned P root z" using uw zz(4,5) by simp_all
    have pz: "PHYS_TO_VIRT z = PHYS_TO_VIRT s" "PHYS_TO_VIRT w = PHYS_TO_VIRT s"
      by (rule ext, simp add: PHYS_TO_VIRT_def z_def w)+
    have "page_of x \<noteq> PHYS_TO_VIRT w pa" using x used_all_direct [OF uw(1), of s] pz by auto
    then have mz: "mem z x = mem s x" using zz(6) [of x] by (simp add: w)
    obtain r u where m: "pmap_map pm a pa fl z = (r, u)" by (cases "pmap_map pm a pa fl z")
    have mu: "mem u x = mem z x"
    proof -
      have "pt_frame user_half root z u \<and> space_inv P F root pm u"
        by (rule space_inv_map [OF zz(1) va uz(1) False uz(2), of fl]) (use m in simp_all)
      then have fr: "pt_frame user_half root z u" "tables u user_half root \<subseteq> used_pages u"
        using space_invD(3) [of P F root pm u] by (auto simp: owned_def)
      have "page_of x \<notin> PHYS_TO_VIRT z ` tables u user_half root"
        using x fr(2) used_all_direct [of _ u s] by (auto simp: pz)
      then show ?thesis by (rule pt_frame_space(8) [OF zz(1) fr(1)])
    qed
    have "snd (wire_page pm a fl s) = u \<or> snd (wire_page pm a fl s) = pmm_free_page pa u"
      using al False m by (simp add: wire_page_def z_def)
    moreover have "mem (pmm_free_page pa u) = mem u" by (rule pmm_free_page_frame [of pa u]) simp
    ultimately show ?thesis using mu mz by auto
  qed
qed

lemma wired_mem:
  assumes "wired pm fl stop a s b u" "space_inv P F root pm s" "unat stop \<le> 2 ^ 47"
  shows "(\<forall>x. page_of x \<notin> all_direct s \<longrightarrow> mem u x = mem s x) \<and> (b = a \<or> unat b < unat stop + 4096)"
  using assms(1,2)
proof induction
  case (wired_next a s s' b u)
  note st = visited_step [OF wired_next.hyps(1) assms(3)]
  have ua: "PML4_IDX a \<in> user_half" using st(1) visited_user [OF assms(3), of a a] user_half_idx by simp
  show ?case
  proof (cases rule: wire_page_spec [OF wired_next.prems ua, of fl])
    case (2 pa t)
    then have t: "t = s'" using wired_next.hyps(2) by simp
    have ih: "\<forall>x. page_of x \<notin> all_direct s' \<longrightarrow> mem u x = mem s' x" "b = a + 4096 \<or> unat b < unat stop + 4096"
      using wired_next.IH 2(2) by (simp_all add: t PMM_PAGE_SIZE_def)
    have "all_direct s' = all_direct s" using vm_frame_fields(9) [OF 2(3)] by (intro all_direct_frame) (simp add: t)
    moreover have "mem s' x = mem s x" if "page_of x \<notin> all_direct s" for x
      using wire_page_mem [OF wired_next.prems ua that, of fl] wired_next.hyps(2) by simp
    moreover have "unat b < unat stop + 4096" using ih(2) st(2) wired_next.hyps(1) by (auto simp: word_less_nat_alt)
    ultimately show ?thesis using ih(1) by simp
  qed (use wired_next.hyps(2) in simp)
qed simp

lemma page_range_spec:
  fixes s :: "'a vm_state_scheme"
  assumes inv: "vm_inv P F root es vmap s" and ro: "range_ok vmap start sz s"
    and no: "\<forall>e \<in> set es. \<not> overlaps s start (start + sz) e"
  obtains (ok) t where "vm_map_page_range vmap start sz prot s = Some (KERN_SUCCESS, t)" "vm_inv P F root es vmap t"
      "vm_frame s t" "wired_pages root (prot_to_pte prot) (visited start (start + sz)) s t"
      "\<And>x. page_of x \<notin> all_direct s \<Longrightarrow> mem t x = mem s x" "takes (4 * (unat sz div 4096) + 4) s t"
  | (nomem) t where "vm_map_page_range vmap start sz prot s = Some (KERN_NO_SPACE, t)"
      "card (free_set s) \<le> 4 * (unat sz div 4096) + 5"
proof -
  note d = vm_invD [OF inv]
  note rb = range_ok_bounds [OF ro]
  have stop: "unat (start + sz) \<le> 2 ^ 47" using rb(3) d(6) by (simp add: word_le_nat_alt)
  have sz: "unat (start + sz) - unat start = unat sz" using unat_sub [of start "start + sz"] rb(1) by simp
  let ?fl = "prot_to_pte prot" and ?pm = "vm_pmap (vm_maps s vmap)"
  have run: "vm_map_page_range vmap start sz prot s = wire_range vmap start ?fl start (start + sz) s"
    using ro by (simp add: vm_map_page_range_def)
  obtain b u where w: "wired ?pm ?fl (start + sz) start s b u" "b < start + sz \<longrightarrow> \<not> fst (wire_page ?pm b ?fl u)"
    using wired_ends [OF d(1) stop] by blast
  have ws: "space_inv P F root ?pm u" "vm_frame s u" "wired_pages root ?fl (visited start (min b (start + sz))) s u"
    using wired_spec [OF w(1) d(1) stop] by blast+
  have run2: "wire_range vmap start ?fl start (start + sz) s = wire_range vmap start ?fl b (start + sz) u"
    using wire_loops [OF w(1) d(1) stop refl] by blast
  show thesis
  proof (cases "b < start + sz")
    case False
    have "min b (start + sz) = start + sz" using False by (simp add: min_def not_less)
    then have wp: "wired_pages root ?fl (visited start (start + sz)) s u" using ws(3) by simp
    obtain k where k: "unat b = unat start + 4096 * k" "takes (4 * k) s u" using wired_takes [OF w(1) stop] by blast
    have "b = start \<or> unat b < unat (start + sz) + 4096" using wired_mem [OF w(1) d(1) stop] by blast
    moreover have "b \<noteq> start" using False rb(1) by auto
    ultimately have "unat start + 4096 * k < unat (start + sz) + 4096" using k(1) by simp
    then have "k \<le> unat sz div 4096 + 1" using sz rb(1) by (simp add: word_less_nat_alt)
    then have "takes (4 * (unat sz div 4096) + 4) s u" using k(2) unfolding takes_def by linarith
    moreover have "wire_range vmap start ?fl b (start + sz) u = Some (KERN_SUCCESS, u)"
      using False by (simp add: wire_range.simps [of vmap start ?fl b])
    ultimately show thesis
      using wired_mem [OF w(1) d(1) stop] run run2 wp ws(2) vm_inv_frame [OF inv ws(2,1)] by (intro ok) simp_all
  next
    case True
    have ns: "wire_range vmap start ?fl b (start + sz) u \<noteq> Some (KERN_SUCCESS, t)" for t
    proof
      assume "wire_range vmap start ?fl b (start + sz) u = Some (KERN_SUCCESS, t)"
      moreover have "vm_pmap (vm_maps u vmap) = ?pm" by (simp add: vm_frame_fields [OF ws(2)])
      ultimately show False
        using True w(2) by (subst (asm) wire_range.simps) (auto split: prod.splits bind_splits)
    qed
    show thesis
    proof (cases rule: wire_range_spec [OF inv stop no, where fl = ?fl])
      case (1 t)
      then show thesis using ns run2 by simp
    next
      case (2 b t F')
      then show thesis using run sz by (intro nomem) simp_all
    qed
  qed
qed

section \<open>The abstract loader\<close>

text \<open>The load commands that map something, in their order.\<close>

definition is_segment :: "memory \<Rightarrow> addr \<Rightarrow> bool" where
  "is_segment m lc \<longleftrightarrow> lc_cmd m lc = LC_SEGMENT_64 \<and> seg_vmsize m lc > 0"

definition commands :: "memory \<Rightarrow> addr \<Rightarrow> addr list" where
  "commands m hdr = command_list m (hdr + sizeof_mach_header_64) (unat (mh_ncmds m hdr))"

definition segments :: "memory \<Rightarrow> addr \<Rightarrow> addr list" where
  "segments m hdr = filter (is_segment m) (commands m hdr)"

text \<open>
  A segment placed at its address: its bytes of the file, zeros up to its size in memory.  A segment without
  bytes in the file is not written.
\<close>

definition place :: "memory \<Rightarrow> addr \<Rightarrow> addr \<Rightarrow> memory \<Rightarrow> memory" where
  "place m hdr sc old = (\<lambda>b.
     if b - seg_vmaddr m sc < seg_filesize m sc then m (hdr + seg_fileoff m sc + (b - seg_vmaddr m sc))
     else if seg_filesize m sc > 0 \<and> b - seg_vmaddr m sc < seg_vmsize m sc then 0
     else old b)"

definition rebase :: "memory \<Rightarrow> addr \<Rightarrow> macho_image \<Rightarrow> macho_image" where
  "rebase m sc img =
     (if seg_fileoff m sc = 0 \<and> mi_base_address img = 0 then img\<lparr>mi_base_address := seg_vmaddr m sc\<rparr> else img)"

text \<open>The last segment with a page at an address, and the flags its pages get.\<close>

definition covers :: "memory \<Rightarrow> addr \<Rightarrow> addr \<Rightarrow> bool" where
  "covers m va sc \<longleftrightarrow> (\<exists>x \<in> visited (seg_vmaddr m sc) (seg_vmaddr m sc + seg_vmsize m sc). same_slot x va)"

fun last_cover :: "memory \<Rightarrow> addr \<Rightarrow> addr list \<Rightarrow> addr option" where
  "last_cover m va [] = None"
| "last_cover m va (sc # scs) =
     (case last_cover m va scs of Some x \<Rightarrow> Some x | None \<Rightarrow> if covers m va sc then Some sc else None)"

definition seg_flags :: "memory \<Rightarrow> addr \<Rightarrow> u64" where
  "seg_flags m sc = prot_to_pte (segment_prot (seg_initprot m sc))"

definition mapped_as :: "memory \<Rightarrow> addr list \<Rightarrow> u64 \<Rightarrow> 'a vm_state_scheme \<Rightarrow> 'a vm_state_scheme \<Rightarrow> bool" where
  "mapped_as m scs root s t \<longleftrightarrow> (\<forall>va. PML4_IDX va \<in> user_half \<longrightarrow>
     (case last_cover m va scs of
        None \<Rightarrow> translate t root va = translate s root va
      | Some sc \<Rightarrow> \<exists>pa. translate t root va = Some (make_pte pa (seg_flags m sc))))"

text \<open>More free pages than this and the load cannot fail for lack of memory.\<close>

definition need :: "memory \<Rightarrow> addr list \<Rightarrow> nat" where
  "need m scs = sum_list (map (\<lambda>sc. 4 * (unat (seg_vmsize m sc) div 4096) + 5) scs)"

definition image_base :: "memory \<Rightarrow> addr list \<Rightarrow> u64" where
  "image_base m scs =
     (case find (\<lambda>sc. seg_fileoff m sc = 0 \<and> seg_vmaddr m sc \<noteq> 0) scs of Some sc \<Rightarrow> seg_vmaddr m sc | None \<Rightarrow> 0)"

section \<open>What the loader relies on\<close>

definition in_image :: "addr \<Rightarrow> u64 \<Rightarrow> addr \<Rightarrow> nat \<Rightarrow> bool" where
  "in_image hdr sz a n \<longleftrightarrow> unat (a - hdr) + n \<le> unat sz"

definition command_len :: "memory \<Rightarrow> addr \<Rightarrow> nat" where
  "command_len m lc = (if lc_cmd m lc = LC_SEGMENT_64 then 72 else if lc_cmd m lc = LC_MAIN then 24 else 8)"

text \<open>
  Every command lies in the image, the image outside the direct map; a segment's bytes lie in the image, and its
  addresses are free in the map and do not meet the image.
\<close>

definition target_ok :: "'a vm_state_scheme \<Rightarrow> addr \<Rightarrow> addr list \<Rightarrow> memory \<Rightarrow> addr \<Rightarrow> u64 \<Rightarrow> addr \<Rightarrow> bool" where
  "target_ok s vmap es m hdr sz sc \<longleftrightarrow>
     range_ok vmap (seg_vmaddr m sc) (seg_vmsize m sc) s \<and>
     (\<forall>e \<in> set es. \<not> overlaps s (seg_vmaddr m sc) (seg_vmaddr m sc + seg_vmsize m sc) e) \<and>
     seg_filesize m sc \<le> seg_vmsize m sc \<and> unat (seg_fileoff m sc) + unat (seg_filesize m sc) \<le> unat sz \<and>
     (\<forall>b. b - seg_vmaddr m sc < seg_vmsize m sc \<longrightarrow> \<not> b - hdr < sz)"

definition image_ok :: "'a vm_state_scheme \<Rightarrow> addr \<Rightarrow> addr list \<Rightarrow> memory \<Rightarrow> addr \<Rightarrow> u64 \<Rightarrow> addr list \<Rightarrow> bool" where
  "image_ok s vmap es m hdr sz lcs \<longleftrightarrow>
     (\<forall>b. b - hdr < sz \<longrightarrow> page_of b \<notin> all_direct s) \<and>
     (\<forall>lc \<in> set lcs. in_image hdr sz lc (command_len m lc)) \<and>
     (\<forall>sc \<in> set (filter (is_segment m) lcs). target_ok s vmap es m hdr sz sc)"

definition high_half :: "'a machine_scheme \<Rightarrow> bool" where
  "high_half s \<longleftrightarrow> 2 ^ 47 \<le> unat (hhdm_offset s)"

lemma image_ok_frame: "vm_frame s t \<Longrightarrow> image_ok t vmap es m hdr sz lcs = image_ok s vmap es m hdr sz lcs"
  using all_direct_frame [of t s] vm_frame_fields [of s t]
  by (simp add: image_ok_def target_ok_def range_ok_def)

lemma user_off_direct:
  assumes "hhdm_ok s" "high_half s" "unat b < 2 ^ 47"
  shows "page_of b \<notin> all_direct s"
proof
  assume "page_of b \<in> all_direct s"
  then obtain pa where pa: "page_of b = PHYS_TO_VIRT s pa" "unat pa < 4294967296" by (auto simp: all_direct_def)
  have "unat (PHYS_TO_VIRT s pa) = unat (hhdm_offset s) + unat pa"
    using assms(1) pa(2) unat_add_no_wrap [of pa "hhdm_offset s"] by (simp add: PHYS_TO_VIRT_def hhdm_ok_def add.commute)
  moreover have "unat (page_of b) \<le> unat b" by (simp add: unat_page_of)
  ultimately show False using assms(2,3) pa(1) by (simp add: high_half_def)
qed

section \<open>Reading the image\<close>

definition agree :: "addr \<Rightarrow> u64 \<Rightarrow> memory \<Rightarrow> memory \<Rightarrow> bool" where
  "agree hdr sz m m' \<longleftrightarrow> (\<forall>b. b - hdr < sz \<longrightarrow> m' b = m b)"

lemma agree_refl: "agree hdr sz m m"
  by (simp add: agree_def)

lemma agree_byte:
  assumes "agree hdr sz m m'" "in_image hdr sz a n" "k < n"
  shows "m' (a + of_nat k) = m (a + of_nat k)"
proof -
  have k: "unat (a - hdr) + k < unat sz" using assms(2,3) by (simp add: in_image_def)
  moreover have "unat sz < 18446744073709551616" using unsigned_less [of sz, where ?'a = nat] by simp
  ultimately have z: "unat (a - hdr) + k < 18446744073709551616" by linarith
  then have "k < 18446744073709551616" by linarith
  then have "unat (of_nat k :: u64) = k" by (intro unat_of_nat64) simp
  then have "unat (a - hdr + of_nat k) = unat (a - hdr) + k"
    using k z by (subst unat_add_no_wrap) simp_all
  then have "a + of_nat k - hdr < sz" using k by (simp add: word_less_nat_alt algebra_simps)
  then show ?thesis using assms(1) by (simp add: agree_def)
qed

lemma agree_load:
  assumes "agree hdr sz m m'" "in_image hdr sz a n" "k + l \<le> n"
  shows "load_bytes m' (a + of_nat k) l = load_bytes m (a + of_nat k) l"
proof (rule load_bytes_cong)
  fix j assume "j < l"
  then have "k + j < n" using assms(3) by simp
  from agree_byte [OF assms(1,2) this] show "m' (a + of_nat k + of_nat j) = m (a + of_nat k + of_nat j)"
    by (simp add: add.assoc)
qed

lemma agree_load32: "agree hdr sz m m' \<Longrightarrow> in_image hdr sz a n \<Longrightarrow> k + 4 \<le> n \<Longrightarrow> load32 m' (a + of_nat k) = load32 m (a + of_nat k)"
  by (simp add: load32_def agree_load)

lemma agree_load64: "agree hdr sz m m' \<Longrightarrow> in_image hdr sz a n \<Longrightarrow> k + 8 \<le> n \<Longrightarrow> load64 m' (a + of_nat k) = load64 m (a + of_nat k)"
  by (simp add: load64_def agree_load)

lemma in_image_less: "in_image hdr sz a n \<Longrightarrow> k \<le> n \<Longrightarrow> in_image hdr sz a k"
  by (simp add: in_image_def)

lemma agree_command:
  assumes "agree hdr sz m m'" "in_image hdr sz lc (command_len m lc)"
  shows "lc_cmd m' lc = lc_cmd m lc" "next_command m' lc = next_command m lc"
proof -
  have "in_image hdr sz lc 8" using assms(2) by (rule in_image_less) (simp add: command_len_def)
  from agree_load32 [OF assms(1) this, of 0] agree_load32 [OF assms(1) this, of 4]
  show "lc_cmd m' lc = lc_cmd m lc" "next_command m' lc = next_command m lc"
    by (simp_all add: lc_cmd_def next_command_def lc_cmdsize_def)
qed

lemma agree_segment:
  assumes "agree hdr sz m m'" "in_image hdr sz lc (command_len m lc)" "lc_cmd m lc = LC_SEGMENT_64"
  shows "seg_vmaddr m' lc = seg_vmaddr m lc" "seg_vmsize m' lc = seg_vmsize m lc" "seg_fileoff m' lc = seg_fileoff m lc"
    "seg_filesize m' lc = seg_filesize m lc" "seg_initprot m' lc = seg_initprot m lc"
proof -
  have i: "in_image hdr sz lc 72" using assms(2,3) by (simp add: command_len_def)
  note l = agree_load64 [OF assms(1) i]
  show "seg_vmaddr m' lc = seg_vmaddr m lc" "seg_vmsize m' lc = seg_vmsize m lc" "seg_fileoff m' lc = seg_fileoff m lc"
    "seg_filesize m' lc = seg_filesize m lc"
    using l [of 24] l [of 32] l [of 40] l [of 48]
    by (simp_all add: seg_vmaddr_def seg_vmsize_def seg_fileoff_def seg_filesize_def)
  show "seg_initprot m' lc = seg_initprot m lc"
    using agree_load32 [OF assms(1) i, of 60] by (simp add: seg_initprot_def)
qed

lemma agree_list:
  assumes "agree hdr sz m m'" "\<forall>lc \<in> set (command_list m lc n). in_image hdr sz lc (command_len m lc)"
  shows "command_list m' lc n = command_list m lc n"
  using assms(2)
proof (induction n arbitrary: lc)
  case (Suc n)
  then have "next_command m' lc = next_command m lc" using agree_command [OF assms(1), of lc] by simp
  then show ?case using Suc by simp
qed simp

section \<open>One segment\<close>

lemma tail_range:
  fixes a b fs vs :: u64
  assumes "fs \<le> vs"
  shows "b - (a + fs) < vs - fs \<longleftrightarrow> \<not> b - a < fs \<and> b - a < vs"
proof -
  have d: "b - (a + fs) = (b - a) - fs" by simp
  have v: "unat (vs - fs) = unat vs - unat fs" using assms by (rule unat_sub)
  show ?thesis
  proof (cases "b - a < fs")
    case True
    then have lt: "unat (b - a) < unat fs" by (simp add: word_less_nat_alt)
    have "unat ((b - a) - fs) = 2 ^ 64 + unat (b - a) - unat fs" using lt by (simp add: unat_sub_if')
    moreover have "unat vs < 2 ^ 64" using unsigned_less [of vs, where ?'a = nat] by simp
    ultimately have "unat ((b - a) - fs) \<ge> unat vs - unat fs" using lt by linarith
    then have "\<not> (b - a) - fs < vs - fs" unfolding word_less_nat_alt v by linarith
    then show ?thesis using True unfolding d by simp
  next
    case False
    then have ge: "unat fs \<le> unat (b - a)" by (simp add: word_less_nat_alt)
    have "unat ((b - a) - fs) = unat (b - a) - unat fs" using False by (intro unat_sub) simp
    then have "(b - a) - fs < vs - fs \<longleftrightarrow> unat (b - a) - unat fs < unat vs - unat fs" by (simp only: word_less_nat_alt v)
    also have "\<dots> \<longleftrightarrow> unat (b - a) < unat vs" using ge by linarith
    also have "\<dots> \<longleftrightarrow> b - a < vs" by (simp only: word_less_nat_alt)
    finally show ?thesis using False unfolding d by simp
  qed
qed

text \<open>What the code does to the bytes, and that it is \<open>place\<close>.\<close>

definition copy_segment :: "addr \<Rightarrow> addr \<Rightarrow> memory \<Rightarrow> memory" where
  "copy_segment hdr sc m =
     (if seg_filesize m sc > 0 then
        let m' = kmemcpy (seg_vmaddr m sc) (hdr + seg_fileoff m sc) (seg_filesize m sc) m
        in if seg_vmsize m' sc > seg_filesize m' sc
           then kmemset (seg_vmaddr m sc + seg_filesize m' sc) 0 (seg_vmsize m' sc - seg_filesize m' sc) m' else m'
      else m)"

lemma copy_segment_place:
  assumes t: "target_ok s vmap es m hdr sz sc" and seg: "is_segment m sc" "in_image hdr sz sc (command_len m sc)"
    and ag: "agree hdr sz m m1"
  shows "copy_segment hdr sc m1 = place m hdr sc m1" "agree hdr sz m (place m hdr sc m1)"
proof -
  let ?a = "seg_vmaddr m sc" and ?f = "seg_fileoff m sc" and ?n = "seg_filesize m sc" and ?v = "seg_vmsize m sc"
  have lc: "lc_cmd m sc = LC_SEGMENT_64" using seg(1) by (simp add: is_segment_def)
  have le: "?n \<le> ?v" and off: "unat ?f + unat ?n \<le> unat sz" and dis: "\<And>b. b - ?a < ?v \<Longrightarrow> \<not> b - hdr < sz"
    using t by (auto simp: target_ok_def)
  note f1 = agree_segment [OF ag seg(2) lc]
  have src: "hdr + ?f + i - hdr < sz" if "i < ?n" for i
  proof -
    have "unat sz < 18446744073709551616" using unsigned_less [of sz, where ?'a = nat] by simp
    moreover have i: "unat i < unat ?n" using that by (simp add: word_less_nat_alt)
    ultimately have "unat ?f + unat i < 18446744073709551616" using off by linarith
    then have "unat (?f + i) = unat ?f + unat i" by (subst unat_add_no_wrap) simp_all
    then show ?thesis using i off by (simp add: word_less_nat_alt)
  qed
  have dst: "?a + i - ?a < ?v" if "i < ?n" for i using that le by simp
  have sep: "?a + i \<noteq> hdr + ?f + j" if "i < ?n" "j < ?n" for i j
    using src [OF that(2)] dis [OF dst [OF that(1)]] by metis
  show ag2: "agree hdr sz m (place m hdr sc m1)"
    unfolding agree_def
  proof (intro allI impI)
    fix b assume b: "b - hdr < sz"
    then have "\<not> b - ?a < ?v" using dis [of b] by blast
    moreover have "\<not> b - ?a < ?n" using calculation le by simp
    ultimately show "place m hdr sc m1 b = m b" using ag b by (simp add: place_def agree_def)
  qed
  show "copy_segment hdr sc m1 = place m hdr sc m1"
  proof (cases "?n > 0")
    case False
    then have "?n = 0" by (simp add: word_gt_0)
    then show ?thesis by (simp add: copy_segment_def f1 place_def)
  next
    case True
    define m2 where "m2 = kmemcpy ?a (hdr + ?f) ?n m1"
    have m2: "m2 b = (if b - ?a < ?n then m (hdr + ?f + (b - ?a)) else m1 b)" for b
      using kmemcpy_apply [of ?n ?a "hdr + ?f" m1 b] sep src [of "b - ?a"] ag by (simp add: m2_def agree_def)
    have "agree hdr sz m m2"
      unfolding agree_def
    proof (intro allI impI)
      fix b assume b: "b - hdr < sz"
      then have "\<not> b - ?a < ?v" using dis [of b] by blast
      then have "\<not> b - ?a < ?n" using le by simp
      then show "m2 b = m b" using ag b by (simp add: m2 agree_def)
    qed
    note f2 = agree_segment [OF this seg(2) lc]
    have cs: "copy_segment hdr sc m1 = (if ?v > ?n then kmemset (?a + ?n) 0 (?v - ?n) m2 else m2)"
      using True by (simp add: copy_segment_def f1 Let_def flip: m2_def) (simp add: f2)
    show ?thesis
    proof
      fix b
      show "copy_segment hdr sc m1 b = place m hdr sc m1 b"
        using tail_range [OF le, of b ?a] True le
        by (auto simp: cs kmemset_apply m2 place_def)
    qed
  qed
qed

lemma load_segment_copy:
  assumes "is_segment m sc" "agree hdr sz m (mem s)" "in_image hdr sz sc (command_len m sc)"
    "vm_map_page_range vmap (seg_vmaddr m sc) (seg_vmsize m sc) (segment_prot (seg_initprot m sc)) s = Some (KERN_SUCCESS, t)"
    "agree hdr sz m (mem t)"
  shows "load_segment vmap sc hdr img s = Some (KERN_SUCCESS, rebase m sc img, t\<lparr>mem := copy_segment hdr sc (mem t)\<rparr>)"
proof -
  have lc: "lc_cmd m sc = LC_SEGMENT_64" using assms(1) by (simp add: is_segment_def)
  note f1 = agree_segment [OF assms(2,3) lc]
  note f2 = agree_segment [OF assms(5,3) lc]
  have v: "seg_vmsize m sc > 0" using assms(1) by (simp add: is_segment_def)
  show ?thesis using assms(4) v
    by (simp add: load_segment_def f1 f2 Let_def rebase_def copy_segment_def)
qed

text \<open>Writing outside the direct map keeps the invariant of the map.\<close>

lemma vm_inv_write:
  assumes inv: "vm_inv P F root es vmap s" and m: "\<And>x. page_of x \<in> all_direct s \<Longrightarrow> m x = mem s x"
  shows "vm_inv P F root es vmap (s\<lparr>mem := m\<rparr>)" "vm_frame s (s\<lparr>mem := m\<rparr>)"
    "\<And>va. PML4_IDX va \<in> user_half \<Longrightarrow> translate (s\<lparr>mem := m\<rparr>) root va = translate s root va"
proof -
  let ?t = "s\<lparr>mem := m\<rparr>"
  note sp = vm_invD(1) [OF inv]
  note d = space_invD [OF sp]
  have t: "?t = s\<lparr>mem := m, bitmap := bitmap s, free_count := free_count s\<rparr>" by simp
  have u: "used_pages ?t = used_pages s" by (rule used_pages_bitmap) simp
  have inv': "pmm_inv ?t" using d(5) by (simp add: pmm_inv_def count_ok_def free_set_def bitmap_test_def)
  have all: "page_of x \<in> all_direct s" if "page_of x \<in> PHYS_TO_VIRT s ` tables s user_half root \<union> zone_pages P s" for x
  proof -
    obtain y where "page_of x = PHYS_TO_VIRT s y" "y \<in> owned P root s"
    proof (cases "page_of x \<in> zone_pages P s")
      case True
      then obtain j where "j < zone_count s" "page_of x \<in> P j" by (auto simp: zone_pages_def)
      then obtain y where "page_of x = PHYS_TO_VIRT s y" using d(10) [of j] by (auto simp: direct_pages_def)
      then show thesis using that True by (auto simp: owned_def)
    qed (use that \<open>page_of x \<in> _\<close> in \<open>auto simp: owned_def\<close>)
    then show ?thesis using used_all_direct [of y s s] d(3) by auto
  qed
  show fr: "vm_frame s ?t" by (rule vm_frame_mem)
  note co = space_inv_cong [OF sp t inv' _ m [OF all]]
  have sub: "owned P root s \<subseteq> used_pages ?t" using d(3) u by auto
  have "space_inv P F root (vm_pmap (vm_maps s vmap)) ?t" by (rule co(1) [OF sub])
  then show "vm_inv P F root es vmap ?t" by (rule vm_inv_frame [OF inv fr])
  show "translate ?t root va = translate s root va" if "PML4_IDX va \<in> user_half" for va
    by (rule co(3) [OF sub _ that])
qed

lemma load_segment_spec:
  fixes s :: "'a vm_state_scheme"
  assumes inv: "vm_inv P F root es vmap s" and hh: "high_half s"
    and seg: "is_segment m sc" "in_image hdr sz sc (command_len m sc)" and t: "target_ok s vmap es m hdr sz sc"
    and img: "\<forall>b. b - hdr < sz \<longrightarrow> page_of b \<notin> all_direct s" "agree hdr sz m (mem s)"
  obtains (nomem) u where "load_segment vmap sc hdr img s = Some (KERN_NO_SPACE, img, u)" "card (free_set s) \<le> need m [sc]"
  | (ok) u where "load_segment vmap sc hdr img s = Some (KERN_SUCCESS, rebase m sc img, u)" "vm_inv P F root es vmap u"
      "vm_frame s u" "agree hdr sz m (mem u)" "\<And>b. page_of b \<notin> all_direct s \<Longrightarrow> mem u b = place m hdr sc (mem s) b"
      "takes (need m [sc]) s u" "mapped_as m [sc] root s u"
proof -
  let ?a = "seg_vmaddr m sc" and ?v = "seg_vmsize m sc" and ?p = "segment_prot (seg_initprot m sc)"
  have lc: "lc_cmd m sc = LC_SEGMENT_64" and pos: "?v > 0" using seg(1) by (simp_all add: is_segment_def)
  note f1 = agree_segment [OF img(2) seg(2) lc]
  have ro: "range_ok vmap ?a ?v s" and no: "\<forall>e \<in> set es. \<not> overlaps s ?a (?a + ?v) e" and le: "seg_filesize m sc \<le> ?v"
    using t by (auto simp: target_ok_def)
  show thesis
  proof (cases rule: page_range_spec [OF inv ro no, of ?p])
    case (2 u)
    then have "load_segment vmap sc hdr img s = Some (KERN_NO_SPACE, img, u)"
      using pos by (simp add: load_segment_def f1)
    then show thesis using 2(2) by (intro nomem) (simp_all add: need_def)
  next
    case (1 u)
    have ag: "agree hdr sz m (mem u)" using img 1(5) by (simp add: agree_def)
    let ?m = "copy_segment hdr sc (mem u)"
    note cp = copy_segment_place [OF t seg ag]
    have fr: "all_direct u = all_direct s" using vm_frame_fields(9) [OF 1(3)] by (rule all_direct_frame)
    have out: "?m x = mem u x" if "page_of x \<in> all_direct u" for x
    proof -
      have "\<not> x - ?a < ?v"
      proof
        assume x: "x - ?a < ?v"
        have "unat ?a + unat ?v \<le> 2 ^ 47"
          using ro vm_invD(6) [OF inv] by (auto simp: range_ok_iff)
        moreover have "unat x = unat ?a + unat (x - ?a)"
          using x calculation unat_add_no_wrap [of "x - ?a" ?a] by (simp add: word_less_nat_alt)
        ultimately have "unat x < 2 ^ 47" using x by (simp add: word_less_nat_alt)
        then have "page_of x \<notin> all_direct s"
          using vm_invD(1) [OF inv] hh by (intro user_off_direct) (simp_all add: space_inv_def zones_rep_def)
        then show False using that fr by simp
      qed
      moreover have "\<not> x - ?a < seg_filesize m sc" using calculation le by simp
      ultimately show ?thesis by (simp add: cp(1) place_def)
    qed
    have w: "vm_inv P F root es vmap (u\<lparr>mem := ?m\<rparr>)" "vm_frame u (u\<lparr>mem := ?m\<rparr>)"
      "\<And>va. PML4_IDX va \<in> user_half \<Longrightarrow> translate (u\<lparr>mem := ?m\<rparr>) root va = translate u root va"
      using vm_inv_write [OF 1(2), of ?m] out by simp_all
    show thesis
    proof (rule ok)
      show "load_segment vmap sc hdr img s = Some (KERN_SUCCESS, rebase m sc img, u\<lparr>mem := ?m\<rparr>)"
        by (rule load_segment_copy [OF seg(1) img(2) seg(2) 1(1) ag])
      show "vm_inv P F root es vmap (u\<lparr>mem := ?m\<rparr>)" by (rule w(1))
      show "vm_frame s (u\<lparr>mem := ?m\<rparr>)" by (rule vm_frame_trans [OF 1(3) w(2)])
      show "agree hdr sz m (mem (u\<lparr>mem := ?m\<rparr>))" using cp by simp
      show "mem (u\<lparr>mem := ?m\<rparr>) b = place m hdr sc (mem s) b" if "page_of b \<notin> all_direct s" for b
        using 1(5) [OF that] by (simp add: cp(1) place_def)
      show "takes (need m [sc]) s (u\<lparr>mem := ?m\<rparr>)"
        using 1(6) by (simp add: takes_def need_def free_set_def bitmap_test_def)
      show "mapped_as m [sc] root s (u\<lparr>mem := ?m\<rparr>)"
        unfolding mapped_as_def
      proof (intro allI impI)
        fix va assume va: "PML4_IDX va \<in> user_half"
        note wp = 1(4) [unfolded wired_pages_def, rule_format, OF va]
        show "case last_cover m va [sc] of None \<Rightarrow> translate (u\<lparr>mem := ?m\<rparr>) root va = translate s root va
          | Some sc \<Rightarrow> \<exists>pa. translate (u\<lparr>mem := ?m\<rparr>) root va = Some (make_pte pa (seg_flags m sc))"
          using wp w(3) [OF va] by (auto simp: covers_def seg_flags_def split: if_splits)
      qed
    qed
  qed
qed

section \<open>The loop over the commands\<close>

lemma place_cong: "old b = old' b \<Longrightarrow> place m hdr sc old b = place m hdr sc old' b"
  by (simp add: place_def)

lemma fold_place_cong: "old b = old' b \<Longrightarrow> fold (place m hdr) scs old b = fold (place m hdr) scs old' b"
proof (induction scs arbitrary: old old')
  case (Cons sc scs)
  have "place m hdr sc old b = place m hdr sc old' b" using Cons.prems by (rule place_cong)
  then show ?case unfolding fold_simps by (rule Cons.IH)
qed simp

lemma mapped_as_Cons:
  assumes "mapped_as m [sc] root s t" "mapped_as m scs root t u"
  shows "mapped_as m (sc # scs) root s u"
  unfolding mapped_as_def
proof (intro allI impI)
  fix va assume va: "PML4_IDX va \<in> user_half"
  note a = assms(1) [unfolded mapped_as_def, rule_format, OF va] and b = assms(2) [unfolded mapped_as_def, rule_format, OF va]
  show "case last_cover m va (sc # scs) of None \<Rightarrow> translate u root va = translate s root va
    | Some sc \<Rightarrow> \<exists>pa. translate u root va = Some (make_pte pa (seg_flags m sc))"
    using a b by (auto split: option.splits if_splits)
qed

lemma parse_commands_spec:
  fixes s :: "'a vm_state_scheme"
  assumes "vm_inv P F root es vmap s" "high_half s" "agree hdr sz m (mem s)" "32 \<le> sz"
    and "unat i + n = unat (mh_ncmds m hdr)" "image_ok s vmap es m hdr sz (command_list m lc n)"
  shows "(\<exists>img' u. parse_commands vmap hdr hdr i lc img s = Some (KERN_NO_SPACE, img', u) \<and>
      card (free_set s) \<le> need m (filter (is_segment m) (command_list m lc n))) \<or>
    (\<exists>u. parse_commands vmap hdr hdr i lc img s =
        Some (KERN_SUCCESS, fold (rebase m) (filter (is_segment m) (command_list m lc n)) img, u) \<and>
      vm_inv P F root es vmap u \<and> vm_frame s u \<and> agree hdr sz m (mem u) \<and>
      (\<forall>b. page_of b \<notin> all_direct s \<longrightarrow>
         mem u b = fold (place m hdr) (filter (is_segment m) (command_list m lc n)) (mem s) b) \<and>
      mapped_as m (filter (is_segment m) (command_list m lc n)) root s u)"
  using assms
proof (induction n arbitrary: i lc img s)
  case 0
  have hd: "in_image hdr sz hdr 32" using "0.prems"(4) by (simp add: in_image_def word_le_nat_alt)
  have "mh_ncmds (mem s) hdr = mh_ncmds m hdr"
    using agree_load32 [OF "0.prems"(3) hd, of 16] by (simp add: mh_ncmds_def)
  then have "parse_commands vmap hdr hdr i lc img s = Some (KERN_SUCCESS, img, s)"
    using "0.prems"(5) by (subst parse_commands.simps) (simp add: word_less_nat_alt)
  then show ?case using "0.prems" by (simp add: vm_frame_refl mapped_as_def)
next
  case (Suc n)
  let ?cs = "filter (is_segment m) (command_list m (next_command m lc) n)"
  note inv = Suc.prems(1) and hh = Suc.prems(2) and ag = Suc.prems(3)
  have hd: "in_image hdr sz hdr 32" using Suc.prems(4) by (simp add: in_image_def word_le_nat_alt)
  have nc: "mh_ncmds (mem s) hdr = mh_ncmds m hdr" using agree_load32 [OF ag hd, of 16] by (simp add: mh_ncmds_def)
  have lt: "i < mh_ncmds m hdr" using Suc.prems(5) by (simp add: word_less_nat_alt)
  have img: "\<forall>b. b - hdr < sz \<longrightarrow> page_of b \<notin> all_direct s" and len: "in_image hdr sz lc (command_len m lc)"
    and tg: "is_segment m lc \<Longrightarrow> target_ok s vmap es m hdr sz lc"
    and rest: "image_ok s vmap es m hdr sz (command_list m (next_command m lc) n)"
    using Suc.prems(6) by (auto simp: image_ok_def)
  note fc = agree_command [OF ag len]
  have i1: "unat (i + 1) + n = unat (mh_ncmds m hdr)" using Suc.prems(5) unat_incr32 [OF lt] by simp
  show ?case
  proof (cases "is_segment m lc")
    case False
    have "(if lc_cmd (mem s) lc = LC_SEGMENT_64 then load_segment vmap lc hdr img s else Some (KERN_SUCCESS, img, s))
        = Some (KERN_SUCCESS, img, s)"
      using False agree_segment(2) [OF ag len] by (auto simp: fc is_segment_def load_segment_def)
    then have "parse_commands vmap hdr hdr i lc img s = parse_commands vmap hdr hdr (i + 1) (next_command m lc) img s"
      using lt by (subst parse_commands.simps) (simp add: nc fc)
    then show ?thesis using Suc.IH [OF inv hh ag Suc.prems(4) i1 rest, of img] False by simp
  next
    case True
    then have lc: "lc_cmd (mem s) lc = LC_SEGMENT_64" by (simp add: fc is_segment_def)
    show ?thesis
    proof (cases rule: load_segment_spec [OF inv hh True len tg [OF True] img ag, of img])
      case (1 u)
      have "parse_commands vmap hdr hdr i lc img s = Some (KERN_NO_SPACE, img, u)"
        using lt 1(1) by (subst parse_commands.simps) (simp add: nc lc)
      then show ?thesis using 1(2) True by (auto simp: need_def)
    next
      case (2 u)
      have nx: "next_command (mem u) lc = next_command m lc" by (rule agree_command [OF 2(4) len])
      have step: "parse_commands vmap hdr hdr i lc img s =
          parse_commands vmap hdr hdr (i + 1) (next_command m lc) (rebase m lc img) u"
        using lt 2(1) nx by (subst parse_commands.simps) (simp add: nc lc)
      have hh': "high_half u" using hh vm_frame_fields(9) [OF 2(3)] by (simp add: high_half_def)
      have rest': "image_ok u vmap es m hdr sz (command_list m (next_command m lc) n)"
        using rest image_ok_frame [OF 2(3)] by simp
      have al: "all_direct u = all_direct s" using vm_frame_fields(9) [OF 2(3)] by (rule all_direct_frame)
      from Suc.IH [OF 2(2) hh' 2(4) Suc.prems(4) i1 rest', of "rebase m lc img"] show ?thesis
      proof (elim disjE exE conjE)
        fix img' w assume "parse_commands vmap hdr hdr (i + 1) (next_command m lc) (rebase m lc img) u = Some (KERN_NO_SPACE, img', w)"
          "card (free_set u) \<le> need m ?cs"
        moreover have "card (free_set s) \<le> card (free_set u) + need m [lc]" using 2(6) by (simp add: takes_def)
        ultimately show ?thesis using step True by (auto simp: need_def)
      next
        fix w assume w: "parse_commands vmap hdr hdr (i + 1) (next_command m lc) (rebase m lc img) u =
            Some (KERN_SUCCESS, fold (rebase m) ?cs (rebase m lc img), w)"
          "vm_inv P F root es vmap w" "vm_frame u w" "agree hdr sz m (mem w)"
          "\<forall>b. page_of b \<notin> all_direct u \<longrightarrow> mem w b = fold (place m hdr) ?cs (mem u) b" "mapped_as m ?cs root u w"
        have "mem w b = fold (place m hdr) (lc # ?cs) (mem s) b" if "page_of b \<notin> all_direct s" for b
          using w(5) that 2(5) [OF that] fold_place_cong [of "mem u" b "place m hdr lc (mem s)" m hdr ?cs] by (simp add: al)
        moreover have "vm_frame s w" by (rule vm_frame_trans [OF 2(3) w(3)])
        moreover have "mapped_as m (lc # ?cs) root s w" by (rule mapped_as_Cons [OF 2(7) w(6)])
        ultimately show ?thesis using step w(1,2,4) True by auto
      qed
    qed
  qed
qed

section \<open>Loading an image\<close>

lemma console_frame:
  fixes s :: "'a vm_state_scheme"
  shows "vm_inv P F root es vmap (s\<lparr>console := c\<rparr>) = vm_inv P F root es vmap s"
    "translate (s\<lparr>console := c\<rparr>) root va = translate s root va"
  by (rule vm_same; simp) (rule tables_same; simp)

lemma loaded_message: "\<exists>out. kprintf (''MACHO: loaded entry=0x%lx size=%lu'' @ nl) [VInt a, VInt b] s = Some (s\<lparr>console := console s @ out\<rparr>)"
  by (rule kprintf_total [of "''MACHO: loaded entry=0x%lx size=%lu'' @ nl" "[VInt a, VInt b]" s])
    (auto simp: conv_int_def conv_long_def long_directive_def)

definition image_entry :: "memory \<Rightarrow> addr \<Rightarrow> u64 \<Rightarrow> u64" where
  "image_entry m hdr base =
     (case find (\<lambda>lc. lc_cmd m lc = LC_MAIN) (commands m hdr) of Some lc \<Rightarrow> base + ep_entryoff m lc | None \<Rightarrow> 0)"

lemma find_agree:
  assumes "agree hdr sz m m'" "\<forall>lc \<in> set lcs. in_image hdr sz lc (command_len m lc)"
  shows "find (\<lambda>lc. lc_cmd m' lc = LC_MAIN) lcs = find (\<lambda>lc. lc_cmd m lc = LC_MAIN) lcs"
  using assms(2) by (induction lcs) (simp_all add: agree_command(1) [OF assms(1)])

lemma image_entry_agree:
  assumes "agree hdr sz m m'" "\<forall>lc \<in> set (commands m hdr). in_image hdr sz lc (command_len m lc)" "32 \<le> sz"
  shows "find_main m' hdr 0 (hdr + sizeof_mach_header_64) img = img\<lparr>mi_entry_point := image_entry m hdr (mi_base_address img)\<rparr>"
proof -
  have hd: "in_image hdr sz hdr 32" using assms(3) by (simp add: in_image_def word_le_nat_alt)
  have nc: "mh_ncmds m' hdr = mh_ncmds m hdr" using agree_load32 [OF assms(1) hd, of 16] by (simp add: mh_ncmds_def)
  have cl: "command_list m' (hdr + sizeof_mach_header_64) (unat (mh_ncmds m hdr)) = commands m hdr"
    using agree_list [OF assms(1)] assms(2) by (simp add: commands_def)
  have off: "ep_entryoff m' lc = ep_entryoff m lc" if "find (\<lambda>lc. lc_cmd m lc = LC_MAIN) (commands m hdr) = Some lc" for lc
  proof -
    have lc: "lc \<in> set (commands m hdr)" "lc_cmd m lc = LC_MAIN" using that by (auto simp: find_Some_iff)
    then have "in_image hdr sz lc 24" using assms(2) by (auto simp: command_len_def LC_MAIN_def LC_SEGMENT_64_def)
    from agree_load64 [OF assms(1) this, of 8] show ?thesis by (simp add: ep_entryoff_def)
  qed
  show ?thesis
    using find_main_list [of 0 "unat (mh_ncmds m' hdr)" m' hdr "hdr + sizeof_mach_header_64" img] off
    by (auto simp: nc cl find_agree [OF assms(1,2)] image_entry_def split: option.split)
qed

lemma rebase_base:
  "mi_base_address (fold (rebase m) scs img) =
     (if mi_base_address img \<noteq> 0 then mi_base_address img else image_base m scs)"
  by (induction scs arbitrary: img) (auto simp: rebase_def image_base_def)

lemma macho_load_spec:
  fixes s :: "'a vm_state_scheme"
  assumes "vm_inv P F root es vmap s" "high_half s" "vmap \<noteq> 0" "hdr \<noteq> 0" "32 \<le> sz"
    and "macho_validate hdr s = KERN_SUCCESS" "image_ok s vmap es m hdr sz (commands m hdr)" "agree hdr sz m (mem s)"
  obtains (nomem) im t where "macho_load vmap hdr sz False out s = Some (KERN_NO_SPACE, im, t)"
      "card (free_set s) \<le> need m (segments m hdr)"
  | (ok) im u c where "macho_load vmap hdr sz False out s = Some (KERN_SUCCESS, im, u\<lparr>console := c\<rparr>)"
      "vm_inv P F root es vmap (u\<lparr>console := c\<rparr>)" "vm_frame s u"
      "mi_entry_point im = image_entry m hdr (image_base m (segments m hdr))"
      "\<And>b. page_of b \<notin> all_direct s \<Longrightarrow>
        mem (u\<lparr>console := c\<rparr>) b = fold (place m hdr) (segments m hdr) (mem s) b"
      "mapped_as m (segments m hdr) root s (u\<lparr>console := c\<rparr>)"
proof -
  let ?out = "out\<lparr>mi_header := hdr, mi_size := sz, mi_base_address := 0\<rparr>"
  let ?scs = "segments m hdr"
  have start: "macho_load vmap hdr sz False out s = do {
      (kr, im, u) \<leftarrow> macho_parse_segments vmap hdr hdr ?out s;
      if kr \<noteq> KERN_SUCCESS then Some (kr, im, u)
      else case macho_find_entry hdr im u of (kr, im) \<Rightarrow>
        if kr \<noteq> KERN_SUCCESS then Some (kr, im, u)
        else do {
          u \<leftarrow> kprintf (''MACHO: loaded entry=0x%lx size=%lu'' @ nl) [VInt (mi_entry_point im), VInt sz] u;
          Some (KERN_SUCCESS, im, u)
        }}"
    using assms(3-6) leD [OF assms(5)] unfolding macho_load_def Let_def sizeof_mach_header_64_def VM_MAP_NULL_def
    by (simp only: if_False if_True simp_thms)
  from parse_commands_spec [OF assms(1,2,8,5) _ assms(7) [unfolded commands_def], of 0 ?out]
  have "(\<exists>img' u. macho_parse_segments vmap hdr hdr ?out s = Some (KERN_NO_SPACE, img', u) \<and> card (free_set s) \<le> need m ?scs) \<or>
    (\<exists>u. macho_parse_segments vmap hdr hdr ?out s = Some (KERN_SUCCESS, fold (rebase m) ?scs ?out, u) \<and>
      vm_inv P F root es vmap u \<and> vm_frame s u \<and> agree hdr sz m (mem u) \<and>
      (\<forall>b. page_of b \<notin> all_direct s \<longrightarrow> mem u b = fold (place m hdr) ?scs (mem s) b) \<and> mapped_as m ?scs root s u)"
    unfolding macho_parse_segments_def segments_def commands_def by auto
  then show thesis
  proof (elim disjE exE conjE)
    fix img' u assume "macho_parse_segments vmap hdr hdr ?out s = Some (KERN_NO_SPACE, img', u)" "card (free_set s) \<le> need m ?scs"
    then have "macho_load vmap hdr sz False out s = Some (KERN_NO_SPACE, img', u)" unfolding start by simp
    then show thesis by (rule nomem) fact
  next
    fix u
    let ?im = "fold (rebase m) ?scs ?out"
    let ?im' = "?im\<lparr>mi_entry_point := image_entry m hdr (mi_base_address ?im)\<rparr>"
    assume u: "macho_parse_segments vmap hdr hdr ?out s = Some (KERN_SUCCESS, ?im, u)"
      "vm_inv P F root es vmap u" "vm_frame s u" "agree hdr sz m (mem u)"
      "\<forall>b. page_of b \<notin> all_direct s \<longrightarrow> mem u b = fold (place m hdr) ?scs (mem s) b" "mapped_as m ?scs root s u"
    have "\<forall>lc \<in> set (commands m hdr). in_image hdr sz lc (command_len m lc)" using assms(7) by (simp add: image_ok_def)
    then have "macho_find_entry hdr ?im u = (KERN_SUCCESS, ?im')"
      using image_entry_agree [OF u(4) _ assms(5), of ?im] by (simp add: macho_find_entry_def)
    moreover obtain o1 where "kprintf (''MACHO: loaded entry=0x%lx size=%lu'' @ nl) [VInt (mi_entry_point ?im'), VInt sz] u =
        Some (u\<lparr>console := console u @ o1\<rparr>)" using loaded_message by blast
    ultimately have "macho_load vmap hdr sz False out s = Some (KERN_SUCCESS, ?im', u\<lparr>console := console u @ o1\<rparr>)"
      unfolding start u(1) by (simp del: append_Cons nl_def)
    moreover have "mi_entry_point ?im' = image_entry m hdr (image_base m ?scs)" by (simp add: rebase_base)
    moreover have "mapped_as m ?scs root s (u\<lparr>console := console u @ o1\<rparr>)"
      using u(6) unfolding mapped_as_def console_frame(2) .
    ultimately show thesis using u(2,3,5) by (intro ok [where im = ?im' and u = u and c = "console u @ o1"]) (simp_all add: console_frame)
  qed
qed

section \<open>Properties\<close>


text \<open>An image of 128 bytes: one segment that holds all of it, and an entry point at its offset 0x20.\<close>

definition demo_image :: memory where
  "demo_image = (let m = (\<lambda>_. 0); m = store32 m 0x10000 MH_MAGIC_64; m = store32 m 0x10004 CPU_TYPE_X86_64;
     m = store32 m 0x1000c MH_EXECUTE; m = store32 m 0x10010 2; m = store32 m 0x10020 LC_SEGMENT_64;
     m = store32 m 0x10024 72; m = store64 m 0x10038 0x400000; m = store64 m 0x10040 0x2000;
     m = store64 m 0x10050 0x80; m = store32 m 0x1005c 5; m = store32 m 0x10068 LC_MAIN;
     m = store32 m 0x1006c 24 in store64 m 0x10070 0x20)"

lemma demo_image:
  "mh_magic demo_image 0x10000 = MH_MAGIC_64" "mh_filetype demo_image 0x10000 = MH_EXECUTE"
  "mh_cputype demo_image 0x10000 = CPU_TYPE_X86_64" "mh_ncmds demo_image 0x10000 = 2"
  "next_command demo_image 0x10020 = 0x10068" "lc_cmd demo_image 0x10020 = LC_SEGMENT_64"
  "lc_cmd demo_image 0x10068 = LC_MAIN" "seg_vmaddr demo_image 0x10020 = 0x400000"
  "seg_vmsize demo_image 0x10020 = 0x2000" "seg_fileoff demo_image 0x10020 = 0"
  "seg_filesize demo_image 0x10020 = 0x80" "ep_entryoff demo_image 0x10068 = 0x20" "demo_image 0x10000 = 0xcf"
  by code_simp+

lemma demo_commands: "commands demo_image 0x10000 = [0x10020, 0x10068]" "segments demo_image 0x10000 = [0x10020]"
proof -
  have "unat (mh_ncmds demo_image 0x10000) = Suc (Suc 0)" by (simp add: demo_image)
  moreover have "command_list demo_image 0x10020 (Suc (Suc 0)) = [0x10020, 0x10068]" by (simp add: demo_image)
  ultimately show c: "commands demo_image 0x10000 = [0x10020, 0x10068]"
    unfolding commands_def by (simp only:) (simp add: sizeof_mach_header_64_def)
  show "segments demo_image 0x10000 = [0x10020]"
    by (simp add: segments_def c is_segment_def demo_image LC_MAIN_def LC_SEGMENT_64_def)
qed

text \<open>The image at user addresses of the state with an empty map.\<close>

definition demo_vm :: vm_state where
  "demo_vm = (snd one_map)\<lparr>mem := \<lambda>b. if page_of b \<in> all_direct (snd one_map) then mem (snd one_map) b else demo_image b\<rparr>"

lemma one_map_hhdm: "hhdm_offset (snd one_map) = 0xffff800000000000"
proof -
  have b: "vm_map_zone blank_vm = Some 1" "1 < zone_count blank_vm" "hhdm_offset blank_vm = 0xffff800000000000"
    by (simp_all add: blank_vm_def)
  show ?thesis
  proof (cases rule: space_inv_zalloc [OF blank_vm_space(1) b(2)])
    case 1
    then show ?thesis by (simp add: one_map_def vm_map_create_def b VM_MAP_NULL_def)
  next
    case (2 x t P' F')
    then have "hhdm_offset t = 0xffff800000000000" using b(3) by auto
    then show ?thesis using 2(1,2)
      by (simp add: one_map_def vm_map_create_def b VM_MAP_NULL_def map_list_init_def upd_map_def upd_entry_def)
  qed
qed

lemma vm_inv_map_nonzero: "vm_inv P F root es vmap s \<Longrightarrow> vmap \<noteq> 0"
  using zone_slot_nonzero(1) [of P F s _ vmap]
  by (auto simp: vm_inv_def entries_inv_def zone_live_def live_def space_inv_def)

lemma demo_vm_ok:
  obtains P F where "vm_inv P F 0x1000 [] (fst one_map) demo_vm" "card (free_set demo_vm) \<ge> 47" "high_half demo_vm"
    "min_offset (vm_maps demo_vm (fst one_map)) = 0x1000" "max_offset (vm_maps demo_vm (fst one_map)) = 0x7ffffffff000"
    "fst one_map \<noteq> 0" "\<And>b. unat b < 2 ^ 47 \<Longrightarrow> page_of b \<notin> all_direct demo_vm \<and> mem demo_vm b = demo_image b"
proof (rule one_map_ok)
  fix P F
  let ?s = "snd one_map"
  assume o: "vm_inv P F 0x1000 [] (fst one_map) ?s" "card (free_set ?s) \<ge> 47" "min_offset (vm_maps ?s (fst one_map)) = 0x1000"
    "max_offset (vm_maps ?s (fst one_map)) = 0x7ffffffff000"
  have inv: "vm_inv P F 0x1000 [] (fst one_map) demo_vm" unfolding demo_vm_def by (rule vm_inv_write(1) [OF o(1)]) simp
  have hh: "hhdm_offset ?s = 0xffff800000000000" by (rule one_map_hhdm)
  then have h: "high_half demo_vm" "hhdm_ok demo_vm" by (simp_all add: high_half_def demo_vm_def hhdm_ok_def aligned_def)
  have ad: "all_direct demo_vm = all_direct ?s" by (rule all_direct_frame) (simp add: demo_vm_def)
  have "page_of b \<notin> all_direct demo_vm \<and> mem demo_vm b = demo_image b" if "unat b < 2 ^ 47" for b
    using user_off_direct [OF h(2,1) that] by (simp add: ad) (simp add: demo_vm_def)
  moreover have "fst one_map \<noteq> 0" using inv by (rule vm_inv_map_nonzero)
  ultimately show thesis
    using inv o h by (intro that [of P F]) (simp_all add: demo_vm_def free_set_def bitmap_test_def)
qed

lemma demo_target: "target_ok s vmap [] demo_image 0x10000 0x80 0x10020"
  if "min_offset (vm_maps s vmap) \<le> 0x400000" "0x402000 \<le> unat (max_offset (vm_maps s vmap))"
proof -
  have "\<not> b - 0x10000 < 0x80" if "b - 0x400000 < 0x2000" for b :: u64
  proof -
    have "unat b = unat (b - 0x400000) + 0x400000"
      using that unat_add_no_wrap [of "b - 0x400000" "0x400000"] by (simp add: word_less_nat_alt)
    moreover have "unat b = unat (b - 0x10000) + 0x10000" if "b - 0x10000 < 0x80"
      using that unat_add_no_wrap [of "b - 0x10000" "0x10000"] by (simp add: word_less_nat_alt)
    ultimately show ?thesis by (auto simp: word_less_nat_alt)
  qed
  then show ?thesis using that by (simp add: target_ok_def demo_image range_ok_iff word_le_nat_alt)
qed


end
