(* ===== verification/Exec_Load.thy ===== *)
theory Exec_Load
  imports Macho_Load
begin

text \<open>
  \<^verbatim>\<open>kern/exec.c\<close> as a whole: a task without a map gets a new address space (\<open>pmap_create\<close>, \<open>vm_map_create\<close>) and
  the image is loaded into it.
\<close>

section \<open>A new address space\<close>

lemma pmap_create_frame:
  assumes "pmap_create s = (pm, t)" "pmm_inv s" "hhdm_ok s" "kernel_root s \<in> used_pages s"
  obtains m b c p where "t = s\<lparr>mem := m, bitmap := b, free_count := c, pmaps := p\<rparr>"
proof (cases rule: pmap_alloc_table_cases [OF assms(2,3)])
  case 1
  then have "t = s\<lparr>mem := mem s, bitmap := bitmap s, free_count := free_count s, pmaps := pmaps s\<rparr>"
    using assms(1) by (simp add: pmap_create_def)
  then show thesis by (rule that)
next
  case (2 pa b c u)
  have hu: "hhdm_ok u" using assms(3) by (simp add: 2(7) hhdm_ok_def)
  have k2: "is_page (kernel_root s)" "pa \<noteq> kernel_root s" using assms(4) 2(3) by (auto intro: used_is_page)
  have "kernel_root s = pml4_phys (pmaps u (pmap_kernel u))" by (simp add: kernel_root_def 2(7))
  from copy_kernel_entries [OF hu 2(4) k2 this, of 512]
  obtain m where m: "fold (copy_kernel_entry pa) [256..<512] u = u\<lparr>mem := m\<rparr>" by auto
  obtain q w where al: "pmm_alloc_page (u\<lparr>mem := m\<rparr>) = (q, w)" by (cases "pmm_alloc_page (u\<lparr>mem := m\<rparr>)")
  obtain b' c' where w: "w = u\<lparr>mem := m, bitmap := b', free_count := c'\<rparr>" by (rule pmm_alloc_page_frame [OF al]) simp
  have "t = s\<lparr>mem := mem t, bitmap := bitmap t, free_count := free_count t, pmaps := pmaps t\<rparr>"
  proof (cases "q = 0")
    case True
    have "t = pmm_free_page pa w" using assms(1) 2(1,2) m al True by (simp add: pmap_create_def del: upt_rec_numeral)
    moreover obtain b2 c2 where "pmm_free_page pa w = w\<lparr>bitmap := b2, free_count := c2\<rparr>" by (rule pmm_free_page_frame)
    ultimately show ?thesis by (simp add: w 2(7))
  next
    case False
    then have "t = w\<lparr>pmaps := (pmaps w)(q := \<lparr>pml4_phys = pa, pm_ref_count = 1\<rparr>)\<rparr>"
      using assms(1) 2(1,2) m al by (auto simp: pmap_create_def simp del: upt_rec_numeral)
    then show ?thesis by (simp add: w 2(7))
  qed
  then show thesis by (rule that)
qed

text \<open>The new space is empty and shares nothing with the zones.\<close>

lemma pmap_create_space:
  fixes s :: "'a vm_state_scheme"
  assumes "zones_rep P F s" "kernel_root s \<in> used_pages s"
  obtains (fail) t where "pmap_create s = (0, t)" "card (free_set s) < 2"
  | (ok) pm root m b c p t where "pmap_create s = (pm, t)" "pm \<noteq> 0" "space_inv P F root pm t" "root \<notin> used_pages s"
      "t = s\<lparr>mem := m, bitmap := b, free_count := c, pmaps := p\<rparr>"
      "\<And>va. PML4_IDX va \<in> user_half \<Longrightarrow> translate t root va = None"
      "card (free_set s) \<le> card (free_set t) + 2" "\<And>x. page_of x \<notin> all_direct s \<Longrightarrow> mem t x = mem s x"
      "pm_ref_count (pmaps t pm) = 1" "is_page pm"
proof -
  have inv: "pmm_inv s" "hhdm_ok s" using assms(1) by (simp_all add: zones_rep_def)
  show thesis
  proof (cases rule: pmap_create_spec [OF inv assms(2)])
    case (1 t)
    then show thesis by (intro fail)
  next
    case (2 pm pa t)
    obtain m b c p where t: "t = s\<lparr>mem := m, bitmap := b, free_count := c, pmaps := p\<rparr>"
      by (rule pmap_create_frame [OF 2(1) inv assms(2)])
    have h: "hhdm_ok t" using inv(2) by (simp add: t hhdm_ok_def)
    have ut: "pa \<in> used_pages t" by (simp add: 2(9))
    note e = empty_user_half [OF h 2(7,3) ut 2(12)]
    have P: "PHYS_TO_VIRT t = PHYS_TO_VIRT s" by (rule ext) (simp add: PHYS_TO_VIRT_def t)
    have sub: "direct_pages s \<subseteq> direct_pages t" by (auto simp: direct_pages_def P 2(9))
    have inj: "x = y" if "PHYS_TO_VIRT s x = PHYS_TO_VIRT s y" for x y using that by (simp add: PHYS_TO_VIRT_def)
    have npa: "PHYS_TO_VIRT s pa \<notin> direct_pages s" using 2(5) inj by (auto simp: direct_pages_def)
    have rep: "zones_rep P F t"
    proof (rule zones_rep_fresh_page [OF assms(1)])
      show "mem t x = mem s x" if "page_of x \<in> direct_pages s" for x using 2(14) [of x] that npa by metis
    qed (use t 2(10) sub in auto)
    have zp: "zone_pages P t \<subseteq> direct_pages s"
      using assms(1) by (auto simp: zone_pages_def zones_rep_def t)
    have zpa: "PHYS_TO_VIRT t x \<in> zone_pages P t \<Longrightarrow> x \<in> used_pages s - {0}" for x
      using zp inj by (auto simp: direct_pages_def P)
    have fr: "frames pa t = {}" using e(2) by (auto simp: frames_def)
    have "owned P pa t \<subseteq> used_pages t - {0}" using zpa 2(3,9) by (auto simp: owned_def e(3) fr)
    moreover have "pmap_inv user_half pa pm t" using e(1) 2(10,11) by (simp add: pmap_inv_def)
    moreover have "tables t user_half pa \<inter> {pa. PHYS_TO_VIRT t pa \<in> zone_pages P t} = {}"
      using zpa 2(5) by (auto simp: e(3))
    ultimately have sp: "space_inv P F pa pm t" using rep e(2) by (simp add: space_inv_def fr)
    have "card (free_set s) \<le> card (free_set t) + 2"
    proof -
      have "free_set s \<subseteq> insert (drop_bit 12 pa) (insert (drop_bit 12 pm) (free_set t))"
      proof
        fix q assume q: "q \<in> free_set s"
        have l: "q < 1048576" "\<not> bitmap_test s q" using q by (simp_all add: free_set_def)
        then have "push_bit 12 q \<notin> used_pages s" by (simp add: page_in_used_pages)
        moreover have "drop_bit 12 (push_bit 12 q) = q" by (rule page_addr_inverse [OF l(1)])
        ultimately have "push_bit 12 q \<notin> used_pages t" if "q \<noteq> drop_bit 12 pa" "q \<noteq> drop_bit 12 pm"
          using that by (auto simp: 2(9))
        then show "q \<in> insert (drop_bit 12 pa) (insert (drop_bit 12 pm) (free_set t))"
          using l(1) by (auto simp: page_in_used_pages free_set_def)
      qed
      then have "card (free_set s) \<le> card (insert (drop_bit 12 pa) (insert (drop_bit 12 pm) (free_set t)))"
        by (intro card_mono) simp_all
      also have "\<dots> \<le> card (free_set t) + 2" by (simp add: card_insert_if)
      finally show ?thesis .
    qed
    moreover have "mem t x = mem s x" if "page_of x \<notin> all_direct s" for x
    proof (rule 2(14))
      show "page_of x \<noteq> PHYS_TO_VIRT s pa" using that used_all_direct [OF ut, of s] by auto
    qed
    moreover have "pm_ref_count (pmaps t pm) = 1" by (simp add: 2(11))
    ultimately show thesis using 2(1,2,5,8) sp t e(2) by (intro ok)
  qed
qed

lemma vm_map_create_frame:
  fixes s :: "'a vm_state_scheme"
  assumes "zones_rep P F s" "zones_ready s" "vm_map_create pm mn mx s = Some (vmap, t)"
  obtains m b c zs M E where "vmap \<noteq> 0 \<Longrightarrow> map_ref_count (vm_maps t vmap) = 1"
    "t = s\<lparr>mem := m, bitmap := b, free_count := c, zone_store := zs, vm_maps := M, vm_entries := E\<rparr>"
    "\<And>x. page_of x \<notin> all_direct s \<Longrightarrow> mem t x = mem s x"
proof -
  obtain j where j: "vm_map_zone s = Some j" "j < zone_count s" using assms(2) unfolding zones_ready_def by blast
  have refl: "s = s\<lparr>mem := mem s, bitmap := bitmap s, free_count := free_count s, zone_store := zone_store s, vm_maps := vm_maps s,
    vm_entries := vm_entries s\<rparr>" by simp
  show thesis
  proof (cases rule: zalloc_spec [OF assms(1) j(2)])
    case 1
    then have "t = s" "vmap = 0" using assms(3) j(1) by (simp_all add: vm_map_create_def VM_MAP_NULL_def)
    then show thesis using that refl by blast
  next
    case (2 x u P' F')
    obtain m b c zs where u: "u = s\<lparr>mem := m, bitmap := b, free_count := c, zone_store := zs\<rparr>" using 2(14) by blast
    have t: "t = u\<lparr>vm_maps := vm_maps t, vm_entries := vm_entries t\<rparr>"
      using assms(3) j(1) 2(1,3) by (auto simp: vm_map_create_def VM_MAP_NULL_def map_list_init_def upd_map_def upd_entry_def)
    have "direct_pages u \<subseteq> all_direct s"
      using used_all_direct [of _ u s] by (auto simp: direct_pages_def PHYS_TO_VIRT_def u)
    then have "mem t x = mem s x" if "page_of x \<notin> all_direct s" for x
      using 2(11) [of x] that by (subst t) auto
    moreover have "map_ref_count (vm_maps t vmap) = 1"
      using assms(3) j(1) 2(1,3) by (auto simp: vm_map_create_def VM_MAP_NULL_def map_list_init_def upd_map_def upd_entry_def)
    ultimately show thesis using t u that by metis
  qed
qed

section \<open>Loading into a task\<close>

text \<open>What the image must be for a map of the addresses \<open>exec_load\<close> gives a task.\<close>

definition user_image :: "'a vm_state_scheme \<Rightarrow> addr \<Rightarrow> u64 \<Rightarrow> bool" where
  "user_image s hdr sz \<longleftrightarrow>
     image_ok (s\<lparr>vm_maps := \<lambda>_. zero_map\<lparr>min_offset := USER_MAP_MIN, max_offset := USER_MAP_MAX\<rparr>\<rparr>) 0 []
       (mem s) hdr sz (commands (mem s) hdr)"

text \<open>The user addresses that are mapped are those of the segments.\<close>

definition mapped_only :: "memory \<Rightarrow> addr list \<Rightarrow> u64 \<Rightarrow> 'a vm_state_scheme \<Rightarrow> bool" where
  "mapped_only m scs root t \<longleftrightarrow> (\<forall>va. PML4_IDX va \<in> user_half \<longrightarrow>
     (case last_cover m va scs of
        None \<Rightarrow> translate t root va = None
      | Some sc \<Rightarrow> \<exists>pa. translate t root va = Some (make_pte pa (seg_flags m sc))))"

lemma user_image_map:
  assumes "user_image s hdr sz" "hhdm_offset t = hhdm_offset s" "min_offset (vm_maps t vmap) = USER_MAP_MIN"
    "max_offset (vm_maps t vmap) = USER_MAP_MAX"
  shows "image_ok t vmap [] (mem s) hdr sz (commands (mem s) hdr)"
  using assms all_direct_frame [of t s]
    all_direct_frame [of "s\<lparr>vm_maps := \<lambda>_. zero_map\<lparr>min_offset := USER_MAP_MIN, max_offset := USER_MAP_MAX\<rparr>\<rparr>" s]
  by (simp add: user_image_def image_ok_def target_ok_def range_ok_def)

lemma macho_validate_agree:
  assumes "agree hdr sz m (mem t)" "32 \<le> sz" "m = mem s"
  shows "macho_validate hdr t = macho_validate hdr s"
proof -
  have hd: "in_image hdr sz hdr 32" using assms(2) by (simp add: in_image_def word_le_nat_alt)
  note l = agree_load32 [OF assms(1) hd]
  show ?thesis
    using l [of 0] l [of 4] l [of 12] assms(3)
    by (simp add: macho_validate_def mh_magic_def mh_filetype_def mh_cputype_def)
qed

lemma exec_messages:
  "\<exists>out. kprintf (''EXEC: macho_load failed: %d'' @ nl) [VInt a] s = Some (s\<lparr>console := console s @ out\<rparr>)"
  "\<exists>out. kprintf (''EXEC: loaded task=%p entry=0x%lx'' @ nl) [VInt a, VInt b] s = Some (s\<lparr>console := console s @ out\<rparr>)"
  by (rule kprintf_total [of "''EXEC: macho_load failed: %d'' @ nl" "[VInt a]" s];
      auto simp: conv_int_def conv_long_def long_directive_def)
     (rule kprintf_total [of "''EXEC: loaded task=%p entry=0x%lx'' @ nl" "[VInt a, VInt b]" s];
      auto simp: conv_int_def conv_long_def long_directive_def)

text \<open>The map of a task, made when it has none.\<close>

lemma new_task_map:
  fixes s :: "'a sched_state_scheme"
  assumes "zones_rep P F s" "zones_ready s" "kernel_root s \<in> used_pages s"
  obtains (no_pmap) t where "pmap_create s = (0, t)" "card (free_set s) < 2"
  | (no_map) pm t where "pmap_create s = (pm, t)" "pm \<noteq> 0" "vm_map_create pm USER_MAP_MIN USER_MAP_MAX t = Some (0, t)"
      "card (free_set s) \<le> 2 \<or> max_size (zone_store s (the (vm_map_zone s))) \<noteq> 0"
  | (map) pm t vmap u P' F' root where "pmap_create s = (pm, t)" "pm \<noteq> 0"
      "vm_map_create pm USER_MAP_MIN USER_MAP_MAX t = Some (vmap, u)" "vmap \<noteq> 0" "vm_inv P' F' root [] vmap u"
      "root \<notin> used_pages s" "min_offset (vm_maps u vmap) = USER_MAP_MIN" "max_offset (vm_maps u vmap) = USER_MAP_MAX"
      "\<And>va. PML4_IDX va \<in> user_half \<Longrightarrow> translate u root va = None" "card (free_set s) \<le> card (free_set u) + 3"
      "\<And>x. page_of x \<notin> all_direct s \<Longrightarrow> mem u x = mem s x" "hhdm_offset u = hhdm_offset s" "tasks u = tasks s"
      "vm_pmap (vm_maps u vmap) = pm" "map_ref_count (vm_maps u vmap) = 1" "pm_ref_count (pmaps u pm) = 1" "is_page pm"
      "kernel_map u = kernel_map s" "pmap_kernel u = pmap_kernel s"
proof (cases rule: pmap_create_space [OF assms(1,3)])
  case (1 t)
  then show thesis by (rule no_pmap)
next
  case (2 pm root m b c p t)
  have zr: "zones_ready t" using assms(2) by (simp add: 2(5) zones_ready_def)
  have rep: "zones_rep P F t" using 2(3) by (simp add: space_inv_def)
  have mx: "unat USER_MAP_MAX \<le> 2 ^ 47" by (simp add: USER_MAP_MAX_def)
  have ad: "all_direct t = all_direct s" by (rule all_direct_frame) (simp add: 2(5))
  show thesis
  proof (cases rule: vm_map_create_spec [OF 2(3) zr mx, of USER_MAP_MIN])
    case 1
    have "card (free_set s) \<le> 2 \<or> max_size (zone_store s (the (vm_map_zone s))) \<noteq> 0"
      using 1(2) 2(7) by (auto simp: 2(5))
    then show thesis using 2(1,2) 1(1) by (intro no_map)
  next
    case (2 vmap u P' F')
    note p = \<open>pmap_create s = (pm, t)\<close> \<open>pm \<noteq> 0\<close> \<open>root \<notin> used_pages s\<close> \<open>card (free_set s) \<le> card (free_set t) + 2\<close>
      \<open>t = s\<lparr>mem := m, bitmap := b, free_count := c, pmaps := p\<rparr>\<close>
    obtain m' b' c' zs M E where
      u: "u = t\<lparr>mem := m', bitmap := b', free_count := c', zone_store := zs, vm_maps := M, vm_entries := E\<rparr>" and
      mu: "\<And>x. page_of x \<notin> all_direct t \<Longrightarrow> mem u x = mem t x" and rc: "map_ref_count (vm_maps u vmap) = 1"
      by (rule vm_map_create_frame [OF rep zr 2(1)]) (use 2(2) in blast)
    show thesis
    proof (rule map [OF p(1,2) 2(1,2,3) p(3) 2(4,5)])
      show "translate u root va = None" if "PML4_IDX va \<in> user_half" for va
        using 2(7) [OF that] \<open>\<And>va. PML4_IDX va \<in> user_half \<Longrightarrow> translate t root va = None\<close> [OF that] by simp
      show "card (free_set s) \<le> card (free_set u) + 3" using 2(8) p(4) by (simp add: takes_def)
      show "mem u x = mem s x" if "page_of x \<notin> all_direct s" for x
        using mu [of x] that \<open>\<And>x. page_of x \<notin> all_direct s \<Longrightarrow> mem t x = mem s x\<close> [OF that] by (simp add: ad)
      show "vm_pmap (vm_maps u vmap) = pm" "map_ref_count (vm_maps u vmap) = 1" "is_page pm" by (rule 2(6) rc \<open>is_page pm\<close>)+
      show "pm_ref_count (pmaps u pm) = 1" using \<open>pm_ref_count (pmaps t pm) = 1\<close> by (simp add: u)
    qed (simp_all add: u p(5))
  qed
qed

text \<open>The two ways \<open>exec_load\<close> ends; the new map and its page tables have one reference each.\<close>

lemma exec_load_spec:
  fixes s :: "'a sched_state_scheme"
  assumes "zones_rep P F s" "zones_ready s" "kernel_root s \<in> used_pages s" "high_half s"
    and "task \<noteq> 0" "task_map (tasks s task) = 0" "hdr \<noteq> 0" "32 \<le> sz" "macho_validate hdr s = KERN_SUCCESS"
    and "user_image s hdr sz"
  obtains (full) t where "exec_load task hdr sz False s = Some (KERN_NO_SPACE, 0, t)"
      "card (free_set s) \<le> need (mem s) (segments (mem s) hdr) + 3 \<or> max_size (zone_store s (the (vm_map_zone s))) \<noteq> 0"
  | (ok) t vmap pm P' F' root where "exec_load task hdr sz False s =
        Some (KERN_SUCCESS, image_entry (mem s) hdr (image_base (mem s) (segments (mem s) hdr)), t)"
      "task_map (tasks t task) = vmap" "vm_inv P' F' root [] vmap t" "root \<notin> used_pages s"
      "mapped_only (mem s) (segments (mem s) hdr) root t"
      "\<And>b. page_of b \<notin> all_direct s \<Longrightarrow> mem t b = fold (place (mem s) hdr) (segments (mem s) hdr) (mem s) b"
      "vm_pmap (vm_maps t vmap) = pm" "map_ref_count (vm_maps t vmap) = 1" "pm_ref_count (pmaps t pm) = 1" "is_page pm"
      "kernel_map t = kernel_map s" "pmap_kernel t = pmap_kernel s" "hhdm_offset t = hhdm_offset s"
proof (cases rule: new_task_map [OF assms(1-3)])
  case (1 t)
  then have "exec_load task hdr sz False s = Some (KERN_NO_SPACE, 0, t)" using assms(5-7) by (simp add: exec_load_def)
  then show thesis using 1(2) by (intro full) simp_all
next
  case (2 pm t)
  obtain u where "exec_load task hdr sz False s = Some (KERN_NO_SPACE, 0, u)"
    using 2 assms(5-7) by (simp add: exec_load_def)
  then show thesis using 2(4) by (intro full [of u]) auto
next
  case (3 pm t vmap u P' F' root)
  define v where "v = u\<lparr>tasks := (tasks u)(task := (tasks u task)\<lparr>task_map := vmap\<rparr>)\<rparr>"
  have same: "vm_inv P F root es vmap v = vm_inv P F root es vmap u" "translate v root va = translate u root va"
    for P F root es vmap va
    by (rule vm_same; simp add: v_def) (rule tables_same; simp add: v_def)
  have free: "free_set v = free_set u" by (simp add: v_def free_set_def bitmap_test_def)
  have hh: "hhdm_offset v = hhdm_offset s" "vm_maps v = vm_maps u" "mem v = mem u" by (simp_all add: v_def 3(12))
  have ad: "all_direct v = all_direct s" by (rule all_direct_frame) (rule hh(1))
  have io: "image_ok v vmap [] (mem s) hdr sz (commands (mem s) hdr)"
    by (rule user_image_map [OF assms(10)]) (simp_all add: hh 3(7,8))
  have ag: "agree hdr sz (mem s) (mem v)" using io 3(11) by (simp add: agree_def image_ok_def ad hh)
  have inv: "vm_inv P' F' root [] vmap v" "high_half v" using 3(5) assms(4) by (simp_all add: same high_half_def hh)
  have vl: "macho_validate hdr v = KERN_SUCCESS" using macho_validate_agree [OF ag assms(8) refl] assms(9) by simp
  have run: "exec_load task hdr sz False s = do {
      (kr, im, w) \<leftarrow> macho_load vmap hdr sz False blank_image v;
      if kr \<noteq> KERN_SUCCESS then do {
        w \<leftarrow> kprintf (''EXEC: macho_load failed: %d'' @ nl) [VInt (ucast (kr_code kr))] w; Some (kr, 0, w) }
      else do {
        w \<leftarrow> kprintf (''EXEC: loaded task=%p entry=0x%lx'' @ nl) [VInt task, VInt (mi_entry_point im)] w;
        Some (KERN_SUCCESS, mi_entry_point im, w) } }"
    using assms(5-7) 3(1-4)
    by (simp add: exec_load_def v_def 3(13) del: append_Cons nl_def) (unfold Let_def, rule refl)
  show thesis
  proof (cases rule: macho_load_spec [OF inv 3(4) assms(7,8) vl io ag, of blank_image])
    case (1 im w)
    obtain o1 where "kprintf (''EXEC: macho_load failed: %d'' @ nl) [VInt (ucast (kr_code KERN_NO_SPACE))] w =
        Some (w\<lparr>console := console w @ o1\<rparr>)" using exec_messages(1) by blast
    then have "exec_load task hdr sz False s = Some (KERN_NO_SPACE, 0, w\<lparr>console := console w @ o1\<rparr>)"
      unfolding run 1(1) by (simp del: append_Cons nl_def)
    moreover have "card (free_set s) \<le> need (mem s) (segments (mem s) hdr) + 3" using 1(2) 3(10) by (simp add: free)
    ultimately show thesis by (intro full) simp_all
  next
    case (2 im w c)
    let ?w = "w\<lparr>console := c\<rparr>"
    obtain o1 where "kprintf (''EXEC: loaded task=%p entry=0x%lx'' @ nl) [VInt task, VInt (mi_entry_point im)] ?w =
        Some (?w\<lparr>console := console ?w @ o1\<rparr>)" using exec_messages(2) by blast
    then have r: "exec_load task hdr sz False s = Some (KERN_SUCCESS, mi_entry_point im, ?w\<lparr>console := console ?w @ o1\<rparr>)"
      unfolding run 2(1) by (simp del: append_Cons nl_def)
    let ?t = "?w\<lparr>console := console ?w @ o1\<rparr>"
    have "tasks w = tasks v" using 2(3) by (auto simp: vm_frame_def)
    then have tm: "task_map (tasks ?t task) = vmap" by (simp add: v_def)
    have vf: "vm_maps w = vm_maps v" "pmaps w = pmaps v" "kernel_map w = kernel_map v" "pmap_kernel w = pmap_kernel v"
      "hhdm_offset w = hhdm_offset v" using 2(3) by (auto simp: vm_frame_def)
    have "mapped_only (mem s) (segments (mem s) hdr) root ?t"
      unfolding mapped_only_def
    proof (intro allI impI)
      fix va assume va: "PML4_IDX va \<in> user_half"
      show "case last_cover (mem s) va (segments (mem s) hdr) of None \<Rightarrow> translate ?t root va = None
         | Some sc \<Rightarrow> \<exists>pa. translate ?t root va = Some (make_pte pa (seg_flags (mem s) sc))"
        using 2(6) [unfolded mapped_as_def, rule_format, OF va] unfolding console_frame(2) same(2) 3(9) [OF va] .
    qed
    moreover have "mem ?t b = fold (place (mem s) hdr) (segments (mem s) hdr) (mem s) b" if "page_of b \<notin> all_direct s" for b
      using 2(5) [of b] fold_place_cong [of "mem v" b "mem s"] 3(11) [OF that] that by (simp add: ad hh)
    moreover have "vm_inv P' F' root [] vmap ?t" using 2(2) unfolding console_frame(1) .
    ultimately show thesis
    proof (intro ok [where t = ?t and vmap = vmap and P' = P' and F' = F' and root = root and pm = pm])
      show "exec_load task hdr sz False s =
          Some (KERN_SUCCESS, image_entry (mem s) hdr (image_base (mem s) (segments (mem s) hdr)), ?t)"
        using r 2(4) by simp
    qed (use tm 3(6) in \<open>simp_all add: vf\<close>, simp_all add: v_def 3(12,14-19))
  qed
qed



text \<open>A task without a map, and the demonstration image in a machine with 48 free pages.\<close>

definition exec_demo :: sched_state where
  "exec_demo = (quiet [48, 80] undefined)\<lparr>mem := demo_image, vm_map_zone := Some 1, vm_map_entry_zone := Some 0,
     pmaps := \<lambda>_. \<lparr>pml4_phys = 0x1000, pm_ref_count = 1\<rparr>, pmap_kernel := 0xffffffff80000000, kernel_map := 0,
     tasks := \<lambda>_. kernel_task_init\<lparr>task_map := 0\<rparr>\<rparr>"

lemma exec_demo_ok:
  "zones_rep (\<lambda>_. {}) (\<lambda>_. []) exec_demo" "card (free_set exec_demo) = 48" "zones_ready exec_demo"
  "kernel_root exec_demo \<in> used_pages exec_demo" "high_half exec_demo" "hhdm_ok exec_demo"
  "max_size (zone_store exec_demo (the (vm_map_zone exec_demo))) = 0" "mem exec_demo = demo_image"
  "task_map (tasks exec_demo 0x20) = 0"
proof -
  let ?q = "quiet [48, 80] (undefined :: sched_state)"
  have e: "\<forall>e \<in> set [48, 80]. elem_ok e" by (simp add: elem_ok_def aligned_def)
  note q = quiet [OF e, where s = "undefined :: sched_state", simplified]
  have f: "free_set exec_demo = free_set ?q" by (simp add: exec_demo_def free_set_def bitmap_test_def)
  show "card (free_set exec_demo) = 48" unfolding f by (rule q(2))
  show rep: "zones_rep (\<lambda>_. {}) (\<lambda>_. []) exec_demo"
    using q(1) by (simp add: exec_demo_def zones_rep_def pmm_inv_def count_ok_def free_set_def bitmap_test_def hhdm_ok_def
        zone_ok_def Let_def direct_pages_def used_pages_def PHYS_TO_VIRT_def)
  then show "hhdm_ok exec_demo" by (simp add: zones_rep_def)
  show "zones_ready exec_demo"
    by (simp add: zones_ready_def) (simp add: exec_demo_def quiet_def blank_zone_def sizeof_vm_map_entry_def sizeof_vm_map_def)
  have b: "bitmap_test exec_demo = bitmap_test blank_vm" by (rule ext) (simp add: bitmap_test_def exec_demo_def quiet_def)
  have "kernel_root exec_demo = push_bit 12 1" by (simp add: kernel_root_def exec_demo_def)
  moreover have "bitmap_test exec_demo 1" unfolding b bitmap_test_blank by (simp add: word_le_nat_alt)
  ultimately show "kernel_root exec_demo \<in> used_pages exec_demo" using page_in_used_pages [of 1 exec_demo] by simp
  show "high_half exec_demo" by (simp add: high_half_def exec_demo_def quiet_def)
  show "max_size (zone_store exec_demo (the (vm_map_zone exec_demo))) = 0" "mem exec_demo = demo_image"
    "task_map (tasks exec_demo 0x20) = 0"
    by (simp_all add: exec_demo_def quiet_def blank_zone_def)
qed

lemma exec_demo_image: "user_image exec_demo 0x10000 0x80" "macho_validate 0x10000 exec_demo = KERN_SUCCESS"
proof -
  note d = exec_demo_ok
  let ?u = "exec_demo\<lparr>vm_maps := \<lambda>_. zero_map\<lparr>min_offset := USER_MAP_MIN, max_offset := USER_MAP_MAX\<rparr>\<rparr>"
  have off: "page_of b \<notin> all_direct exec_demo" if "unat b < 2 ^ 47" for b
    by (rule user_off_direct [OF d(6,5) that])
  have low: "unat b < 2 ^ 47" if "b - 0x10000 < 0x80" for b :: u64
    using that unat_add_no_wrap [of "b - 0x10000" "0x10000"] by (simp add: word_less_nat_alt)
  have ad: "all_direct ?u = all_direct exec_demo" by (rule all_direct_frame) simp
  have tg: "target_ok ?u 0 [] demo_image 0x10000 0x80 0x10020"
    by (rule demo_target) (simp_all add: USER_MAP_MIN_def USER_MAP_MAX_def word_le_nat_alt)
  show "user_image exec_demo 0x10000 0x80"
    unfolding user_image_def using off low tg
    by (simp add: image_ok_def ad d(8) demo_commands is_segment_def demo_image in_image_def command_len_def
        LC_MAIN_def LC_SEGMENT_64_def)
  show "macho_validate 0x10000 exec_demo = KERN_SUCCESS" by (simp add: macho_validate_def d(8) demo_image)
qed



end
