(* ===== verification/Spec2Isabelle.thy ===== *)
theory Spec2Isabelle
  imports Boot Vga Ipc_Sound Thread_Exit Exec_Load
begin

text \<open>
  DANA ("Dana is Almost Not Apple"), a Mach-style microkernel for x86-64: a model of the kernel's C and
  assembly code, and the theorems that make it correct or show where it is not.

  \<^bold>\<open>The program.\<close>  \<open>kmain\<close> (\<^verbatim>\<open>main.c\<close>) is entered by the Limine boot loader.  It brings up the console and the
  processor (\<^verbatim>\<open>hal/x86_64\<close>), the page allocator, the zones, the page tables and the maps (\<^verbatim>\<open>vm\<close>), and the scheduler
  with its idle thread (\<^verbatim>\<open>kern\<close>).  From then on the kernel runs from interrupts (page faults, the timer) and system
  calls (messages, threads, loading programs).  Everything is one address space and one processor.

  \<^bold>\<open>The state\<close> is a record that each theory extends with the variables of its files, in the order of the calls:
  \<open>machine\<close> (memory, console, ports), \<open>pmm\<close>, \<open>zones\<close>, \<open>pmap_state\<close>, \<open>vm_state\<close>, \<open>cpu_state\<close>, \<open>gdt_state\<close>,
  \<open>pit_state\<close>, \<open>sched_state\<close>, \<open>ipc_state\<close>, \<open>sys_state\<close>, \<open>idt_state\<close>, \<open>kern_state\<close>.  The console devices have states
  of their own, \<open>fb_state\<close> and \<open>vga_state\<close>.  Raw memory (pages, page tables, free lists, kernel stacks, message bodies,
  program images) is bytes at 64-bit addresses, with loads and stores of the code's width; structures are kept in typed
  heaps, maps from the address the allocator returned to a record.  Integers are words of the code's width.  An operation is
  a function of the state; \<open>None\<close> is a null dereference, an access out of an array, or a loop that never ends.

  \<^bold>\<open>Theories\<close>, in order of dependency.
  \<^item> \<open>Prelude\<close>, \<open>Kern_Types\<close> (\<^verbatim>\<open>kern_types.h\<close>, \<^verbatim>\<open>vm_types.h\<close>), \<open>Memory\<close>: words, pages, return codes, bytes.
  \<^item> \<open>Kstring\<close> (\<^verbatim>\<open>libkern/string.c\<close>), \<open>Kprintf\<close> (\<^verbatim>\<open>libkern/printf.c\<close>): printed numbers read back.
  \<^item> \<open>Pmm\<close> (\<^verbatim>\<open>vm/pmm.c\<close>): what is free after initialisation; no page is ever handed out twice.
  \<^item> \<open>Zalloc\<close> (\<^verbatim>\<open>vm/zalloc.c\<close>): free lists threaded through memory; locale \<open>object_pool\<close>, interpreted on the zones, from
    which runs of allocations and frees are safe.
  \<^item> \<open>Pmap\<close> (\<^verbatim>\<open>hal/x86_64/pmap.c\<close>): the four-level tables refine a finite map from pages to entries; the translation
    cache never disagrees with them.
  \<^item> \<open>Vm_Map\<close> (\<^verbatim>\<open>vm/vm_map.c\<close>): sorted circular lists of entries; what enter and remove do to entries, tables and
    pages on every branch.  \<open>Vm_Fault\<close> (\<^verbatim>\<open>vm/vm_fault.c\<close>): the outcome of a fault.  \<open>Vm_Destroy\<close>: what destroying a
    map gives back.
  \<^item> \<open>Cpu\<close> (\<^verbatim>\<open>cpu.c\<close>, \<^verbatim>\<open>msr.h\<close>), \<open>Gdt\<close> (\<^verbatim>\<open>gdt.c\<close>), \<open>Io\<close> (\<^verbatim>\<open>io.h\<close>), \<open>Serial\<close>, \<open>Fb\<close>, \<open>Vga\<close>, \<open>Console\<close> (\<^verbatim>\<open>serial.c\<close>,
    \<^verbatim>\<open>fb.c\<close>, \<^verbatim>\<open>vga.c\<close>, part of \<^verbatim>\<open>hal.c\<close>), \<open>Pit\<close> (\<^verbatim>\<open>pit.c\<close>, \<^verbatim>\<open>clock.c\<close>): the drivers.
  \<^item> \<open>Fifo\<close>: the locale of a queue; interpreted on the run queue in \<open>Sched\<close> and on the messages of a port in
    \<open>Ipc_Port\<close>.  \<open>Sched\<close>, \<open>Sched_Run\<close> (\<^verbatim>\<open>sched.c\<close>, \<^verbatim>\<open>task.c\<close>), \<open>Thread\<close> (\<^verbatim>\<open>thread.c\<close>, \<^verbatim>\<open>thread_switch.S\<close>): round robin,
    first run of a thread, switching away and back.
  \<^item> \<open>Ipc_Kmsg\<close>, \<open>Ipc_Port\<close>, \<open>Ipc_Space\<close>, \<open>Ipc_Msg\<close> (\<^verbatim>\<open>kern/ipc_*.c\<close>): a port refines a bounded queue, a space a finite
    map; what is sent is what is received.  \<open>Ipc_Block\<close>: messages and the scheduler together, as a step relation over
    yields, sends, receives and waits, with its invariant: no thread is lost as long as a port has one waiting thread
    at most, a blocked receiver runs again after a send, and a second receiver strands the first.  \<open>Ipc_Sound\<close>: ports and
    spaces stay well formed under every operation in any order.
  \<^item> \<open>Macho\<close> (\<^verbatim>\<open>macho.c\<close>, \<^verbatim>\<open>exec.c\<close>), and \<open>Macho_Load\<close>: loading an image refines placing its segments one after the
    other and mapping their pages.  \<open>Exec_Load\<close>: a program in a new address space, and what unloading it leaves behind.
    \<open>Syscall\<close> (\<^verbatim>\<open>syscall.c\<close>, \<^verbatim>\<open>syscall.S\<close>, \<^verbatim>\<open>syscall_setup.c\<close>), \<open>Thread_Exit\<close>: what
    destroying a thread gives back, and what the exit call does to its own thread.  \<open>Idt\<close> (\<^verbatim>\<open>idt.c\<close>).
  \<^item> \<open>Boot\<close> (\<^verbatim>\<open>main.c\<close>, the rest of \<^verbatim>\<open>hal.c\<close>, the used part of \<^verbatim>\<open>limine.h\<close>): the boot as a whole.

  \<^bold>\<open>Loops.\<close>  A loop that counts is \<open>fold\<close> or structural recursion; one that follows pointers or waits for a device is
  \<open>partial_function (option)\<close>, and that it returns is part of the theorem about it.  No fuel is used.  Endless loops
  are modelled by what happens until they give the processor up: one round of \<open>sched_idle\<close>, and \<open>cli; hlt\<close> for the loops that
  halt.  Control does not come back from a thread switch before the thread runs again, so the state after
  \<open>sched_run\<close> is the one in which the next thread goes on, and a receive that blocks ends there.

  \<^bold>\<open>What the theorems assume.\<close>  The memory map keeps the promises of the Limine protocol; the direct map is page
  aligned and does not wrap; memory the allocators manage is reached only through it; the transmitter becomes ready and
  ticks arrive where the code waits for them.  Each hypothesis is met in the witness of its theorem.

  \<^bold>\<open>Not modelled.\<close>  The Limine installer under \<^verbatim>\<open>limine/\<close> is a third-party host tool.  The multiboot headers are used by no
  source, and the parts of \<^verbatim>\<open>limine.h\<close>, \<^verbatim>\<open>ipc_msg.h\<close> and \<^verbatim>\<open>macho.h\<close> that the kernel does not use are left out.
  Interrupts are not interleaved with kernel code, except in \<open>clock_delay_ms\<close>, which waits for them; processor faults other
  than page faults are not raised by the model.  Instruction fetch, caches other than the translation cache, and more
  than one processor are outside it, as they are in the code.
\<close>

end
